(* ===== verification/Bathy_Prelude.thy ===== *)
theory Bathy_Prelude
  imports
    Main
    "HOL-Library.Word"
    "HOL-Library.Multiset"
    "HOL-Library.Char_ord"
    "HOL-Library.List_Lexorder"
    "HOL-Library.Option_ord"
    "HOL-Library.Product_Lexorder"
begin

text \<open>
  Shared vocabulary of the development: the fixed-width integers of the Rust sources and their
  saturating operations, results as sums, panics as a value, and the two ordered collections of
  the Rust standard library that the sources use (\<open>BTreeSet\<close> as a strictly sorted list,
  \<open>BTreeMap\<close> as an association list with strictly sorted keys). The locale
  \<open>ordered_map\<close> states what the clients of a \<open>BTreeMap\<close> rely on; it is
  interpreted here on the association lists.
\<close>

named_theorems bathy_simps \<open>unfolding rules of the model's operations\<close>
named_theorems u64_simps \<open>rules that read word operations as operations on nat\<close>

section \<open>Machine integers\<close>

type_synonym u8 = "8 word"
type_synonym u16 = "16 word"
type_synonym u32 = "32 word"
type_synonym u64 = "64 word"
type_synonym u128 = "128 word"

text \<open>\<open>saturating_add\<close>, \<open>saturating_sub\<close> and \<open>checked_add\<close> of the unsigned integers.\<close>

definition sat_add :: "'a::len word \<Rightarrow> 'a word \<Rightarrow> 'a word" where
  "sat_add a b = (if unat a + unat b < 2 ^ LENGTH('a) then a + b else - 1)"

definition sat_sub :: "'a::len word \<Rightarrow> 'a word \<Rightarrow> 'a word" where
  "sat_sub a b = (if b \<le> a then a - b else 0)"

definition checked_add :: "'a::len word \<Rightarrow> 'a word \<Rightarrow> 'a word option" where
  "checked_add a b = (if unat a + unat b < 2 ^ LENGTH('a) then Some (a + b) else None)"

lemma unat_max_word: "unat (- 1 :: 'a::len word) = 2 ^ LENGTH('a) - 1"
  by (simp add: unsigned_minus_1_eq_mask mask_eq_exp_minus_1)

lemma unat_bounded: "unat (a :: 'a::len word) < 2 ^ LENGTH('a)"
  by (rule unsigned_less)

lemma unat_sat_add [u64_simps]:
  "unat (sat_add a b) = min (unat a + unat b) (2 ^ LENGTH('a) - 1)"
  for a b :: "'a::len word"
proof (cases "unat a + unat b < 2 ^ LENGTH('a)")
  case True
  then show ?thesis by (simp add: sat_add_def unat_word_ariths)
next
  case False
  then show ?thesis by (simp add: sat_add_def unat_max_word)
qed

lemma unat_sat_sub [u64_simps]: "unat (sat_sub a b) = unat a - unat b"
  for a b :: "'a::len word"
  by (auto simp: sat_sub_def word_le_nat_alt unat_sub)

lemma checked_add_SomeD: "checked_add a b = Some c \<Longrightarrow> unat c = unat a + unat b"
  for a b :: "'a::len word"
  by (auto simp: checked_add_def unat_word_ariths split: if_splits)

lemma unat_of_nat_small [u64_simps]:
  "n < 2 ^ LENGTH('a) \<Longrightarrow> unat (of_nat n :: 'a::len word) = n"
  by (simp add: unat_of_nat)

lemma unat_ucast_widen [u64_simps]:
  assumes "LENGTH('a) \<le> LENGTH('b)"
  shows "unat (ucast (x :: 'a::len word) :: 'b::len word) = unat x"
proof -
  have "unat x < 2 ^ LENGTH('b)"
    by (rule less_le_trans [OF unat_bounded power_increasing [OF assms]]) simp
  then show ?thesis
    by (simp add: unsigned_ucast_eq take_bit_nat_eq_self)
qed

lemma sat_add_mono: "a \<le> sat_add a b"
  for a b :: "'a::len word"
proof -
  have "unat a < 2 ^ LENGTH('a)"
    by (rule unat_bounded)
  then have "unat a \<le> unat (sat_add a b)"
    unfolding unat_sat_add by linarith
  then show ?thesis by (simp add: word_le_nat_alt)
qed

section \<open>Results and panics\<close>

text \<open>
  \<open>Result<T, E>\<close> is \<open>'e + 'a\<close> with \<open>Inl\<close> for the error. An operation that can panic
  returns \<open>'a rust\<close>: a panic is a value, so that its absence is something to prove.
\<close>

datatype 'a rust = Panic | Ret 'a

fun res_bind :: "'e + 'a \<Rightarrow> ('a \<Rightarrow> 'e + 'b) \<Rightarrow> 'e + 'b" where
  "res_bind (Inl e) f = Inl e"
| "res_bind (Inr a) f = f a"

lemma res_bind_Inr_iff: "res_bind r f = Inr b \<longleftrightarrow> (\<exists>a. r = Inr a \<and> f a = Inr b)"
  by (cases r) auto

text \<open>An iterator of results collected into a \<open>Result<Vec<T>, E>\<close>: the first error stops it.\<close>

fun collect_results :: "('a \<Rightarrow> 'e + 'b) \<Rightarrow> 'a list \<Rightarrow> 'e + 'b list" where
  "collect_results f [] = Inr []"
| "collect_results f (x # xs) =
     (case f x of Inl e \<Rightarrow> Inl e
      | Inr y \<Rightarrow> (case collect_results f xs of Inl e \<Rightarrow> Inl e | Inr ys \<Rightarrow> Inr (y # ys)))"

lemma collect_results_Inr:
  "collect_results f xs = Inr ys \<longleftrightarrow> list_all2 (\<lambda>x y. f x = Inr y) xs ys"
proof (induction xs arbitrary: ys)
  case Nil
  then show ?case by auto
next
  case (Cons x xs)
  show ?case
    by (cases "f x"; cases "collect_results f xs"; cases ys) (auto simp flip: Cons.IH)
qed

lemma collect_results_Inl:
  "collect_results f xs = Inl e \<Longrightarrow> \<exists>x \<in> set xs. f x = Inl e"
  by (induction xs) (auto split: sum.splits)

lemma list_all2_right: "list_all2 P xs ys \<Longrightarrow> y \<in> set ys \<Longrightarrow> \<exists>x \<in> set xs. P x y"
  by (induction rule: list_all2_induct) auto

section \<open>Sorting with deduplication, and \<open>BTreeSet\<close>\<close>

text \<open>
  \<open>v.sort_unstable(); v.dedup()\<close> keeps one of each run of equal neighbours. For a
  linearly ordered type it is the sorted list of the set of elements, and so is a
  \<open>BTreeSet\<close> filled by \<open>insert\<close> and read back in iteration order.
\<close>

definition sort_dedup :: "'a::linorder list \<Rightarrow> 'a list" where
  "sort_dedup xs = remdups_adj (sort xs)"

definition bs_insert :: "'a::linorder \<Rightarrow> 'a list \<Rightarrow> 'a list" where
  "bs_insert x xs = (if x \<in> set xs then xs else insort x xs)"

definition bs_wf :: "'a::linorder list \<Rightarrow> bool" where
  "bs_wf xs \<longleftrightarrow> sorted xs \<and> distinct xs"

fun bs_extend :: "'a::linorder list \<Rightarrow> 'a list \<Rightarrow> 'a list" where
  "bs_extend s [] = s"
| "bs_extend s (x # xs) = bs_extend (bs_insert x s) xs"

lemma distinct_remdups_adj_sorted: "sorted xs \<Longrightarrow> distinct (remdups_adj xs)"
  by (induction xs rule: remdups_adj.induct) (auto simp: antisym)

lemma sort_dedup_wf: "bs_wf (sort_dedup xs)"
  by (simp add: bs_wf_def sort_dedup_def sorted_remdups_adj distinct_remdups_adj_sorted)

lemma set_sort_dedup [simp]: "set (sort_dedup xs) = set xs"
  by (simp add: sort_dedup_def)

lemma bs_wf_unique: "bs_wf xs \<Longrightarrow> bs_wf ys \<Longrightarrow> set xs = set ys \<Longrightarrow> xs = ys"
  by (simp add: bs_wf_def sorted_distinct_set_unique)

lemma sort_dedup_cong: "set xs = set ys \<Longrightarrow> sort_dedup xs = sort_dedup ys"
  by (rule bs_wf_unique) (simp_all add: sort_dedup_wf)

lemma eq_sort_dedup_iff: "ys = sort_dedup xs \<longleftrightarrow> bs_wf ys \<and> set ys = set xs"
proof
  assume "bs_wf ys \<and> set ys = set xs"
  then show "ys = sort_dedup xs"
    by (intro bs_wf_unique) (simp_all add: sort_dedup_wf)
qed (simp add: sort_dedup_wf)

lemma bs_wf_Nil [simp]: "bs_wf []"
  by (simp add: bs_wf_def)

lemma set_bs_insert [simp]: "set (bs_insert x xs) = insert x (set xs)"
  by (auto simp: bs_insert_def set_insort_key)

lemma bs_wf_insert: "bs_wf xs \<Longrightarrow> bs_wf (bs_insert x xs)"
  by (auto simp: bs_wf_def bs_insert_def sorted_insort distinct_insort)

lemma set_bs_extend [simp]: "set (bs_extend s xs) = set s \<union> set xs"
  by (induction xs arbitrary: s) auto

lemma bs_wf_extend: "bs_wf s \<Longrightarrow> bs_wf (bs_extend s xs)"
  by (induction xs arbitrary: s) (auto simp: bs_wf_insert)

lemma bs_extend_cong:
  "bs_wf s \<Longrightarrow> bs_wf t \<Longrightarrow> set s \<union> set xs = set t \<union> set ys \<Longrightarrow> bs_extend s xs = bs_extend t ys"
  by (rule bs_wf_unique) (simp_all add: bs_wf_extend)

lemma eq_bs_extend_iff: "ys = bs_extend [] xs \<longleftrightarrow> bs_wf ys \<and> set ys = set xs"
proof
  assume "bs_wf ys \<and> set ys = set xs"
  then show "ys = bs_extend [] xs"
    by (intro bs_wf_unique) (simp_all add: bs_wf_extend)
qed (simp add: bs_wf_extend)

lemma bs_wf_strict: "bs_wf xs \<longleftrightarrow> sorted_wrt (<) xs"
  by (simp add: bs_wf_def strict_sorted_iff)

section \<open>\<open>BTreeMap\<close>: the interface its clients use\<close>

locale ordered_map =
  fixes empty :: "'m"
    and insert :: "'k::linorder \<Rightarrow> 'v \<Rightarrow> 'm \<Rightarrow> 'm"
    and get :: "'m \<Rightarrow> 'k \<Rightarrow> 'v option"
    and entries :: "'m \<Rightarrow> ('k \<times> 'v) list"
    and invar :: "'m \<Rightarrow> bool"
  assumes invar_empty: "invar empty"
    and invar_insert: "invar m \<Longrightarrow> invar (insert k v m)"
    and get_empty: "get empty = (\<lambda>_. None)"
    and get_insert: "invar m \<Longrightarrow> get (insert k v m) = (get m)(k \<mapsto> v)"
    and entries_sorted: "invar m \<Longrightarrow> sorted_wrt (<) (map fst (entries m))"
    and get_entries: "invar m \<Longrightarrow> get m = map_of (entries m)"
    and get_ext: "invar m \<Longrightarrow> invar m' \<Longrightarrow> get m = get m' \<Longrightarrow> m = m'"
begin

text \<open>Filling a map from a list of pairs, as \<open>collect\<close> and a loop of \<open>insert\<close> do.\<close>

definition fill :: "'m \<Rightarrow> ('k \<times> 'v) list \<Rightarrow> 'm" where
  "fill m kvs = foldl (\<lambda>m kv. insert (fst kv) (snd kv) m) m kvs"

lemma fill_invar: "invar m \<Longrightarrow> invar (fill m kvs)"
  by (induction kvs arbitrary: m) (auto simp: fill_def invar_insert)

lemma fill_get: "invar m \<Longrightarrow> get (fill m kvs) = get m ++ map_of (rev kvs)"
proof (induction kvs arbitrary: m)
  case Nil
  then show ?case by (simp add: fill_def)
next
  case (Cons kv kvs)
  have "get (fill m (kv # kvs)) = (get m)(fst kv \<mapsto> snd kv) ++ map_of (rev kvs)"
    using Cons.IH [OF invar_insert [OF Cons.prems]]
    by (simp only: fill_def foldl_Cons get_insert [OF Cons.prems])
  also have "\<dots> = get m ++ map_of (rev (kv # kvs))"
    by (cases kv) (simp add: map_add_def fun_eq_iff split: option.splits)
  finally show ?case .
qed

lemma fill_entries: "invar m \<Longrightarrow> fill empty (entries m) = m"
proof (rule get_ext)
  assume m: "invar m"
  then have "distinct (map fst (entries m))"
    using entries_sorted strict_sorted_iff by blast
  then have "map_of (rev (entries m)) = map_of (entries m)"
    using map_of_inject_set [of "rev (entries m)" "entries m"]
    by (simp add: rev_map [symmetric])
  then show "get (fill empty (entries m)) = get m"
    using m by (simp add: fill_get invar_empty get_empty get_entries)
qed (simp_all add: fill_invar invar_empty)

lemma insert_twice: "invar m \<Longrightarrow> insert k v (insert k w m) = insert k v m"
  by (rule get_ext) (simp_all add: invar_insert get_insert)

lemma insert_commute:
  "invar m \<Longrightarrow> k \<noteq> l \<Longrightarrow> insert k v (insert l w m) = insert l w (insert k v m)"
  by (rule get_ext) (simp_all add: invar_insert get_insert fun_upd_twist)

end

text \<open>The model's maps: association lists with strictly increasing keys.\<close>

fun bt_insert :: "'k::linorder \<Rightarrow> 'v \<Rightarrow> ('k \<times> 'v) list \<Rightarrow> ('k \<times> 'v) list" where
  "bt_insert k v [] = [(k, v)]"
| "bt_insert k v ((k', v') # m) =
     (if k < k' then (k, v) # (k', v') # m
      else if k = k' then (k, v) # m
      else (k', v') # bt_insert k v m)"

definition bt_wf :: "('k::linorder \<times> 'v) list \<Rightarrow> bool" where
  "bt_wf m \<longleftrightarrow> sorted_wrt (<) (map fst m)"

lemma map_of_bt_insert: "map_of (bt_insert k v m) = (map_of m)(k \<mapsto> v)"
  by (induction k v m rule: bt_insert.induct) (auto simp: fun_eq_iff)

lemma keys_bt_insert [simp]: "fst ` set (bt_insert k v m) = insert k (fst ` set m)"
  by (induction k v m rule: bt_insert.induct) auto

lemma bt_wf_Nil [simp]: "bt_wf []"
  by (simp add: bt_wf_def)

lemma bt_wf_insert: "bt_wf m \<Longrightarrow> bt_wf (bt_insert k v m)"
  unfolding bt_wf_def
  by (induction k v m rule: bt_insert.induct) (auto simp flip: image_set)

lemma bt_wf_map_of_ext:
  assumes "bt_wf m" "bt_wf m'" "map_of m = map_of m'"
  shows "m = m'"
proof (rule map_sorted_distinct_set_unique)
  have d: "distinct (map fst m)" "distinct (map fst m')"
    and s: "sorted (map fst m)" "sorted (map fst m')"
    using assms(1,2) by (auto simp: bt_wf_def strict_sorted_iff)
  then show "set m = set m'"
    using assms(3) by (metis map_of_inject_set)
  show "inj_on fst (set m \<union> set m')"
    using d \<open>set m = set m'\<close> by (simp add: distinct_map)
qed (use assms in \<open>auto simp: bt_wf_def strict_sorted_iff\<close>)

interpretation btmap: ordered_map "[]" bt_insert map_of "\<lambda>m. m" bt_wf
  by unfold_locales
    (auto simp: bt_wf_insert map_of_bt_insert bt_wf_def[symmetric] intro: bt_wf_map_of_ext
      simp flip: bt_wf_def)

end
