(* ===== verification/Budget.thy ===== *)
theory Budget
  imports Bathy_Prelude
begin

text \<open>
  The budgets of a scan request (\<open>crates/bathy-types/src/request.rs\<close>) and the packet and
  runtime ledger built on them (\<open>crates/bathy-scope/src/budget.rs\<close>).
\<close>

section \<open>Budgets\<close>

record budgets =
  maximum_packets :: u64
  maximum_runtime_seconds :: u64
  maximum_packets_per_second :: u32

text \<open>\<open>TryFrom<RawBudgets> for Budgets\<close>: the only way a document becomes a budget.\<close>

definition budgets_try_from :: "budgets \<Rightarrow> string + budgets" where
  "budgets_try_from r =
     (if maximum_packets r = 0 \<or> maximum_runtime_seconds r = 0
         \<or> maximum_packets_per_second r = 0
      then Inl ''every budget must be greater than zero''
      else Inr \<lparr>maximum_packets = maximum_packets r,
                maximum_runtime_seconds = maximum_runtime_seconds r,
                maximum_packets_per_second = maximum_packets_per_second r\<rparr>)"

section \<open>The ledger\<close>

record ledger =
  lg_budgets :: budgets
  lg_packets_spent :: u64
  lg_seconds_already_elapsed :: u64

record budget_exhausted =
  be_spent :: u64
  be_ceiling :: u64
  be_requested :: u64

definition ledger_new :: "budgets \<Rightarrow> ledger" where
  "ledger_new b = \<lparr>lg_budgets = b, lg_packets_spent = 0, lg_seconds_already_elapsed = 0\<rparr>"

definition ledger_resumed :: "budgets \<Rightarrow> u64 \<Rightarrow> u64 \<Rightarrow> ledger" where
  "ledger_resumed b packets_already_spent seconds_already_elapsed =
     \<lparr>lg_budgets = b,
      lg_packets_spent = min packets_already_spent (maximum_packets b),
      lg_seconds_already_elapsed = seconds_already_elapsed\<rparr>"

definition packets_remaining :: "ledger \<Rightarrow> u64" where
  "packets_remaining l = sat_sub (maximum_packets (lg_budgets l)) (lg_packets_spent l)"

text \<open>\<open>try_spend_packets\<close> takes \<open>&mut self\<close>: the new ledger is returned beside the result.\<close>

definition try_spend_packets :: "ledger \<Rightarrow> u64 \<Rightarrow> ledger \<times> (budget_exhausted + unit)" where
  "try_spend_packets l n =
     (let after = sat_add (lg_packets_spent l) n
      in if after > maximum_packets (lg_budgets l)
         then (l, Inl \<lparr>be_spent = lg_packets_spent l,
                       be_ceiling = maximum_packets (lg_budgets l),
                       be_requested = n\<rparr>)
         else (l\<lparr>lg_packets_spent := after\<rparr>, Inr ()))"

definition elapsed_exceeded :: "ledger \<Rightarrow> u64 \<Rightarrow> bool" where
  "elapsed_exceeded l elapsed_seconds \<longleftrightarrow>
     sat_add (lg_seconds_already_elapsed l) elapsed_seconds
       > maximum_runtime_seconds (lg_budgets l)"

section \<open>One spend\<close>

lemma budgets_try_from_Inr:
  "budgets_try_from r = Inr b \<Longrightarrow>
     b = r \<and> 0 < maximum_packets b \<and> 0 < maximum_runtime_seconds b
     \<and> 0 < maximum_packets_per_second b"
  by (auto simp: budgets_try_from_def word_gt_0 split: if_splits)

lemma try_spend_refused:
  "try_spend_packets l n = (l', Inl e) \<Longrightarrow>
     l' = l \<and> be_requested e = n \<and> be_spent e = lg_packets_spent l
     \<and> maximum_packets (lg_budgets l) < sat_add (lg_packets_spent l) n"
  by (auto simp: try_spend_packets_def Let_def split: if_splits)

lemma try_spend_accepted:
  "try_spend_packets l n = (l', Inr u) \<Longrightarrow>
     l' = l\<lparr>lg_packets_spent := sat_add (lg_packets_spent l) n\<rparr>
     \<and> sat_add (lg_packets_spent l) n \<le> maximum_packets (lg_budgets l)"
  by (auto simp: try_spend_packets_def Let_def not_less split: if_splits)

text \<open>
  Below the ceiling \<open>u64::MAX\<close> the saturating sum is the true sum whenever it is accepted.
  At that one ceiling it is not: see \<open>spend_at_u64_max\<close>.
\<close>

lemma sat_add_exact:
  "sat_add a b \<le> c \<Longrightarrow> c \<noteq> - 1 \<Longrightarrow> unat (sat_add a b) = unat a + unat b"
  for a b c :: u64
proof -
  assume le: "sat_add a b \<le> c" and c: "c \<noteq> - 1"
  have "c < - 1"
    using c by (simp add: word_order.not_eq_extremum)
  with le have "unat (sat_add a b) < unat (- 1 :: u64)"
    by (simp add: word_less_nat_alt word_le_nat_alt)
  then show ?thesis
    by (auto simp: unat_sat_add unat_max_word split: if_splits)
qed

lemma spend_at_u64_max:
  "maximum_packets (lg_budgets l) = - 1 \<Longrightarrow> snd (try_spend_packets l n) = Inr ()"
  by (simp add: try_spend_packets_def Let_def not_less)

section \<open>Runs of a scan: spends and resumptions\<close>

text \<open>
  The life of one scan's budget: a run spends packets through the ledger; when the scan is
  resumed a new ledger is seeded with the packets and seconds the previous runs recorded.
\<close>

datatype ledger_op =
    Spend u64
  | Resume_after u64 \<comment> \<open>the run's own elapsed seconds\<close>

fun ledger_step :: "ledger \<Rightarrow> ledger_op \<Rightarrow> ledger \<times> nat" where
  "ledger_step l (Spend n) =
     (case try_spend_packets l n of
        (l', Inl e) \<Rightarrow> (l', 0)
      | (l', Inr u) \<Rightarrow> (l', unat n))"
| "ledger_step l (Resume_after elapsed) =
     (ledger_resumed (lg_budgets l) (lg_packets_spent l)
        (sat_add (lg_seconds_already_elapsed l) elapsed), 0)"

fun ledger_run :: "ledger \<Rightarrow> ledger_op list \<Rightarrow> ledger \<times> nat" where
  "ledger_run l [] = (l, 0)"
| "ledger_run l (x # xs) =
     (let (l', a) = ledger_step l x; (l'', b) = ledger_run l' xs in (l'', a + b))"

definition ledger_ok :: "ledger \<Rightarrow> bool" where
  "ledger_ok l \<longleftrightarrow> lg_packets_spent l \<le> maximum_packets (lg_budgets l)"

lemma ledger_new_ok: "ledger_ok (ledger_new b)"
  by (simp add: ledger_ok_def ledger_new_def)

lemma ledger_resumed_ok: "ledger_ok (ledger_resumed b p s)"
  by (simp add: ledger_ok_def ledger_resumed_def)

lemma ledger_step_budgets: "lg_budgets (fst (ledger_step l x)) = lg_budgets l"
  by (cases x)
    (auto simp: ledger_resumed_def try_spend_packets_def Let_def split: prod.splits sum.splits if_splits)

lemma ledger_step_spent:
  assumes "ledger_ok l" "maximum_packets (lg_budgets l) \<noteq> - 1"
  shows "ledger_ok (fst (ledger_step l x))
    \<and> unat (lg_packets_spent (fst (ledger_step l x)))
        = unat (lg_packets_spent l) + snd (ledger_step l x)"
proof (cases x)
  case (Spend n)
  show ?thesis
  proof (cases "snd (try_spend_packets l n)")
    case (Inl e)
    then have "try_spend_packets l n = (l, Inl e)"
      by (metis prod.collapse try_spend_refused)
    with Spend assms(1) show ?thesis by simp
  next
    case (Inr u)
    define l' where "l' = fst (try_spend_packets l n)"
    have eq: "try_spend_packets l n = (l', Inr u)"
      using Inr by (simp add: l'_def prod_eq_iff)
    from try_spend_accepted [OF eq] Spend eq show ?thesis
      using sat_add_exact assms(2) by (auto simp: ledger_ok_def)
  qed
next
  case (Resume_after s)
  with assms(1) show ?thesis
    by (simp add: ledger_resumed_def ledger_ok_def min_absorb1)
qed

lemma ledger_run_spent:
  assumes "ledger_ok l" "maximum_packets (lg_budgets l) \<noteq> - 1"
  shows "ledger_ok (fst (ledger_run l xs))
    \<and> lg_budgets (fst (ledger_run l xs)) = lg_budgets l
    \<and> unat (lg_packets_spent (fst (ledger_run l xs)))
        = unat (lg_packets_spent l) + snd (ledger_run l xs)"
  using assms
proof (induction xs arbitrary: l)
  case Nil
  then show ?case by simp
next
  case (Cons x xs)
  let ?l = "fst (ledger_step l x)"
  have "ledger_ok ?l" "lg_budgets ?l = lg_budgets l"
    "unat (lg_packets_spent ?l) = unat (lg_packets_spent l) + snd (ledger_step l x)"
    using ledger_step_spent [OF Cons.prems] ledger_step_budgets by auto
  moreover from this have "maximum_packets (lg_budgets ?l) \<noteq> - 1"
    using Cons.prems(2) by simp
  ultimately show ?case
    using Cons.IH [of ?l] by (simp add: case_prod_beta Let_def)
qed

text \<open>
  C9: Over any sequence of packet spends and cancel/resume cycles that starts from a fresh
  ledger, the packets accepted are exactly the packets recorded, and together they never
  exceed the request's \<open>maximum_packets\<close>: resuming does not hand out a new budget.
  (The ceiling \<open>u64::MAX\<close>, where the saturating sum cannot exceed the ceiling, is excluded.)
\<close>

theorem resume_keeps_packet_ceiling:
  assumes "maximum_packets b \<noteq> - 1"
    and "ledger_run (ledger_new b) xs = (l, accepted)"
  shows "accepted = unat (lg_packets_spent l) \<and> accepted \<le> unat (maximum_packets b)"
  using ledger_run_spent [of "ledger_new b" xs] assms ledger_new_ok [of b]
  by (auto simp: ledger_new_def ledger_ok_def word_le_nat_alt)

theorem resume_keeps_packet_ceiling_witness:
  "ledger_run (ledger_new \<lparr>maximum_packets = 10, maximum_runtime_seconds = 60,
      maximum_packets_per_second = 5\<rparr>) [Spend 7, Resume_after 3, Spend 4, Spend 3]
    = (\<lparr>lg_budgets = \<lparr>maximum_packets = 10, maximum_runtime_seconds = 60,
          maximum_packets_per_second = 5\<rparr>,
        lg_packets_spent = 10, lg_seconds_already_elapsed = 3\<rparr>, 10)
   \<and> (10 :: nat) \<le> unat (10 :: u64)" (is "?run \<and> _")
proof
  show run: ?run
    by (simp add: ledger_new_def ledger_resumed_def try_spend_packets_def sat_add_def Let_def)
  show "(10 :: nat) \<le> unat (10 :: u64)"
    using resume_keeps_packet_ceiling [OF _ run] by simp
qed

text \<open>
  The runtime ceiling also survives resumption: once the seconds recorded by earlier runs
  plus this run's exceed \<open>maximum_runtime_seconds\<close>, every ledger seeded from them reports the
  ceiling as exceeded, for every later elapsed time and at any further resumption.
\<close>

theorem runtime_ceiling_monotone_over_resume:
  assumes "elapsed_exceeded l t"
  shows "elapsed_exceeded (fst (ledger_step l (Resume_after t))) t'"
proof -
  have "sat_add (lg_seconds_already_elapsed l) t
      \<le> sat_add (sat_add (lg_seconds_already_elapsed l) t) t'"
    by (rule sat_add_mono)
  with assms show ?thesis
    by (auto simp: elapsed_exceeded_def ledger_resumed_def)
qed

theorem runtime_ceiling_monotone_over_resume_witness:
  "elapsed_exceeded (fst (ledger_step (ledger_resumed \<lparr>maximum_packets = 10,
      maximum_runtime_seconds = 60, maximum_packets_per_second = 5\<rparr> 0 50) (Resume_after 11))) 0"
  by (rule runtime_ceiling_monotone_over_resume)
    (simp add: elapsed_exceeded_def ledger_resumed_def sat_add_def)

end
