(* ===== verification/Net_Addr.thy ===== *)
theory Net_Addr
  imports Bathy_Prelude "HOL-Library.Monad_Syntax"
begin

text \<open>
  What the sources use of \<open>std::net\<close> and of Rust's string and integer parsing: addresses, their
  classification, their text form and its parser, decimal integers, \<open>trim\<close> and
  \<open>split_once\<close>.
\<close>

unbundle bit_operations_syntax

section \<open>Strings and integers\<close>

function digits_rev :: "nat \<Rightarrow> nat \<Rightarrow> nat list" where
  "digits_rev radix n =
     (if radix < 2 \<or> n < radix then [n] else (n mod radix) # digits_rev radix (n div radix))"
  by pat_completeness auto
termination
  by (relation "measure (\<lambda>(radix, n). n)") (auto intro: div_less_dividend)

declare digits_rev.simps [simp del]

definition digit_char :: "nat \<Rightarrow> char" where
  "digit_char d = ''0123456789abcdef'' ! d"

text \<open>\<open>to_string\<close> of an unsigned integer, and lower-case hexadecimal.\<close>

definition show_nat :: "nat \<Rightarrow> string" where
  "show_nat n = map digit_char (rev (digits_rev 10 n))"

definition show_hex :: "nat \<Rightarrow> string" where
  "show_hex n = map digit_char (rev (digits_rev 16 n))"

definition show_word :: "'a::len word \<Rightarrow> string" where
  "show_word w = show_nat (unat w)"

text \<open>\<open>char::to_digit\<close>.\<close>

definition to_digit :: "nat \<Rightarrow> char \<Rightarrow> nat option" where
  "to_digit radix c =
     (let n = of_char c :: nat;
          d = (if 48 \<le> n \<and> n \<le> 57 then Some (n - 48)
               else if 97 \<le> n \<and> n \<le> 122 then Some (n - 87)
               else if 65 \<le> n \<and> n \<le> 90 then Some (n - 55)
               else None)
      in case d of None \<Rightarrow> None | Some v \<Rightarrow> (if v < radix then Some v else None))"

text \<open>
  \<open>str::parse::<uN>()\<close>: an optional \<open>+\<close>, at least one digit, nothing else, and no
  overflow of the type.
\<close>

fun parse_digits :: "nat \<Rightarrow> string \<Rightarrow> nat option" where
  "parse_digits acc [] = Some acc"
| "parse_digits acc (c # cs) =
     (case to_digit 10 c of None \<Rightarrow> None | Some d \<Rightarrow> parse_digits (acc * 10 + d) cs)"

definition parse_unsigned :: "nat \<Rightarrow> string \<Rightarrow> nat option" where
  "parse_unsigned bound s =
     (let t = (case s of c # cs \<Rightarrow> (if c = CHR ''+'' then cs else s) | [] \<Rightarrow> [])
      in if t = [] then None
         else (case parse_digits 0 t of
                 None \<Rightarrow> None
               | Some n \<Rightarrow> (if n < bound then Some n else None)))"

definition parse_u16 :: "string \<Rightarrow> u16 option" where
  "parse_u16 s = map_option of_nat (parse_unsigned 65536 s)"

fun split_once :: "char \<Rightarrow> string \<Rightarrow> (string \<times> string) option" where
  "split_once c [] = None"
| "split_once c (x # xs) =
     (if x = c then Some ([], xs)
      else map_option (\<lambda>(a, b). (x # a, b)) (split_once c xs))"

text \<open>
  \<open>str::trim\<close> removes every code point with the property \<open>White_Space\<close>; a Rust string is
  UTF-8, so these are their encodings.
\<close>

definition utf8_white_space :: "string list" where
  "utf8_white_space =
     map (map char_of)
       [[9::nat], [10], [11], [12], [13], [32], [194, 133], [194, 160], [225, 154, 128],
        [226, 128, 128], [226, 128, 129], [226, 128, 130], [226, 128, 131], [226, 128, 132],
        [226, 128, 133], [226, 128, 134], [226, 128, 135], [226, 128, 136], [226, 128, 137],
        [226, 128, 138], [226, 128, 168], [226, 128, 169], [226, 128, 175], [226, 129, 159],
        [227, 128, 128]]"

fun strip_any :: "nat \<Rightarrow> string list \<Rightarrow> string \<Rightarrow> string" where
  "strip_any 0 ws s = s"
| "strip_any (Suc fuel) ws s =
     (case find (\<lambda>w. take (length w) s = w) ws of
        None \<Rightarrow> s
      | Some w \<Rightarrow> strip_any fuel ws (drop (length w) s))"

definition trim_start :: "string \<Rightarrow> string" where
  "trim_start s = strip_any (length s) utf8_white_space s"

definition trim_end :: "string \<Rightarrow> string" where
  "trim_end s = rev (strip_any (length s) (map rev utf8_white_space) (rev s))"

definition trim :: "string \<Rightarrow> string" where
  "trim s = trim_end (trim_start s)"

section \<open>Addresses\<close>

text \<open>An \<open>Ipv4Addr\<close> is its 32-bit value, an \<open>Ipv6Addr\<close> its 128-bit value.\<close>

datatype ip_addr = V4 u32 | V6 u128

text \<open>The derived \<open>Ord\<close> of \<open>IpAddr\<close>: every \<open>V4\<close> before every \<open>V6\<close>, then by value.\<close>

instantiation ip_addr :: linorder
begin

fun less_eq_ip_addr :: "ip_addr \<Rightarrow> ip_addr \<Rightarrow> bool" where
  "less_eq_ip_addr (V4 a) (V4 b) = (a \<le> b)"
| "less_eq_ip_addr (V4 a) (V6 b) = True"
| "less_eq_ip_addr (V6 a) (V4 b) = False"
| "less_eq_ip_addr (V6 a) (V6 b) = (a \<le> b)"

definition less_ip_addr :: "ip_addr \<Rightarrow> ip_addr \<Rightarrow> bool" where
  "less_ip_addr x y = (x \<le> y \<and> \<not> y \<le> (x :: ip_addr))"

instance
proof
  fix x y z :: ip_addr
  show "(x < y) = (x \<le> y \<and> \<not> y \<le> x)"
    by (rule less_ip_addr_def)
  show "x \<le> x" by (cases x) auto
  show "x \<le> y \<Longrightarrow> y \<le> z \<Longrightarrow> x \<le> z" by (cases x; cases y; cases z) auto
  show "x \<le> y \<Longrightarrow> y \<le> x \<Longrightarrow> x = y" by (cases x; cases y) auto
  show "x \<le> y \<or> y \<le> x" by (cases x; cases y) auto
qed

end

lemma less_V4 [simp]: "V4 a < V4 b \<longleftrightarrow> a < b"
  by (auto simp: less_ip_addr_def)

definition octets :: "u32 \<Rightarrow> u8 list" where
  "octets a = [ucast (drop_bit 24 a), ucast (drop_bit 16 a), ucast (drop_bit 8 a), ucast a]"

definition octet0 :: "u32 \<Rightarrow> u8" where
  "octet0 a = ucast (drop_bit 24 a)"

definition octet1 :: "u32 \<Rightarrow> u8" where
  "octet1 a = ucast (drop_bit 16 a)"

definition v4_is_loopback :: "u32 \<Rightarrow> bool" where
  "v4_is_loopback a \<longleftrightarrow> octet0 a = 127"

definition v4_is_multicast :: "u32 \<Rightarrow> bool" where
  "v4_is_multicast a \<longleftrightarrow> 224 \<le> octet0 a \<and> octet0 a \<le> 239"

definition v4_is_broadcast :: "u32 \<Rightarrow> bool" where
  "v4_is_broadcast a \<longleftrightarrow> a = 0xFFFFFFFF"

definition v4_is_link_local :: "u32 \<Rightarrow> bool" where
  "v4_is_link_local a \<longleftrightarrow> octet0 a = 169 \<and> octet1 a = 254"

definition v4_is_unspecified :: "u32 \<Rightarrow> bool" where
  "v4_is_unspecified a \<longleftrightarrow> a = 0"

definition segments :: "u128 \<Rightarrow> u16 list" where
  "segments a = map (\<lambda>i. ucast (drop_bit (112 - 16 * i) a)) [0, 1, 2, 3, 4, 5, 6, 7]"

definition v6_is_loopback :: "u128 \<Rightarrow> bool" where
  "v6_is_loopback a \<longleftrightarrow> a = 1"

definition v6_is_unspecified :: "u128 \<Rightarrow> bool" where
  "v6_is_unspecified a \<longleftrightarrow> a = 0"

definition v6_is_multicast :: "u128 \<Rightarrow> bool" where
  "v6_is_multicast a \<longleftrightarrow> (segments a ! 0) AND 0xff00 = 0xff00"

definition to_ipv4_mapped :: "u128 \<Rightarrow> u32 option" where
  "to_ipv4_mapped a =
     (if take 5 (segments a) = [0, 0, 0, 0, 0] \<and> segments a ! 5 = 0xffff
      then Some (ucast a) else None)"

lemma unat_ucast_drop_bit: "unat (ucast (drop_bit n a) :: 'b::len word) = unat a div 2 ^ n mod 2 ^ LENGTH('b)"
  for a :: "'a::len word"
  unfolding unsigned_ucast_eq unat_drop_bit_eq by (simp add: drop_bit_eq_div take_bit_eq_mod)

lemma unat_octet0: "unat (octet0 a) = unat a div 2 ^ 24"
proof -
  have "unat a div 2 ^ 24 < 256"
    using unat_bounded [of a] by (simp add: less_mult_imp_div_less)
  then show ?thesis
    by (simp add: octet0_def unat_ucast_drop_bit)
qed

lemma unat_octet1: "unat (octet1 a) = unat a div 2 ^ 16 mod 256"
  by (simp add: octet1_def unat_ucast_drop_bit)

section \<open>Text form of addresses\<close>

definition show_ipv4 :: "u32 \<Rightarrow> string" where
  "show_ipv4 a = concat (map (\<lambda>(i, b). (if i = (0::nat) then [] else ''.'') @ show_word b)
     (zip [0, 1, 2, 3] (octets a)))"

definition show_segments :: "u16 list \<Rightarrow> string" where
  "show_segments ss = (case ss of [] \<Rightarrow> []
     | s # r \<Rightarrow> show_hex (unat s) @ concat (map (\<lambda>x. '':'' @ show_hex (unat x)) r))"

text \<open>The longest run of zero segments, the first one among equals: (start, length).\<close>

fun longest_zeroes :: "nat \<Rightarrow> nat \<times> nat \<Rightarrow> nat \<times> nat \<Rightarrow> u16 list \<Rightarrow> nat \<times> nat" where
  "longest_zeroes i longest current [] = longest"
| "longest_zeroes i longest current (s # ss) =
     (if s = 0
      then let c = ((if snd current = 0 then i else fst current), Suc (snd current))
           in longest_zeroes (Suc i) (if snd c > snd longest then c else longest) c ss
      else longest_zeroes (Suc i) longest (0, 0) ss)"

definition show_ipv6 :: "u128 \<Rightarrow> string" where
  "show_ipv6 a =
     (case to_ipv4_mapped a of
        Some v4 \<Rightarrow> ''::ffff:'' @ show_ipv4 v4
      | None \<Rightarrow>
          let ss = segments a; (start, len) = longest_zeroes 0 (0, 0) (0, 0) ss
          in if len > 1
             then show_segments (take start ss) @ ''::'' @ show_segments (drop (start + len) ss)
             else show_segments ss)"

fun show_ip :: "ip_addr \<Rightarrow> string" where
  "show_ip (V4 a) = show_ipv4 a"
| "show_ip (V6 a) = show_ipv6 a"

section \<open>Parsing addresses\<close>

text \<open>
  The recursive-descent parser of \<open>core::net\<close>: each reader takes the remaining input and
  returns a value with what is left of it, or \<open>None\<close> having consumed nothing.
\<close>

fun read_digits :: "nat \<Rightarrow> nat \<Rightarrow> nat \<Rightarrow> string \<Rightarrow> nat \<times> nat \<times> string" where
  "read_digits radix v n [] = (v, n, [])"
| "read_digits radix v n (c # cs) =
     (case to_digit radix c of
        None \<Rightarrow> (v, n, c # cs)
      | Some d \<Rightarrow> read_digits radix (v * radix + d) (Suc n) cs)"

definition read_number :: "nat \<Rightarrow> nat \<Rightarrow> bool \<Rightarrow> nat \<Rightarrow> string \<Rightarrow> (nat \<times> string) option" where
  "read_number radix max_digits allow_zero_prefix bound s =
     (let (v, n, r) = read_digits radix 0 0 s
      in if n = 0 \<or> n > max_digits
            \<or> (\<not> allow_zero_prefix \<and> take 1 s = ''0'' \<and> n > 1) \<or> bound \<le> v
         then None else Some (v, r))"

definition read_given_char :: "char \<Rightarrow> string \<Rightarrow> string option" where
  "read_given_char c s = (case s of [] \<Rightarrow> None | x # xs \<Rightarrow> (if x = c then Some xs else None))"

definition read_separator ::
  "char \<Rightarrow> nat \<Rightarrow> (string \<Rightarrow> ('a \<times> string) option) \<Rightarrow> string \<Rightarrow> ('a \<times> string) option" where
  "read_separator sep i p s =
     (if i = 0 then p s else do { s' \<leftarrow> read_given_char sep s; p s' })"

definition read_ipv4 :: "string \<Rightarrow> (u32 \<times> string) option" where
  "read_ipv4 s = do {
     (a, s) \<leftarrow> read_separator CHR ''.'' 0 (read_number 10 3 False 256) s;
     (b, s) \<leftarrow> read_separator CHR ''.'' 1 (read_number 10 3 False 256) s;
     (c, s) \<leftarrow> read_separator CHR ''.'' 2 (read_number 10 3 False 256) s;
     (d, s) \<leftarrow> read_separator CHR ''.'' 3 (read_number 10 3 False 256) s;
     Some (((of_nat a * 256 + of_nat b) * 256 + of_nat c) * 256 + of_nat d, s)
   }"

fun read_groups :: "nat \<Rightarrow> nat \<Rightarrow> u16 list \<Rightarrow> string \<Rightarrow> u16 list \<times> bool \<times> string" where
  "read_groups 0 i acc s = (acc, False, s)"
| "read_groups (Suc r) i acc s =
     (case (if 0 < r then read_separator CHR '':'' i read_ipv4 s else None) of
        Some (a, s') \<Rightarrow> (acc @ [ucast (drop_bit 16 a), ucast a], True, s')
      | None \<Rightarrow>
          (case read_separator CHR '':'' i (read_number 16 4 True 65536) s of
             Some (g, s') \<Rightarrow> read_groups r (Suc i) (acc @ [of_nat g]) s'
           | None \<Rightarrow> (acc, False, s)))"

definition of_segments :: "u16 list \<Rightarrow> u128" where
  "of_segments ss = foldl (\<lambda>w s. push_bit 16 w OR ucast s) 0 ss"

definition read_ipv6 :: "string \<Rightarrow> (u128 \<times> string) option" where
  "read_ipv6 s =
     (let (head, head_ipv4, s1) = read_groups 8 0 [] s
      in if length head = 8 then Some (of_segments head, s1)
         else if head_ipv4 then None
         else do {
           s2 \<leftarrow> read_given_char CHR '':'' s1;
           s3 \<leftarrow> read_given_char CHR '':'' s2;
           let (tail, _, s4) = read_groups (8 - (length head + 1)) 0 [] s3;
           Some (of_segments (head @ replicate (8 - length head - length tail) 0 @ tail), s4)
         })"

definition parse_ipv4 :: "string \<Rightarrow> u32 option" where
  "parse_ipv4 s =
     (if length s > 15 then None
      else case read_ipv4 s of Some (a, []) \<Rightarrow> Some a | _ \<Rightarrow> None)"

definition parse_ip :: "string \<Rightarrow> ip_addr option" where
  "parse_ip s =
     (case read_ipv4 s of
        Some (a, r) \<Rightarrow> (if r = [] then Some (V4 a) else None)
      | None \<Rightarrow>
          (case read_ipv6 s of
             Some (a, r) \<Rightarrow> (if r = [] then Some (V6 a) else None)
           | None \<Rightarrow> None))"

lemmas parse_ip_simps =
  parse_ip_def parse_ipv4_def read_ipv4_def read_separator_def read_number_def
  read_given_char_def to_digit_def parse_unsigned_def

end
