(* ===== verification/Ids.thy ===== *)
theory Ids
  imports Net_Addr
begin

text \<open>
  Content digests and prefixed identifiers (\<open>crates/bathy-types/src/ids.rs\<close>): their text
  forms and the strict parsers. The base-32 codec of the external \<open>ulid\<close> crate is a record
  of parameters; the laws the parsers rely on are the locale \<open>ulid_laws\<close>, interpreted on
  an implementation of the documented Crockford encoding.
\<close>

section \<open>Digests\<close>

text \<open>\<open>Digest([u8; 32])\<close>; the array length is the predicate \<open>digest_wf\<close>.\<close>

datatype digest = Digest (digest_bytes: "u8 list")

definition digest_wf :: "digest \<Rightarrow> bool" where
  "digest_wf d \<longleftrightarrow> length (digest_bytes d) = 32"

instantiation digest :: linorder
begin

definition less_eq_digest :: "digest \<Rightarrow> digest \<Rightarrow> bool" where
  "less_eq_digest a b = (digest_bytes a \<le> digest_bytes b)"

definition less_digest :: "digest \<Rightarrow> digest \<Rightarrow> bool" where
  "less_digest a b = (digest_bytes a < digest_bytes b)"

instance
  by standard (auto simp: less_eq_digest_def less_digest_def digest.expand)

end

definition hex02 :: "u8 \<Rightarrow> string" where
  "hex02 b = [digit_char (unat b div 16), digit_char (unat b mod 16)]"

definition digest_display :: "digest \<Rightarrow> string" where
  "digest_display d = ''blake3:'' @ concat (map hex02 (digest_bytes d))"

datatype id_error =
    WrongAlgorithm
  | BadDigestLength nat
  | BadHex
  | WrongPrefix string
  | BadUlid

definition strip_prefix :: "string \<Rightarrow> string \<Rightarrow> string option" where
  "strip_prefix p s = (if take (length p) s = p then Some (drop (length p) s) else None)"

definition is_lower_hex :: "char \<Rightarrow> bool" where
  "is_lower_hex c \<longleftrightarrow>
     (let n = of_char c :: nat in (48 \<le> n \<and> n \<le> 57) \<or> (97 \<le> n \<and> n \<le> 102))"

definition hex_pair :: "char \<Rightarrow> char \<Rightarrow> u8 option" where
  "hex_pair h l = do {
     a \<leftarrow> to_digit 16 h; b \<leftarrow> to_digit 16 l; Some (of_nat (a * 16 + b)) }"

fun decode_pairs :: "string \<Rightarrow> u8 list option" where
  "decode_pairs (h # l # cs) = do {
     b \<leftarrow> hex_pair h l; bs \<leftarrow> decode_pairs cs; Some (b # bs) }"
| "decode_pairs _ = Some []"

definition digest_from_str :: "string \<Rightarrow> id_error + digest" where
  "digest_from_str s =
     (case strip_prefix ''blake3:'' s of
        None \<Rightarrow> Inl WrongAlgorithm
      | Some hex \<Rightarrow>
          if length hex \<noteq> 64 then Inl (BadDigestLength (length hex))
          else if \<not> list_all is_lower_hex hex then Inl BadHex
          else (case decode_pairs hex of None \<Rightarrow> Inl BadHex | Some bs \<Rightarrow> Inr (Digest bs)))"

lemma strip_prefix_Some: "strip_prefix p s = Some r \<longleftrightarrow> s = p @ r"
  by (auto simp: strip_prefix_def) (metis append_take_drop_id)

lemma less16_cases:
  "(n::nat) < 16 \<Longrightarrow> n \<in> {0, 1, 2, 3, 4, 5, 6, 7, 8, 9, 10, 11, 12, 13, 14, 15}"
  unfolding insert_iff empty_iff by presburger

lemma digit_char_lower_hex: "n < 16 \<Longrightarrow> is_lower_hex (digit_char n)"
  by (drule less16_cases) (auto simp: is_lower_hex_def digit_char_def)

lemma to_digit_digit_char: "n < 16 \<Longrightarrow> to_digit 16 (digit_char n) = Some n"
  by (drule less16_cases) (auto simp: to_digit_def digit_char_def)

lemma lower_hex_digit:
  assumes "is_lower_hex c"
  shows "\<exists>n < 16. to_digit 16 c = Some n \<and> digit_char n = c"
proof -
  define m where "m = (of_char c :: nat)"
  have m: "m \<in> {48, 49, 50, 51, 52, 53, 54, 55, 56, 57, 97, 98, 99, 100, 101, 102}"
    using assms unfolding is_lower_hex_def Let_def m_def [symmetric] insert_iff empty_iff
    by presburger
  define n where "n = (if m \<le> 57 then m - 48 else m - 87)"
  have "n < 16" "to_digit 16 c = Some n"
    using m by (auto simp: n_def to_digit_def m_def [symmetric])
  moreover have "(of_char (digit_char n) :: nat) = m"
    using m unfolding n_def by (elim insertE emptyE) (simp_all add: digit_char_def)
  then have "digit_char n = c"
    by (simp add: m_def)
  ultimately show ?thesis by blast
qed

lemma hex_pair_hex02: "hex_pair (digit_char (unat b div 16)) (digit_char (unat b mod 16)) = Some b"
proof -
  have "unat b div 16 < 16"
    using unat_bounded [of b] by (simp add: less_mult_imp_div_less)
  then show ?thesis
    by (simp add: hex_pair_def to_digit_digit_char del: of_nat_add of_nat_mult)
qed

lemma hex02_of_pair:
  assumes "is_lower_hex h" "is_lower_hex l"
  obtains b where "hex_pair h l = Some b" "hex02 b = [h, l]"
proof -
  obtain m n where mn: "m < 16" "n < 16" "to_digit 16 h = Some m" "to_digit 16 l = Some n"
      "digit_char m = h" "digit_char n = l"
    using assms lower_hex_digit by blast
  have "unat (of_nat (m * 16 + n) :: u8) = m * 16 + n"
    using mn(1,2) by (simp add: unat_of_nat del: of_nat_add of_nat_mult)
  with mn have "hex02 (of_nat (m * 16 + n)) = [h, l]"
    by (simp add: hex02_def del: of_nat_add of_nat_mult)
  moreover have "hex_pair h l = Some (of_nat (m * 16 + n))"
    by (simp add: hex_pair_def mn)
  ultimately show ?thesis using that by blast
qed

lemma decode_pairs_hex: "decode_pairs (concat (map hex02 bs)) = Some bs"
  by (induction bs) (auto simp: hex02_def hex_pair_hex02)

lemma decode_pairs_lower_hex:
  "list_all is_lower_hex s \<Longrightarrow> even (length s) \<Longrightarrow>
     \<exists>bs. decode_pairs s = Some bs \<and> concat (map hex02 bs) = s \<and> 2 * length bs = length s"
proof (induction s rule: decode_pairs.induct)
  case (1 h l cs)
  from 1(2) obtain b where b: "hex_pair h l = Some b" "hex02 b = [h, l]"
    by (auto elim: hex02_of_pair)
  with 1 obtain bs where "decode_pairs cs = Some bs" "concat (map hex02 bs) = cs"
      "2 * length bs = length cs"
    by auto
  with b show ?case by (intro exI [of _ "b # bs"]) simp
qed auto

lemma length_hex: "length (concat (map hex02 bs)) = 2 * length bs"
  by (induction bs) (auto simp: hex02_def)

lemma all_lower_hex: "list_all is_lower_hex (concat (map hex02 bs))"
proof (induction bs)
  case (Cons b bs)
  have "unat b div 16 < 16"
    using unat_bounded [of b] by (simp add: less_mult_imp_div_less)
  with Cons show ?case by (simp add: hex02_def digit_char_lower_hex)
qed simp

lemma digest_from_str_iff:
  "digest_from_str s = Inr d \<longleftrightarrow> digest_wf d \<and> s = digest_display d"
proof
  assume "digest_from_str s = Inr d"
  then obtain hex where hex: "s = ''blake3:'' @ hex" "length hex = 64"
      "list_all is_lower_hex hex" "decode_pairs hex = Some (digest_bytes d)"
    by (auto simp: digest_from_str_def strip_prefix_Some split: option.splits if_splits)
  then show "digest_wf d \<and> s = digest_display d"
    using decode_pairs_lower_hex [OF hex(3)] by (auto simp: digest_wf_def digest_display_def)
next
  assume "digest_wf d \<and> s = digest_display d"
  then have "strip_prefix ''blake3:'' s = Some (concat (map hex02 (digest_bytes d)))"
    "length (digest_bytes d) = 32"
    by (simp_all only: strip_prefix_Some digest_display_def digest_wf_def)
  then show "digest_from_str s = Inr d"
    by (simp add: digest_from_str_def length_hex all_lower_hex decode_pairs_hex)
qed

text \<open>
  The digest parser accepts exactly the text that the digest's own display produces:
  every digest round-trips, and no second spelling (upper case, another length, another
  algorithm) parses, so parsing is injective.
\<close>

theorem digest_from_str_exact:
  "digest_from_str s = Inr d \<longleftrightarrow> digest_wf d \<and> s = digest_display d"
  by (rule digest_from_str_iff)

section \<open>Prefixed identifiers\<close>

text \<open>
  The external \<open>ulid\<close> crate: 26 Crockford base-32 symbols, upper case when written, either
  case when read, for a 128-bit value. Its decoder shifts 26 five-bit groups into the 128 bits
  and loses the two topmost.
\<close>

definition crockford :: string where
  "crockford = ''0123456789ABCDEFGHJKMNPQRSTVWXYZ''"

definition is_ascii_lowercase :: "char \<Rightarrow> bool" where
  "is_ascii_lowercase c \<longleftrightarrow> (let n = of_char c :: nat in 97 \<le> n \<and> n \<le> 122)"

definition to_ascii_uppercase :: "char \<Rightarrow> char" where
  "to_ascii_uppercase c =
     (if is_ascii_lowercase c then char_of ((of_char c :: nat) - 32) else c)"

fun index_of :: "'a \<Rightarrow> 'a list \<Rightarrow> nat option" where
  "index_of x [] = None"
| "index_of x (y # ys) = (if x = y then Some 0 else map_option Suc (index_of x ys))"

definition crockford_value :: "char \<Rightarrow> nat option" where
  "crockford_value c = index_of (to_ascii_uppercase c) crockford"

definition positional :: "nat \<Rightarrow> nat list \<Rightarrow> nat" where
  "positional b ds = foldl (\<lambda>v d. v * b + d) 0 ds"

locale ulid_laws =
  fixes encode :: "u128 \<Rightarrow> string"
    and decode :: "string \<Rightarrow> u128 option"
  assumes encode_symbols: "set (encode u) \<subseteq> set crockford"
    and encode_length: "length (encode u) = 26"
    and encode_value:
      "positional 32 (map (the \<circ> crockford_value) (encode u)) = unat u"
    and decode_symbols:
      "decode s \<noteq> None \<longleftrightarrow> length s = 26 \<and> (\<forall>c \<in> set s. crockford_value c \<noteq> None)"
    and decode_value:
      "decode s = Some u \<Longrightarrow> u = of_nat (positional 32 (map (the \<circ> crockford_value) s))"

text \<open>\<open>prefixed_id!\<close>: the display and the strict parser of \<open>ScanId\<close>, \<open>EventId\<close>, \<open>ScopeId\<close>.\<close>

definition id_display :: "(u128 \<Rightarrow> string) \<Rightarrow> string \<Rightarrow> u128 \<Rightarrow> string" where
  "id_display encode prefix u = prefix @ ''_'' @ encode u"

definition id_from_str ::
  "(string \<Rightarrow> u128 option) \<Rightarrow> string \<Rightarrow> string \<Rightarrow> id_error + u128" where
  "id_from_str decode prefix s =
     (case strip_prefix (prefix @ ''_'') s of
        None \<Rightarrow> Inl (WrongPrefix prefix)
      | Some rest \<Rightarrow>
          if list_ex is_ascii_lowercase rest then Inl BadUlid
          else if \<not> (case rest of [] \<Rightarrow> False
                      | b # _ \<Rightarrow> 48 \<le> (of_char b :: nat) \<and> (of_char b :: nat) \<le> 55)
            then Inl BadUlid
          else (case decode rest of None \<Rightarrow> Inl BadUlid | Some u \<Rightarrow> Inr u))"

text \<open>An implementation of the documented codec, by shifts as the crate has them.\<close>

definition crockford_encode :: "u128 \<Rightarrow> string" where
  "crockford_encode u = map (\<lambda>i. crockford ! unat (drop_bit (5 * (25 - i)) u AND 0x1f)) [0..<26]"

fun crockford_shift :: "u128 \<Rightarrow> string \<Rightarrow> u128 option" where
  "crockford_shift v [] = Some v"
| "crockford_shift v (c # cs) = do {
     d \<leftarrow> crockford_value c; crockford_shift (push_bit 5 v OR of_nat d) cs }"

definition crockford_decode :: "string \<Rightarrow> u128 option" where
  "crockford_decode s = (if length s \<noteq> 26 then None else crockford_shift 0 s)"

subsection \<open>Positional values\<close>

lemma positional_snoc: "positional b (ds @ [d]) = positional b ds * b + d"
  by (simp add: positional_def)

lemma positional_Nil [simp]: "positional b [] = 0"
  by (simp add: positional_def)

lemma positional_inj:
  "length ds = length es \<Longrightarrow> \<forall>d \<in> set ds. d < b \<Longrightarrow> \<forall>e \<in> set es. e < b \<Longrightarrow>
     positional b ds = positional b es \<Longrightarrow> ds = es"
proof (induction ds arbitrary: es rule: rev_induct)
  case (snoc d ds)
  then obtain e es' where es: "es = es' @ [e]"
    by (cases es rule: rev_cases) auto
  have "d < b" "e < b" using snoc.prems es by auto
  moreover have eq: "positional b ds * b + d = positional b es' * b + e"
    using snoc.prems(4) by (simp add: es positional_snoc)
  ultimately have "d = e"
    by (metis mod_less mod_mult_self3)
  with eq \<open>d < b\<close> have "positional b ds = positional b es'"
    by simp
  note \<open>d = e\<close> this
  with snoc.IH [of es'] snoc.prems es show ?case by auto
qed auto

lemma positional_Cons: "positional b (d # ds) = d * b ^ length ds + positional b ds"
  by (induction ds rule: rev_induct)
    (simp_all add: positional_snoc algebra_simps flip: append_Cons, simp add: positional_def)

lemma positional_bound:
  "\<forall>d \<in> set ds. d < b \<Longrightarrow> ds \<noteq> [] \<Longrightarrow> positional b ds < (hd ds + 1) * b ^ (length ds - 1)"
proof (induction ds)
  case (Cons d ds)
  have "positional b ds < b ^ length ds"
  proof (cases ds)
    case (Cons e es)
    with Cons.prems have "positional b ds < (e + 1) * b ^ length es"
      using Cons.IH by simp
    also have "\<dots> \<le> b * b ^ length es"
      using Cons.prems Cons by (intro mult_right_mono) auto
    finally show ?thesis using Cons by simp
  qed simp
  then show ?case by (simp add: positional_Cons)
qed simp

subsection \<open>The documented codec satisfies the laws\<close>

lemma index_of_Some: "index_of x ys = Some n \<Longrightarrow> n < length ys \<and> ys ! n = x"
  by (induction ys arbitrary: n) (auto split: if_splits)

lemma index_of_nth: "distinct ys \<Longrightarrow> n < length ys \<Longrightarrow> index_of (ys ! n) ys = Some n"
  by (induction ys arbitrary: n) (auto simp: nth_Cons split: nat.splits)

lemma crockford_upper: "c \<in> set crockford \<Longrightarrow> \<not> is_ascii_lowercase c"
  by (auto simp: crockford_def is_ascii_lowercase_def)

lemma crockford_distinct: "distinct crockford" "length crockford = 32"
  by (simp_all add: crockford_def)

lemma crockford_value_nth: "n < 32 \<Longrightarrow> crockford_value (crockford ! n) = Some n"
  using crockford_upper [of "crockford ! n"] crockford_distinct
  by (simp add: crockford_value_def to_ascii_uppercase_def index_of_nth)

lemma crockford_value_Some:
  "crockford_value c = Some n \<Longrightarrow> n < 32 \<and> (\<not> is_ascii_lowercase c \<longrightarrow> crockford ! n = c)"
  using crockford_distinct
  by (auto simp: crockford_value_def to_ascii_uppercase_def dest: index_of_Some)

lemma positional_groups:
  "positional 32 (map (\<lambda>i. x div 32 ^ (n - 1 - i) mod 32) [0..<n]) = x mod 32 ^ n"
proof (induction n arbitrary: x)
  case (Suc n)
  have "map (\<lambda>i. x div 32 ^ (Suc n - 1 - i) mod 32) [0..<Suc n]
      = map (\<lambda>i. (x div 32) div 32 ^ (n - 1 - i) mod 32) [0..<n] @ [x mod 32]"
    by (auto simp: Suc_diff_Suc div_mult2_eq [symmetric] simp flip: power_Suc)
  then show ?case
    by (simp only: positional_snoc Suc.IH) (simp add: mod_mult2_eq)
qed simp

lemma unat_group: "unat (drop_bit k u AND 0x1f) = unat u div 2 ^ k mod 32" for u :: u128
proof -
  have "drop_bit k u AND 0x1f = take_bit 5 (drop_bit k u)"
    by (simp add: take_bit_eq_mask mask_eq_exp_minus_1)
  then have "unat (drop_bit k u AND 0x1f) = take_bit 5 (drop_bit k (unat u))"
    by (simp only: unsigned_take_bit_eq unat_drop_bit_eq)
  then show ?thesis
    by (simp add: drop_bit_eq_div take_bit_eq_mod)
qed

lemma crockford_encode_value:
  "map (the \<circ> crockford_value) (crockford_encode u)
     = map (\<lambda>i. unat u div 32 ^ (26 - 1 - i) mod 32) [0..<26]"
  by (auto simp: crockford_encode_def crockford_value_nth unat_group power_mult)

lemma shift_or: "d < 32 \<Longrightarrow> push_bit 5 v OR of_nat d = v * 32 + of_nat d" for v :: u128
proof -
  assume d: "d < 32"
  then have "take_bit 5 (of_nat d) = (of_nat d :: u128)"
    unfolding take_bit_of_nat by (simp add: take_bit_nat_eq_self)
  then have "bit (of_nat d :: u128) n \<Longrightarrow> n < 5" for n
    by (metis bit_take_bit_iff)
  then have "\<not> bit (push_bit 5 v AND of_nat d) n" for n
    unfolding bit_and_iff bit_push_bit_iff using leD by blast
  then have "push_bit 5 v AND of_nat d = (0 :: u128)"
    by (intro bit_eqI) simp
  then have "push_bit 5 v OR of_nat d = push_bit 5 v + of_nat d"
    by (simp add: disjunctive_add_eq_or)
  then show ?thesis by (simp add: push_bit_eq_mult)
qed

lemma crockford_shift_value:
  "crockford_shift v s = Some u \<Longrightarrow>
     (\<forall>c \<in> set s. crockford_value c \<noteq> None)
     \<and> u = v * 32 ^ length s + of_nat (positional 32 (map (the \<circ> crockford_value) s))"
proof (induction v s rule: crockford_shift.induct)
  case (2 v c cs)
  then obtain d where d: "crockford_value c = Some d" "d < 32"
    by (auto simp: bind_eq_Some_conv dest: crockford_value_Some)
  with 2 have "crockford_shift (v * 32 + of_nat d) cs = Some u"
    by (simp add: shift_or)
  then show ?case
    using 2 d by (auto simp: shift_or positional_Cons algebra_simps)
qed simp

lemma crockford_shift_total:
  "\<forall>c \<in> set s. crockford_value c \<noteq> None \<Longrightarrow> crockford_shift v s \<noteq> None"
  by (induction s arbitrary: v) auto

interpretation ulid: ulid_laws crockford_encode crockford_decode
proof
  fix u :: u128 and s
  have "unat u div 32 ^ (25 - i) mod 32 < 32" for i by simp
  then show "set (crockford_encode u) \<subseteq> set crockford"
    using crockford_distinct(2) by (auto simp: crockford_encode_def unat_group)
  show "length (crockford_encode u) = 26"
    by (simp add: crockford_encode_def)
  have "unat u < 32 ^ 26"
    using unat_bounded [of u] by simp
  then show "positional 32 (map (the \<circ> crockford_value) (crockford_encode u)) = unat u"
    unfolding crockford_encode_value positional_groups by simp
  show "crockford_decode s \<noteq> None \<longleftrightarrow> length s = 26 \<and> (\<forall>c \<in> set s. crockford_value c \<noteq> None)"
    using crockford_shift_total crockford_shift_value
    by (auto simp: crockford_decode_def split: if_splits)
  show "crockford_decode s = Some u \<Longrightarrow>
      u = of_nat (positional 32 (map (the \<circ> crockford_value) s))"
    by (auto simp: crockford_decode_def dest: crockford_shift_value split: if_splits)
qed

subsection \<open>The strict parser\<close>

context ulid_laws
begin

lemma encode_canonical:
  obtains c cs where "encode u = c # cs" "48 \<le> (of_char c :: nat)" "(of_char c :: nat) \<le> 55"
proof -
  obtain c cs where e: "encode u = c # cs"
    using encode_length [of u] by (cases "encode u") auto
  with encode_symbols obtain n where n: "n < 32" "c = crockford ! n"
    using crockford_distinct by (metis in_set_conv_nth list.set_intros(1) subsetD)
  have "n * 32 ^ 25 \<le> unat u"
    using encode_value [of u] encode_length [of u] n
    by (simp add: e positional_Cons crockford_value_nth)
  with unat_bounded [of u] have "n < 8" by simp
  then have "n \<in> {0, 1, 2, 3, 4, 5, 6, 7}" by auto
  with n e show ?thesis
    by (intro that [of c cs]) (auto simp: crockford_def)
qed

lemma decode_encode: "decode (encode u) = Some u"
proof -
  have "\<forall>c \<in> set (encode u). crockford_value c \<noteq> None"
    using encode_symbols crockford_value_nth crockford_distinct
    by (metis in_set_conv_nth option.distinct(1) subsetD)
  then obtain v where v: "decode (encode u) = Some v"
    using decode_symbols encode_length by blast
  then show ?thesis
    using decode_value [OF v] by (simp add: encode_value)
qed

lemma canonical_decode:
  assumes d: "decode (c # cs) = Some u"
    and lower: "\<forall>x \<in> set (c # cs). \<not> is_ascii_lowercase x"
    and first: "48 \<le> (of_char c :: nat)" "(of_char c :: nat) \<le> 55"
  shows "c # cs = encode u"
proof -
  let ?v = "the \<circ> crockford_value" and ?s = "c # cs"
  have syms: "\<forall>x \<in> set ?s. \<exists>n < 32. crockford_value x = Some n \<and> x = crockford ! n"
    using decode_symbols [of ?s] d lower crockford_value_Some by force
  have len: "length ?s = 26" using decode_symbols [of ?s] d by simp
  obtain n where n: "n < 32" "crockford_value c = Some n" "c = crockford ! n"
    using syms by auto
  have "n < 8"
  proof (rule ccontr)
    assume "\<not> n < 8"
    with n(1) have "n \<in> {8, 9, 10, 11, 12, 13, 14, 15, 16, 17, 18, 19, 20, 21, 22, 23, 24,
        25, 26, 27, 28, 29, 30, 31}"
      by (simp; presburger)
    with n(3) first show False by (auto simp: crockford_def)
  qed
  moreover have "positional 32 (map ?v ?s) < (hd (map ?v ?s) + 1) * 32 ^ (length (map ?v ?s) - 1)"
    using syms by (intro positional_bound) auto
  ultimately have "positional 32 (map ?v ?s) < 2 ^ 128"
    using len n by simp
  then have "positional 32 (map ?v ?s) = positional 32 (map ?v (encode u))"
    using decode_value [OF d] by (simp add: encode_value unat_of_nat_small)
  moreover have enc: "\<forall>x \<in> set (encode u). \<exists>n < 32. crockford_value x = Some n \<and> x = crockford ! n"
    using encode_symbols [of u] crockford_distinct crockford_value_nth
    by (metis in_set_conv_nth subsetD)
  ultimately have "map ?v ?s = map ?v (encode u)"
    using syms len encode_length by (intro positional_inj [of _ _ 32]) auto
  moreover have "\<forall>x \<in> set ?s \<union> set (encode u). x = crockford ! ?v x"
    using syms enc by force
  then have "inj_on ?v (set ?s \<union> set (encode u))"
    by (metis inj_onI)
  ultimately show ?thesis
    using map_inj_on by blast
qed

lemma id_from_str_exact: "id_from_str decode p s = Inr u \<longleftrightarrow> s = id_display encode p u"
proof
  assume "id_from_str decode p s = Inr u"
  then obtain c cs where "s = (p @ ''_'') @ c # cs" "decode (c # cs) = Some u"
      "\<forall>x \<in> set (c # cs). \<not> is_ascii_lowercase x" "48 \<le> (of_char c :: nat)" "(of_char c :: nat) \<le> 55"
    unfolding id_from_str_def
    by (auto simp: strip_prefix_Some list_ex_iff split: option.splits if_splits list.splits)
  then show "s = id_display encode p u"
    using canonical_decode by (simp add: id_display_def)
next
  assume s: "s = id_display encode p u"
  obtain c cs where e: "encode u = c # cs" "48 \<le> (of_char c :: nat)" "(of_char c :: nat) \<le> 55"
    by (rule encode_canonical)
  have "strip_prefix (p @ ''_'') s = Some (encode u)"
    by (simp add: strip_prefix_Some s id_display_def)
  moreover have "\<not> list_ex is_ascii_lowercase (encode u)"
    using encode_symbols [of u] crockford_upper by (auto simp: list_ex_iff)
  ultimately show "id_from_str decode p s = Inr u"
    using e decode_encode [of u] by (simp add: id_from_str_def)
qed

end

text \<open>
  The parser of prefixed ids (\<open>scan_\<close>, \<open>evt_\<close>, \<open>scope_\<close>): the strict parser accepts
  exactly the display of an id, although the codec underneath is neither case-sensitive nor
  injective. Two spellings never name one id, and every id parses back.
\<close>

theorem id_from_str_exact_display:
  assumes "ulid_laws encode decode"
  shows "id_from_str decode p s = Inr u \<longleftrightarrow> s = id_display encode p u"
  by (rule ulid_laws.id_from_str_exact [OF assms])

theorem id_from_str_exact_display_witness:
  "id_from_str crockford_decode ''scan'' (id_display crockford_encode ''scan'' 5) = Inr 5"
  using id_from_str_exact_display [OF ulid.ulid_laws_axioms] by blast

end
