(* ===== verification/Canonical.thy ===== *)
theory Canonical
  imports Ids
begin

text \<open>
  JSON values and the canonical form that a plan hash is computed over
  (\<open>crates/bathy-types/src/canonical.rs\<close>). The string-literal encoder of the external
  \<open>serde_json\<close> crate and the hash of the external \<open>blake3\<close> crate are parameters; what the
  injectivity theorem needs of JSON string literals is the locale \<open>json_literals\<close>.
\<close>

section \<open>JSON values\<close>

text \<open>\<open>serde_json::Number\<close>: a non-negative \<open>u64\<close>, a negative \<open>i64\<close>, or a float (its bits).\<close>

datatype json_number = PosInt u64 | NegInt u64 | Float u64

datatype json =
    JNull
  | JBool bool
  | JNumber json_number
  | JString string
  | JArray "json list"
  | JObject "(string \<times> json) list"

fun json_wf :: "json \<Rightarrow> bool" where
  "json_wf (JNumber (NegInt i)) = (sint i < 0)"
| "json_wf (JArray vs) = (\<forall>v \<in> set vs. json_wf v)"
| "json_wf (JObject m) = (distinct (map fst m) \<and> (\<forall>kv \<in> set m. json_wf (snd kv)))"
| "json_wf _ = True"

datatype canonical_error = NonIntegerNumber | StringNotEncodable string

fun as_i64 :: "json_number \<Rightarrow> int option" where
  "as_i64 (PosInt n) = (if unat n < 2 ^ 63 then Some (uint n) else None)"
| "as_i64 (NegInt i) = Some (sint i)"
| "as_i64 (Float b) = None"

fun as_u64 :: "json_number \<Rightarrow> u64 option" where
  "as_u64 (PosInt n) = Some n"
| "as_u64 (NegInt i) = None"
| "as_u64 (Float b) = None"

definition show_int :: "int \<Rightarrow> string" where
  "show_int i = (if i < 0 then ''-'' @ show_nat (nat (- i)) else show_nat (nat i))"

section \<open>The canonical writer\<close>

type_synonym encoder = "string \<Rightarrow> string option"

definition json_string :: "encoder \<Rightarrow> string \<Rightarrow> canonical_error + string" where
  "json_string enc s =
     (case enc s of None \<Rightarrow> Inl (StringNotEncodable s) | Some t \<Rightarrow> Inr t)"

fun join_comma :: "string list \<Rightarrow> string" where
  "join_comma [] = []"
| "join_comma [s] = s"
| "join_comma (s # t # ss) = s @ '','' @ join_comma (t # ss)"

lemma collect_results_cong [fundef_cong]:
  "xs = ys \<Longrightarrow> (\<And>x. x \<in> set ys \<Longrightarrow> f x = g x) \<Longrightarrow> collect_results f xs = collect_results g ys"
  by (induction xs arbitrary: ys) (auto split: sum.splits)

lemma size_json_object: "(k, v) \<in> set m \<Longrightarrow> size v < Suc (size_list (size_prod (\<lambda>_. 0) size) m)"
  by (induction m) auto

function write_canonical :: "encoder \<Rightarrow> json \<Rightarrow> canonical_error + string" where
  "write_canonical enc JNull = Inr ''null''"
| "write_canonical enc (JBool b) = Inr (if b then ''true'' else ''false'')"
| "write_canonical enc (JNumber n) =
     (case as_i64 n of
        Some i \<Rightarrow> Inr (show_int i)
      | None \<Rightarrow> (case as_u64 n of Some u \<Rightarrow> Inr (show_word u) | None \<Rightarrow> Inl NonIntegerNumber))"
| "write_canonical enc (JString s) = json_string enc s"
| "write_canonical enc (JArray items) =
     res_bind (collect_results (write_canonical enc) items)
       (\<lambda>ss. Inr (''['' @ join_comma ss @ '']''))"
| "write_canonical enc (JObject m) =
     res_bind
       (collect_results
         (\<lambda>kv. res_bind (json_string enc (fst kv))
            (\<lambda>ks. case write_canonical enc (snd kv) of
                     Inl e \<Rightarrow> Inl e | Inr vs \<Rightarrow> Inr (ks @ '':'' @ vs)))
         (sort_key fst m))
       (\<lambda>ss. Inr (''{'' @ join_comma ss @ ''}''))"
  by pat_completeness auto
termination
  by (relation "measure (size \<circ> snd)")
    (auto dest: size_json_object simp: less_Suc_eq_le intro: size_list_estimation')

definition canonical_json :: "encoder \<Rightarrow> json \<Rightarrow> canonical_error + string" where
  "canonical_json enc v = write_canonical enc v"

definition plan_digest :: "encoder \<Rightarrow> (string \<Rightarrow> digest) \<Rightarrow> json \<Rightarrow> canonical_error + digest" where
  "plan_digest enc of_bytes plan =
     res_bind (canonical_json enc plan) (\<lambda>s. Inr (of_bytes s))"

section \<open>The normal form that the text identifies\<close>

fun json_norm :: "json \<Rightarrow> json" where
  "json_norm (JArray vs) = JArray (map json_norm vs)"
| "json_norm (JObject m) = JObject (sort_key fst (map (\<lambda>(k, v). (k, json_norm v)) m))"
| "json_norm v = v"

text \<open>
  Decimal text determines the number, and its characters are digits.
\<close>

definition is_digit :: "char \<Rightarrow> bool" where
  "is_digit c \<longleftrightarrow> c \<in> set ''0123456789''"

lemma digits_rev_base: "n < 10 \<Longrightarrow> digits_rev 10 n = [n]"
  by (subst digits_rev.simps) simp

lemma digits_rev_step: "10 \<le> n \<Longrightarrow> digits_rev 10 n = (n mod 10) # digits_rev 10 (n div 10)"
  by (subst digits_rev.simps) simp

lemma digits_rev_small: "d \<in> set (digits_rev 10 n) \<Longrightarrow> d < 10"
proof (induction n rule: less_induct)
  case (less n)
  show ?case
  proof (cases "n < 10")
    case True
    with less.prems show ?thesis by (simp add: digits_rev_base)
  next
    case False
    with less.prems have "d = n mod 10 \<or> d \<in> set (digits_rev 10 (n div 10))"
      by (simp add: digits_rev_step)
    then show ?thesis
      using less.IH [of "n div 10"] False by auto
  qed
qed

lemma positional_digits_rev: "positional 10 (rev (digits_rev 10 n)) = n"
proof (induction n rule: less_induct)
  case (less n)
  then show ?case
    by (cases "n < 10")
      (simp_all add: digits_rev_base digits_rev_step not_less positional_snoc, simp add: positional_def)
qed

lemma less10_cases: "(n::nat) < 10 \<Longrightarrow> n \<in> {0, 1, 2, 3, 4, 5, 6, 7, 8, 9}"
  unfolding insert_iff empty_iff by presburger

lemma digit_char_digit: "d < 10 \<Longrightarrow> is_digit (digit_char d)"
  by (drule less10_cases) (auto simp: is_digit_def digit_char_def)

lemma digit_char_inj:
  assumes "a < 10" "b < 10" "digit_char a = digit_char b"
  shows "a = b"
proof -
  have "Some a = to_digit 16 (digit_char a)" "to_digit 16 (digit_char b) = Some b"
    using assms(1,2) by (intro to_digit_digit_char to_digit_digit_char [symmetric]; linarith)+
  then show ?thesis
    unfolding assms(3) by (metis option.inject)
qed

lemma show_nat_digits: "list_all is_digit (show_nat n)"
  by (auto simp: show_nat_def list_all_iff intro: digit_char_digit digits_rev_small)

lemma digits_rev_not_Nil: "digits_rev 10 n \<noteq> []"
  by (cases "n < 10") (simp_all add: digits_rev_base digits_rev_step)

lemma show_nat_not_Nil: "show_nat n \<noteq> []"
  by (simp add: show_nat_def digits_rev_not_Nil)

lemma show_nat_inj: "show_nat m = show_nat n \<longleftrightarrow> m = n"
proof
  assume eq: "show_nat m = show_nat n"
  let ?m = "rev (digits_rev 10 m)" and ?n = "rev (digits_rev 10 n)"
  have "inj_on digit_char (set ?m \<union> set ?n)"
  proof (rule inj_onI)
    fix a b assume "a \<in> set ?m \<union> set ?n" "b \<in> set ?m \<union> set ?n" "digit_char a = digit_char b"
    moreover from this(1,2) have "a < 10" "b < 10"
      unfolding set_rev Un_iff by (elim disjE digits_rev_small)+
    ultimately show "a = b" by (intro digit_char_inj)
  qed
  then have "?m = ?n"
    by (rule map_inj_on [rotated]) (rule eq [unfolded show_nat_def])
  then have "positional 10 ?m = positional 10 ?n"
    by (rule arg_cong)
  then show "m = n"
    unfolding positional_digits_rev .
qed simp

lemma to_digit_10: "d < 10 \<Longrightarrow> to_digit 10 (digit_char d) = Some d"
  by (drule less10_cases) (auto simp: to_digit_def digit_char_def)

lemma parse_digits_chars:
  "\<forall>d \<in> set ds. d < 10 \<Longrightarrow> parse_digits acc (map digit_char ds) = Some (foldl (\<lambda>v d. v * 10 + d) acc ds)"
  by (induction ds arbitrary: acc) (simp_all add: to_digit_10)

lemma parse_show_nat: "parse_digits 0 (show_nat n) = Some n"
proof -
  have "\<forall>d \<in> set (rev (digits_rev 10 n)). d < 10"
    using digits_rev_small by simp
  from parse_digits_chars [OF this] show ?thesis
    using positional_digits_rev [of n] by (simp add: show_nat_def positional_def)
qed

text \<open>A text that may follow a number: it does not go on with a digit.\<close>

definition stops :: "string \<Rightarrow> bool" where
  "stops x \<longleftrightarrow> (case x of [] \<Rightarrow> True | c # _ \<Rightarrow> \<not> is_digit c)"

lemma digits_prefix:
  "list_all is_digit s \<Longrightarrow> list_all is_digit t \<Longrightarrow> stops x \<Longrightarrow> stops y \<Longrightarrow> s @ x = t @ y \<Longrightarrow> s = t"
proof (induction s arbitrary: t)
  case Nil
  then show ?case by (cases t) (auto simp: stops_def)
next
  case (Cons c s)
  then show ?case by (cases t) (auto simp: stops_def)
qed

lemma show_int_prefix:
  assumes "show_int i @ x = show_int j @ y" "stops x" "stops y"
  shows "i = j"
proof -
  have minus: "show_nat k @ a \<noteq> ''-'' @ b" for k a b
    using show_nat_digits [of k] show_nat_not_Nil [of k]
    by (cases "show_nat k") (auto simp: is_digit_def)
  have pre: "show_nat k @ x = show_nat l @ y \<Longrightarrow> k = l" for k l
    using digits_prefix [OF show_nat_digits show_nat_digits assms(2,3)] show_nat_inj by blast
  show ?thesis
    using assms(1) minus [of "nat i" x] minus [of "nat j" y, symmetric]
    by (auto simp: show_int_def split: if_splits dest!: pre)
qed

text \<open>A comma-separated list of self-delimiting texts, closed by a bracket, is read in one way.\<close>

definition self_delimiting :: "string set \<Rightarrow> string set \<Rightarrow> bool" where
  "self_delimiting A B \<longleftrightarrow>
     (\<forall>s \<in> A. \<forall>t \<in> B. \<forall>x y. stops x \<longrightarrow> stops y \<longrightarrow> s @ x = t @ y \<longrightarrow> s = t)"

lemma self_delimitingD:
  "self_delimiting A B \<Longrightarrow> s \<in> A \<Longrightarrow> t \<in> B \<Longrightarrow> stops x \<Longrightarrow> stops y \<Longrightarrow> s @ x = t @ y \<Longrightarrow> s = t"
  unfolding self_delimiting_def by blast

lemma self_delimiting_mono:
  "self_delimiting A B \<Longrightarrow> A' \<subseteq> A \<Longrightarrow> B' \<subseteq> B \<Longrightarrow> self_delimiting A' B'"
  unfolding self_delimiting_def by blast

definition tail_text :: "char \<Rightarrow> string list \<Rightarrow> string \<Rightarrow> string" where
  "tail_text c ss x = concat (map (\<lambda>s. CHR '','' # s) ss) @ c # x"

lemma tail_text_simps:
  "tail_text c [] x = c # x"
  "tail_text c (s # ss) x = CHR '','' # s @ tail_text c ss x"
  by (simp_all add: tail_text_def)

lemma join_tail: "join_comma (s # ss) @ c # x = s @ tail_text c ss x"
  by (induction ss arbitrary: s) (simp_all add: tail_text_simps)

lemma stops_tail: "\<not> is_digit c \<Longrightarrow> stops (tail_text c ss x)"
  by (cases ss) (simp_all add: tail_text_simps stops_def is_digit_def)

lemma tail_unique:
  assumes "self_delimiting (set ss) (set ts)" "\<not> is_digit c" "c \<noteq> CHR '',''"
    and "tail_text c ss x = tail_text c ts y"
  shows "ss = ts \<and> x = y"
  using assms(1,4)
proof (induction ss arbitrary: ts)
  case Nil
  then show ?case using assms(3) by (cases ts) (simp_all add: tail_text_simps)
next
  case (Cons s ss)
  obtain t ts' where ts: "ts = t # ts'"
    using Cons.prems(2) assms(3) by (cases ts) (simp_all add: tail_text_simps)
  then have eq: "s @ tail_text c ss x = t @ tail_text c ts' y"
    using Cons.prems(2) by (simp add: tail_text_simps)
  have "s = t"
    by (rule self_delimitingD [OF Cons.prems(1) _ _ stops_tail [OF assms(2)] stops_tail [OF assms(2)] eq])
      (simp_all add: ts)
  moreover from this eq have "tail_text c ss x = tail_text c ts' y"
    by simp
  then have "ss = ts' \<and> x = y"
    using Cons.IH [of ts'] self_delimiting_mono [OF Cons.prems(1)] by (simp add: ts subset_insertI)
  ultimately show ?case by (simp add: ts)
qed

lemma join_unique:
  assumes del: "self_delimiting (set ss) (set ts)"
    and hd: "\<forall>s \<in> set ss \<union> set ts. s \<noteq> [] \<and> hd s \<noteq> c"
    and c: "\<not> is_digit c" "c \<noteq> CHR '',''"
    and eq: "join_comma ss @ c # x = join_comma ts @ c # y"
  shows "ss = ts \<and> x = y"
proof (cases ss)
  case Nil
  with eq hd show ?thesis
    by (cases ts) (auto simp: join_tail neq_Nil_conv simp del: join_comma.simps(2,3))
next
  case (Cons s ss')
  obtain t ts' where ts: "ts = t # ts'"
    using eq hd Cons by (cases ts) (auto simp: join_tail neq_Nil_conv simp del: join_comma.simps(2,3))
  have "tail_text c (s # ss') x = tail_text c (t # ts') y"
    using eq unfolding Cons ts join_tail tail_text_simps by simp
  then show ?thesis
    using tail_unique [OF del c] Cons ts by blast
qed

section \<open>String literals\<close>

locale json_literals =
  fixes enc :: encoder
  assumes enc_quote: "enc s = Some a \<Longrightarrow> \<exists>r. a = CHR ''\"'' # r"
    and enc_delimited: "enc s = Some a \<Longrightarrow> enc t = Some b \<Longrightarrow> a @ x = b @ y \<Longrightarrow> s = t \<and> x = y"

text \<open>The escaping that JSON prescribes, in the form \<open>serde_json\<close> documents.\<close>

definition escape_char :: "char \<Rightarrow> string" where
  "escape_char c =
     (let n = of_char c :: nat in
      if n = 34 then [CHR 0x5C, CHR 0x22]
      else if n = 92 then [CHR 0x5C, CHR 0x5C]
      else if n = 8 then [CHR 0x5C, CHR ''b'']
      else if n = 12 then [CHR 0x5C, CHR ''f'']
      else if n = 10 then [CHR 0x5C, CHR ''n'']
      else if n = 13 then [CHR 0x5C, CHR ''r'']
      else if n = 9 then [CHR 0x5C, CHR ''t'']
      else if n < 32 then [CHR 0x5C, CHR ''u'', CHR ''0'', CHR ''0'',
                           digit_char (n div 16), digit_char (n mod 16)]
      else [c])"

definition json_literal :: encoder where
  "json_literal s = Some (CHR 0x22 # concat (map escape_char s) @ [CHR 0x22])"

lemma digit_char16_inj:
  assumes "a < 16" "b < 16" "digit_char a = digit_char b"
  shows "a = b"
proof -
  have "Some a = to_digit 16 (digit_char a)" "to_digit 16 (digit_char b) = Some b"
    using assms(1,2) by (intro to_digit_digit_char to_digit_digit_char [symmetric]; linarith)+
  then show ?thesis
    unfolding assms(3) by (metis option.inject)
qed

lemma escape_char_cases:
  obtains (plain) "escape_char c = [c]" "c \<noteq> CHR 0x22" "c \<noteq> CHR 0x5C"
  | (short) e n where "escape_char c = [CHR 0x5C, e]" "e \<noteq> CHR ''u''" "of_char c = (n :: nat)"
      "(n, e) \<in> {(34, CHR 0x22), (92, CHR 0x5C), (8, CHR ''b''), (12, CHR ''f''), (10, CHR ''n''),
        (13, CHR ''r''), (9, CHR ''t'')}"
  | (code) n where "escape_char c = [CHR 0x5C, CHR ''u'', CHR ''0'', CHR ''0'',
        digit_char (n div 16), digit_char (n mod 16)]" "of_char c = (n :: nat)" "n < 32"
proof -
  define n where "n = (of_char c :: nat)"
  consider "n = 34" | "n = 92" | "n = 8" | "n = 12" | "n = 10" | "n = 13" | "n = 9"
    | "n < 32" "n \<notin> {34, 92, 8, 12, 10, 13, 9}" | "\<not> n < 32" "n \<noteq> 34" "n \<noteq> 92"
    by fastforce
  then show ?thesis
  proof cases
    case 8
    then show ?thesis
      by (intro code [of n]) (simp_all add: escape_char_def n_def [symmetric] Let_def)
  next
    case 9
    then have "c \<noteq> CHR 0x22" "c \<noteq> CHR 0x5C"
      unfolding n_def by (intro notI; simp)+
    with 9 show ?thesis
      by (intro plain) (simp_all add: escape_char_def n_def [symmetric] Let_def)
  qed (rule short [OF _ _ n_def [symmetric]];
      simp add: escape_char_def n_def [symmetric] Let_def)+
qed

lemma escape_char_prefix:
  assumes "escape_char c @ x = escape_char d @ y"
  shows "c = d \<and> x = y"
proof -
  have of_char: "of_char c = (of_char d :: nat) \<Longrightarrow> c = d" by simp
  have code: "m = n" if "m < 32" "n < 32" "digit_char (m div 16) = digit_char (n div 16)"
      "digit_char (m mod 16) = digit_char (n mod 16)" for m n
  proof -
    have "m div 16 = n div 16" "m mod 16 = n mod 16"
      using that by (auto intro: digit_char16_inj)
    then show ?thesis by (metis div_mult_mod_eq)
  qed
  show ?thesis
    by (cases c rule: escape_char_cases; cases d rule: escape_char_cases)
      (use assms of_char code in auto)
qed

lemma escape_char_no_quote: "escape_char c @ x \<noteq> CHR 0x22 # y"
  by (cases c rule: escape_char_cases) auto

lemma escape_prefix:
  "concat (map escape_char s) @ CHR 0x22 # x = concat (map escape_char t) @ CHR 0x22 # y \<Longrightarrow>
     s = t \<and> x = y"
proof (induction s arbitrary: t)
  case Nil
  then show ?case
    by (cases t) (auto simp: escape_char_no_quote [symmetric])
next
  case (Cons c s)
  show ?case
  proof (cases t)
    case Nil
    with Cons.prems show ?thesis by (simp add: escape_char_no_quote)
  next
    case (Cons d t')
    with Cons.prems have "escape_char c @ concat (map escape_char s) @ CHR 0x22 # x
        = escape_char d @ concat (map escape_char t') @ CHR 0x22 # y" by simp
    then have "c = d \<and> concat (map escape_char s) @ CHR 0x22 # x
        = concat (map escape_char t') @ CHR 0x22 # y"
      by (rule escape_char_prefix)
    with Cons.IH [of t'] Cons show ?thesis by simp
  qed
qed

interpretation literal: json_literals json_literal
  by unfold_locales (auto simp: json_literal_def dest: escape_prefix)

section \<open>One text per normal form\<close>

definition entry_text :: "encoder \<Rightarrow> string \<times> json \<Rightarrow> canonical_error + string" where
  "entry_text enc kv =
     res_bind (json_string enc (fst kv))
       (\<lambda>ks. case write_canonical enc (snd kv) of
               Inl e \<Rightarrow> Inl e | Inr vs \<Rightarrow> Inr (ks @ '':'' @ vs))"

lemma write_object:
  "write_canonical enc (JObject m) =
     res_bind (collect_results (entry_text enc) (sort_key fst m)) (\<lambda>ss. Inr (''{'' @ join_comma ss @ ''}''))"
  by (simp add: entry_text_def [abs_def])

lemma entry_text_Inr:
  "entry_text enc kv = Inr s \<longleftrightarrow>
     (\<exists>ks vs. enc (fst kv) = Some ks \<and> write_canonical enc (snd kv) = Inr vs \<and> s = ks @ '':'' @ vs)"
  by (auto simp: entry_text_def res_bind_Inr_iff json_string_def split: option.splits sum.splits)

lemma insort_key_map: "insort_key fst (k, g v) (map (\<lambda>(k, v). (k, g v)) m)
    = map (\<lambda>(k, v). (k, g v)) (insort_key fst (k, v) m)"
  by (induction m) auto

lemma sort_key_map: "sort_key fst (map (\<lambda>(k, v). (k, g v)) m) = map (\<lambda>(k, v). (k, g v)) (sort_key fst m)"
  by (induction m) (auto simp: insort_key_map)

lemma list_all2_map_eq:
  "list_all2 f vs ss \<Longrightarrow> list_all2 g ws ss \<Longrightarrow>
     (\<And>v w s. v \<in> set vs \<Longrightarrow> w \<in> set ws \<Longrightarrow> f v s \<Longrightarrow> g w s \<Longrightarrow> h v = h w) \<Longrightarrow> map h vs = map h ws"
proof (induction vs arbitrary: ss ws)
  case (Cons v vs)
  then show ?case
    by (cases ss; cases ws) auto
qed auto

fun first_chars :: "json \<Rightarrow> string" where
  "first_chars JNull = ''n''"
| "first_chars (JBool b) = (if b then ''t'' else ''f'')"
| "first_chars (JNumber n) = ''-0123456789''"
| "first_chars (JString s) = [CHR 0x22]"
| "first_chars (JArray vs) = ''[''"
| "first_chars (JObject m) = ''{''"

lemma show_int_first: "\<exists>c r. show_int i = c # r \<and> c \<in> set ''-0123456789''"
proof (cases "i < 0")
  case False
  then show ?thesis
    using show_nat_digits [of "nat i"] show_nat_not_Nil [of "nat i"]
    by (cases "show_nat (nat i)") (auto simp: show_int_def is_digit_def)
qed (simp add: show_int_def)

lemma show_word_int: "show_word u = show_int (uint u)"
  by (simp add: show_word_def show_int_def not_less)

lemma write_number: "write_canonical enc (JNumber n) = Inr s \<Longrightarrow>
    \<exists>i. s = show_int i \<and> (case n of PosInt u \<Rightarrow> i = uint u | NegInt u \<Rightarrow> i = sint u | Float b \<Rightarrow> False)"
  by (cases n) (auto simp: show_word_int split: if_splits)

lemma write_first:
  assumes "json_literals enc" "write_canonical enc v = Inr s"
  shows "\<exists>c r. s = c # r \<and> c \<in> set (first_chars v)"
proof (cases v)
  case (JNumber n)
  with assms(2) show ?thesis
    using write_number show_int_first by (metis first_chars.simps(3))
next
  case (JString t)
  with assms show ?thesis
    by (auto simp: json_string_def dest!: json_literals.enc_quote split: option.splits)
qed (use assms(2) in \<open>auto simp: res_bind_Inr_iff split: if_splits simp del: set_ConsD\<close>)

lemma first_chars_kind:
  "c \<in> set (first_chars v) \<Longrightarrow> c \<in> set (first_chars w) \<Longrightarrow>
     (case v of
        JNull \<Rightarrow> w = JNull
      | JBool b \<Rightarrow> w = JBool b
      | JNumber n \<Rightarrow> (\<exists>n'. w = JNumber n')
      | JString s \<Rightarrow> (\<exists>s'. w = JString s')
      | JArray vs \<Rightarrow> (\<exists>ws. w = JArray ws)
      | JObject m \<Rightarrow> (\<exists>m'. w = JObject m'))"
  by (cases v; cases w) (auto split: if_splits)

definition readable :: "encoder \<Rightarrow> json \<Rightarrow> bool" where
  "readable enc v \<longleftrightarrow>
     (\<forall>w s t x y. json_wf w \<longrightarrow> write_canonical enc v = Inr s \<longrightarrow> write_canonical enc w = Inr t \<longrightarrow>
        stops x \<longrightarrow> stops y \<longrightarrow> s @ x = t @ y \<longrightarrow> s = t \<and> json_norm v = json_norm w)"

lemma readableD:
  "readable enc v \<Longrightarrow> json_wf w \<Longrightarrow> write_canonical enc v = Inr s \<Longrightarrow> write_canonical enc w = Inr t \<Longrightarrow>
     stops x \<Longrightarrow> stops y \<Longrightarrow> s @ x = t @ y \<Longrightarrow> s = t \<and> json_norm v = json_norm w"
  unfolding readable_def by blast

lemma readable_same:
  "readable enc v \<Longrightarrow> json_wf w \<Longrightarrow> write_canonical enc v = Inr s \<Longrightarrow> write_canonical enc w = Inr s \<Longrightarrow>
     json_norm v = json_norm w"
  using readableD [of enc v w s s "[]" "[]"] by (simp add: stops_def)

lemma number_unique:
  assumes "write_canonical enc (JNumber m) = Inr s" "write_canonical enc (JNumber n) = Inr t"
    and "json_wf (JNumber m)" "json_wf (JNumber n)" "stops x" "stops y" "s @ x = t @ y"
  shows "s = t \<and> m = n"
proof -
  obtain i j where ij: "s = show_int i" "t = show_int j"
    "case m of PosInt u \<Rightarrow> i = uint u | NegInt u \<Rightarrow> i = sint u | Float b \<Rightarrow> False"
    "case n of PosInt u \<Rightarrow> j = uint u | NegInt u \<Rightarrow> j = sint u | Float b \<Rightarrow> False"
    using write_number [OF assms(1)] write_number [OF assms(2)] by blast
  have "i = j"
    using assms(5-7) unfolding ij(1,2) by (intro show_int_prefix)
  moreover have "\<not> (uint u = sint v \<and> sint v < 0)" for u v :: u64
    using uint_ge_0 [of u] by linarith
  ultimately show ?thesis
    using ij assms(3,4)
    by (cases m; cases n) (auto intro: signed_word_eqI unsigned_word_eqI)
qed

context json_literals
begin

lemma array_readable:
  assumes IH: "\<And>v. v \<in> set vs \<Longrightarrow> readable enc v"
    and w: "json_wf (JArray ws)"
    and s: "write_canonical enc (JArray vs) = Inr s" "write_canonical enc (JArray ws) = Inr t"
    and eq: "s @ x = t @ y"
  shows "s = t \<and> json_norm (JArray vs) = json_norm (JArray ws)"
proof -
  obtain ss ts where ss: "list_all2 (\<lambda>v s. write_canonical enc v = Inr s) vs ss"
      "list_all2 (\<lambda>v s. write_canonical enc v = Inr s) ws ts"
      "s = ''['' @ join_comma ss @ '']''" "t = ''['' @ join_comma ts @ '']''"
    using s by (auto simp: res_bind_Inr_iff collect_results_Inr)
  have mem: "s \<in> set ss \<Longrightarrow> \<exists>v \<in> set vs. write_canonical enc v = Inr s"
    "s \<in> set ts \<Longrightarrow> \<exists>v \<in> set ws. write_canonical enc v = Inr s" for s
    using list_all2_right [OF ss(1)] list_all2_right [OF ss(2)] by blast+
  have "self_delimiting (set ss) (set ts)"
    unfolding self_delimiting_def using mem w readableD IH by (metis json_wf.simps(2))
  moreover have "\<forall>s \<in> set ss \<union> set ts. s \<noteq> [] \<and> hd s \<noteq> CHR '']''"
  proof
    fix s assume "s \<in> set ss \<union> set ts"
    then obtain v where "write_canonical enc v = Inr s" using mem by blast
    then obtain c r where "s = c # r" "c \<in> set (first_chars v)"
      using write_first [OF json_literals_axioms] by blast
    then show "s \<noteq> [] \<and> hd s \<noteq> CHR '']''"
      by (cases v) (auto split: if_splits)
  qed
  moreover have "join_comma ss @ CHR '']'' # x = join_comma ts @ CHR '']'' # y"
    using eq ss by simp
  ultimately have "ss = ts"
    by (intro join_unique [THEN conjunct1]) (simp_all add: is_digit_def)
  then have "map json_norm vs = map json_norm ws"
    using w by (intro list_all2_map_eq [OF ss(1) ss(2) [folded \<open>ss = ts\<close>]]) (auto intro: readable_same IH)
  with \<open>ss = ts\<close> ss show ?thesis by simp
qed


lemma object_readable:
  assumes IH: "\<And>k v. (k, v) \<in> set m \<Longrightarrow> readable enc v"
    and w: "json_wf (JObject m')"
    and s: "write_canonical enc (JObject m) = Inr s" "write_canonical enc (JObject m') = Inr t"
    and eq: "s @ x = t @ y"
  shows "s = t \<and> json_norm (JObject m) = json_norm (JObject m')"
proof -
  let ?es = "sort_key fst m" and ?fs = "sort_key fst m'"
  have IH': "e \<in> set ?es \<Longrightarrow> readable enc (snd e)" for e
    using IH [of "fst e" "snd e"] by simp
  have w': "e \<in> set ?fs \<Longrightarrow> json_wf (snd e)" for e
    using w by auto
  obtain ss ts where ss: "list_all2 (\<lambda>e s. entry_text enc e = Inr s) ?es ss"
      "list_all2 (\<lambda>e s. entry_text enc e = Inr s) ?fs ts"
      "s = ''{'' @ join_comma ss @ ''}''" "t = ''{'' @ join_comma ts @ ''}''"
    using s unfolding write_object by (auto simp: res_bind_Inr_iff collect_results_Inr)
  have entry: "a = b \<and> fst e = fst f \<and> json_norm (snd e) = json_norm (snd f)"
    if h: "e \<in> set ?es" "f \<in> set ?fs" "entry_text enc e = Inr a" "entry_text enc f = Inr b"
      "stops x" "stops y" "a @ x = b @ y" for e f a b x y
  proof -
    obtain ks us ls vs where kv: "enc (fst e) = Some ks" "write_canonical enc (snd e) = Inr us"
        "a = ks @ '':'' @ us" "enc (fst f) = Some ls" "write_canonical enc (snd f) = Inr vs"
        "b = ls @ '':'' @ vs"
      using h(3,4) unfolding entry_text_Inr by blast
    then have "ks @ ('':'' @ us @ x) = ls @ ('':'' @ vs @ y)"
      using h(7) by simp
    from enc_delimited [OF kv(1) kv(4) this] have k: "fst e = fst f" "us @ x = vs @ y" by simp_all
    then have "us = vs \<and> json_norm (snd e) = json_norm (snd f)"
      using readableD [OF IH' [OF h(1)] w' [OF h(2)] kv(2) kv(5) h(5,6)] by simp
    with k kv show ?thesis by simp
  qed
  have mem: "a \<in> set ss \<Longrightarrow> \<exists>e \<in> set ?es. entry_text enc e = Inr a"
    "a \<in> set ts \<Longrightarrow> \<exists>e \<in> set ?fs. entry_text enc e = Inr a" for a
    using list_all2_right [OF ss(1)] list_all2_right [OF ss(2)] by blast+
  have "self_delimiting (set ss) (set ts)"
    unfolding self_delimiting_def using mem entry by blast
  moreover have "\<forall>s \<in> set ss \<union> set ts. s \<noteq> [] \<and> hd s \<noteq> CHR ''}''"
  proof
    fix s assume "s \<in> set ss \<union> set ts"
    then obtain e where "entry_text enc e = Inr s" using mem by blast
    then show "s \<noteq> [] \<and> hd s \<noteq> CHR ''}''"
      unfolding entry_text_Inr by (auto dest!: enc_quote)
  qed
  moreover have "join_comma ss @ CHR ''}'' # x = join_comma ts @ CHR ''}'' # y"
    using eq ss by simp
  ultimately have same: "ss = ts"
    by (intro join_unique [THEN conjunct1]) (simp_all add: is_digit_def)
  have "map (\<lambda>(k, v). (k, json_norm v)) ?es = map (\<lambda>(k, v). (k, json_norm v)) ?fs"
    by (rule list_all2_map_eq [OF ss(1) ss(2) [folded same]])
      (use entry [where x = "[]" and y = "[]"] in \<open>auto simp: stops_def\<close>)
  with same ss show ?thesis by (simp add: sort_key_map)
qed

lemma readableI:
  assumes "\<And>w s t x y c. json_wf w \<Longrightarrow> write_canonical enc v = Inr s \<Longrightarrow>
    write_canonical enc w = Inr t \<Longrightarrow> stops x \<Longrightarrow> stops y \<Longrightarrow> s @ x = t @ y \<Longrightarrow>
    c \<in> set (first_chars v) \<Longrightarrow> c \<in> set (first_chars w) \<Longrightarrow> s = t \<and> json_norm v = json_norm w"
  shows "readable enc v"
  unfolding readable_def
proof (intro allI impI)
  fix w s t x y
  assume a: "json_wf w" "write_canonical enc v = Inr s" "write_canonical enc w = Inr t"
    "stops x" "stops y" "s @ x = t @ y"
  then obtain c where "c \<in> set (first_chars v)" "c \<in> set (first_chars w)"
    using write_first [OF json_literals_axioms a(2)] write_first [OF json_literals_axioms a(3)]
    by auto
  with a show "s = t \<and> json_norm v = json_norm w" by (intro assms)
qed

lemma all_readable: "json_wf v \<Longrightarrow> readable enc v"
proof (induction v)
  case (JArray vs)
  show ?case
  proof (rule readableI)
    fix w s t x y c
    assume a: "json_wf w" "write_canonical enc (JArray vs) = Inr s" "write_canonical enc w = Inr t"
      "s @ x = t @ y" "c \<in> set (first_chars (JArray vs))" "c \<in> set (first_chars w)"
    then obtain ws where w: "w = JArray ws"
      using first_chars_kind [OF a(5,6)] by auto
    show "s = t \<and> json_norm (JArray vs) = json_norm w"
      unfolding w using JArray by (intro array_readable [OF _ a(1-4) [unfolded w]]) auto
  qed
next
  case (JObject m)
  show ?case
  proof (rule readableI)
    fix w s t x y c
    assume a: "json_wf w" "write_canonical enc (JObject m) = Inr s" "write_canonical enc w = Inr t"
      "s @ x = t @ y" "c \<in> set (first_chars (JObject m))" "c \<in> set (first_chars w)"
    then obtain m' where w: "w = JObject m'"
      using first_chars_kind [OF a(5,6)] by auto
    have "(k, v) \<in> set m \<Longrightarrow> readable enc v" for k v
      using JObject by force
    then show "s = t \<and> json_norm (JObject m) = json_norm w"
      unfolding w by (intro object_readable [OF _ a(1-4) [unfolded w]])
  qed
next
  case (JNumber n)
  show ?case
  proof (rule readableI)
    fix w s t x y c
    assume a: "json_wf w" "write_canonical enc (JNumber n) = Inr s" "write_canonical enc w = Inr t"
      "stops x" "stops y" "s @ x = t @ y" "c \<in> set (first_chars (JNumber n))"
      "c \<in> set (first_chars w)"
    then obtain n' where w: "w = JNumber n'"
      using first_chars_kind [OF a(7,8)] by auto
    show "s = t \<and> json_norm (JNumber n) = json_norm w"
      using number_unique [OF a(2) a(3) [unfolded w] JNumber a(1) [unfolded w] a(4-6)] w by simp
  qed
next
  case (JString r)
  show ?case
  proof (rule readableI)
    fix w s t x y c
    assume a: "json_wf w" "write_canonical enc (JString r) = Inr s" "write_canonical enc w = Inr t"
      "s @ x = t @ y" "c \<in> set (first_chars (JString r))" "c \<in> set (first_chars w)"
    then obtain r' where "w = JString r'"
      using first_chars_kind [OF a(5,6)] by auto
    then show "s = t \<and> json_norm (JString r) = json_norm w"
      using a by (auto simp: json_string_def split: option.splits dest: enc_delimited)
  qed
next
  case (JBool b)
  show ?case
    by (rule readableI, drule (1) first_chars_kind) simp
next
  case JNull
  show ?case
    by (rule readableI, drule (1) first_chars_kind) simp
qed

lemma canonical_text_determines:
  "json_wf v \<Longrightarrow> json_wf w \<Longrightarrow> write_canonical enc v = Inr s \<Longrightarrow> write_canonical enc w = Inr s \<Longrightarrow>
     json_norm v = json_norm w"
  using readable_same all_readable by blast

end

text \<open>The writer sees the normal form only.\<close>

lemma collect_results_map: "collect_results f (map g xs) = collect_results (f \<circ> g) xs"
  by (induction xs) (auto split: sum.splits)

lemma write_norm: "write_canonical enc (json_norm v) = write_canonical enc v"
proof (induction v)
  case (JArray vs)
  have "collect_results (write_canonical enc) (map json_norm vs)
      = collect_results (write_canonical enc) vs"
    unfolding collect_results_map by (rule collect_results_cong) (auto simp: JArray)
  then show ?case by simp
next
  case (JObject m)
  have "collect_results (entry_text enc) (map (\<lambda>(k, v). (k, json_norm v)) (sort_key fst m))
      = collect_results (entry_text enc) (sort_key fst m)"
    unfolding collect_results_map
  proof (rule collect_results_cong [OF refl])
    fix e assume "e \<in> set (sort_key fst m)"
    then have "e \<in> set m" by simp
    moreover have "snd e \<in> Basic_BNFs.snds e" by (cases e) simp
    ultimately have "write_canonical enc (json_norm (snd e)) = write_canonical enc (snd e)"
      by (rule JObject)
    then show "(entry_text enc \<circ> (\<lambda>(k, v). (k, json_norm v))) e = entry_text enc e"
      by (cases e) (simp add: entry_text_def)
  qed
  moreover have "sort_key fst (sort_key fst xs) = sort_key fst xs" for xs :: "(string \<times> json) list"
    by (simp add: sort_key_id_if_sorted)
  ultimately show ?case
    by (simp only: json_norm.simps write_object sort_key_map)
qed simp_all

text \<open>Writing fails only on a float, when the encoder is total.\<close>

fun no_float :: "json \<Rightarrow> bool" where
  "no_float (JNumber n) = (case n of Float b \<Rightarrow> False | _ \<Rightarrow> True)"
| "no_float (JArray vs) = (\<forall>v \<in> set vs. no_float v)"
| "no_float (JObject m) = (\<forall>kv \<in> set m. no_float (snd kv))"
| "no_float _ = True"

lemma collect_results_total: "(\<And>x. x \<in> set xs \<Longrightarrow> \<exists>y. f x = Inr y) \<Longrightarrow> \<exists>ys. collect_results f xs = Inr ys"
  by (induction xs) fastforce+

lemma write_total:
  assumes "\<And>s. enc s \<noteq> None"
  shows "no_float v \<Longrightarrow> \<exists>s. write_canonical enc v = Inr s"
proof (induction v)
  case (JNumber n)
  then show ?case by (cases n) auto
next
  case (JString s)
  then show ?case using assms [of s] by (auto simp: json_string_def)
next
  case (JArray vs)
  then have "\<exists>ss. collect_results (write_canonical enc) vs = Inr ss"
    by (intro collect_results_total) auto
  then show ?case by auto
next
  case (JObject m)
  have "\<exists>ss. collect_results (entry_text enc) (sort_key fst m) = Inr ss"
  proof (rule collect_results_total)
    fix e assume "e \<in> set (sort_key fst m)"
    then have e: "e \<in> set m" by simp
    moreover have "snd e \<in> Basic_BNFs.snds e" by (cases e) simp
    moreover have "no_float (snd e)" using JObject.prems e by simp
    ultimately obtain t where "write_canonical enc (snd e) = Inr t"
      using JObject.IH by blast
    moreover obtain k where "enc (fst e) = Some k" using assms by blast
    ultimately show "\<exists>s. entry_text enc e = Inr s"
      unfolding entry_text_Inr by blast
  qed
  then show ?case unfolding write_object by auto
qed auto

text \<open>
  C38: Canonical JSON text identifies the logical value: two well-formed values that both have
  a canonical form get the same text exactly when they agree up to the order of object keys at
  every level. So the pre-image of a plan hash is one plan, however its JSON was phrased.
\<close>

theorem canonical_json_identifies:
  assumes "json_literals enc" "json_wf v" "json_wf w" "canonical_json enc v = Inr s"
  shows "canonical_json enc w = Inr s \<longleftrightarrow> json_norm v = json_norm w"
  using assms json_literals.canonical_text_determines [OF assms(1)] write_norm
  unfolding canonical_json_def by metis

theorem canonical_json_identifies_witness:
  "canonical_json json_literal (JObject [(''b'', JNumber (PosInt 7)), (''a'', JArray [JNull])])
     = canonical_json json_literal (JObject [(''a'', JArray [JNull]), (''b'', JNumber (PosInt 7))])"
proof -
  let ?v = "JObject [(''b'', JNumber (PosInt 7)), (''a'', JArray [JNull])]"
  let ?w = "JObject [(''a'', JArray [JNull]), (''b'', JNumber (PosInt 7))]"
  obtain s where "canonical_json json_literal ?v = Inr s"
    by (simp add: canonical_json_def json_string_def json_literal_def)
  moreover have "json_norm ?v = json_norm ?w" by simp
  ultimately show ?thesis
    using canonical_json_identifies [OF literal.json_literals_axioms, of ?v ?w s] by simp
qed

end
