(* ===== verification/Request.thy ===== *)
theory Request
  imports Budget Ids
begin

text \<open>
  Non-empty vectors (\<open>crates/bathy-types/src/nonempty.rs\<close>) and the scan request
  (\<open>crates/bathy-types/src/request.rs\<close>). The derived deserializers of \<open>serde\<close> are generated
  code; the hand-written \<open>TryFrom\<close> gates they go through are modelled.
\<close>

section \<open>Non-empty vectors\<close>

datatype 'a nonempty = NonEmpty "'a list"

definition ne_new :: "'a \<Rightarrow> 'a nonempty" where
  "ne_new first = NonEmpty [first]"

fun ne_first :: "'a nonempty \<Rightarrow> 'a rust" where
  "ne_first (NonEmpty []) = Panic"
| "ne_first (NonEmpty (x # xs)) = Ret x"

fun ne_len :: "'a nonempty \<Rightarrow> nat" where
  "ne_len (NonEmpty xs) = length xs"

fun ne_push :: "'a nonempty \<Rightarrow> 'a \<Rightarrow> 'a nonempty" where
  "ne_push (NonEmpty xs) item = NonEmpty (xs @ [item])"

fun ne_vec :: "'a nonempty \<Rightarrow> 'a list" where
  "ne_vec (NonEmpty xs) = xs"

datatype empty_error = EmptyError

definition ne_try_from :: "'a list \<Rightarrow> empty_error + 'a nonempty" where
  "ne_try_from v = (if v = [] then Inl EmptyError else Inr (NonEmpty v))"

text \<open>The values the private field can hold: what the two constructors and \<open>push\<close> build.\<close>

inductive ne_reachable :: "'a nonempty \<Rightarrow> bool" where
  reach_new: "ne_reachable (ne_new x)"
| reach_try_from: "ne_try_from v = Inr n \<Longrightarrow> ne_reachable n"
| reach_push: "ne_reachable n \<Longrightarrow> ne_reachable (ne_push n x)"

lemma ne_reachable_not_Nil: "ne_reachable n \<Longrightarrow> ne_vec n \<noteq> []"
proof (induction rule: ne_reachable.induct)
  case (reach_new x)
  then show ?case by (simp add: ne_new_def)
next
  case (reach_try_from v n)
  then show ?case by (auto simp: ne_try_from_def split: if_splits)
next
  case (reach_push n x)
  then show ?case by (cases n rule: nonempty.exhaust) simp
qed

lemma ne_first_no_panic: "ne_reachable n \<Longrightarrow> ne_first n = Ret (hd (ne_vec n))"
  using ne_reachable_not_Nil [of n] by (cases n rule: ne_first.cases) auto

section \<open>Scan requests\<close>

datatype objective = HostInventory | InventoryExposedServices | ChangeDetection | ConfidenceRefinement

datatype evidence_level = EvNone | EvHeaders | EvFull

datatype port_preset = Top100 | Common1000 | AllPorts

datatype port_selection = Preset port_preset | Explicit "string nonempty"

record service_detection =
  sd_enabled :: bool
  sd_intensity :: u8

definition service_detection_default :: service_detection where
  "service_detection_default = \<lparr>sd_enabled = True, sd_intensity = 4\<rparr>"

definition service_detection_try_from :: "service_detection \<Rightarrow> string + service_detection" where
  "service_detection_try_from r =
     (if sd_intensity r > 9
      then Inl (''intensity must be <= 9, got '' @ show_word (sd_intensity r))
      else Inr \<lparr>sd_enabled = sd_enabled r, sd_intensity = sd_intensity r\<rparr>)"

record scan_request =
  sr_targets :: "string nonempty"
  sr_scope_id :: u128
  sr_objective :: objective
  sr_ports :: port_selection
  sr_service_detection :: service_detection
  sr_budgets :: budgets
  sr_evidence_level :: evidence_level
  sr_idempotency_key :: string

lemma service_detection_default_accepted:
  "service_detection_try_from service_detection_default = Inr service_detection_default"
  by (simp add: service_detection_try_from_def service_detection_default_def)

lemma service_detection_bound:
  "service_detection_try_from r = Inr d \<Longrightarrow> d = r \<and> sd_intensity d \<le> 9"
  by (auto simp: service_detection_try_from_def not_less split: if_splits)

end
