(* ===== verification/Ipnet.thy ===== *)
theory Ipnet
  imports Net_Addr
begin

text \<open>
  The operations of the external \<open>ipnet\<close> crate that the sources call, as a record of
  parameters over an abstract type of networks, and what they document as the locale
  \<open>ipnet_laws\<close>. The interpretation is a network of an address and a prefix length.
\<close>

record 'n ipnet =
  parse_net :: "string \<Rightarrow> 'n option"
  net_is_v6 :: "'n \<Rightarrow> bool"
  net_contains :: "'n \<Rightarrow> ip_addr \<Rightarrow> bool"
  net_prefix_len :: "'n \<Rightarrow> nat"
  net_hosts :: "'n \<Rightarrow> u32 list" \<comment> \<open>\<open>Ipv4Net::hosts\<close>\<close>

fun is_v6 :: "ip_addr \<Rightarrow> bool" where
  "is_v6 (V4 a) = False"
| "is_v6 (V6 a) = True"

locale ipnet_laws =
  fixes N :: "'n ipnet"
    and valid :: "'n \<Rightarrow> bool"
  assumes parse_valid: "parse_net N s = Some n \<Longrightarrow> valid n"
    and contains_family: "net_contains N n ip \<Longrightarrow> net_is_v6 N n = is_v6 ip"
    and prefix_bound: "valid n \<Longrightarrow> \<not> net_is_v6 N n \<Longrightarrow> net_prefix_len N n \<le> 32"
    and hosts_length: "valid n \<Longrightarrow> \<not> net_is_v6 N n \<Longrightarrow>
      length (net_hosts N n) =
        (if net_prefix_len N n < 31 then 2 ^ (32 - net_prefix_len N n) - 2
         else 2 ^ (32 - net_prefix_len N n))"
    and hosts_distinct: "valid n \<Longrightarrow> \<not> net_is_v6 N n \<Longrightarrow> distinct (net_hosts N n)"
    and hosts_contained: "valid n \<Longrightarrow> \<not> net_is_v6 N n \<Longrightarrow> a \<in> set (net_hosts N n) \<Longrightarrow>
      net_contains N n (V4 a)"
begin

lemma hosts_card: "valid n \<Longrightarrow> \<not> net_is_v6 N n \<Longrightarrow>
   card (set (net_hosts N n)) = length (net_hosts N n)"
  by (rule distinct_card [OF hosts_distinct])

lemma v4_net_no_v6: "\<not> net_is_v6 N n \<Longrightarrow> \<not> net_contains N n (V6 a)"
  using contains_family by fastforce

end

section \<open>Networks as an address and a prefix length\<close>

datatype net = Net4 u32 nat | Net6 u128 nat

fun net_valid :: "net \<Rightarrow> bool" where
  "net_valid (Net4 a p) = (p \<le> 32)"
| "net_valid (Net6 a p) = (p \<le> 128)"

fun prefixed_of :: "ip_addr \<Rightarrow> string \<Rightarrow> net option" where
  "prefixed_of (V4 v4) p = map_option (Net4 v4) (parse_unsigned 33 p)"
| "prefixed_of (V6 v6) p = map_option (Net6 v6) (parse_unsigned 129 p)"

definition prefixed_parse :: "string \<Rightarrow> net option" where
  "prefixed_parse s = do {
     (a, p) \<leftarrow> split_once CHR ''/'' s;
     ip \<leftarrow> parse_ip a;
     prefixed_of ip p }"

fun prefixed_is_v6 :: "net \<Rightarrow> bool" where
  "prefixed_is_v6 (Net4 a p) = False"
| "prefixed_is_v6 (Net6 a p) = True"

fun prefixed_contains :: "net \<Rightarrow> ip_addr \<Rightarrow> bool" where
  "prefixed_contains (Net4 a p) (V4 b) = (unat b div 2 ^ (32 - p) = unat a div 2 ^ (32 - p))"
| "prefixed_contains (Net6 a p) (V6 b) = (unat b div 2 ^ (128 - p) = unat a div 2 ^ (128 - p))"
| "prefixed_contains _ _ = False"

fun prefixed_len :: "net \<Rightarrow> nat" where
  "prefixed_len (Net4 a p) = p"
| "prefixed_len (Net6 a p) = p"

fun prefixed_hosts :: "net \<Rightarrow> u32 list" where
  "prefixed_hosts (Net4 a p) =
     (let size = 2 ^ (32 - p); base = unat a div size * size
      in if p < 31 then map of_nat [base + 1..<base + size - 1]
         else map of_nat [base..<base + size])"
| "prefixed_hosts (Net6 a p) = []"

definition prefixed_net :: "net ipnet" where
  "prefixed_net = \<lparr>parse_net = prefixed_parse, net_is_v6 = prefixed_is_v6,
     net_contains = prefixed_contains, net_prefix_len = prefixed_len,
     net_hosts = prefixed_hosts\<rparr>"

lemma parse_unsigned_bound: "parse_unsigned b s = Some n \<Longrightarrow> n < b"
  by (auto simp: parse_unsigned_def Let_def split: option.splits if_splits)

lemma prefixed_of_valid: "prefixed_of ip p = Some n \<Longrightarrow> net_valid n"
  by (cases ip) (auto dest!: parse_unsigned_bound)

lemma block_bound:
  fixes a :: u32
  assumes "p \<le> 32" "x < unat a div 2 ^ (32 - p) * 2 ^ (32 - p) + 2 ^ (32 - p)"
  shows "x < 2 ^ 32"
proof -
  have "unat a div 2 ^ (32 - p) < 2 ^ p"
    using unat_bounded [of a] assms(1)
    by (simp add: less_mult_imp_div_less flip: power_add)
  then have "(unat a div 2 ^ (32 - p) + 1) * 2 ^ (32 - p) \<le> 2 ^ p * 2 ^ (32 - p)"
    by (intro mult_right_mono) auto
  also have "2 ^ p * 2 ^ (32 - p) = (2 ^ 32 :: nat)"
    using assms(1) by (simp flip: power_add)
  finally show ?thesis using assms(2) by (simp add: algebra_simps)
qed

lemma block_member:
  fixes a :: u32
  assumes "p \<le> 32" "unat a div 2 ^ (32 - p) * 2 ^ (32 - p) \<le> x"
    and "x < unat a div 2 ^ (32 - p) * 2 ^ (32 - p) + 2 ^ (32 - p)"
  shows "prefixed_contains (Net4 a p) (V4 (of_nat x))"
proof -
  have "unat (of_nat x :: u32) = x"
    using block_bound [OF assms(1,3)] by (simp add: unat_of_nat)
  moreover have "x div 2 ^ (32 - p) = unat a div 2 ^ (32 - p)"
    using assms(2,3) by (metis add.commute div_nat_eqI mult.commute mult_Suc_right)
  ultimately show ?thesis by simp
qed

lemma distinct_of_nat:
  assumes "\<forall>x \<in> set xs. x < 2 ^ 32" "distinct xs"
  shows "distinct (map (of_nat :: nat \<Rightarrow> u32) xs)"
proof -
  have "inj_on (of_nat :: nat \<Rightarrow> u32) (set xs)"
    using assms(1) by (intro inj_on_inverseI [of _ unat]) (simp add: unat_of_nat)
  then show ?thesis using assms(2) by (simp add: distinct_map)
qed

interpretation prefixed: ipnet_laws prefixed_net net_valid
proof
  fix s n ip a
  show "parse_net prefixed_net s = Some n \<Longrightarrow> net_valid n"
    by (auto simp: prefixed_net_def prefixed_parse_def bind_eq_Some_conv dest!: prefixed_of_valid)
  show "net_contains prefixed_net n ip \<Longrightarrow> net_is_v6 prefixed_net n = is_v6 ip"
    by (cases n; cases ip) (auto simp: prefixed_net_def)
  assume n: "net_valid n" "\<not> net_is_v6 prefixed_net n"
  then obtain b p where b: "n = Net4 b p" "p \<le> 32"
    by (cases n) (auto simp: prefixed_net_def)
  have bound: "x < 4294967296" if "x < unat b div 2 ^ (32 - p) * 2 ^ (32 - p) + 2 ^ (32 - p)" for x
    using block_bound [OF b(2) that] by simp
  show "net_prefix_len prefixed_net n \<le> 32"
    by (simp add: prefixed_net_def b)
  show "length (net_hosts prefixed_net n) =
      (if net_prefix_len prefixed_net n < 31 then 2 ^ (32 - net_prefix_len prefixed_net n) - 2
       else 2 ^ (32 - net_prefix_len prefixed_net n))"
    by (simp add: prefixed_net_def b Let_def)
  show "distinct (net_hosts prefixed_net n)"
    by (auto simp: prefixed_net_def b(1) Let_def intro!: distinct_of_nat bound)
  show "a \<in> set (net_hosts prefixed_net n) \<Longrightarrow> net_contains prefixed_net n (V4 a)"
    using block_member [OF b(2)]
    by (auto simp: prefixed_net_def b(1) Let_def simp del: prefixed_contains.simps split: if_splits)
qed

end
