(* ===== verification/Scope.thy ===== *)
theory Scope
  imports Request Ipnet
begin

text \<open>
  Authorization: the scope manifest (\<open>crates/bathy-scope/src/manifest.rs\<close>) and the policy
  decision over an expanded target list (\<open>crates/bathy-scope/src/policy.rs\<close>). The \<open>serde_json\<close>
  reader of the raw document, the RFC 3339 parser of the \<open>time\<close> crate (an instant in
  nanoseconds) and \<open>ipnet\<close> are parameters. The model is the shipped build: the
  \<open>test-util\<close> loopback exception is compiled out.
\<close>

section \<open>Loading a manifest\<close>

datatype manifest_error =
    Malformed string
  | NoAllowedCidrs
  | BadCidr string
  | BadExpiry string
  | NoUsableAllowedCidrs

record raw_manifest =
  rm_id :: u128
  rm_description :: string
  rm_not_after :: string
  rm_allowed_cidrs :: "string list"
  rm_denied_cidrs :: "string list"
  rm_budget_ceiling :: budgets
  rm_signature :: "string option"

record 'n scope_manifest =
  sm_id :: u128
  sm_description :: string
  sm_not_after :: int
  sm_allowed :: "'n list"
  sm_denied :: "'n list"
  sm_ceiling :: budgets
  sm_had_signature :: bool

text \<open>The two lines \<open>load\<close> can print on standard error.\<close>

datatype load_warning =
    SignatureNotVerified u128
  | Ipv6NeverMatches u128 "string list"

definition parse_cidrs :: "'n ipnet \<Rightarrow> string list \<Rightarrow> manifest_error + 'n list" where
  "parse_cidrs N v =
     collect_results (\<lambda>c. case parse_net N c of None \<Rightarrow> Inl (BadCidr c) | Some n \<Rightarrow> Inr n) v"

definition manifest_load ::
  "'n ipnet \<Rightarrow> (string \<Rightarrow> int option) \<Rightarrow> (string \<Rightarrow> string + raw_manifest) \<Rightarrow> string
     \<Rightarrow> load_warning list \<times> (manifest_error + 'n scope_manifest)" where
  "manifest_load N parse_time from_str json =
     (case from_str json of
        Inl e \<Rightarrow> ([], Inl (Malformed e))
      | Inr raw \<Rightarrow>
          if rm_allowed_cidrs raw = [] then ([], Inl NoAllowedCidrs)
          else (case parse_time (rm_not_after raw) of
            None \<Rightarrow> ([], Inl (BadExpiry (rm_not_after raw)))
          | Some not_after \<Rightarrow>
              (case parse_cidrs N (rm_allowed_cidrs raw) of
                 Inl e \<Rightarrow> ([], Inl e)
               | Inr allowed \<Rightarrow>
                   (case parse_cidrs N (rm_denied_cidrs raw) of
                      Inl e \<Rightarrow> ([], Inl e)
                    | Inr denied \<Rightarrow>
                        if list_all (net_is_v6 N) allowed then ([], Inl NoUsableAllowedCidrs)
                        else
                          (let ipv6_allow_entries =
                             map fst (filter (\<lambda>(s, net). net_is_v6 N net)
                               (zip (rm_allowed_cidrs raw) allowed))
                           in ((if rm_signature raw \<noteq> None then [SignatureNotVerified (rm_id raw)] else [])
                               @ (if ipv6_allow_entries \<noteq> []
                                  then [Ipv6NeverMatches (rm_id raw) ipv6_allow_entries] else []),
                               Inr \<lparr>sm_id = rm_id raw, sm_description = rm_description raw,
                                    sm_not_after = not_after, sm_allowed = allowed,
                                    sm_denied = denied, sm_ceiling = rm_budget_ceiling raw,
                                    sm_had_signature = (rm_signature raw \<noteq> None)\<rparr>))))))"

section \<open>What a manifest authorizes\<close>

definition signature_verified :: "'n scope_manifest \<Rightarrow> bool" where
  "signature_verified m = False"

definition is_expired :: "(string \<Rightarrow> int option) \<Rightarrow> 'n scope_manifest \<Rightarrow> string \<Rightarrow> bool" where
  "is_expired parse_time m now_rfc3339 =
     (case parse_time now_rfc3339 of Some now \<Rightarrow> now > sm_not_after m | None \<Rightarrow> True)"

fun is_ordinary_unicast :: "ip_addr \<Rightarrow> bool" where
  "is_ordinary_unicast (V4 v4) =
     (\<not> (v4_is_loopback v4 \<or> v4_is_multicast v4 \<or> v4_is_broadcast v4 \<or> v4_is_link_local v4
         \<or> v4_is_unspecified v4 \<or> octets v4 ! 0 = 0 \<or> octets v4 ! 0 \<ge> 240))"
| "is_ordinary_unicast (V6 v6) = False"

text \<open>The parked rules for a later release; not called by \<open>is_ordinary_unicast\<close>.\<close>

definition ipv6_is_ordinary_by_prefix_rules :: "u128 \<Rightarrow> bool" where
  "ipv6_is_ordinary_by_prefix_rules v6 =
     (let s = segments v6 in
      \<not> (v6_is_loopback v6
         \<or> v6_is_multicast v6
         \<or> v6_is_unspecified v6
         \<or> (s ! 0) AND 0xffc0 = 0xfe80
         \<or> (s ! 0 = 0 \<and> s ! 1 = 0 \<and> s ! 2 = 0 \<and> s ! 3 = 0 \<and> s ! 4 = 0 \<and> s ! 5 = 0)
         \<or> to_ipv4_mapped v6 \<noteq> None
         \<or> (s ! 0 = 0 \<and> s ! 1 = 0 \<and> s ! 2 = 0 \<and> s ! 3 = 0 \<and> s ! 4 = 0xffff \<and> s ! 5 = 0)
         \<or> (s ! 0 = 0x0064 \<and> s ! 1 = 0xff9b \<and> s ! 2 = 0 \<and> s ! 3 = 0 \<and> s ! 4 = 0 \<and> s ! 5 = 0)
         \<or> (s ! 0 = 0x0064 \<and> s ! 1 = 0xff9b \<and> s ! 2 = 0x0001)
         \<or> s ! 0 = 0x2002
         \<or> (s ! 0 = 0x2001 \<and> s ! 1 = 0)
         \<or> (s ! 4 = 0 \<and> s ! 5 = 0x5efe)
         \<or> (s ! 4 = 0x0200 \<and> s ! 5 = 0x5efe)))"

definition allows :: "'n ipnet \<Rightarrow> 'n scope_manifest \<Rightarrow> ip_addr \<Rightarrow> bool" where
  "allows N m ip =
     (if \<not> is_ordinary_unicast ip then False
      else if list_ex (\<lambda>n. net_contains N n ip) (sm_denied m) then False
      else list_ex (\<lambda>n. net_contains N n ip) (sm_allowed m))"

section \<open>The policy decision\<close>

datatype deny_reason = ScopeMismatch | ScopeExpired | TargetOutOfScope | BudgetExceedsCeiling

fun deny_code :: "deny_reason \<Rightarrow> string" where
  "deny_code ScopeMismatch = ''scope_mismatch''"
| "deny_code ScopeExpired = ''scope_expired''"
| "deny_code TargetOutOfScope = ''target_out_of_scope''"
| "deny_code BudgetExceedsCeiling = ''budget_exceeds_ceiling''"

datatype policy_decision = Approved | Denied deny_reason string

definition show_scope_id :: "(u128 \<Rightarrow> string) \<Rightarrow> u128 \<Rightarrow> string" where
  "show_scope_id encode = id_display encode ''scope''"

definition show_budgets :: "budgets \<Rightarrow> string" where
  "show_budgets b = show_word (maximum_packets b) @ ''pkt/'' @
     show_word (maximum_runtime_seconds b) @ ''s/'' @ show_word (maximum_packets_per_second b) @ ''pps''"

definition evaluate ::
  "'n ipnet \<Rightarrow> (string \<Rightarrow> int option) \<Rightarrow> (u128 \<Rightarrow> string) \<Rightarrow> 'n scope_manifest \<Rightarrow> scan_request
     \<Rightarrow> ip_addr list \<Rightarrow> string \<Rightarrow> policy_decision" where
  "evaluate N parse_time encode manifest request expanded_targets now_rfc3339 =
     (if sr_scope_id request \<noteq> sm_id manifest
      then Denied ScopeMismatch (''request cites '' @ show_scope_id encode (sr_scope_id request)
             @ '' but manifest is '' @ show_scope_id encode (sm_id manifest))
      else if is_expired parse_time manifest now_rfc3339
      then Denied ScopeExpired (''manifest '' @ show_scope_id encode (sm_id manifest)
             @ '' expired before '' @ now_rfc3339)
      else (case find (\<lambda>ip. \<not> allows N manifest ip) expanded_targets of
        Some bad \<Rightarrow> Denied TargetOutOfScope (show_ip bad @ '' is not authorized by manifest ''
             @ show_scope_id encode (sm_id manifest))
      | None \<Rightarrow>
          let c = sm_ceiling manifest; b = sr_budgets request in
          if maximum_packets b > maximum_packets c
            \<or> maximum_runtime_seconds b > maximum_runtime_seconds c
            \<or> maximum_packets_per_second b > maximum_packets_per_second c
          then Denied BudgetExceedsCeiling (''requested '' @ show_budgets b
             @ '' exceeds ceiling '' @ show_budgets c)
          else Approved))"

section \<open>Lemmas\<close>

lemma octets_0: "octets a ! 0 = octet0 a"
  by (simp add: octets_def octet0_def)

text \<open>The seven refusals are three address blocks and one lower and one upper bound.\<close>

lemma ordinary_unicast_range:
  "is_ordinary_unicast (V4 a) \<longleftrightarrow>
     unat a div 2 ^ 24 \<in> {1..223} - {127} \<and> unat a div 2 ^ 16 \<noteq> 169 * 256 + 254"
proof -
  let ?n = "unat a"
  have o: "octet0 a = of_nat k \<longleftrightarrow> ?n div 2 ^ 24 = k" if "k < 256" for k
    using that unat_octet0 [of a] by (auto simp: word_unat_eq_iff unat_of_nat)
  have le: "of_nat k \<le> octet0 a \<longleftrightarrow> k \<le> ?n div 2 ^ 24" if "k < 256" for k
    using that unat_octet0 [of a] by (auto simp: word_le_nat_alt unat_of_nat)
  have ge: "octet0 a \<le> of_nat k \<longleftrightarrow> ?n div 2 ^ 24 \<le> k" if "k < 256" for k
    using that unat_octet0 [of a] by (auto simp: word_le_nat_alt unat_of_nat)
  have o1: "octet1 a = 254 \<longleftrightarrow> ?n div 2 ^ 16 mod 256 = 254"
    using unat_octet1 [of a] by (auto simp: word_unat_eq_iff)
  have b: "v4_is_broadcast a \<Longrightarrow> ?n div 2 ^ 24 = 255"
    by (simp add: v4_is_broadcast_def)
  have u: "v4_is_unspecified a \<Longrightarrow> ?n div 2 ^ 24 = 0"
    by (simp add: v4_is_unspecified_def)
  have ll: "v4_is_link_local a \<longleftrightarrow> ?n div 2 ^ 16 = 169 * 256 + 254"
  proof -
    have "?n div 2 ^ 24 = ?n div 2 ^ 16 div 256"
      by (simp add: div_mult2_eq [symmetric])
    then have o169: "octet0 a = 169 \<longleftrightarrow> ?n div 2 ^ 16 div 256 = 169"
      using o [of 169] by simp
    have "m div 256 = 169 \<and> m mod 256 = 254 \<longleftrightarrow> m = 169 * 256 + 254" for m :: nat
    proof
      assume "m div 256 = 169 \<and> m mod 256 = 254"
      then show "m = 169 * 256 + 254"
        using div_mult_mod_eq [of m 256] by metis
    qed simp
    then show ?thesis
      unfolding v4_is_link_local_def o169 o1 .
  qed
  define k where "k = ?n div 2 ^ 24"
  define h where "h = ?n div 2 ^ 16"
  have "octet0 a = 127 \<longleftrightarrow> k = 127" "octet0 a = 0 \<longleftrightarrow> k = 0" "240 \<le> octet0 a \<longleftrightarrow> 240 \<le> k"
    "224 \<le> octet0 a \<longleftrightarrow> 224 \<le> k" "octet0 a \<le> 239 \<longleftrightarrow> k \<le> 239"
    using o [of 127] o [of 0] le [of 240] le [of 224] ge [of 239] unfolding k_def by simp_all
  then have "is_ordinary_unicast (V4 a) \<longleftrightarrow>
      \<not> (k = 127 \<or> (224 \<le> k \<and> k \<le> 239) \<or> v4_is_broadcast a \<or> h = 169 * 256 + 254
         \<or> v4_is_unspecified a \<or> k = 0 \<or> 240 \<le> k)"
    unfolding is_ordinary_unicast.simps octets_0 v4_is_loopback_def v4_is_multicast_def ll h_def
    by simp
  also have "\<dots> \<longleftrightarrow> k \<in> {1..223} - {127} \<and> h \<noteq> 169 * 256 + 254"
    using b u unfolding k_def [symmetric] by auto
  finally show ?thesis
    unfolding k_def h_def .
qed

lemma allows_iff:
  "allows N m ip \<longleftrightarrow> is_ordinary_unicast ip
     \<and> (\<exists>n \<in> set (sm_allowed m). net_contains N n ip)
     \<and> \<not> (\<exists>n \<in> set (sm_denied m). net_contains N n ip)"
  by (auto simp: allows_def list_ex_iff)

lemma is_expired_iff:
  "\<not> is_expired parse_time m now \<longleftrightarrow> (\<exists>t. parse_time now = Some t \<and> t \<le> sm_not_after m)"
  by (auto simp: is_expired_def split: option.splits)

text \<open>
  C8: Deny by default, deny beats allow, and the reserved blocks are out of reach of any
  manifest: an address is authorized exactly when it is an IPv4 address whose first octet is
  between 1 and 223 and is not 127, which is not in 169.254.0.0/16, which some allowed
  network contains and no denied one does. No IPv6 address is ever authorized.
\<close>

theorem allows_exactly:
  "allows N m ip \<longleftrightarrow>
     (\<exists>a. ip = V4 a \<and> unat a div 2 ^ 24 \<in> {1..223} - {127} \<and> unat a div 2 ^ 16 \<noteq> 169 * 256 + 254
          \<and> (\<exists>n \<in> set (sm_allowed m). net_contains N n ip)
          \<and> \<not> (\<exists>n \<in> set (sm_denied m). net_contains N n ip))"
  unfolding allows_iff
  by (cases ip) (simp_all only: ordinary_unicast_range is_ordinary_unicast.simps(2) ip_addr.simps, auto)

text \<open>
  A manifest loads exactly when its expiry parses, every listed network parses and at
  least one allowed network is IPv4; it then holds the parsed networks in the order listed,
  and the two warnings are printed exactly when a signature is present and when an allowed
  entry is IPv6, naming those entries.
\<close>

theorem manifest_load_exactly:
  "manifest_load N parse_time from_str json = (ws, Inr m) \<longleftrightarrow>
     (\<exists>raw t. from_str json = Inr raw \<and> parse_time (rm_not_after raw) = Some t
        \<and> list_all2 (\<lambda>c n. parse_net N c = Some n) (rm_allowed_cidrs raw) (sm_allowed m)
        \<and> list_all2 (\<lambda>c n. parse_net N c = Some n) (rm_denied_cidrs raw) (sm_denied m)
        \<and> (\<exists>n \<in> set (sm_allowed m). \<not> net_is_v6 N n)
        \<and> m = \<lparr>sm_id = rm_id raw, sm_description = rm_description raw, sm_not_after = t,
               sm_allowed = sm_allowed m, sm_denied = sm_denied m,
               sm_ceiling = rm_budget_ceiling raw, sm_had_signature = (rm_signature raw \<noteq> None)\<rparr>
        \<and> ws = (if rm_signature raw = None then [] else [SignatureNotVerified (rm_id raw)])
             @ (let v6 = filter (\<lambda>c. \<exists>n. parse_net N c = Some n \<and> net_is_v6 N n) (rm_allowed_cidrs raw)
                in if v6 = [] then [] else [Ipv6NeverMatches (rm_id raw) v6]))"
  (is "_ \<longleftrightarrow> (\<exists>raw t. ?P raw t)")
proof -
  have parse: "parse_cidrs N v = Inr ns \<longleftrightarrow> list_all2 (\<lambda>c n. parse_net N c = Some n) v ns" for v ns
    unfolding parse_cidrs_def collect_results_Inr by (rule list.rel_cong) (auto split: option.splits)
  have v6: "map fst (filter (\<lambda>(s, net). net_is_v6 N net) (zip v ns))
      = filter (\<lambda>c. \<exists>n. parse_net N c = Some n \<and> net_is_v6 N n) v"
    if "list_all2 (\<lambda>c n. parse_net N c = Some n) v ns" for v ns
    using that by (induction rule: list_all2_induct) auto
  show ?thesis
  proof
    assume "manifest_load N parse_time from_str json = (ws, Inr m)"
    then obtain raw t where "?P raw t"
      by (auto simp: manifest_load_def Let_def parse v6 list_all_iff
          split: sum.splits option.splits if_splits; blast)
    then show "\<exists>raw t. ?P raw t" by blast
  next
    assume "\<exists>raw t. ?P raw t"
    then obtain raw t where P: "?P raw t" by blast
    then have "rm_allowed_cidrs raw \<noteq> []" "\<not> list_all (net_is_v6 N) (sm_allowed m)"
      by (auto simp: list_all_iff)
    with P parse [of "rm_allowed_cidrs raw" "sm_allowed m"] parse [of "rm_denied_cidrs raw" "sm_denied m"]
    show "manifest_load N parse_time from_str json = (ws, Inr m)"
      by (simp add: manifest_load_def Let_def v6)
  qed
qed

text \<open>
  C7: A scan is approved exactly when it cites this manifest, the clock reading parses and is
  not after the manifest's expiry (a reading that does not parse denies), every expanded
  target is authorized, and each of the three budgets is within the manifest's ceiling. One
  target out of scope refuses the whole scan.
\<close>

theorem evaluate_approved_exactly:
  "evaluate N parse_time encode m r targets now = Approved \<longleftrightarrow>
     sr_scope_id r = sm_id m
     \<and> (\<exists>t. parse_time now = Some t \<and> t \<le> sm_not_after m)
     \<and> (\<forall>ip \<in> set targets. allows N m ip)
     \<and> maximum_packets (sr_budgets r) \<le> maximum_packets (sm_ceiling m)
     \<and> maximum_runtime_seconds (sr_budgets r) \<le> maximum_runtime_seconds (sm_ceiling m)
     \<and> maximum_packets_per_second (sr_budgets r) \<le> maximum_packets_per_second (sm_ceiling m)"
  unfolding is_expired_iff [of parse_time m now, symmetric]
  by (auto simp: evaluate_def Let_def find_None_iff not_less split: option.splits)
    (auto simp: find_Some_iff)

theorem evaluate_approved_exactly_witness:
  "let b = \<lparr>maximum_packets = 10, maximum_runtime_seconds = 10, maximum_packets_per_second = 5\<rparr>;
       m = \<lparr>sm_id = 7, sm_description = [], sm_not_after = 100, sm_allowed = [Net4 0x0A000000 8],
            sm_denied = [Net4 0x0A010000 16], sm_ceiling = b, sm_had_signature = False\<rparr>;
       r = \<lparr>sr_targets = NonEmpty [], sr_scope_id = 7, sr_objective = HostInventory,
            sr_ports = Preset Top100, sr_service_detection = service_detection_default,
            sr_budgets = b, sr_evidence_level = EvNone, sr_idempotency_key = []\<rparr>
   in evaluate prefixed_net (\<lambda>s. Some 100) crockford_encode m r [V4 0x0A000001] [] = Approved
      \<and> evaluate prefixed_net (\<lambda>s. Some 100) crockford_encode m r [V4 0x0A000001, V4 0x0A010001] [] \<noteq> Approved"
  unfolding Let_def evaluate_approved_exactly allows_iff
  by (simp add: prefixed_net_def ordinary_unicast_range del: is_ordinary_unicast.simps)

end
