(* ===== verification/Targets.thy ===== *)
theory Targets
  imports Ipnet
begin

text \<open>
  Target expansion (\<open>crates/bathy-plan/src/targets.rs\<close>): from target specifications to the
  sorted, duplicate-free address list a plan is built over, counted before it is built.
\<close>

section \<open>Specifications\<close>

datatype target_error =
    TargetMalformed string
  | TargetReversedRange string
  | TooManyTargets u64
  | Ipv6Unsupported string

datatype 'n spec = Single u32 | Range u32 u32 | Net 'n

definition classify :: "'n ipnet \<Rightarrow> string \<Rightarrow> target_error + 'n spec" where
  "classify N spec =
     (case parse_ip spec of
        Some (V4 v4) \<Rightarrow> Inr (Single v4)
      | Some (V6 v6) \<Rightarrow> Inl (Ipv6Unsupported spec)
      | None \<Rightarrow>
          (case parse_net N spec of
             Some net \<Rightarrow> (if net_is_v6 N net then Inl (Ipv6Unsupported spec) else Inr (Net net))
           | None \<Rightarrow>
               (case split_once CHR ''-'' spec of
                  Some (a, b) \<Rightarrow>
                    (case parse_ipv4 (trim a) of
                       None \<Rightarrow> Inl (TargetMalformed spec)
                     | Some a' \<Rightarrow>
                         (case parse_ipv4 (trim b) of
                            None \<Rightarrow> Inl (TargetMalformed spec)
                          | Some b' \<Rightarrow>
                              (if b' < a' then Inl (TargetReversedRange spec)
                               else Inr (Range a' b'))))
                | None \<Rightarrow> Inl (TargetMalformed spec))))"

definition usable_hosts :: "'n ipnet \<Rightarrow> 'n \<Rightarrow> ip_addr list" where
  "usable_hosts N net = map V4 (net_hosts N net)"

fun spec_count :: "'n ipnet \<Rightarrow> 'n spec \<Rightarrow> u128" where
  "spec_count N (Single ip) = 1"
| "spec_count N (Range a b) = ucast (b - a) + 1"
| "spec_count N (Net v4) =
     (if net_prefix_len N v4 < 31 then push_bit (32 - net_prefix_len N v4) 1 - 2
      else push_bit (32 - net_prefix_len N v4) 1)"

definition count_of :: "'n ipnet \<Rightarrow> string \<Rightarrow> target_error + u128" where
  "count_of N spec =
     (case classify N spec of Inl e \<Rightarrow> Inl e | Inr s \<Rightarrow> Inr (spec_count N s))"

section \<open>The two passes\<close>

fun precount :: "'n ipnet \<Rightarrow> u64 \<Rightarrow> u128 \<Rightarrow> string list \<Rightarrow> target_error + unit" where
  "precount N limit projected [] = Inr ()"
| "precount N limit projected (spec # specs) =
     (case count_of N spec of
        Inl e \<Rightarrow> Inl e
      | Inr c \<Rightarrow>
          (let projected = sat_add projected c
           in if projected > ucast limit then Inl (TooManyTargets limit)
              else precount N limit projected specs))"

fun spec_addresses :: "'n ipnet \<Rightarrow> 'n spec \<Rightarrow> ip_addr list" where
  "spec_addresses N (Single ip) = [V4 ip]"
| "spec_addresses N (Range a b) = map (\<lambda>n. V4 (of_nat n)) [unat a..<Suc (unat b)]"
| "spec_addresses N (Net net) = usable_hosts N net"

fun insert_specs :: "'n ipnet \<Rightarrow> ip_addr list \<Rightarrow> string list \<Rightarrow> target_error + ip_addr list" where
  "insert_specs N acc [] = Inr acc"
| "insert_specs N acc (spec # specs) =
     (case classify N spec of
        Inl e \<Rightarrow> Inl e
      | Inr s \<Rightarrow> insert_specs N (bs_extend acc (spec_addresses N s)) specs)"

definition expand_targets :: "'n ipnet \<Rightarrow> string list \<Rightarrow> u64 \<Rightarrow> target_error + ip_addr list" where
  "expand_targets N specs limit =
     (case precount N limit 0 specs of
        Inl e \<Rightarrow> Inl e
      | Inr _ \<Rightarrow> insert_specs N [] specs)"

section \<open>Lemmas\<close>

definition spec_ok :: "'n ipnet \<Rightarrow> ('n \<Rightarrow> bool) \<Rightarrow> 'n spec \<Rightarrow> bool" where
  "spec_ok N valid s =
     (case s of Single a \<Rightarrow> True | Range a b \<Rightarrow> a \<le> b | Net n \<Rightarrow> valid n \<and> \<not> net_is_v6 N n)"

definition v4_only :: "ip_addr list \<Rightarrow> bool" where
  "v4_only ips \<longleftrightarrow> (\<forall>ip \<in> set ips. \<not> is_v6 ip)"

lemma spec_addresses_v4: "v4_only (spec_addresses N s)"
  by (cases s) (auto simp: v4_only_def usable_hosts_def)

lemma insert_specs_Inr:
  "insert_specs N S specs = Inr ts \<longleftrightarrow>
     (\<exists>ss. list_all2 (\<lambda>spec s. classify N spec = Inr s) specs ss
        \<and> ts = bs_extend S (concat (map (spec_addresses N) ss)))"
proof (induction specs arbitrary: S)
  case (Cons spec specs)
  have ext: "bs_extend (bs_extend S xs) ys = bs_extend S (xs @ ys)" for S xs and ys :: "ip_addr list"
    by (induction xs arbitrary: S) auto
  show ?case
    by (cases "classify N spec") (auto simp: Cons ext list_all2_Cons1)
qed auto

context ipnet_laws
begin

lemma classify_ok: "classify N spec = Inr s \<Longrightarrow> spec_ok N valid s"
  by (auto simp: classify_def spec_ok_def parse_valid not_less
      split: option.splits ip_addr.splits if_splits prod.splits)

lemma spec_count_addresses:
  assumes "spec_ok N valid s"
  shows "unat (spec_count N s) = card (set (spec_addresses N s))"
proof (cases s)
  case (Single a)
  then show ?thesis by simp
next
  case (Range a b)
  with assms have ab: "unat a \<le> unat b" by (simp add: spec_ok_def word_le_nat_alt)
  have "inj_on (\<lambda>n. V4 (of_nat n)) {unat a..<Suc (unat b)}"
    using unat_bounded [of b]
    by (intro inj_on_inverseI [of _ "\<lambda>ip. case ip of V4 x \<Rightarrow> unat x | V6 y \<Rightarrow> 0"])
      (simp add: unat_of_nat)
  then have "card (set (spec_addresses N s)) = Suc (unat b) - unat a"
    by (simp only: Range spec_addresses.simps set_map set_upt card_image card_atLeastLessThan)
  moreover have "unat (ucast (b - a) + 1 :: u128) = Suc (unat (b - a))"
    using unat_bounded [of "b - a"]
    by (simp add: unat_word_ariths unat_ucast_widen)
  moreover have "unat (b - a) = unat b - unat a"
    using assms Range by (simp add: spec_ok_def unat_sub)
  ultimately show ?thesis using Range ab by simp
next
  case (Net n)
  with assms have n: "valid n" "\<not> net_is_v6 N n" by (auto simp: spec_ok_def)
  let ?k = "32 - net_prefix_len N n"
  have k: "2 ^ ?k \<le> (2 ^ 32 :: nat)" by (rule power_increasing) simp_all
  then have p: "unat (push_bit ?k 1 :: u128) = 2 ^ ?k"
    using unat_of_nat_small [of "2 ^ ?k", where ?'a = 128]
    by (simp add: push_bit_eq_mult)
  have "2 \<le> (push_bit ?k 1 :: u128)" if "net_prefix_len N n < 31"
  proof -
    have "2 ^ 2 \<le> (2 ^ ?k :: nat)"
      using that by (intro power_increasing) simp_all
    then show ?thesis unfolding word_le_nat_alt p by simp
  qed
  then have "net_prefix_len N n < 31 \<Longrightarrow> unat (push_bit ?k 1 - 2 :: u128) = 2 ^ ?k - 2"
    by (simp only: unat_sub p) simp
  moreover have "card (set (spec_addresses N s)) = length (net_hosts N n)"
    using hosts_card [OF n] by (simp add: Net usable_hosts_def card_image inj_on_def)
  ultimately show ?thesis
    using hosts_length [OF n] p by (simp add: Net)
qed

lemma precount_Inr:
  "unat projected \<le> unat limit \<Longrightarrow>
   precount N limit projected specs = Inr u \<longleftrightarrow>
     (\<exists>ss. list_all2 (\<lambda>spec s. classify N spec = Inr s) specs ss
        \<and> unat projected + (\<Sum>s \<leftarrow> ss. card (set (spec_addresses N s))) \<le> unat limit)"
proof (induction specs arbitrary: projected)
  case (Cons spec specs)
  show ?case
  proof (cases "classify N spec")
    case (Inr s)
    let ?p = "sat_add projected (spec_count N s)"
    have c: "unat (spec_count N s) = card (set (spec_addresses N s))"
      by (rule spec_count_addresses [OF classify_ok [OF Inr]])
    have m: "unat (ucast limit :: u128) = unat limit" "unat limit < 2 ^ 128 - 1"
      using unat_bounded [of limit] by (simp_all add: unat_ucast_widen)
    have le: "\<not> ucast limit < ?p \<longleftrightarrow> unat projected + card (set (spec_addresses N s)) \<le> unat limit"
      using m by (auto simp: not_less word_le_nat_alt unat_sat_add c)
    show ?thesis
    proof (cases "ucast limit < ?p")
      case True
      with le show ?thesis
        by (auto simp: Inr count_of_def list_all2_Cons1)
    next
      case False
      with le m have "unat ?p = unat projected + card (set (spec_addresses N s))"
        by (simp add: unat_sat_add c)
      with False le Cons.IH [of ?p] show ?thesis
        by (auto simp: Inr count_of_def list_all2_Cons1 add.assoc)
    qed
  qed (simp add: count_of_def list_all2_Cons1)
qed simp

lemma expand_targets_Inr:
  "expand_targets N specs limit = Inr ts \<longleftrightarrow>
     (\<exists>ss. list_all2 (\<lambda>spec s. classify N spec = Inr s) specs ss
        \<and> (\<Sum>s \<leftarrow> ss. card (set (spec_addresses N s))) \<le> unat limit
        \<and> bs_wf ts \<and> set ts = (\<Union>s \<in> set ss. set (spec_addresses N s)))"
proof -
  have un: "list_all2 (\<lambda>spec s. classify N spec = Inr s) specs ss \<Longrightarrow>
      list_all2 (\<lambda>spec s. classify N spec = Inr s) specs ss' \<Longrightarrow> ss = ss'" for ss ss'
  proof (induction specs arbitrary: ss ss')
    case (Cons spec specs)
    then show ?case by (cases ss; cases ss') auto
  qed simp
  have "expand_targets N specs limit = Inr ts \<longleftrightarrow>
      precount N limit 0 specs = Inr () \<and> insert_specs N [] specs = Inr ts"
    by (auto simp: expand_targets_def split: sum.splits)
  then show ?thesis
    using precount_Inr [of 0 limit specs "()"] un by (auto simp: insert_specs_Inr eq_bs_extend_iff)
qed

end


lemma union_card_le: "card (\<Union>s \<in> set ss. set (f s)) \<le> (\<Sum>s \<leftarrow> ss. card (set (f s)))"
proof (induction ss)
  case (Cons s ss)
  then show ?case
    using card_Un_le [of "set (f s)" "\<Union>s \<in> set ss. set (f s)"] by simp
qed simp

context ipnet_laws
begin

lemma expand_wf: "expand_targets N specs limit = Inr ts \<Longrightarrow> bs_wf ts"
  by (auto simp: expand_targets_Inr)

lemma expand_bounded: "expand_targets N specs limit = Inr ts \<Longrightarrow> length ts \<le> unat limit"
  unfolding expand_targets_Inr
  by (elim exE conjE, drule sym [of "set ts"])
    (metis bs_wf_def distinct_card le_trans union_card_le)

lemma expand_v4: "expand_targets N specs limit = Inr ts \<Longrightarrow> v4_only ts"
  using spec_addresses_v4 by (fastforce simp: expand_targets_Inr v4_only_def)

lemma expand_permute:
  assumes "expand_targets N specs limit = Inr ts" "mset specs' = mset specs"
  shows "expand_targets N specs' limit = Inr ts"
proof -
  obtain ss where ss: "list_all2 (\<lambda>spec s. classify N spec = Inr s) specs ss"
      "(\<Sum>s \<leftarrow> ss. card (set (spec_addresses N s))) \<le> unat limit"
      "bs_wf ts" "set ts = (\<Union>s \<in> set ss. set (spec_addresses N s))"
    using assms(1) unfolding expand_targets_Inr by blast
  obtain ss' where ss': "list_all2 (\<lambda>spec s. classify N spec = Inr s) specs' ss'" "mset ss' = mset ss"
    using list_all2_reorder_left_invariance [OF ss(1) assms(2)] by blast
  have "(\<Sum>s \<leftarrow> ss'. f s) = (\<Sum>s \<leftarrow> ss. f s)" for f :: "_ \<Rightarrow> nat"
    using ss'(2) by (metis mset_map sum_mset_sum_list)
  moreover have "set ss' = set ss"
    using ss'(2) by (rule mset_eq_setD)
  ultimately show ?thesis
    unfolding expand_targets_Inr using ss ss'(1) by (intro exI [of _ ss']) simp
qed

lemma expand_addresses:
  assumes "expand_targets N specs limit = Inr ts"
  shows "set ts = {ip. \<exists>spec \<in> set specs. \<exists>s. classify N spec = Inr s \<and> ip \<in> set (spec_addresses N s)}"
proof -
  obtain ss where ss: "list_all2 (\<lambda>spec s. classify N spec = Inr s) specs ss"
      "set ts = (\<Union>s \<in> set ss. set (spec_addresses N s))"
    using assms unfolding expand_targets_Inr by blast
  have "s \<in> set ss \<longleftrightarrow> (\<exists>spec \<in> set specs. classify N spec = Inr s)" for s
    using ss(1) by (induction rule: list_all2_induct) auto
  with ss(2) show ?thesis by blast
qed

lemma expand_set:
  "expand_targets N specs limit = Inr ts \<Longrightarrow> expand_targets N specs' limit' = Inr ts' \<Longrightarrow>
     set specs' = set specs \<Longrightarrow> ts' = ts"
  by (rule bs_wf_unique) (simp_all add: expand_wf expand_addresses)

end

text \<open>
  C25: A target request expands exactly when every specification is an IPv4 address, network or
  forward range and the addresses they name, counted specification by specification, are at
  most \<open>max\<close>; the result is then the strictly sorted list of the union of what they name. In
  particular the machine-integer count of the first pass is never too small.
\<close>

theorem expand_targets_exactly:
  assumes "ipnet_laws N valid"
  shows "expand_targets N specs limit = Inr ts \<longleftrightarrow>
     (\<exists>ss. list_all2 (\<lambda>spec s. classify N spec = Inr s) specs ss
        \<and> (\<Sum>s \<leftarrow> ss. card (set (spec_addresses N s))) \<le> unat limit
        \<and> bs_wf ts \<and> set ts = (\<Union>s \<in> set ss. set (spec_addresses N s)))"
  by (rule ipnet_laws.expand_targets_Inr [OF assms])

theorem expand_targets_exactly_witness:
  "expand_targets prefixed_net [''10.0.0.4/30'', ''10.0.0.5''] 3 = Inr [V4 0x0A000005, V4 0x0A000006]"
proof -
  have n: "classify prefixed_net ''10.0.0.4/30'' = Inr (Net (Net4 0x0A000004 30))"
    and s: "classify prefixed_net ''10.0.0.5'' = Inr (Single 0x0A000005)"
    by (simp_all add: classify_def prefixed_net_def prefixed_parse_def parse_ip_simps)
  have a: "usable_hosts prefixed_net (Net4 0x0A000004 30) = [V4 0x0A000005, V4 0x0A000006]"
    by (simp add: usable_hosts_def prefixed_net_def upt_rec)
  show ?thesis
    unfolding expand_targets_exactly [OF prefixed.ipnet_laws_axioms]
    by (intro exI [of _ "[Net (Net4 0x0A000004 30), Single 0x0A000005]"])
      (simp add: n s a bs_wf_def)
qed

text \<open>
  The expansion never exceeds the limit, holds no duplicate and no IPv6 address, and does
  not depend on the order or the repetition of the specifications: any two accepted requests
  whose specifications are the same set expand to the same list, and a reordered request is
  accepted with the same result. This is what makes the plan hash stable.
\<close>

theorem expand_targets_stable:
  assumes "ipnet_laws N valid" and "expand_targets N specs limit = Inr ts"
  shows "length ts \<le> unat limit \<and> v4_only ts \<and> bs_wf ts
    \<and> (mset specs' = mset specs \<longrightarrow> expand_targets N specs' limit = Inr ts)
    \<and> (set specs' = set specs \<longrightarrow> expand_targets N specs' limit' = Inr ts' \<longrightarrow> ts' = ts)"
proof -
  note laws = ipnet_laws.expand_bounded ipnet_laws.expand_v4 ipnet_laws.expand_wf
    ipnet_laws.expand_permute ipnet_laws.expand_set
  show ?thesis
    using laws [OF assms(1)] assms(2) by blast
qed

theorem expand_targets_stable_witness:
  "expand_targets prefixed_net [''10.0.0.5'', ''10.0.0.4/31'', ''10.0.0.5''] 4 = Inr [V4 0x0A000004, V4 0x0A000005]"
proof -
  have "classify prefixed_net ''10.0.0.4/31'' = Inr (Net (Net4 0x0A000004 31))"
    and "classify prefixed_net ''10.0.0.5'' = Inr (Single 0x0A000005)"
    by (simp_all add: classify_def prefixed_net_def prefixed_parse_def parse_ip_simps)
  then have "expand_targets prefixed_net [''10.0.0.5'', ''10.0.0.5'', ''10.0.0.4/31''] 4
      = Inr [V4 0x0A000004, V4 0x0A000005]"
    by (simp add: expand_targets_def count_of_def usable_hosts_def prefixed_net_def upt_rec
        sat_add_def Let_def bs_insert_def)
  from expand_targets_stable [OF prefixed.ipnet_laws_axioms this] show ?thesis by simp
qed

end
