(* ===== verification/Ports.thy ===== *)
theory Ports
  imports Request Net_Addr
begin

text \<open>
  Port selection (\<open>crates/bathy-plan/src/ports.rs\<close>): presets, explicit ports and inclusive
  ranges, resolved to a sorted, duplicate-free list. The two dataset texts that the build
  embeds are the record \<open>port_datasets\<close>.
\<close>

datatype port_error =
    PortMalformed string
  | PortZero string
  | PortReversedRange string

record port_datasets =
  top_100 :: string
  common_1000 :: string

text \<open>\<open>a..=b\<close> over \<open>u16\<close>.\<close>

definition port_range :: "u16 \<Rightarrow> u16 \<Rightarrow> u16 list" where
  "port_range a b = map of_nat [unat a..<Suc (unat b)]"

definition explicit_ports :: "string \<Rightarrow> port_error + u16 list" where
  "explicit_ports spec =
     (case split_once CHR ''-'' spec of
        Some (a, b) \<Rightarrow>
          (case parse_u16 a of
             None \<Rightarrow> Inl (PortMalformed spec)
           | Some a \<Rightarrow>
               (case parse_u16 b of
                  None \<Rightarrow> Inl (PortMalformed spec)
                | Some b \<Rightarrow>
                    if a = 0 then Inl (PortZero spec)
                    else if b < a then Inl (PortReversedRange spec)
                    else Inr (port_range a b)))
      | None \<Rightarrow>
          (case parse_u16 spec of
             None \<Rightarrow> Inl (PortMalformed spec)
           | Some p \<Rightarrow> if p = 0 then Inl (PortZero spec) else Inr [p]))"

text \<open>\<open>str::lines\<close>: split at line feeds; the end of the text ends the last line, and a carriage
  return before the line feed belongs to the line ending.\<close>

fun split_lines :: "string \<Rightarrow> string list" where
  "split_lines [] = []"
| "split_lines (c # cs) =
     (if c = CHR 0x0A then [] # split_lines cs
      else case split_lines cs of
             [] \<Rightarrow> [[c]]
           | l # ls \<Rightarrow> (if cs \<noteq> [] \<and> hd cs = CHR 0x0A \<and> c = CHR 0x0D then l # ls else (c # l) # ls))"

text \<open>\<open>expect\<close> on a line that is not a port: the panic of \<open>parse_dataset\<close>.\<close>

fun parse_ports :: "string list \<Rightarrow> u16 list rust" where
  "parse_ports [] = Ret []"
| "parse_ports (l # ls) =
     (case parse_u16 l of
        None \<Rightarrow> Panic
      | Some p \<Rightarrow> (case parse_ports ls of Panic \<Rightarrow> Panic | Ret ps \<Rightarrow> Ret (p # ps)))"

definition parse_dataset :: "string \<Rightarrow> u16 list rust" where
  "parse_dataset raw =
     (case parse_ports
        (filter (\<lambda>l. l \<noteq> [] \<and> \<not> take 1 l = ''#'') (map trim (split_lines raw))) of
        Panic \<Rightarrow> Panic
      | Ret v \<Rightarrow> Ret (sort_dedup v))"

definition preset_ports :: "port_datasets \<Rightarrow> port_preset \<Rightarrow> u16 list rust" where
  "preset_ports D preset =
     (case preset of
        Top100 \<Rightarrow> parse_dataset (top_100 D)
      | Common1000 \<Rightarrow> parse_dataset (common_1000 D)
      | AllPorts \<Rightarrow> Ret (port_range 1 (- 1)))"

definition resolve_ports :: "port_datasets \<Rightarrow> port_selection \<Rightarrow> (port_error + u16 list) rust" where
  "resolve_ports D selection =
     (case selection of
        Preset preset \<Rightarrow>
          (case preset_ports D preset of
             Panic \<Rightarrow> Panic
           | Ret ports \<Rightarrow> Ret (Inr (sort_dedup ports)))
      | Explicit explicit \<Rightarrow>
          (case collect_results explicit_ports (ne_vec explicit) of
             Inl e \<Rightarrow> Ret (Inl e)
           | Inr outs \<Rightarrow> Ret (Inr (sort_dedup (concat outs)))))"

section \<open>Lemmas\<close>

lemma set_port_range: "set (port_range a b) = {p. a \<le> p \<and> p \<le> b}"
proof (intro equalityI subsetI CollectI)
  fix p assume "p \<in> set (port_range a b)"
  then obtain n where n: "p = of_nat n" "unat a \<le> n" "n \<le> unat b"
    by (auto simp: port_range_def)
  then have "n < 2 ^ 16" using unat_bounded [of b] by simp
  with n show "a \<le> p \<and> p \<le> b" by (simp add: word_le_nat_alt unat_of_nat)
next
  fix p assume "p \<in> {p. a \<le> p \<and> p \<le> b}"
  then have "unat p \<in> {unat a..<Suc (unat b)}" by (simp add: word_le_nat_alt)
  moreover have "p = of_nat (unat p)" by simp
  ultimately show "p \<in> set (port_range a b)"
    unfolding port_range_def set_map set_upt by (rule rev_image_eqI)
qed

text \<open>What a specification says: a port, or two ports with a hyphen between them.\<close>

definition spec_range :: "string \<Rightarrow> u16 \<times> u16 \<Rightarrow> bool" where
  "spec_range spec r \<longleftrightarrow>
     (case split_once CHR ''-'' spec of
        Some (x, y) \<Rightarrow> parse_u16 x = Some (fst r) \<and> parse_u16 y = Some (snd r)
      | None \<Rightarrow> parse_u16 spec = Some (fst r) \<and> snd r = fst r)"

lemma port_range_one: "port_range p p = [p]"
  by (simp add: port_range_def)

lemma explicit_ports_Inr:
  "explicit_ports spec = Inr ps \<longleftrightarrow>
     (\<exists>r. spec_range spec r \<and> 0 < fst r \<and> fst r \<le> snd r \<and> ps = port_range (fst r) (snd r))"
proof (cases "split_once CHR ''-'' spec")
  case None
  show ?thesis
    by (cases "parse_u16 spec")
      (auto simp: explicit_ports_def spec_range_def None port_range_one word_gt_0)
next
  case (Some xy)
  obtain x y where xy: "xy = (x, y)" by (cases xy)
  have le: "\<not> b < a \<longleftrightarrow> a \<le> b" "a \<noteq> 0 \<longleftrightarrow> 0 < a" for a b :: u16
    by (auto simp: not_less word_gt_0)
  show ?thesis
    by (cases "parse_u16 x"; cases "parse_u16 y")
      (use le in \<open>auto simp: explicit_ports_def spec_range_def Some xy\<close>)
qed

lemma explicit_ports_list:
  "collect_results explicit_ports specs = Inr outs \<longleftrightarrow>
     (\<exists>ranges. list_all2 (\<lambda>spec r. spec_range spec r \<and> 0 < fst r \<and> fst r \<le> snd r) specs ranges
        \<and> outs = map (\<lambda>r. port_range (fst r) (snd r)) ranges)"
  unfolding collect_results_Inr
proof (induction specs arbitrary: outs)
  case (Cons spec specs)
  show ?case
  proof
    assume "list_all2 (\<lambda>x y. explicit_ports x = Inr y) (spec # specs) outs"
    then obtain ps outs' where o: "outs = ps # outs'" "explicit_ports spec = Inr ps"
        "list_all2 (\<lambda>x y. explicit_ports x = Inr y) specs outs'"
      by (auto simp: list_all2_Cons1)
    from o(3) obtain ranges where
        "list_all2 (\<lambda>spec r. spec_range spec r \<and> 0 < fst r \<and> fst r \<le> snd r) specs ranges"
        "outs' = map (\<lambda>r. port_range (fst r) (snd r)) ranges"
      unfolding Cons.IH by blast
    moreover obtain r where "spec_range spec r \<and> 0 < fst r \<and> fst r \<le> snd r"
        "ps = port_range (fst r) (snd r)"
      using o(2) unfolding explicit_ports_Inr by blast
    ultimately show "\<exists>ranges. list_all2 (\<lambda>spec r. spec_range spec r \<and> 0 < fst r \<and> fst r \<le> snd r)
        (spec # specs) ranges \<and> outs = map (\<lambda>r. port_range (fst r) (snd r)) ranges"
      using o(1) by (intro exI [of _ "r # ranges"]) simp
  next
    assume "\<exists>ranges. list_all2 (\<lambda>spec r. spec_range spec r \<and> 0 < fst r \<and> fst r \<le> snd r)
        (spec # specs) ranges \<and> outs = map (\<lambda>r. port_range (fst r) (snd r)) ranges"
    then obtain r ranges where r: "spec_range spec r \<and> 0 < fst r \<and> fst r \<le> snd r"
        "list_all2 (\<lambda>spec r. spec_range spec r \<and> 0 < fst r \<and> fst r \<le> snd r) specs ranges"
        "outs = port_range (fst r) (snd r) # map (\<lambda>r. port_range (fst r) (snd r)) ranges"
      unfolding list_all2_Cons1 by auto
    moreover have "list_all2 (\<lambda>x y. explicit_ports x = Inr y) specs
        (map (\<lambda>r. port_range (fst r) (snd r)) ranges)"
      unfolding Cons.IH using r(2) by blast
    moreover have "explicit_ports spec = Inr (port_range (fst r) (snd r))"
      unfolding explicit_ports_Inr using r(1) by blast
    ultimately show "list_all2 (\<lambda>x y. explicit_ports x = Inr y) (spec # specs) outs"
      by simp
  qed
qed simp

lemma parse_dataset_wf: "parse_dataset raw = Ret ps \<Longrightarrow> bs_wf ps"
  by (auto simp: parse_dataset_def sort_dedup_wf split: rust.splits)

lemma all_ports: "resolve_ports D (Preset AllPorts) = Ret (Inr ps) \<Longrightarrow> bs_wf ps \<and> set ps = - {0}"
proof -
  assume "resolve_ports D (Preset AllPorts) = Ret (Inr ps)"
  then have "ps = sort_dedup (port_range 1 (- 1))"
    by (simp add: resolve_ports_def preset_ports_def)
  moreover have "1 \<le> p \<longleftrightarrow> p \<noteq> 0" for p :: u16
    by (simp add: word_le_nat_alt Suc_le_eq unat_gt_0)
  ultimately show ?thesis
    by (auto simp: sort_dedup_wf set_port_range)
qed

text \<open>
  Explicit port selections resolve exactly when every specification is a port or a forward
  range within 1..65535, and the result is the strictly sorted list of the ports they cover:
  port 0 never appears, both ends of a range do, and order and repetition do not matter.
\<close>

theorem resolve_explicit_exactly:
  "resolve_ports D (Explicit specs) = Ret (Inr ps) \<longleftrightarrow>
     (\<exists>ranges. list_all2 (\<lambda>spec r. spec_range spec r \<and> 0 < fst r \<and> fst r \<le> snd r)
          (ne_vec specs) ranges
      \<and> bs_wf ps \<and> set ps = (\<Union>r \<in> set ranges. {p. fst r \<le> p \<and> p \<le> snd r}))"
proof -
  have "resolve_ports D (Explicit specs) = Ret (Inr ps) \<longleftrightarrow>
      (\<exists>outs. collect_results explicit_ports (ne_vec specs) = Inr outs \<and> ps = sort_dedup (concat outs))"
    by (auto simp: resolve_ports_def split: sum.splits)
  also have "\<dots> \<longleftrightarrow>
      (\<exists>ranges. list_all2 (\<lambda>spec r. spec_range spec r \<and> 0 < fst r \<and> fst r \<le> snd r)
          (ne_vec specs) ranges
        \<and> ps = sort_dedup (concat (map (\<lambda>r. port_range (fst r) (snd r)) ranges)))"
    unfolding explicit_ports_list by blast
  finally show ?thesis
    by (simp add: eq_sort_dedup_iff set_port_range)
qed

text \<open>Every resolved list is strictly sorted, so it has at most 65536 entries.\<close>

lemma resolve_ports_wf: "resolve_ports D sel = Ret (Inr ps) \<Longrightarrow> bs_wf ps"
  by (auto simp: resolve_ports_def sort_dedup_wf split: port_selection.splits rust.splits sum.splits)

lemma ports_length: "bs_wf ps \<Longrightarrow> length ps \<le> 2 ^ 16" for ps :: "u16 list"
proof -
  assume "bs_wf ps"
  then have "length ps = card (set ps)"
    by (simp add: bs_wf_def distinct_card)
  also have "\<dots> = card (unat ` set ps)"
    by (intro card_image [symmetric] inj_on_inverseI [of _ of_nat]) simp
  also have "\<dots> \<le> card {..<2 ^ 16 :: nat}"
    using unat_bounded [where ?'a = 16] by (intro card_mono) auto
  finally show ?thesis by simp
qed

end
