(* ===== verification/Event.thy ===== *)
theory Event
  imports Scope
begin

text \<open>
  The vocabulary of the event log (\<open>crates/bathy-types/src/event.rs\<close>), confidence values
  (\<open>confidence.rs\<close>) and task states (\<open>task.rs\<close>). The derived orders of \<open>Transport\<close> and
  \<open>Endpoint\<close>, which key the maps of the query layer, are \<open>linorder\<close> instances.
\<close>

section \<open>Confidence\<close>

text \<open>
  An \<open>f64\<close> is its IEEE 754 bits. Comparison of numbers that are not NaN is comparison of
  the magnitudes with the sign applied, so that the two zeros are equal.
\<close>

definition f64_magnitude :: "u64 \<Rightarrow> u64" where
  "f64_magnitude b = b AND 0x7FFFFFFFFFFFFFFF"

definition f64_is_finite :: "u64 \<Rightarrow> bool" where
  "f64_is_finite b \<longleftrightarrow> f64_magnitude b < 0x7FF0000000000000"

definition f64_is_nan :: "u64 \<Rightarrow> bool" where
  "f64_is_nan b \<longleftrightarrow> f64_magnitude b > 0x7FF0000000000000"

definition f64_value_key :: "u64 \<Rightarrow> int" where
  "f64_value_key b = (if bit b 63 then - uint (f64_magnitude b) else uint (f64_magnitude b))"

definition f64_le :: "u64 \<Rightarrow> u64 \<Rightarrow> bool" where
  "f64_le a b \<longleftrightarrow> \<not> f64_is_nan a \<and> \<not> f64_is_nan b \<and> f64_value_key a \<le> f64_value_key b"

definition f64_zero :: u64 where "f64_zero = 0"
definition f64_one :: u64 where "f64_one = 0x3FF0000000000000"

datatype confidence = Confidence (confidence_bits: u64)

datatype confidence_error = ConfidenceError

definition confidence_new :: "u64 \<Rightarrow> confidence_error + confidence" where
  "confidence_new v =
     (if f64_is_finite v \<and> f64_le f64_zero v \<and> f64_le v f64_one then Inr (Confidence v)
      else Inl ConfidenceError)"

text \<open>The accepted bit patterns: \<open>+0.0\<close> to \<open>1.0\<close>, and \<open>-0.0\<close>.\<close>

lemma confidence_new_exactly:
  "confidence_new v = Inr c \<longleftrightarrow> c = Confidence v \<and> (f64_magnitude v = 0 \<or> (\<not> bit v 63 \<and> f64_magnitude v \<le> f64_one))"
proof -
  let ?m = "f64_magnitude v"
  have k: "f64_value_key f64_zero = 0" "f64_value_key f64_one = uint f64_one"
    "\<not> f64_is_nan f64_zero" "\<not> f64_is_nan f64_one"
    by (simp_all add: f64_value_key_def f64_zero_def f64_one_def f64_magnitude_def f64_is_nan_def)
  have small: "?m \<le> f64_one \<Longrightarrow> f64_is_finite v" "?m = 0 \<Longrightarrow> f64_is_finite v"
    unfolding f64_is_finite_def f64_one_def by (auto elim: le_less_trans)
  have nan: "f64_is_finite v \<Longrightarrow> \<not> f64_is_nan v"
    unfolding f64_is_finite_def f64_is_nan_def by (rule less_not_sym)
  have le: "uint ?m \<le> uint f64_one \<longleftrightarrow> ?m \<le> f64_one" "0 \<le> - uint ?m \<longleftrightarrow> ?m = 0"
    "0 \<le> uint ?m" "0 \<le> uint f64_one" "- uint ?m \<le> uint f64_one"
    using uint_ge_0 [of ?m] uint_ge_0 [of f64_one] unfolding word_le_def uint_0_iff [symmetric]
    by linarith+
  have "f64_is_finite v \<and> f64_le f64_zero v \<and> f64_le v f64_one \<longleftrightarrow>
      ?m = 0 \<or> (\<not> bit v 63 \<and> ?m \<le> f64_one)"
  proof (cases "bit v 63")
    case True
    then have "f64_value_key v = - uint ?m" by (simp add: f64_value_key_def)
    then show ?thesis
      using True small nan le k(3,4) unfolding f64_le_def k(1,2) by metis
  next
    case False
    then have "f64_value_key v = uint ?m" by (simp add: f64_value_key_def)
    moreover have "?m = 0 \<Longrightarrow> ?m \<le> f64_one" by simp
    ultimately show ?thesis
      using False small nan le k(3,4) unfolding f64_le_def k(1,2) by metis
  qed
  then show ?thesis by (auto simp: confidence_new_def)
qed

section \<open>Endpoints\<close>

datatype transport = Tcp | Udp

datatype endpoint = Endpoint (ep_transport: transport) (ep_port: u16)

instantiation transport :: linorder
begin

definition less_eq_transport :: "transport \<Rightarrow> transport \<Rightarrow> bool" where
  "less_eq_transport a b = (a = Tcp \<or> b = Udp)"

definition less_transport :: "transport \<Rightarrow> transport \<Rightarrow> bool" where
  "less_transport a b = (a = Tcp \<and> b = Udp)"

instance
  by standard (auto simp: less_eq_transport_def less_transport_def intro: transport.exhaust)

end

instantiation endpoint :: linorder
begin

definition less_eq_endpoint :: "endpoint \<Rightarrow> endpoint \<Rightarrow> bool" where
  "less_eq_endpoint a b = ((ep_transport a, ep_port a) \<le> (ep_transport b, ep_port b))"

definition less_endpoint :: "endpoint \<Rightarrow> endpoint \<Rightarrow> bool" where
  "less_endpoint a b = ((ep_transport a, ep_port a) < (ep_transport b, ep_port b))"

instance
  by standard (auto simp: less_eq_endpoint_def less_endpoint_def endpoint.expand less_le_not_le)

end

datatype port_state = Open | Closed | Filtered | Indeterminate

datatype scan_mode = TcpConnect | TcpSyn

fun scan_mode_code :: "scan_mode \<Rightarrow> string" where
  "scan_mode_code TcpConnect = ''tcp-connect''"
| "scan_mode_code TcpSyn = ''tcp-syn''"

section \<open>Events\<close>

record observation =
  ob_service :: string
  ob_product :: "string option"
  ob_version :: "string option"
  ob_confidence :: confidence

text \<open>\<open>Target { ip }\<close> is its address.\<close>

datatype event_body =
    ScanStarted digest u64 u64 "scan_mode option" "string option"
      \<comment> \<open>plan hash, estimated targets, estimated probes, scan mode, its detail\<close>
  | HostDiscovered ip_addr string "digest nonempty" \<comment> \<open>target, method, evidence\<close>
  | PortStateObserved ip_addr endpoint port_state "digest nonempty option"
  | ServiceObserved ip_addr endpoint observation "digest nonempty" string "string option"
      \<comment> \<open>target, endpoint, observation, evidence, probe id, rule id\<close>
  | Progress u64 u64 u64 \<comment> \<open>probes sent, probes total, packets spent\<close>
  | PolicyDenied deny_reason string
  | ScanCompleted u64 u64 u64 \<comment> \<open>probes sent, packets spent, findings\<close>
  | ScanFailed string string \<comment> \<open>reason code, detail\<close>

record event =
  ev_scan_id :: u128
  ev_sequence :: u64
  ev_timestamp :: string
  ev_engine_version :: string
  ev_body :: event_body

fun is_terminal :: "event_body \<Rightarrow> bool" where
  "is_terminal (ScanCompleted a b c) = True"
| "is_terminal (ScanFailed a b) = True"
| "is_terminal (PolicyDenied a b) = True"
| "is_terminal _ = False"

datatype task_status = TPending | TRunning | TPaused | TCompleted | TCancelled | TFailed | TDenied

end
