(* ===== verification/Plan.thy ===== *)
theory Plan
  imports Targets Ports Canonical Event
begin

text \<open>
  The scan plan (\<open>crates/bathy-plan/src/plan.rs\<close>): targets times ports in port-major order,
  addressed by an index that survives restarts, and the hash that names the work.
\<close>

section \<open>Building a plan\<close>

record scan_unit =
  su_index :: u64
  su_target :: ip_addr
  su_endpoint :: endpoint

datatype plan_error =
    PlanTarget target_error
  | PlanPort port_error
  | PlanCanonical canonical_error

record scan_plan =
  pl_targets :: "ip_addr list"
  pl_ports :: "u16 list"
  pl_hash :: digest

text \<open>The derived serializer of a request.\<close>

fun objective_json :: "objective \<Rightarrow> json" where
  "objective_json HostInventory = JString ''host_inventory''"
| "objective_json InventoryExposedServices = JString ''inventory_exposed_services''"
| "objective_json ChangeDetection = JString ''change_detection''"
| "objective_json ConfidenceRefinement = JString ''confidence_refinement''"

fun evidence_level_json :: "evidence_level \<Rightarrow> json" where
  "evidence_level_json EvNone = JString ''none''"
| "evidence_level_json EvHeaders = JString ''headers''"
| "evidence_level_json EvFull = JString ''full''"

fun port_preset_json :: "port_preset \<Rightarrow> json" where
  "port_preset_json Top100 = JString ''top-100''"
| "port_preset_json Common1000 = JString ''common-1000''"
| "port_preset_json AllPorts = JString ''all''"

fun port_selection_json :: "port_selection \<Rightarrow> json" where
  "port_selection_json (Preset p) = JObject [(''preset'', port_preset_json p)]"
| "port_selection_json (Explicit e) = JObject [(''explicit'', JArray (map JString (ne_vec e)))]"

definition json_uint :: "'a::len word \<Rightarrow> json" where
  "json_uint w = JNumber (PosInt (ucast w))"

definition service_detection_json :: "service_detection \<Rightarrow> json" where
  "service_detection_json d =
     JObject [(''enabled'', JBool (sd_enabled d)), (''intensity'', json_uint (sd_intensity d))]"

definition budgets_json :: "budgets \<Rightarrow> json" where
  "budgets_json b =
     JObject [(''maximum_packets'', json_uint (maximum_packets b)),
              (''maximum_runtime_seconds'', json_uint (maximum_runtime_seconds b)),
              (''maximum_packets_per_second'', json_uint (maximum_packets_per_second b))]"

definition request_json :: "(u128 \<Rightarrow> string) \<Rightarrow> scan_request \<Rightarrow> (string \<times> json) list" where
  "request_json encode r =
     [(''targets'', JArray (map JString (ne_vec (sr_targets r)))),
      (''authorization_scope_id'', JString (show_scope_id encode (sr_scope_id r))),
      (''objective'', objective_json (sr_objective r)),
      (''ports'', port_selection_json (sr_ports r)),
      (''service_detection'', service_detection_json (sr_service_detection r)),
      (''budgets'', budgets_json (sr_budgets r)),
      (''evidence_level'', evidence_level_json (sr_evidence_level r)),
      (''idempotency_key'', JString (sr_idempotency_key r))]"

definition json_remove :: "string \<Rightarrow> (string \<times> json) list \<Rightarrow> (string \<times> json) list" where
  "json_remove k m = filter (\<lambda>kv. fst kv \<noteq> k) m"

definition plan_document ::
  "(u128 \<Rightarrow> string) \<Rightarrow> scan_request \<Rightarrow> ip_addr list \<Rightarrow> u16 list \<Rightarrow> json" where
  "plan_document encode r targets ports =
     JObject
       [(''engine_plan_version'', JNumber (PosInt 1)),
        (''request'', JObject (json_remove ''ports'' (json_remove ''targets''
           (json_remove ''idempotency_key'' (request_json encode r))))),
        (''expanded_targets'', JArray (map (\<lambda>t. JString (show_ip t)) targets)),
        (''resolved_ports'', JArray (map json_uint ports))]"

record 'n plan_env =
  pe_net :: "'n ipnet"
  pe_datasets :: port_datasets
  pe_encode :: "u128 \<Rightarrow> string"
  pe_literal :: encoder
  pe_of_bytes :: "string \<Rightarrow> digest"

definition plan_build :: "'n plan_env \<Rightarrow> scan_request \<Rightarrow> u64 \<Rightarrow> (plan_error + scan_plan) rust" where
  "plan_build E request max_targets =
     (case expand_targets (pe_net E) (ne_vec (sr_targets request)) max_targets of
        Inl e \<Rightarrow> Ret (Inl (PlanTarget e))
      | Inr targets \<Rightarrow>
          (case resolve_ports (pe_datasets E) (sr_ports request) of
             Panic \<Rightarrow> Panic
           | Ret (Inl e) \<Rightarrow> Ret (Inl (PlanPort e))
           | Ret (Inr ports) \<Rightarrow>
               (case plan_digest (pe_literal E) (pe_of_bytes E)
                       (plan_document (pe_encode E) request targets ports) of
                  Inl e \<Rightarrow> Ret (Inl (PlanCanonical e))
                | Inr hash \<Rightarrow>
                    Ret (Inr \<lparr>pl_targets = targets, pl_ports = ports, pl_hash = hash\<rparr>))))"

section \<open>Units\<close>

definition plan_len :: "scan_plan \<Rightarrow> u64" where
  "plan_len p = of_nat (length (pl_targets p)) * of_nat (length (pl_ports p))"

definition plan_is_empty :: "scan_plan \<Rightarrow> bool" where
  "plan_is_empty p \<longleftrightarrow> plan_len p = 0"

text \<open>Indexing a vector panics out of range, and dividing by zero panics.\<close>

definition index_vec :: "'a list \<Rightarrow> nat \<Rightarrow> 'a rust" where
  "index_vec xs i = (if i < length xs then Ret (xs ! i) else Panic)"

definition plan_unit :: "scan_plan \<Rightarrow> u64 \<Rightarrow> scan_unit option rust" where
  "plan_unit p index =
     (if index \<ge> plan_len p then Ret None
      else
        (let hosts = of_nat (length (pl_targets p)) :: u64
         in if hosts = 0 then Panic
            else (case index_vec (pl_targets p) (unat (index mod hosts)) of
                    Panic \<Rightarrow> Panic
                  | Ret target \<Rightarrow>
                      (case index_vec (pl_ports p) (unat (index div hosts)) of
                         Panic \<Rightarrow> Panic
                       | Ret port \<Rightarrow>
                           Ret (Some \<lparr>su_index = index, su_target = target,
                                      su_endpoint = Endpoint Tcp port\<rparr>)))))"

fun filter_map_rust :: "('a \<Rightarrow> 'b option rust) \<Rightarrow> 'a list \<Rightarrow> 'b list rust" where
  "filter_map_rust f [] = Ret []"
| "filter_map_rust f (x # xs) =
     (case f x of
        Panic \<Rightarrow> Panic
      | Ret None \<Rightarrow> filter_map_rust f xs
      | Ret (Some y) \<Rightarrow>
          (case filter_map_rust f xs of Panic \<Rightarrow> Panic | Ret ys \<Rightarrow> Ret (y # ys)))"

definition units_from :: "scan_plan \<Rightarrow> u64 \<Rightarrow> scan_unit list rust" where
  "units_from p index =
     filter_map_rust (plan_unit p) (map of_nat [unat index..<unat (plan_len p)])"

text \<open>\<open>u64::div_ceil\<close>.\<close>

definition div_ceil :: "u64 \<Rightarrow> u64 \<Rightarrow> u64" where
  "div_ceil a b = (if a mod b > 0 then a div b + 1 else a div b)"

definition estimated_runtime_seconds :: "u64 \<Rightarrow> u32 \<Rightarrow> u64" where
  "estimated_runtime_seconds probes packets_per_second =
     div_ceil probes (max (ucast packets_per_second) 1)"

section \<open>The size of a plan\<close>

definition plan_wf :: "scan_plan \<Rightarrow> bool" where
  "plan_wf p \<longleftrightarrow> bs_wf (pl_targets p) \<and> v4_only (pl_targets p) \<and> bs_wf (pl_ports p)"

lemma v4_length:
  assumes "bs_wf ips" "v4_only ips"
  shows "length ips \<le> 2 ^ 32"
proof -
  let ?f = "\<lambda>ip. case ip of V4 a \<Rightarrow> unat a | V6 b \<Rightarrow> 0"
  have "inj_on ?f (set ips)"
  proof (rule inj_onI)
    fix x y assume "x \<in> set ips" "y \<in> set ips" "?f x = ?f y"
    moreover from this(1,2) have "\<not> is_v6 x" "\<not> is_v6 y"
      using assms(2) by (auto simp: v4_only_def)
    then obtain a b where "x = V4 a" "y = V4 b"
      by (metis is_v6.elims(3))
    ultimately show "x = y"
      by (simp add: word_unat_eq_iff)
  qed
  then have "length ips = card (?f ` set ips)"
    using assms(1) by (simp add: bs_wf_def distinct_card card_image)
  also have "?f ` set ips \<subseteq> {..<2 ^ 32}"
    using unat_bounded [where ?'a = 32] by (auto split: ip_addr.splits)
  then have "card (?f ` set ips) \<le> card {..<2 ^ 32 :: nat}"
    by (rule card_mono [rotated]) simp
  finally show ?thesis by simp
qed

lemma plan_wf_bounds:
  assumes "plan_wf p"
  shows "length (pl_targets p) \<le> 2 ^ 32" "length (pl_ports p) \<le> 2 ^ 16"
    "length (pl_targets p) * length (pl_ports p) \<le> 2 ^ 48"
proof -
  show t: "length (pl_targets p) \<le> 2 ^ 32" and q: "length (pl_ports p) \<le> 2 ^ 16"
    using assms v4_length ports_length by (auto simp: plan_wf_def)
  show "length (pl_targets p) * length (pl_ports p) \<le> 2 ^ 48"
    using mult_le_mono [OF t q] by simp
qed

lemma unat_plan_len:
  assumes "plan_wf p"
  shows "unat (plan_len p) = length (pl_targets p) * length (pl_ports p)"
proof -
  have "length (pl_targets p) * length (pl_ports p) < 2 ^ 64"
    using plan_wf_bounds(3) [OF assms] by simp
  then show ?thesis
    unfolding plan_len_def of_nat_mult [symmetric] by (intro unat_of_nat_small) simp
qed

definition unit_at :: "scan_plan \<Rightarrow> nat \<Rightarrow> scan_unit" where
  "unit_at p i = \<lparr>su_index = of_nat i, su_target = pl_targets p ! (i mod length (pl_targets p)),
     su_endpoint = Endpoint Tcp (pl_ports p ! (i div length (pl_targets p)))\<rparr>"

lemma plan_unit_eq:
  assumes "plan_wf p"
  shows "plan_unit p i =
    Ret (if unat i < length (pl_targets p) * length (pl_ports p) then Some (unit_at p (unat i)) else None)"
proof (cases "unat i < length (pl_targets p) * length (pl_ports p)")
  case True
  let ?t = "length (pl_targets p)" and ?q = "length (pl_ports p)"
  have t: "0 < ?t" using True by (cases "pl_targets p") auto
  have h: "unat (of_nat ?t :: u64) = ?t"
    using plan_wf_bounds(1) [OF assms] by (intro unat_of_nat_small) simp
  then have nz: "(of_nat ?t :: u64) \<noteq> 0" using t by (metis less_irrefl unat_0)
  have "unat (i mod of_nat ?t) = unat i mod ?t" "unat (i div of_nat ?t) = unat i div ?t"
    by (simp_all add: unat_mod unat_div h)
  moreover have "unat i mod ?t < ?t" "unat i div ?t < ?q"
    using t True by (simp_all add: less_mult_imp_div_less mult.commute)
  moreover have "\<not> plan_len p \<le> i"
    using True by (simp add: word_le_nat_alt unat_plan_len [OF assms])
  ultimately show ?thesis
    using True nz by (simp add: plan_unit_def Let_def index_vec_def unit_at_def)
next
  case False
  then have "plan_len p \<le> i"
    by (simp add: word_le_nat_alt unat_plan_len [OF assms])
  with False show ?thesis by (simp add: plan_unit_def)
qed

section \<open>Enumerating and resuming\<close>

lemma filter_map_total: "(\<And>x. x \<in> set xs \<Longrightarrow> f x = Ret (Some (g x))) \<Longrightarrow> filter_map_rust f xs = Ret (map g xs)"
  by (induction xs) auto

lemma units_from_eq:
  assumes "plan_wf p"
  shows "units_from p i =
    Ret (map (unit_at p) [unat i..<length (pl_targets p) * length (pl_ports p)])"
proof -
  let ?n = "length (pl_targets p) * length (pl_ports p)"
  have small: "unat (of_nat k :: u64) = k" if "k < ?n" for k
    using that plan_wf_bounds(3) [OF assms] by (intro unat_of_nat_small) simp
  have "units_from p i =
      Ret (map (\<lambda>w. unit_at p (unat w)) (map (of_nat :: nat \<Rightarrow> u64) [unat i..<?n]))"
    unfolding units_from_def unat_plan_len [OF assms]
    by (rule filter_map_total [where g = "\<lambda>w. unit_at p (unat w)"])
      (auto simp: plan_unit_eq [OF assms] small)
  also have "map (\<lambda>w. unit_at p (unat w)) (map (of_nat :: nat \<Rightarrow> u64) [unat i..<?n])
      = map (unit_at p) [unat i..<?n]"
    by (auto simp: small)
  finally show ?thesis .
qed

lemma div_mod_pairs:
  fixes m n :: nat
  shows "bij_betw (\<lambda>i. (i mod m, i div m)) {..<m * n} ({..<m} \<times> {..<n})"
proof (cases "m = 0")
  case False
  show ?thesis
  proof (rule bij_betw_byWitness [where f' = "\<lambda>(r, q). q * m + r"])
    show "\<forall>a \<in> {..<m * n}. (\<lambda>(r, q). q * m + r) (a mod m, a div m) = a" by simp
    show "\<forall>a' \<in> {..<m} \<times> {..<n}. (((\<lambda>(r, q). q * m + r) a') mod m, ((\<lambda>(r, q). q * m + r) a') div m) = a'"
      by auto
    show "(\<lambda>i. (i mod m, i div m)) ` {..<m * n} \<subseteq> {..<m} \<times> {..<n}"
      using False by (auto simp: less_mult_imp_div_less mult.commute)
    show "(\<lambda>(r, q). q * m + r) ` ({..<m} \<times> {..<n}) \<subseteq> {..<m * n}"
    proof
      fix x assume "x \<in> (\<lambda>(r, q). q * m + r) ` ({..<m} \<times> {..<n})"
      then obtain r q where x: "x = q * m + r" "r < m" "q < n" by auto
      then have "x < Suc q * m" by simp
      also have "\<dots> \<le> n * m" using x(3) by (intro mult_right_mono) simp_all
      finally show "x \<in> {..<m * n}" by (simp add: mult.commute)
    qed
  qed
qed (simp add: bij_betw_def)

definition unit_address :: "scan_unit \<Rightarrow> ip_addr \<times> endpoint" where
  "unit_address u = (su_target u, su_endpoint u)"

lemma unit_addresses:
  assumes "plan_wf p"
  shows "distinct (map (unit_address \<circ> unit_at p) [0..<length (pl_targets p) * length (pl_ports p)])"
    and "(unit_address \<circ> unit_at p) ` {..<length (pl_targets p) * length (pl_ports p)}
      = set (pl_targets p) \<times> Endpoint Tcp ` set (pl_ports p)"
proof -
  let ?m = "length (pl_targets p)" and ?n = "length (pl_ports p)"
  let ?g = "\<lambda>(r, q). (pl_targets p ! r, Endpoint Tcp (pl_ports p ! q))"
  have d: "distinct (pl_targets p)" "distinct (pl_ports p)"
    using assms by (auto simp: plan_wf_def bs_wf_def)
  have fg: "unit_address \<circ> unit_at p = ?g \<circ> (\<lambda>i. (i mod ?m, i div ?m))"
    by (rule ext) (simp add: unit_address_def unit_at_def)
  have g: "bij_betw ?g ({..<?m} \<times> {..<?n}) (set (pl_targets p) \<times> Endpoint Tcp ` set (pl_ports p))"
    unfolding bij_betw_def
  proof
    show "inj_on ?g ({..<?m} \<times> {..<?n})"
      using d by (auto simp: inj_on_def nth_eq_iff_index_eq)
    show "?g ` ({..<?m} \<times> {..<?n}) = set (pl_targets p) \<times> Endpoint Tcp ` set (pl_ports p)"
      by (auto simp: set_conv_nth image_iff)
  qed
  have b: "bij_betw (unit_address \<circ> unit_at p) {..<?m * ?n}
      (set (pl_targets p) \<times> Endpoint Tcp ` set (pl_ports p))"
    unfolding fg by (rule bij_betw_trans [OF div_mod_pairs g])
  then show "distinct (map (unit_address \<circ> unit_at p) [0..<?m * ?n])"
    by (simp add: distinct_map bij_betw_def lessThan_atLeast0)
  from b show "(unit_address \<circ> unit_at p) ` {..<?m * ?n}
      = set (pl_targets p) \<times> Endpoint Tcp ` set (pl_ports p)"
    by (simp add: bij_betw_def)
qed

lemma plan_build_wf:
  assumes "ipnet_laws (pe_net E) valid" "plan_build E r limit = Ret (Inr p)"
  shows "plan_wf p"
proof -
  obtain ts ps where "expand_targets (pe_net E) (ne_vec (sr_targets r)) limit = Inr ts"
      "resolve_ports (pe_datasets E) (sr_ports r) = Ret (Inr ps)"
      "pl_targets p = ts" "pl_ports p = ps"
    using assms(2) by (auto simp: plan_build_def split: sum.splits rust.splits)
  then show ?thesis
    using ipnet_laws.expand_wf [OF assms(1)] ipnet_laws.expand_v4 [OF assms(1)] resolve_ports_wf
    by (auto simp: plan_wf_def)
qed

text \<open>
  C24: A built plan enumerates its work exactly: listing all units never panics (no index out of
  range, no division by zero, no 64-bit overflow of the length), visits every pair of an
  expanded target and a resolved port exactly once, and numbers the units by their position;
  resuming at any index yields exactly the units not yet passed.
\<close>

theorem plan_enumerates_exactly:
  assumes "ipnet_laws (pe_net E) valid" and "plan_build E r limit = Ret (Inr p)"
  shows "\<exists>us. units_from p 0 = Ret us
    \<and> length us = unat (plan_len p)
    \<and> distinct (map unit_address us)
    \<and> set (map unit_address us) = set (pl_targets p) \<times> Endpoint Tcp ` set (pl_ports p)
    \<and> (\<forall>i. plan_unit p i = Ret (if unat i < length us then Some (us ! unat i) else None))
    \<and> (\<forall>i. units_from p i = Ret (drop (unat i) us))"
proof -
  have wf: "plan_wf p" by (rule plan_build_wf [OF assms])
  let ?n = "length (pl_targets p) * length (pl_ports p)"
  let ?us = "map (unit_at p) [0..<?n]"
  have "set (map unit_address ?us) = (unit_address \<circ> unit_at p) ` {..<?n}"
    by (simp add: image_comp lessThan_atLeast0)
  moreover have "units_from p i = Ret (drop (unat i) ?us)" for i
    by (simp add: units_from_eq [OF wf] drop_map)
  moreover from this [of 0] have "units_from p 0 = Ret ?us" by simp
  ultimately show ?thesis
    using unit_addresses [OF wf]
    by (intro exI [of _ ?us]) (simp add: unat_plan_len [OF wf] plan_unit_eq [OF wf])
qed

text \<open>
  Port-major order: consecutive units address different hosts whenever the plan has more
  than one target, and the port never goes back.
\<close>

theorem plan_port_major:
  assumes "plan_wf p" and "plan_unit p i = Ret (Some u)" and "plan_unit p (i + 1) = Ret (Some v)"
  shows "ep_port (su_endpoint u) \<le> ep_port (su_endpoint v)
    \<and> (1 < length (pl_targets p) \<longrightarrow> su_target u \<noteq> su_target v)"
proof -
  let ?t = "length (pl_targets p)"
  have u: "u = unit_at p (unat i)" "unat i < ?t * length (pl_ports p)"
    and v: "v = unit_at p (unat (i + 1))" "unat (i + 1) < ?t * length (pl_ports p)"
    using assms(2,3) by (simp_all add: plan_unit_eq [OF assms(1)] split: if_splits)
  have t: "0 < ?t" using u(2) by (cases "pl_targets p") auto
  have d: "sorted (pl_ports p)" "distinct (pl_targets p)"
    using assms(1) by (auto simp: plan_wf_def bs_wf_def)
  have i1: "unat (i + 1) = Suc (unat i)"
  proof -
    have "unat i < 2 ^ 48" using u(2) plan_wf_bounds(3) [OF assms(1)] by linarith
    then show ?thesis by (simp add: unat_word_ariths)
  qed
  have "unat i div ?t \<le> Suc (unat i) div ?t" by (intro div_le_mono) simp
  moreover have "Suc (unat i) div ?t < length (pl_ports p)"
    using v(2) by (simp add: i1 less_mult_imp_div_less mult.commute)
  ultimately have "ep_port (su_endpoint u) \<le> ep_port (su_endpoint v)"
    using d(1) by (simp add: u v i1 unit_at_def sorted_iff_nth_mono)
  moreover have "su_target u \<noteq> su_target v" if "1 < ?t"
  proof -
    have "unat i mod ?t \<noteq> Suc (unat i) mod ?t"
      using that by (simp add: mod_Suc)
    then show ?thesis
      using d(2) t by (simp add: u v i1 unit_at_def nth_eq_iff_index_eq)
  qed
  ultimately show ?thesis by blast
qed

section \<open>What the hash names\<close>

definition json_get :: "json \<Rightarrow> string \<Rightarrow> json option" where
  "json_get v k = (case v of JObject m \<Rightarrow> map_option json_norm (map_of m k) | _ \<Rightarrow> None)"

lemma json_norm_get:
  assumes "json_wf (JObject m)" "json_wf (JObject m')" "json_norm (JObject m) = json_norm (JObject m')"
  shows "json_get (JObject m) k = json_get (JObject m') k"
proof -
  have sorted: "map_of (sort_key fst xs) k = map_of xs k" if "distinct (map fst xs)"
    for xs :: "(string \<times> json) list"
  proof (rule map_of_eqI [THEN fun_cong])
    show "set (map fst (sort_key fst xs)) = set (map fst xs)" by simp
    have "distinct (map fst (sort_key fst xs))"
      using that by (metis distinct_map distinct_sort set_sort)
    then show "\<forall>k \<in> set (map fst (sort_key fst xs)). map_of (sort_key fst xs) k = map_of xs k"
      using that by (auto simp: map_of_eq_Some_iff)
  qed
  have mapped: "map_of (map (\<lambda>(k, v). (k, json_norm v)) xs) k = map_option json_norm (map_of xs k)" for xs
    by (induction xs) auto
  have "map_of (sort_key fst (map (\<lambda>(k, v). (k, json_norm v)) m)) k
      = map_of (sort_key fst (map (\<lambda>(k, v). (k, json_norm v)) m')) k"
    using assms(3) by simp
  then show ?thesis
    unfolding sort_key_map mapped using assms(1,2) by (simp add: sorted json_get_def)
qed

lemma json_uint_inj:
  assumes "LENGTH('a) \<le> 64"
  shows "json_uint a = json_uint b \<longleftrightarrow> a = (b :: 'a::len word)"
proof
  assume "json_uint a = json_uint b"
  then have "unat (ucast a :: u64) = unat (ucast b :: u64)"
    by (simp add: json_uint_def)
  then have "unat a = unat b"
    using assms by (simp add: unat_ucast_widen)
  then show "a = b" by (simp add: word_unat_eq_iff)
qed simp

lemma json_norm_scalar [simp]:
  "json_norm (json_uint w) = json_uint w" "json_wf (json_uint w)"
  "json_norm (objective_json j) = objective_json j" "json_wf (objective_json j)"
  "json_norm (evidence_level_json l) = evidence_level_json l" "json_wf (evidence_level_json l)"
  by (simp add: json_uint_def, simp add: json_uint_def, (cases j; simp)+, (cases l; simp)+)

lemma objective_json_inj: "objective_json a = objective_json b \<longleftrightarrow> a = b"
  by (cases a; cases b) simp_all

lemma evidence_level_json_inj: "evidence_level_json a = evidence_level_json b \<longleftrightarrow> a = b"
  by (cases a; cases b) simp_all

lemma show_word_dot:
  "show_word a @ CHR ''.'' # x = show_word b @ CHR ''.'' # y \<Longrightarrow> a = b \<and> x = y"
proof -
  assume eq: "show_word a @ CHR ''.'' # x = show_word b @ CHR ''.'' # y"
  have "show_nat (unat a) = show_nat (unat b)"
    by (rule digits_prefix [OF show_nat_digits show_nat_digits _ _ eq [unfolded show_word_def]])
      (simp_all add: stops_def is_digit_def)
  then show ?thesis
    using eq by (simp add: show_nat_inj show_word_def word_unat_eq_iff)
qed

lemma octets_value:
  fixes n :: nat
  assumes "n < 2 ^ 32"
  shows "n = ((n div 2 ^ 24 mod 256 * 256 + n div 2 ^ 16 mod 256) * 256 + n div 2 ^ 8 mod 256) * 256 + n mod 256"
proof -
  have q: "n div 2 ^ 24 = n div 256 div 256 div 256" "n div 2 ^ 16 = n div 256 div 256" "n div 2 ^ 8 = n div 256"
    by (simp_all add: div_mult2_eq [symmetric])
  have "n div 256 div 256 div 256 < 256"
    using assms by (simp add: div_mult2_eq [symmetric] less_mult_imp_div_less)
  then show ?thesis
    unfolding q by simp
qed

lemma show_ipv4_inj: "show_ipv4 a = show_ipv4 b \<longleftrightarrow> a = b"
proof
  assume eq: "show_ipv4 a = show_ipv4 b"
  have form: "show_ipv4 c = show_word (ucast (drop_bit 24 c) :: u8) @ CHR ''.'' #
      show_word (ucast (drop_bit 16 c) :: u8) @ CHR ''.'' #
      show_word (ucast (drop_bit 8 c) :: u8) @ CHR ''.'' # show_word (ucast c :: u8)" for c
    by (simp add: show_ipv4_def octets_def)
  have o: "(ucast (drop_bit 24 a) :: u8) = ucast (drop_bit 24 b)"
    "(ucast (drop_bit 16 a) :: u8) = ucast (drop_bit 16 b)"
    "(ucast (drop_bit 8 a) :: u8) = ucast (drop_bit 8 b)"
    "show_word (ucast a :: u8) = show_word (ucast b :: u8)"
    using eq unfolding form by (auto dest!: show_word_dot)
  then have "(ucast a :: u8) = ucast b"
    by (simp add: show_word_def show_nat_inj word_unat_eq_iff)
  then have low: "unat a mod 256 = unat b mod 256"
    using unat_ucast_drop_bit [of 0 a, where ?'b = 8] unat_ucast_drop_bit [of 0 b, where ?'b = 8] by simp
  have "unat a div 2 ^ k mod 256 = unat b div 2 ^ k mod 256" if "k \<in> {24, 16, 8}" for k
    using o(1-3) that unat_ucast_drop_bit [of k a, where ?'b = 8] unat_ucast_drop_bit [of k b, where ?'b = 8]
    by auto
  then have k: "unat a div 2 ^ 24 mod 256 = unat b div 2 ^ 24 mod 256"
    "unat a div 2 ^ 16 mod 256 = unat b div 2 ^ 16 mod 256"
    "unat a div 2 ^ 8 mod 256 = unat b div 2 ^ 8 mod 256"
    by blast+
  have "unat a < 2 ^ 32" "unat b < 2 ^ 32"
    using unat_bounded [of a] unat_bounded [of b] by simp_all
  from octets_value [OF this(1), unfolded k low] octets_value [OF this(2)]
  have "unat a = unat b" by argo
  then show "a = b" by (simp add: word_unat_eq_iff)
qed simp

lemma show_ip_inj: "v4_only ts \<Longrightarrow> v4_only ts' \<Longrightarrow> map show_ip ts = map show_ip ts' \<Longrightarrow> ts = ts'"
proof (induction ts arbitrary: ts')
  case (Cons t ts)
  then obtain t' ts'' where t': "ts' = t' # ts''" by (cases ts') auto
  with Cons.prems have "\<not> is_v6 t" "\<not> is_v6 t'" "show_ip t = show_ip t'"
    by (auto simp: v4_only_def)
  then have "t = t'"
    by (cases t; cases t') (auto simp: show_ipv4_inj)
  with Cons t' show ?case by (auto simp: v4_only_def)
qed simp

definition work_json :: "(u128 \<Rightarrow> string) \<Rightarrow> scan_request \<Rightarrow> (string \<times> json) list" where
  "work_json encode r =
     [(''authorization_scope_id'', JString (show_scope_id encode (sr_scope_id r))),
      (''objective'', objective_json (sr_objective r)),
      (''service_detection'', service_detection_json (sr_service_detection r)),
      (''budgets'', budgets_json (sr_budgets r)),
      (''evidence_level'', evidence_level_json (sr_evidence_level r))]"

lemma request_work:
  "json_remove ''ports'' (json_remove ''targets'' (json_remove ''idempotency_key'' (request_json encode r)))
     = work_json encode r"
  by (simp add: json_remove_def request_json_def work_json_def)

lemma work_wf: "json_wf (JObject (work_json encode r))"
  by (simp add: work_json_def service_detection_json_def budgets_json_def)

lemma document_wf: "json_wf (plan_document encode r ts ps)"
  unfolding plan_document_def request_work using work_wf [of encode r] by auto

lemma service_detection_json_norm:
  assumes "json_norm (service_detection_json d) = json_norm (service_detection_json d')"
  shows "d = d'"
proof -
  have "json_get (service_detection_json d) k = json_get (service_detection_json d') k" for k
    using assms unfolding service_detection_json_def by (intro json_norm_get) simp_all
  from this [of "''enabled''"] this [of "''intensity''"] show ?thesis
    by (simp add: service_detection_json_def json_get_def json_uint_inj)
qed

lemma budgets_json_norm:
  assumes "json_norm (budgets_json b) = json_norm (budgets_json b')"
  shows "b = b'"
proof -
  have "json_get (budgets_json b) k = json_get (budgets_json b') k" for k
    using assms unfolding budgets_json_def by (intro json_norm_get) simp_all
  from this [of "''maximum_packets''"] this [of "''maximum_runtime_seconds''"]
    this [of "''maximum_packets_per_second''"]
  show ?thesis
    by (simp add: budgets_json_def json_get_def json_uint_inj)
qed

definition same_work ::
  "scan_request \<Rightarrow> ip_addr list \<Rightarrow> u16 list \<Rightarrow> scan_request \<Rightarrow> ip_addr list \<Rightarrow> u16 list \<Rightarrow> bool" where
  "same_work r ts ps r' ts' ps' \<longleftrightarrow>
     sr_scope_id r = sr_scope_id r' \<and> sr_objective r = sr_objective r'
     \<and> sr_service_detection r = sr_service_detection r' \<and> sr_budgets r = sr_budgets r'
     \<and> sr_evidence_level r = sr_evidence_level r' \<and> ts = ts' \<and> ps = ps'"

lemma document_norm:
  assumes "inj encode" "v4_only ts" "v4_only ts'"
  shows "json_norm (plan_document encode r ts ps) = json_norm (plan_document encode r' ts' ps')
    \<longleftrightarrow> same_work r ts ps r' ts' ps'"
proof
  assume norm: "json_norm (plan_document encode r ts ps) = json_norm (plan_document encode r' ts' ps')"
  have get: "json_get (plan_document encode r ts ps) k = json_get (plan_document encode r' ts' ps') k" for k
    using norm document_wf [of encode r ts ps] document_wf [of encode r' ts' ps']
    unfolding plan_document_def by (rule json_norm_get [rotated 2])
  have "map (\<lambda>t. JString (show_ip t)) ts = map (\<lambda>t. JString (show_ip t)) ts'"
    using get [of "''expanded_targets''"] by (simp add: plan_document_def json_get_def comp_def)
  then have "map (\<lambda>v. case v of JString s \<Rightarrow> s | _ \<Rightarrow> []) (map (\<lambda>t. JString (show_ip t)) ts)
      = map (\<lambda>v. case v of JString s \<Rightarrow> s | _ \<Rightarrow> []) (map (\<lambda>t. JString (show_ip t)) ts')"
    by (rule arg_cong)
  then have "map show_ip ts = map show_ip ts'" by (simp add: comp_def)
  then have ts: "ts = ts'" by (rule show_ip_inj [OF assms(2,3)])
  have "map json_uint ps = map json_uint ps'"
    using get [of "''resolved_ports''"] by (simp add: plan_document_def json_get_def comp_def)
  then have ps: "ps = ps'"
    by (rule map_injective) (auto intro!: injI simp: json_uint_inj)
  have "json_norm (JObject (work_json encode r)) = json_norm (JObject (work_json encode r'))"
    using get [of "''request''"] by (simp add: plan_document_def request_work json_get_def)
  note work = json_norm_get [OF work_wf work_wf this]
  have "sr_scope_id r = sr_scope_id r'"
    using work [of "''authorization_scope_id''"] assms(1)
    by (simp add: work_json_def json_get_def show_scope_id_def id_display_def inj_eq)
  moreover have "sr_objective r = sr_objective r'"
    using work [of "''objective''"] by (simp add: work_json_def json_get_def objective_json_inj)
  moreover have "sr_evidence_level r = sr_evidence_level r'"
    using work [of "''evidence_level''"] by (simp add: work_json_def json_get_def evidence_level_json_inj)
  moreover have "sr_service_detection r = sr_service_detection r'"
    using work [of "''service_detection''"]
    by (simp add: work_json_def json_get_def service_detection_json_norm)
  moreover have "sr_budgets r = sr_budgets r'"
    using work [of "''budgets''"] by (simp add: work_json_def json_get_def budgets_json_norm)
  ultimately show "same_work r ts ps r' ts' ps'"
    using ts ps by (simp add: same_work_def)
next
  assume "same_work r ts ps r' ts' ps'"
  then show "json_norm (plan_document encode r ts ps) = json_norm (plan_document encode r' ts' ps')"
    unfolding plan_document_def request_work work_json_def same_work_def by simp
qed

lemma ulid_encode_inj: "ulid_laws encode decode \<Longrightarrow> inj encode"
  by (rule inj_on_inverseI [of _ "the \<circ> decode"]) (simp add: ulid_laws.decode_encode)

lemma plan_build_hash:
  assumes "plan_build E r limit = Ret (Inr p)"
  obtains s where "canonical_json (pe_literal E) (plan_document (pe_encode E) r (pl_targets p) (pl_ports p)) = Inr s"
    "pl_hash p = pe_of_bytes E s"
  using assms
  by (auto simp: plan_build_def plan_digest_def res_bind_Inr_iff split: sum.splits rust.splits)

text \<open>
  The plan hash names the work and nothing else. Two built plans hash texts that are equal
  exactly when the requests agree on scope, objective, service detection, budgets and evidence
  level and resolve to the same targets and ports: the idempotency key and the phrasing of
  targets and ports do not matter, a changed budget does.
\<close>

theorem plan_hash_names_work:
  assumes "ipnet_laws (pe_net E) valid" "ulid_laws (pe_encode E) decode" "json_literals (pe_literal E)"
    and "plan_build E r limit = Ret (Inr p)" "plan_build E r' limit' = Ret (Inr p')"
  shows "\<exists>s s'. pl_hash p = pe_of_bytes E s \<and> pl_hash p' = pe_of_bytes E s'
    \<and> (s = s' \<longleftrightarrow> same_work r (pl_targets p) (pl_ports p) r' (pl_targets p') (pl_ports p'))"
proof -
  obtain s where s: "canonical_json (pe_literal E) (plan_document (pe_encode E) r (pl_targets p) (pl_ports p)) = Inr s"
    "pl_hash p = pe_of_bytes E s" by (rule plan_build_hash [OF assms(4)])
  obtain s' where s': "canonical_json (pe_literal E) (plan_document (pe_encode E) r' (pl_targets p') (pl_ports p')) = Inr s'"
    "pl_hash p' = pe_of_bytes E s'" by (rule plan_build_hash [OF assms(5)])
  have v4: "v4_only (pl_targets p)" "v4_only (pl_targets p')"
    using plan_build_wf [OF assms(1,4)] plan_build_wf [OF assms(1,5)] by (simp_all add: plan_wf_def)
  have "s = s' \<longleftrightarrow> same_work r (pl_targets p) (pl_ports p) r' (pl_targets p') (pl_ports p')"
    using json_literals.canonical_text_determines [OF assms(3) document_wf document_wf]
      write_norm s(1) s'(1) document_norm [OF ulid_encode_inj [OF assms(2)] v4]
    unfolding canonical_json_def by (metis Inr_inject)
  with s s' show ?thesis by blast
qed

text \<open>A two-by-two plan, for the witnesses: an unordered, repeating request.\<close>

definition sample_env :: "net plan_env" where
  "sample_env = \<lparr>pe_net = prefixed_net, pe_datasets = \<lparr>top_100 = [], common_1000 = []\<rparr>,
     pe_encode = crockford_encode, pe_literal = json_literal, pe_of_bytes = (\<lambda>s. Digest [])\<rparr>"

definition sample_request :: "string \<Rightarrow> scan_request" where
  "sample_request key =
     \<lparr>sr_targets = NonEmpty [''10.0.0.2'', ''10.0.0.1''], sr_scope_id = 7,
      sr_objective = InventoryExposedServices,
      sr_ports = Explicit (NonEmpty [''80'', ''22'', ''80'']),
      sr_service_detection = service_detection_default,
      sr_budgets = \<lparr>maximum_packets = 100, maximum_runtime_seconds = 60,
        maximum_packets_per_second = 10\<rparr>,
      sr_evidence_level = EvHeaders, sr_idempotency_key = key\<rparr>"

definition sample_plan :: scan_plan where
  "sample_plan = \<lparr>pl_targets = [V4 0x0A000001, V4 0x0A000002], pl_ports = [22, 80], pl_hash = Digest []\<rparr>"

lemma no_float_document: "no_float (plan_document encode r ts ps)"
proof -
  have "no_float (objective_json j)" for j by (cases j) simp_all
  moreover have "no_float (evidence_level_json l)" for l by (cases l) simp_all
  ultimately show ?thesis
    unfolding plan_document_def request_work
    by (auto simp: work_json_def service_detection_json_def budgets_json_def json_uint_def)
qed

lemma sample_targets:
  "expand_targets prefixed_net [''10.0.0.2'', ''10.0.0.1''] 16 = Inr [V4 0x0A000001, V4 0x0A000002]"
proof -
  have "classify prefixed_net ''10.0.0.1'' = Inr (Single 0x0A000001)"
    "classify prefixed_net ''10.0.0.2'' = Inr (Single 0x0A000002)"
    by (simp_all add: classify_def parse_ip_simps)
  then show ?thesis
    by (simp add: expand_targets_def count_of_def sat_add_def Let_def bs_insert_def)
qed

lemma sample_ports:
  "resolve_ports D (Explicit (NonEmpty [''80'', ''22'', ''80''])) = Ret (Inr [22, 80])"
  by (simp add: resolve_ports_def explicit_ports_def parse_u16_def parse_unsigned_def to_digit_def
      sort_dedup_def)

lemma sample_build: "plan_build sample_env (sample_request key) 16 = Ret (Inr sample_plan)"
proof -
  have "\<exists>s. write_canonical json_literal (plan_document crockford_encode (sample_request key)
      [V4 0x0A000001, V4 0x0A000002] [22, 80]) = Inr s"
    by (rule write_total [OF _ no_float_document]) (simp add: json_literal_def)
  then obtain s where "canonical_json json_literal (plan_document crockford_encode (sample_request key)
      [V4 0x0A000001, V4 0x0A000002] [22, 80]) = Inr s"
    unfolding canonical_json_def by blast
  then have "plan_digest json_literal (\<lambda>s. Digest []) (plan_document crockford_encode (sample_request key)
      [V4 0x0A000001, V4 0x0A000002] [22, 80]) = Inr (Digest [])"
    by (simp add: plan_digest_def)
  moreover have "ne_vec (sr_targets (sample_request key)) = [''10.0.0.2'', ''10.0.0.1'']"
    "sr_ports (sample_request key) = Explicit (NonEmpty [''80'', ''22'', ''80''])"
    by (simp_all add: sample_request_def)
  ultimately show ?thesis
    unfolding plan_build_def by (simp add: sample_env_def sample_targets sample_ports sample_plan_def)
qed

lemma sample_laws:
  "ipnet_laws (pe_net sample_env) net_valid" "ulid_laws (pe_encode sample_env) crockford_decode"
  "json_literals (pe_literal sample_env)"
  using prefixed.ipnet_laws_axioms ulid.ulid_laws_axioms literal.json_literals_axioms
  by (simp_all add: sample_env_def)

theorem plan_enumerates_exactly_witness:
  "\<exists>us. units_from sample_plan 0 = Ret us \<and> length us = 4 \<and> units_from sample_plan 3 = Ret (drop 3 us)"
proof -
  have "unat (plan_len sample_plan) = 4"
    by (simp add: plan_len_def sample_plan_def)
  then show ?thesis
    using plan_enumerates_exactly [OF sample_laws(1) sample_build] by fastforce
qed

theorem plan_port_major_witness:
  "su_target (unit_at sample_plan 1) \<noteq> su_target (unit_at sample_plan 2)"
proof -
  have wf: "plan_wf sample_plan" by (rule plan_build_wf [OF sample_laws(1) sample_build])
  have "plan_unit sample_plan 1 = Ret (Some (unit_at sample_plan 1))"
    "plan_unit sample_plan (1 + 1) = Ret (Some (unit_at sample_plan 2))"
    unfolding plan_unit_eq [OF wf] by (simp_all add: sample_plan_def)
  from plan_port_major [OF wf this] show ?thesis
    by (simp add: sample_plan_def)
qed

theorem plan_hash_names_work_witness:
  "same_work (sample_request ''a'') (pl_targets sample_plan) (pl_ports sample_plan)
     (sample_request ''b'') (pl_targets sample_plan) (pl_ports sample_plan)
   \<and> (\<exists>s. pl_hash sample_plan = pe_of_bytes sample_env s)"
  using plan_hash_names_work [OF sample_laws sample_build sample_build]
  by (auto simp: same_work_def sample_request_def)

text \<open>
  The runtime estimate is the probe count divided by the packet rate, rounded up, with a
  rate of zero read as one; the 64-bit arithmetic neither panics nor wraps.
\<close>

theorem estimated_runtime_exact:
  "unat (estimated_runtime_seconds probes pps) =
     (unat probes + (max (unat pps) 1 - 1)) div max (unat pps) 1"
proof -
  define b where "b = max (unat pps) 1"
  define w where "w = max (ucast pps) (1 :: u64)"
  let ?a = "unat probes"
  have b: "1 \<le> b" by (simp add: b_def)
  have w: "unat w = b"
    by (auto simp: w_def b_def max_def word_le_nat_alt unat_ucast_widen)
  have m: "probes mod w > 0 \<longleftrightarrow> ?a mod b > 0"
    by (simp add: word_gt_0 unat_gt_0 [symmetric] unat_mod w)
  have c: "(?a + (b - 1)) div b = ?a div b + (if ?a mod b > 0 then 1 else 0)"
  proof -
    have "(?a + (b - 1)) div b = (?a div b * b + (?a mod b + (b - 1))) div b" by simp
    also have "\<dots> = ?a div b + (?a mod b + (b - 1)) div b"
      using b by (subst div_mult_self3) simp_all
    also have "(?a mod b + (b - 1)) div b = (if ?a mod b > 0 then 1 else 0)"
    proof (cases "?a mod b > 0")
      case True
      moreover have "?a mod b < b" using b by simp
      ultimately show ?thesis by (intro div_nat_eqI) auto
    next
      case False
      then show ?thesis using b by simp
    qed
    finally show ?thesis .
  qed
  have "?a div b + 1 < 2 ^ 64" if "?a mod b > 0"
  proof -
    have "?a div b * 1 + ?a mod b \<le> ?a div b * b + ?a mod b"
      using b by (intro add_mono mult_left_mono) simp_all
    then have "?a div b + 1 \<le> ?a" using that by simp
    then show ?thesis using unat_bounded [of probes] by simp
  qed
  then have "unat (div_ceil probes w) = ?a div b + (if ?a mod b > 0 then 1 else 0)"
    using m le_less_trans [OF div_le_dividend unat_bounded [of probes], of b]
    by (auto simp: div_ceil_def unat_word_ariths unat_div w)
  then show ?thesis
    unfolding estimated_runtime_seconds_def w_def [symmetric] b_def [symmetric] c .
qed

end
