(* ===== verification/Fold.thy ===== *)
theory Fold
  imports Event
begin

text \<open>
  The fold of an event log into queryable state (\<open>crates/bathy-query/src/fold.rs\<close>): the total
  order the events are put in, the step taken for each, and the endpoint map it builds.
\<close>

section \<open>What a fold holds\<close>

type_synonym endpoint_key = "ip_addr \<times> endpoint"

record endpoint_state =
  es_state :: "port_state option"
  es_observation :: "observation option"
  es_evidence_refs :: "digest list"
  es_probe_id :: "string option"
  es_rule_id :: "string option"

datatype terminal =
    Completed u64 u64 u64 \<comment> \<open>probes sent, packets spent, findings\<close>
  | Failed string string
  | TerminalDenied deny_reason string

record scan_fold =
  sf_endpoints :: "(endpoint_key \<times> endpoint_state) list"
  sf_hosts_up :: "ip_addr list"
  sf_terminal :: "terminal option"
  sf_plan_hash :: "digest option"

definition endpoint_state_default :: endpoint_state where
  "endpoint_state_default = \<lparr>es_state = None, es_observation = None, es_evidence_refs = [],
     es_probe_id = None, es_rule_id = None\<rparr>"

definition scan_fold_default :: scan_fold where
  "scan_fold_default = \<lparr>sf_endpoints = [], sf_hosts_up = [], sf_terminal = None, sf_plan_hash = None\<rparr>"

definition is_open :: "endpoint_state \<Rightarrow> bool" where
  "is_open s \<longleftrightarrow> es_state s = Some Open"

definition open_endpoints :: "scan_fold \<Rightarrow> (endpoint_key \<times> endpoint_state) list" where
  "open_endpoints f = filter (\<lambda>(k, s). is_open s) (sf_endpoints f)"

definition cite :: "endpoint_state \<Rightarrow> digest \<Rightarrow> endpoint_state" where
  "cite s d = (if d \<in> set (es_evidence_refs s) then s
               else s\<lparr>es_evidence_refs := es_evidence_refs s @ [d]\<rparr>)"

fun cite_all :: "endpoint_state \<Rightarrow> digest list \<Rightarrow> endpoint_state" where
  "cite_all s [] = s"
| "cite_all s (d # ds) = cite_all (cite s d) ds"

text \<open>\<open>map.entry(k).or_default()\<close> followed by an update of the entry.\<close>

definition entry_update ::
  "endpoint_key \<Rightarrow> (endpoint_state \<Rightarrow> endpoint_state) \<Rightarrow> scan_fold \<Rightarrow> scan_fold" where
  "entry_update k f sf =
     sf\<lparr>sf_endpoints :=
       bt_insert k
         (f (case map_of (sf_endpoints sf) k of None \<Rightarrow> endpoint_state_default | Some s \<Rightarrow> s))
         (sf_endpoints sf)\<rparr>"

section \<open>The order of events\<close>

fun port_state_rank :: "port_state \<Rightarrow> u8" where
  "port_state_rank Open = 0"
| "port_state_rank Closed = 1"
| "port_state_rank Filtered = 2"
| "port_state_rank Indeterminate = 3"

text \<open>
  \<open>TieKey\<close>, whose derived order compares the fields in this order: kind, target, endpoint,
  state, service, product, version, confidence bits, probe id, rule id, text, digests, counters.
\<close>

type_synonym tie_key =
  "u8 \<times> ip_addr option \<times> endpoint option \<times> u8 option \<times> string option \<times> string option
     \<times> string option \<times> u64 option \<times> string option \<times> string option \<times> (string \<times> string)
     \<times> digest list \<times> u64 list"

fun tie_key :: "event_body \<Rightarrow> tie_key" where
  "tie_key (Progress a b c) =
     (4, None, None, None, None, None, None, None, None, None, ([], []), [], [0, 0, 0])"
| "tie_key (ScanStarted h t p m d) =
     (0, None, None, None, None, None, None, None, None, None, ([], []), [h], [0, 0, 0])"
| "tie_key (HostDiscovered ip m ev) =
     (1, Some ip, None, None, None, None, None, None, None, None, ([], []), [], [0, 0, 0])"
| "tie_key (PortStateObserved ip ep st ev) =
     (2, Some ip, Some ep, Some (port_state_rank st), None, None, None, None, None, None,
      ([], []), (case ev of None \<Rightarrow> [] | Some refs \<Rightarrow> ne_vec refs), [0, 0, 0])"
| "tie_key (ServiceObserved ip ep ob ev probe rule) =
     (3, Some ip, Some ep, None, Some (ob_service ob), ob_product ob, ob_version ob,
      Some (confidence_bits (ob_confidence ob)), Some probe, rule, ([], []), ne_vec ev, [0, 0, 0])"
| "tie_key (PolicyDenied reason detail) =
     (5, None, None, None, None, None, None, None, None, None, (deny_code reason, detail), [], [0, 0, 0])"
| "tie_key (ScanCompleted a b c) =
     (6, None, None, None, None, None, None, None, None, None, ([], []), [], [a, b, c])"
| "tie_key (ScanFailed reason detail) =
     (7, None, None, None, None, None, None, None, None, None, (reason, detail), [], [0, 0, 0])"

text \<open>\<open>chunk_by_mut\<close>: the maximal runs of consecutive elements related by \<open>R\<close>.\<close>

fun chunk_by :: "('a \<Rightarrow> 'a \<Rightarrow> bool) \<Rightarrow> 'a list \<Rightarrow> 'a list list" where
  "chunk_by R [] = []"
| "chunk_by R [x] = [[x]]"
| "chunk_by R (x # y # xs) =
     (case chunk_by R (y # xs) of
        [] \<Rightarrow> [[x]]
      | run # runs \<Rightarrow> (if R x y then (x # run) # runs else [x] # run # runs))"

definition total_order :: "event list \<Rightarrow> event list" where
  "total_order events =
     concat (map (\<lambda>run. if length run > 1 then sort_key (tie_key \<circ> ev_body) run else run)
       (chunk_by (\<lambda>a b. ev_sequence a = ev_sequence b) (sort_key ev_sequence events)))"

section \<open>The fold\<close>

fun fold_step :: "scan_fold \<Rightarrow> event_body \<Rightarrow> scan_fold" where
  "fold_step f (Progress a b c) = f"
| "fold_step f (ScanStarted h t p m d) = f\<lparr>sf_plan_hash := Some h\<rparr>"
| "fold_step f (PolicyDenied reason detail) = f\<lparr>sf_terminal := Some (TerminalDenied reason detail)\<rparr>"
| "fold_step f (HostDiscovered ip m ev) = f\<lparr>sf_hosts_up := bs_insert ip (sf_hosts_up f)\<rparr>"
| "fold_step f (PortStateObserved ip ep st ev) =
     entry_update (ip, ep)
       (\<lambda>e. cite_all (e\<lparr>es_state := Some st\<rparr>) (case ev of None \<Rightarrow> [] | Some refs \<Rightarrow> ne_vec refs)) f"
| "fold_step f (ServiceObserved ip ep ob ev probe rule) =
     entry_update (ip, ep)
       (\<lambda>e. cite_all (e\<lparr>es_observation := Some ob, es_probe_id := Some probe, es_rule_id := rule\<rparr>)
          (ne_vec ev)) f"
| "fold_step f (ScanCompleted a b c) = f\<lparr>sf_terminal := Some (Completed a b c)\<rparr>"
| "fold_step f (ScanFailed reason detail) = f\<lparr>sf_terminal := Some (Failed reason detail)\<rparr>"

definition fold_events :: "event list \<Rightarrow> scan_fold" where
  "fold_events events = foldl (\<lambda>f e. fold_step f (ev_body e)) scan_fold_default (total_order events)"

section \<open>The order is total and forgets the caller's order\<close>

lemma chunk_by_not_Nil: "run \<in> set (chunk_by R xs) \<Longrightarrow> run \<noteq> []"
  by (induction R xs arbitrary: run rule: chunk_by.induct) (auto split: list.splits if_splits)

lemma concat_chunk_by: "concat (chunk_by R xs) = xs"
  by (induction R xs rule: chunk_by.induct) (auto split: list.splits)

text \<open>On a list sorted by \<open>f\<close>, the runs have constant and increasing \<open>f\<close>.\<close>

lemma chunk_by_hd: "chunk_by R (y # ys) = run # runs \<Longrightarrow> \<exists>r. run = y # r"
  by (cases ys) (auto split: list.splits if_splits)

definition constant_on :: "('a \<Rightarrow> 'b) \<Rightarrow> 'a list \<Rightarrow> bool" where
  "constant_on f run \<longleftrightarrow> (\<exists>v. \<forall>a \<in> set run. f a = v)"

definition runs_increase :: "('a \<Rightarrow> 'b::linorder) \<Rightarrow> 'a list list \<Rightarrow> bool" where
  "runs_increase f rs \<longleftrightarrow> sorted_wrt (\<lambda>r s. \<forall>a \<in> set r. \<forall>b \<in> set s. f a < f b) rs"

lemma runs_increase_Cons:
  "runs_increase f (r # rs) \<longleftrightarrow> (\<forall>a \<in> set r. \<forall>b \<in> set (concat rs). f a < f b) \<and> runs_increase f rs"
  by (auto simp: runs_increase_def)

lemma chunk_by_sorted:
  fixes f :: "'a \<Rightarrow> 'b::linorder"
  shows "sorted (map f xs) \<Longrightarrow>
     (\<forall>run \<in> set (chunk_by (\<lambda>a b. f a = f b) xs). constant_on f run)
     \<and> runs_increase f (chunk_by (\<lambda>a b. f a = f b) xs)"
proof (induction xs rule: induct_list012)
  case (3 x y xs)
  let ?c = "chunk_by (\<lambda>a b. f a = f b) (y # xs)"
  obtain run runs where c: "?c = run # runs"
    using concat_chunk_by [of "\<lambda>a b. f a = f b" "y # xs"] by (cases ?c) auto
  have sorted_tl: "sorted (map f (y # xs))" using "3.prems" by simp
  obtain r where r: "run = y # r" using chunk_by_hd [OF c] by blast
  note IH = "3.IH"(2) [OF sorted_tl, unfolded c]
  have all: "set run \<union> set (concat runs) = set (y # xs)"
    using arg_cong [OF concat_chunk_by [of "\<lambda>a b. f a = f b" "y # xs"], of set] unfolding c by simp
  show ?case
  proof (cases "f x = f y")
    case True
    obtain v where v: "\<forall>a \<in> set run. f a = v"
      using IH by (auto simp: constant_on_def)
    with r True have "\<forall>a \<in> set (x # run). f a = v" by simp
    then have "constant_on f (x # run)" unfolding constant_on_def by blast
    moreover have "\<forall>b \<in> set (concat runs). f x < f b"
      using IH r True by (simp add: runs_increase_Cons)
    ultimately show ?thesis
      using IH True unfolding chunk_by.simps c by (simp add: runs_increase_Cons)
  next
    case False
    have "f x \<le> f y" using "3.prems" by simp
    with False have "f x < f y" by simp
    moreover have "\<forall>b \<in> set (y # xs). f y \<le> f b" using sorted_tl by simp
    ultimately have "\<forall>b \<in> set (y # xs). f x < f b" using less_le_trans by blast
    then have "\<forall>b \<in> set (concat (run # runs)). f x < f b"
      using all by auto
    moreover have "constant_on f [x]" by (simp add: constant_on_def)
    ultimately show ?thesis
      using IH False unfolding chunk_by.simps c by (simp add: runs_increase_Cons [of f "[x]"])
  qed
qed (simp_all add: constant_on_def runs_increase_def)

lemma mset_runs: "(\<And>run. mset (h run) = mset run) \<Longrightarrow> mset (concat (map h rs)) = mset (concat rs)"
  by (induction rs) simp_all

lemma mset_total_order: "mset (total_order es) = mset es"
  unfolding total_order_def by (subst mset_runs) (simp_all add: concat_chunk_by)

text \<open>Sorting by \<open>f\<close> and then each run of equal \<open>f\<close> by \<open>g\<close> sorts by the pair.\<close>

lemma sorted_short: "\<not> 1 < length run \<Longrightarrow> sorted (map f run)"
  by (cases run rule: remdups_adj.cases) auto

lemma pair_le: "(a, b) \<le> (c, d) \<longleftrightarrow> a < c \<or> (a = c \<and> b \<le> d)"
  for a c :: "'a::linorder" and b d :: "'b::linorder"
  by (auto simp: less_eq_prod_def)

lemma run_sorted:
  fixes f :: "'a \<Rightarrow> 'b::linorder" and g :: "'a \<Rightarrow> 'c::linorder"
  assumes "constant_on f run" "set r = set run" "sorted (map g r)"
  shows "sorted (map (\<lambda>x. (f x, g x)) r)"
proof -
  obtain v where "\<forall>a \<in> set run. f a = v" using assms(1) by (auto simp: constant_on_def)
  with assms(2) have "\<forall>a \<in> set r. f a = v" by simp
  with assms(3) show ?thesis
    by (induction r) (auto simp: pair_le)
qed

lemma two_pass_sorted:
  fixes f :: "'a \<Rightarrow> 'b::linorder" and g :: "'a \<Rightarrow> 'c::linorder"
  assumes h: "\<And>run. set (h run) = set run" "\<And>run. sorted (map g (h run))"
  shows "\<forall>run \<in> set rs. constant_on f run \<Longrightarrow> runs_increase f rs \<Longrightarrow>
    sorted (map (\<lambda>x. (f x, g x)) (concat (map h rs)))"
proof (induction rs)
  case (Cons r rs)
  have "sorted (map (\<lambda>x. (f x, g x)) (h r))"
    using Cons.prems(1) by (intro run_sorted [OF _ h]) simp
  moreover have "set (concat (map h rs)) = set (concat rs)" by (simp add: h(1))
  then have "\<forall>a \<in> set (h r). \<forall>b \<in> set (concat (map h rs)). (f a, g a) \<le> (f b, g b)"
    using Cons.prems(2) unfolding pair_le h(1) runs_increase_Cons by blast
  moreover have "sorted (map (\<lambda>x. (f x, g x)) (concat (map h rs)))"
    using Cons.prems by (intro Cons.IH) (simp_all add: runs_increase_Cons)
  ultimately show ?case
    unfolding list.map concat.simps map_append sorted_append set_map by blast
qed simp

definition order_key :: "event \<Rightarrow> u64 \<times> tie_key" where
  "order_key e = (ev_sequence e, (tie_key \<circ> ev_body) e)"

lemma sorted_total_order: "sorted (map order_key (total_order es))"
  unfolding total_order_def order_key_def [abs_def]
proof (rule two_pass_sorted)
  fix run :: "event list"
  show "set (if 1 < length run then sort_key (tie_key \<circ> ev_body) run else run) = set run"
    by simp
  show "sorted (map (tie_key \<circ> ev_body) (if 1 < length run then sort_key (tie_key \<circ> ev_body) run else run))"
  proof (cases "1 < length run")
    case True
    show ?thesis unfolding if_P [OF True] by (rule sorted_sort_key)
  next
    case False
    then show ?thesis unfolding if_not_P [OF False] by (rule sorted_short)
  qed
next
  have "sorted (map ev_sequence (sort_key ev_sequence es))" by (rule sorted_sort_key)
  from chunk_by_sorted [OF this]
  show "\<forall>run \<in> set (chunk_by (\<lambda>a b. ev_sequence a = ev_sequence b) (sort_key ev_sequence es)).
      constant_on ev_sequence run"
    and "runs_increase ev_sequence
      (chunk_by (\<lambda>a b. ev_sequence a = ev_sequence b) (sort_key ev_sequence es))"
    by blast+
qed

text \<open>Two permutations of the same events are put in orders with the same keys.\<close>

lemma order_keys_unique:
  assumes "mset es = mset es'"
  shows "map order_key (total_order es) = map order_key (total_order es')"
proof -
  have "mset (map order_key (total_order es)) = mset (map order_key (total_order es'))"
    by (simp add: mset_total_order assms)
  from properties_for_sort [OF this [symmetric] sorted_total_order]
    properties_for_sort [OF refl sorted_total_order]
  show ?thesis by (rule trans [OF sym, rotated])
qed

section \<open>Permutation invariance\<close>

text \<open>Two bodies with the same key are the same to the fold.\<close>

lemma deny_code_inj: "deny_code a = deny_code b \<longleftrightarrow> a = b"
  by (cases a; cases b) simp_all

lemma port_state_rank_inj: "port_state_rank a = port_state_rank b \<longleftrightarrow> a = b"
  by (cases a; cases b) simp_all

lemma confidence_bits_inj: "confidence_bits a = confidence_bits b \<longleftrightarrow> a = b"
  by (cases a; cases b) simp_all

lemma observation_eqI:
  "ob_service a = ob_service b \<Longrightarrow> ob_product a = ob_product b \<Longrightarrow> ob_version a = ob_version b \<Longrightarrow>
     ob_confidence a = ob_confidence b \<Longrightarrow> a = (b :: observation)"
  by (cases a; cases b) simp

lemma tie_key_step:
  assumes "tie_key a = tie_key b"
  shows "fold_step f a = fold_step f b"
proof (cases a)
  case (ServiceObserved ip ep ob ev probe rule)
  with assms obtain ob' ev' where b: "b = ServiceObserved ip ep ob' ev' probe rule" "ne_vec ev = ne_vec ev'"
      "ob_service ob = ob_service ob'" "ob_product ob = ob_product ob'" "ob_version ob = ob_version ob'"
      "ob_confidence ob = ob_confidence ob'"
    by (cases b) (auto simp: confidence_bits_inj)
  then have "ob = ob'" by (intro observation_eqI)
  with b ServiceObserved show ?thesis by simp
qed (use assms in \<open>cases b; simp add: deny_code_inj port_state_rank_inj\<close>)+

lemma foldl_step_keys:
  "map order_key xs = map order_key ys \<Longrightarrow>
     foldl (\<lambda>f e. fold_step f (ev_body e)) f xs = foldl (\<lambda>f e. fold_step f (ev_body e)) f ys"
proof (induction xs arbitrary: ys f)
  case (Cons x xs)
  then obtain y ys' where y: "ys = y # ys'" "order_key x = order_key y"
      "map order_key xs = map order_key ys'"
    by (cases ys) auto
  then have "fold_step f (ev_body x) = fold_step f (ev_body y)"
    by (intro tie_key_step) (simp add: order_key_def)
  then show ?case using Cons.IH [OF y(3)] y(1) by simp
qed simp

text \<open>
  C26: Folding does not depend on the order in which the events are handed over, even on a log
  where two events share a sequence number: any permutation folds to the same state.
\<close>

theorem fold_events_permutation:
  assumes "mset es = mset es'"
  shows "fold_events es = fold_events es'"
  unfolding fold_events_def by (rule foldl_step_keys [OF order_keys_unique [OF assms]])

theorem fold_events_permutation_witness:
  "let e = (\<lambda>b. \<lparr>ev_scan_id = 1, ev_sequence = 5, ev_timestamp = [], ev_engine_version = [], ev_body = b\<rparr>)
   in fold_events [e (ScanFailed ''a'' ''b''), e (ScanCompleted 1 2 3)]
      = fold_events [e (ScanCompleted 1 2 3), e (ScanFailed ''a'' ''b'')]"
  unfolding Let_def by (rule fold_events_permutation) simp

section \<open>What the fold says of one endpoint\<close>

fun touches :: "endpoint_key \<Rightarrow> event_body \<Rightarrow> bool" where
  "touches k (PortStateObserved ip ep st ev) = (k = (ip, ep))"
| "touches k (ServiceObserved ip ep ob ev probe rule) = (k = (ip, ep))"
| "touches k _ = False"

fun body_state :: "event_body \<Rightarrow> port_state option" where
  "body_state (PortStateObserved ip ep st ev) = Some st"
| "body_state _ = None"

fun body_observation :: "event_body \<Rightarrow> (observation \<times> string \<times> string option) option" where
  "body_observation (ServiceObserved ip ep ob ev probe rule) = Some (ob, probe, rule)"
| "body_observation _ = None"

fun body_evidence :: "event_body \<Rightarrow> digest list" where
  "body_evidence (PortStateObserved ip ep st ev) = (case ev of None \<Rightarrow> [] | Some refs \<Rightarrow> ne_vec refs)"
| "body_evidence (ServiceObserved ip ep ob ev probe rule) = ne_vec ev"
| "body_evidence _ = []"

text \<open>The last value a partial function has along a list.\<close>

fun last_some :: "('a \<Rightarrow> 'b option) \<Rightarrow> 'a list \<Rightarrow> 'b option" where
  "last_some f [] = None"
| "last_some f (x # xs) = (case last_some f xs of Some y \<Rightarrow> Some y | None \<Rightarrow> f x)"

lemma last_some_append:
  "last_some f (xs @ ys) = (case last_some f ys of Some y \<Rightarrow> Some y | None \<Rightarrow> last_some f xs)"
  by (induction xs) (auto split: option.splits)

definition endpoint_summary :: "endpoint_key \<Rightarrow> event_body list \<Rightarrow> endpoint_state option \<Rightarrow> bool" where
  "endpoint_summary k bs r \<longleftrightarrow>
     (let mine = filter (touches k) bs in
      case r of
        None \<Rightarrow> mine = []
      | Some s \<Rightarrow> mine \<noteq> []
          \<and> es_state s = last_some body_state mine
          \<and> es_observation s = map_option fst (last_some body_observation mine)
          \<and> es_probe_id s = map_option (fst \<circ> snd) (last_some body_observation mine)
          \<and> es_rule_id s = Option.bind (last_some body_observation mine) (snd \<circ> snd)
          \<and> distinct (es_evidence_refs s)
          \<and> set (es_evidence_refs s) = (\<Union>b \<in> set mine. set (body_evidence b)))"

lemma cite_all_fields [simp]:
  "es_state (cite_all s ds) = es_state s" "es_observation (cite_all s ds) = es_observation s"
  "es_probe_id (cite_all s ds) = es_probe_id s" "es_rule_id (cite_all s ds) = es_rule_id s"
  "set (es_evidence_refs (cite_all s ds)) = set (es_evidence_refs s) \<union> set ds"
  by (induction ds arbitrary: s) (auto simp: cite_def)

lemma cite_all_distinct: "distinct (es_evidence_refs s) \<Longrightarrow> distinct (es_evidence_refs (cite_all s ds))"
  by (induction ds arbitrary: s) (auto simp: cite_def)

lemma entry_update_lookup:
  "map_of (sf_endpoints (entry_update k f sf)) =
     (map_of (sf_endpoints sf))(k \<mapsto> f (case map_of (sf_endpoints sf) k of None \<Rightarrow> endpoint_state_default | Some s \<Rightarrow> s))"
  by (simp add: entry_update_def map_of_bt_insert)

lemma fold_step_other: "\<not> touches k b \<Longrightarrow> map_of (sf_endpoints (fold_step f b)) k = map_of (sf_endpoints f) k"
  by (cases b) (auto simp: entry_update_lookup)

lemma fold_step_summary:
  assumes "endpoint_summary k bs (map_of (sf_endpoints f) k)"
  shows "endpoint_summary k (bs @ [b]) (map_of (sf_endpoints (fold_step f b)) k)"
proof (cases "touches k b")
  case False
  then show ?thesis
    using assms by (simp add: fold_step_other endpoint_summary_def)
next
  case True
  then show ?thesis
    using assms
    by (cases b; cases "map_of (sf_endpoints f) k")
      (auto simp: entry_update_lookup endpoint_summary_def Let_def endpoint_state_default_def
        last_some_append cite_all_distinct split: option.splits)
qed

lemma endpoint_summary_foldl:
  "endpoint_summary k bs (map_of (sf_endpoints f) k) \<Longrightarrow>
     endpoint_summary k (bs @ map ev_body es)
       (map_of (sf_endpoints (foldl (\<lambda>f e. fold_step f (ev_body e)) f es)) k)"
proof (induction es arbitrary: bs f)
  case (Cons e es)
  from Cons.IH [OF fold_step_summary [OF Cons.prems]] show ?case by simp
qed simp

text \<open>
  C27: What a fold says of an endpoint is what the ordered log says of it: the endpoint is absent
  exactly when no event touches it; otherwise its port state is the last one observed (or
  none), its observation, probe and rule are those of the last service event, and its evidence
  is exactly the digests any of its events cited, each once. Nothing else enters.
\<close>

theorem fold_endpoint_summary:
  "endpoint_summary k (map ev_body (total_order es)) (map_of (sf_endpoints (fold_events es)) k)"
  using endpoint_summary_foldl [of k "[]" scan_fold_default "total_order es"]
  by (simp add: fold_events_def scan_fold_default_def endpoint_summary_def)

section \<open>Hosts, terminal state and plan hash\<close>

fun body_terminal :: "event_body \<Rightarrow> terminal option" where
  "body_terminal (ScanCompleted a b c) = Some (Completed a b c)"
| "body_terminal (ScanFailed r d) = Some (Failed r d)"
| "body_terminal (PolicyDenied r d) = Some (TerminalDenied r d)"
| "body_terminal _ = None"

fun body_plan_hash :: "event_body \<Rightarrow> digest option" where
  "body_plan_hash (ScanStarted h t p m d) = Some h"
| "body_plan_hash _ = None"

fun body_host :: "event_body \<Rightarrow> ip_addr option" where
  "body_host (HostDiscovered ip m ev) = Some ip"
| "body_host _ = None"

definition fold_wf :: "scan_fold \<Rightarrow> bool" where
  "fold_wf f \<longleftrightarrow> bt_wf (sf_endpoints f) \<and> bs_wf (sf_hosts_up f)"

definition fold_globals :: "event_body list \<Rightarrow> scan_fold \<Rightarrow> bool" where
  "fold_globals bs f \<longleftrightarrow> fold_wf f
     \<and> set (sf_hosts_up f) = {ip. Some ip \<in> body_host ` set bs}
     \<and> sf_terminal f = last_some body_terminal bs
     \<and> sf_plan_hash f = last_some body_plan_hash bs"

lemma fold_step_globals: "fold_globals bs f \<Longrightarrow> fold_globals (bs @ [b]) (fold_step f b)"
  by (cases b)
    (auto simp: fold_globals_def fold_wf_def entry_update_def bt_wf_insert bs_wf_insert
      last_some_append split: option.splits)

lemma fold_globals_foldl:
  "fold_globals bs f \<Longrightarrow> fold_globals (bs @ map ev_body es) (foldl (\<lambda>f e. fold_step f (ev_body e)) f es)"
proof (induction es arbitrary: bs f)
  case (Cons e es)
  from Cons.IH [OF fold_step_globals [OF Cons.prems]] show ?case by simp
qed simp

lemma last_some_terminal: "last_some body_terminal bs \<noteq> None \<longleftrightarrow> (\<exists>b \<in> set bs. is_terminal b)"
proof (induction bs)
  case (Cons b bs)
  then show ?case by (cases b) (auto split: option.splits)
qed simp

text \<open>
  The rest of the fold: the host set is exactly the hosts discovered, the terminal state is
  that of the last terminal event (none exactly when the log has none), the plan hash is that
  of the last start, and the collections are strictly sorted, so that iteration is total.
\<close>

theorem fold_events_globals:
  "fold_globals (map ev_body (total_order es)) (fold_events es)
   \<and> (sf_terminal (fold_events es) \<noteq> None \<longleftrightarrow> (\<exists>e \<in> set es. is_terminal (ev_body e)))"
proof -
  have g: "fold_globals (map ev_body (total_order es)) (fold_events es)"
    using fold_globals_foldl [of "[]" scan_fold_default "total_order es"]
    by (simp add: fold_events_def scan_fold_default_def fold_globals_def fold_wf_def)
  have "set (total_order es) = set es"
    by (rule mset_eq_setD [OF mset_total_order])
  then show ?thesis
    using g last_some_terminal [of "map ev_body (total_order es)"] by (auto simp: fold_globals_def)
qed

lemma chunk_by_distinct:
  "distinct (map f xs) \<Longrightarrow> chunk_by (\<lambda>a b. f a = f b) xs = map (\<lambda>x. [x]) xs"
  by (induction xs rule: induct_list012) auto

text \<open>A log in sequence order without repetition is folded in the order it has.\<close>

lemma total_order_id: "sorted (map ev_sequence es) \<Longrightarrow> distinct (map ev_sequence es) \<Longrightarrow> total_order es = es"
  by (simp add: total_order_def sort_key_id_if_sorted chunk_by_distinct comp_def)

end
