(* ===== verification/Diff.thy ===== *)
theory Diff
  imports Fold
begin

text \<open>
  The difference of two folds (\<open>crates/bathy-query/src/diff.rs\<close>): which endpoints changed and
  how, which cannot be decided, and how many agree.
\<close>

section \<open>Results\<close>

datatype change_kind =
    EndpointAppeared
  | EndpointDisappeared
  | StateChanged
  | ServiceChanged
  | ProductChanged
  | VersionChanged
  | ConfidenceOnly

record change =
  ch_target :: ip_addr
  ch_endpoint :: endpoint
  ch_kind :: change_kind
  ch_before :: "endpoint_state option"
  ch_after :: "endpoint_state option"

record undetermined =
  un_target :: ip_addr
  un_endpoint :: endpoint
  un_before :: "endpoint_state option"
  un_after :: "endpoint_state option"

datatype undecidable = ScanIncomplete | CoverageDiffers

record scan_diff =
  sd_changes :: "change list"
  sd_unchanged :: u64
  sd_undetermined :: "undetermined list"
  sd_undecidable :: "undecidable option"
  sd_before_terminal :: "terminal option"
  sd_after_terminal :: "terminal option"

definition is_substantive :: "change \<Rightarrow> bool" where
  "is_substantive c \<longleftrightarrow> ch_kind c \<noteq> ConfidenceOnly"

definition substantive_changes :: "scan_diff \<Rightarrow> change list" where
  "substantive_changes d = filter is_substantive (sd_changes d)"

definition retain_substantive :: "scan_diff \<Rightarrow> scan_diff" where
  "retain_substantive d = d\<lparr>sd_changes := filter is_substantive (sd_changes d)\<rparr>"

definition absence_was_evidence :: "scan_diff \<Rightarrow> bool" where
  "absence_was_evidence d \<longleftrightarrow> sd_undecidable d = None"

section \<open>Classification\<close>

fun completed :: "terminal option \<Rightarrow> bool" where
  "completed (Some (Completed a b c)) = True"
| "completed _ = False"

definition comparability :: "terminal option \<Rightarrow> terminal option \<Rightarrow> bool \<Rightarrow> undecidable option" where
  "comparability before after plans_agree =
     (if \<not> completed before \<or> \<not> completed after then Some ScanIncomplete
      else if \<not> plans_agree then Some CoverageDiffers
      else None)"

definition classify :: "endpoint_state \<Rightarrow> endpoint_state \<Rightarrow> change_kind option" where
  "classify before after =
     (let b = es_observation before; a = es_observation after in
      if es_state before \<noteq> es_state after then Some StateChanged
      else if map_option ob_service b \<noteq> map_option ob_service a then Some ServiceChanged
      else if Option.bind b ob_product \<noteq> Option.bind a ob_product then Some ProductChanged
      else if Option.bind b ob_version \<noteq> Option.bind a ob_version then Some VersionChanged
      else if map_option (confidence_bits \<circ> ob_confidence) b
              \<noteq> map_option (confidence_bits \<circ> ob_confidence) a then Some ConfidenceOnly
      else None)"

section \<open>The diff\<close>

definition diff_step ::
  "scan_fold \<Rightarrow> scan_fold \<Rightarrow> undecidable option \<Rightarrow> scan_diff \<Rightarrow> endpoint_key \<Rightarrow> scan_diff" where
  "diff_step before after undecidable result key =
     (let target = fst key; endpoint = snd key;
          seen_before = map_of (sf_endpoints before) key;
          seen_after = map_of (sf_endpoints after) key
      in case (seen_before, seen_after) of
           (Some b, Some a) \<Rightarrow>
             (case classify b a of
                Some kind \<Rightarrow>
                  result\<lparr>sd_changes := sd_changes result @
                    [\<lparr>ch_target = target, ch_endpoint = endpoint, ch_kind = kind,
                      ch_before = Some b, ch_after = Some a\<rparr>]\<rparr>
              | None \<Rightarrow> result\<lparr>sd_unchanged := sat_add (sd_unchanged result) 1\<rparr>)
         | (b, a) \<Rightarrow>
             (let kind = (if b \<noteq> None then EndpointDisappeared else EndpointAppeared)
              in case undecidable of
                   Some _ \<Rightarrow>
                     result\<lparr>sd_undetermined := sd_undetermined result @
                       [\<lparr>un_target = target, un_endpoint = endpoint, un_before = b, un_after = a\<rparr>]\<rparr>
                 | None \<Rightarrow>
                     result\<lparr>sd_changes := sd_changes result @
                       [\<lparr>ch_target = target, ch_endpoint = endpoint, ch_kind = kind,
                         ch_before = b, ch_after = a\<rparr>]\<rparr>))"

definition diff_keys :: "scan_fold \<Rightarrow> scan_fold \<Rightarrow> endpoint_key list" where
  "diff_keys before after =
     bs_extend [] (map fst (sf_endpoints before) @ map fst (sf_endpoints after))"

definition diff :: "scan_fold \<Rightarrow> scan_fold \<Rightarrow> scan_diff" where
  "diff before after =
     (let plans_agree = (sf_plan_hash before \<noteq> None \<and> sf_plan_hash before = sf_plan_hash after);
          undecidable = comparability (sf_terminal before) (sf_terminal after) plans_agree
      in foldl (diff_step before after undecidable)
           \<lparr>sd_changes = [], sd_unchanged = 0, sd_undetermined = [], sd_undecidable = undecidable,
            sd_before_terminal = sf_terminal before, sd_after_terminal = sf_terminal after\<rparr>
           (diff_keys before after))"

section \<open>What the loop computes\<close>

text \<open>The outcome for one endpoint, as a function of its two records.\<close>

datatype verdict = Agrees | Differs change_kind | CannotSay

fun judge :: "bool \<Rightarrow> endpoint_state option \<Rightarrow> endpoint_state option \<Rightarrow> verdict" where
  "judge c (Some b) (Some a) = (case classify b a of None \<Rightarrow> Agrees | Some k \<Rightarrow> Differs k)"
| "judge c (Some b) None = (if c then Differs EndpointDisappeared else CannotSay)"
| "judge c None (Some a) = (if c then Differs EndpointAppeared else CannotSay)"
| "judge c None None = Agrees"

text \<open>Both scans ran to their end, and the same known plan.\<close>

definition comparable_scans :: "scan_fold \<Rightarrow> scan_fold \<Rightarrow> bool" where
  "comparable_scans before after \<longleftrightarrow>
     (\<exists>x y z. sf_terminal before = Some (Completed x y z)) \<and> (\<exists>x y z. sf_terminal after = Some (Completed x y z))
     \<and> sf_plan_hash before \<noteq> None \<and> sf_plan_hash before = sf_plan_hash after"

definition key_verdict :: "scan_fold \<Rightarrow> scan_fold \<Rightarrow> endpoint_key \<Rightarrow> verdict" where
  "key_verdict before after k =
     judge (comparable_scans before after) (map_of (sf_endpoints before) k) (map_of (sf_endpoints after) k)"

definition key_change :: "scan_fold \<Rightarrow> scan_fold \<Rightarrow> endpoint_key \<Rightarrow> change option" where
  "key_change before after k =
     (case key_verdict before after k of
        Differs kind \<Rightarrow> Some \<lparr>ch_target = fst k, ch_endpoint = snd k, ch_kind = kind,
          ch_before = map_of (sf_endpoints before) k, ch_after = map_of (sf_endpoints after) k\<rparr>
      | _ \<Rightarrow> None)"

definition key_undetermined :: "scan_fold \<Rightarrow> scan_fold \<Rightarrow> endpoint_key \<Rightarrow> undetermined option" where
  "key_undetermined before after k =
     (case key_verdict before after k of
        CannotSay \<Rightarrow> Some \<lparr>un_target = fst k, un_endpoint = snd k,
          un_before = map_of (sf_endpoints before) k, un_after = map_of (sf_endpoints after) k\<rparr>
      | _ \<Rightarrow> None)"

lemma completed_iff: "completed t \<longleftrightarrow> (\<exists>x y z. t = Some (Completed x y z))"
  by (cases t rule: completed.cases) auto

lemma comparability_None:
  "comparability (sf_terminal b) (sf_terminal a) (sf_plan_hash b \<noteq> None \<and> sf_plan_hash b = sf_plan_hash a) = None
     \<longleftrightarrow> comparable_scans b a"
  by (cases "sf_plan_hash b") (auto simp: comparability_def comparable_scans_def completed_iff)

lemma set_diff_keys: "set (diff_keys b a) = fst ` set (sf_endpoints b) \<union> fst ` set (sf_endpoints a)"
  by (simp add: diff_keys_def)

lemma diff_keys_wf: "bs_wf (diff_keys b a)"
  by (simp add: diff_keys_def bs_wf_extend)

lemma diff_step_fields:
  assumes und: "und = None \<longleftrightarrow> comparable_scans before after"
    and k: "map_of (sf_endpoints before) k \<noteq> None \<or> map_of (sf_endpoints after) k \<noteq> None"
  shows "sd_changes (diff_step before after und r k) =
      sd_changes r @ (case key_change before after k of None \<Rightarrow> [] | Some c \<Rightarrow> [c])"
    and "sd_undetermined (diff_step before after und r k) =
      sd_undetermined r @ (case key_undetermined before after k of None \<Rightarrow> [] | Some u \<Rightarrow> [u])"
    and "sd_unchanged (diff_step before after und r k) =
      (if key_verdict before after k = Agrees then sat_add (sd_unchanged r) 1 else sd_unchanged r)"
    and "sd_undecidable (diff_step before after und r k) = sd_undecidable r"
    and "sd_before_terminal (diff_step before after und r k) = sd_before_terminal r"
    and "sd_after_terminal (diff_step before after und r k) = sd_after_terminal r"
  using assms
  by (auto simp: diff_step_def Let_def key_change_def key_undetermined_def key_verdict_def
      split: option.splits)

lemma diff_loop:
  assumes und: "und = None \<longleftrightarrow> comparable_scans before after"
    and keys: "\<forall>k \<in> set ks. map_of (sf_endpoints before) k \<noteq> None \<or> map_of (sf_endpoints after) k \<noteq> None"
  shows "let d = foldl (diff_step before after und) r ks in
      sd_changes d = sd_changes r @ List.map_filter (key_change before after) ks
    \<and> sd_undetermined d = sd_undetermined r @ List.map_filter (key_undetermined before after) ks
    \<and> unat (sd_unchanged d) =
        min (unat (sd_unchanged r) + length (filter (\<lambda>k. key_verdict before after k = Agrees) ks)) (2 ^ 64 - 1)
    \<and> sd_undecidable d = sd_undecidable r
    \<and> sd_before_terminal d = sd_before_terminal r \<and> sd_after_terminal d = sd_after_terminal r"
  using keys
proof (induction ks arbitrary: r)
  case Nil
  have "unat (sd_unchanged r) < 2 ^ 64"
    using unat_bounded [of "sd_unchanged r"] by simp
  then show ?case by (simp add: List.map_filter_def min_def)
next
  case (Cons k ks)
  let ?r = "diff_step before after und r k"
  have k: "map_of (sf_endpoints before) k \<noteq> None \<or> map_of (sf_endpoints after) k \<noteq> None"
    using Cons.prems by simp
  note step = diff_step_fields [OF und k, of r]
  have "unat (sd_unchanged ?r) = (if key_verdict before after k = Agrees
      then min (unat (sd_unchanged r) + 1) (2 ^ 64 - 1) else unat (sd_unchanged r))"
    by (simp add: step(3) unat_sat_add)
  moreover have "\<forall>k \<in> set ks. map_of (sf_endpoints before) k \<noteq> None \<or> map_of (sf_endpoints after) k \<noteq> None"
    using Cons.prems by simp
  note IH = Cons.IH [OF this, of ?r, unfolded Let_def]
  ultimately show ?case
    using IH unfolding Let_def foldl_Cons step(1,2,4-6)
    by (auto simp: List.map_filter_def split: option.splits)
qed

lemma map_of_keys: "map_of m k \<noteq> None \<longleftrightarrow> k \<in> fst ` set m"
  by (auto simp: map_of_eq_None_iff)

lemma diff_fields:
  "sd_changes (diff b a) = List.map_filter (key_change b a) (diff_keys b a)"
  "sd_undetermined (diff b a) = List.map_filter (key_undetermined b a) (diff_keys b a)"
  "unat (sd_unchanged (diff b a)) =
     min (length (filter (\<lambda>k. key_verdict b a k = Agrees) (diff_keys b a))) (2 ^ 64 - 1)"
  "sd_undecidable (diff b a) = None \<longleftrightarrow> comparable_scans b a"
  "sd_before_terminal (diff b a) = sf_terminal b" "sd_after_terminal (diff b a) = sf_terminal a"
proof -
  let ?u = "comparability (sf_terminal b) (sf_terminal a)
    (sf_plan_hash b \<noteq> None \<and> sf_plan_hash b = sf_plan_hash a)"
  let ?r = "\<lparr>sd_changes = [], sd_unchanged = 0, sd_undetermined = [], sd_undecidable = ?u,
    sd_before_terminal = sf_terminal b, sd_after_terminal = sf_terminal a\<rparr>"
  have keys: "\<forall>k \<in> set (diff_keys b a). map_of (sf_endpoints b) k \<noteq> None \<or> map_of (sf_endpoints a) k \<noteq> None"
    unfolding map_of_keys set_diff_keys by blast
  note loop = diff_loop [OF comparability_None keys, of ?r, unfolded Let_def]
  have d: "diff b a = foldl (diff_step b a ?u) ?r (diff_keys b a)"
    by (simp add: diff_def Let_def)
  from loop comparability_None [of b a] show
    "sd_changes (diff b a) = List.map_filter (key_change b a) (diff_keys b a)"
    "sd_undetermined (diff b a) = List.map_filter (key_undetermined b a) (diff_keys b a)"
    "unat (sd_unchanged (diff b a)) =
       min (length (filter (\<lambda>k. key_verdict b a k = Agrees) (diff_keys b a))) (2 ^ 64 - 1)"
    "sd_undecidable (diff b a) = None \<longleftrightarrow> comparable_scans b a"
    "sd_before_terminal (diff b a) = sf_terminal b" "sd_after_terminal (diff b a) = sf_terminal a"
    unfolding d by simp_all
qed

definition change_key :: "change \<Rightarrow> endpoint_key" where
  "change_key c = (ch_target c, ch_endpoint c)"

definition undetermined_key :: "undetermined \<Rightarrow> endpoint_key" where
  "undetermined_key u = (un_target u, un_endpoint u)"

lemma key_change_key: "key_change b a k = Some c \<Longrightarrow> change_key c = k"
  by (auto simp: key_change_def change_key_def split: verdict.splits)

lemma key_undetermined_key: "key_undetermined b a k = Some u \<Longrightarrow> undetermined_key u = k"
  by (auto simp: key_undetermined_def undetermined_key_def split: verdict.splits)

lemma map_filter_keys:
  "(\<And>k c. f k = Some c \<Longrightarrow> key c = k) \<Longrightarrow> map key (List.map_filter f ks) = filter (\<lambda>k. f k \<noteq> None) ks"
  by (induction ks) (auto simp: List.map_filter_def)

lemma set_map_filter: "x \<in> set (List.map_filter f ks) \<longleftrightarrow> (\<exists>k \<in> set ks. f k = Some x)"
  by (auto simp: List.map_filter_def image_iff)

text \<open>What a record says of its service, where it says anything; an observation may leave product and version open.\<close>

definition service_of :: "endpoint_state \<Rightarrow> string option" where
  "service_of s = (case es_observation s of None \<Rightarrow> None | Some ob \<Rightarrow> Some (ob_service ob))"

definition product_of :: "endpoint_state \<Rightarrow> string option" where
  "product_of s = (case es_observation s of None \<Rightarrow> None | Some ob \<Rightarrow> ob_product ob)"

definition version_of :: "endpoint_state \<Rightarrow> string option" where
  "version_of s = (case es_observation s of None \<Rightarrow> None | Some ob \<Rightarrow> ob_version ob)"

definition confidence_of where
  "confidence_of s = (case es_observation s of None \<Rightarrow> None | Some ob \<Rightarrow> Some (confidence_bits (ob_confidence ob)))"

lemma parts_of:
  "map_option ob_service (es_observation s) = service_of s" "Option.bind (es_observation s) ob_product = product_of s"
  "Option.bind (es_observation s) ob_version = version_of s"
  "map_option (confidence_bits \<circ> ob_confidence) (es_observation s) = confidence_of s"
  by (cases "es_observation s"; simp add: service_of_def product_of_def version_of_def confidence_of_def)+

lemma classify_iff:
  "classify b a = Some kind \<longleftrightarrow>
     kind = StateChanged \<and> es_state b \<noteq> es_state a
     \<or> kind = ServiceChanged \<and> es_state b = es_state a \<and> service_of b \<noteq> service_of a
     \<or> kind = ProductChanged \<and> es_state b = es_state a \<and> service_of b = service_of a \<and> product_of b \<noteq> product_of a
     \<or> kind = VersionChanged \<and> es_state b = es_state a \<and> service_of b = service_of a
         \<and> product_of b = product_of a \<and> version_of b \<noteq> version_of a
     \<or> kind = ConfidenceOnly \<and> es_state b = es_state a \<and> service_of b = service_of a
         \<and> product_of b = product_of a \<and> version_of b = version_of a \<and> confidence_of b \<noteq> confidence_of a"
  unfolding classify_def Let_def parts_of by (cases kind) auto

text \<open>
  C28: What the diff reports is decided endpoint by endpoint. An endpoint in both folds is listed exactly
  when its records differ, under the first respect in which they do: port state, then service, product,
  version, and last the confidence alone. One in a single fold is listed exactly when both scans
  completed the same plan: a scan that was refused, failed, was cut short or ran another plan never makes
  an endpoint appear or disappear. Each entry carries the two records.
\<close>

theorem diff_changes_exactly:
  "c \<in> set (sd_changes (diff before after)) \<longleftrightarrow>
     ch_before c = map_of (sf_endpoints before) (change_key c)
     \<and> ch_after c = map_of (sf_endpoints after) (change_key c)
     \<and> ((\<exists>b a. ch_before c = Some b \<and> ch_after c = Some a \<and>
         (ch_kind c = StateChanged \<and> es_state b \<noteq> es_state a
          \<or> ch_kind c = ServiceChanged \<and> es_state b = es_state a \<and> service_of b \<noteq> service_of a
          \<or> ch_kind c = ProductChanged \<and> es_state b = es_state a \<and> service_of b = service_of a
              \<and> product_of b \<noteq> product_of a
          \<or> ch_kind c = VersionChanged \<and> es_state b = es_state a \<and> service_of b = service_of a
              \<and> product_of b = product_of a \<and> version_of b \<noteq> version_of a
          \<or> ch_kind c = ConfidenceOnly \<and> es_state b = es_state a \<and> service_of b = service_of a
              \<and> product_of b = product_of a \<and> version_of b = version_of a
              \<and> confidence_of b \<noteq> confidence_of a))
        \<or> (comparable_scans before after \<and> ch_before c \<noteq> None \<and> ch_after c = None \<and> ch_kind c = EndpointDisappeared)
        \<or> (comparable_scans before after \<and> ch_before c = None \<and> ch_after c \<noteq> None \<and> ch_kind c = EndpointAppeared))"
proof -
  have "c \<in> set (sd_changes (diff before after)) \<longleftrightarrow>
      change_key c \<in> set (diff_keys before after) \<and> key_change before after (change_key c) = Some c"
    unfolding diff_fields set_map_filter using key_change_key by blast
  also have "change_key c \<in> set (diff_keys before after) \<longleftrightarrow>
      map_of (sf_endpoints before) (change_key c) \<noteq> None \<or> map_of (sf_endpoints after) (change_key c) \<noteq> None"
    unfolding set_diff_keys map_of_keys by blast
  also have "(map_of (sf_endpoints before) (change_key c) \<noteq> None \<or> map_of (sf_endpoints after) (change_key c) \<noteq> None)
      \<and> key_change before after (change_key c) = Some c \<longleftrightarrow>
      ch_before c = map_of (sf_endpoints before) (change_key c)
      \<and> ch_after c = map_of (sf_endpoints after) (change_key c)
      \<and> ((\<exists>b a. ch_before c = Some b \<and> ch_after c = Some a \<and>
         (ch_kind c = StateChanged \<and> es_state b \<noteq> es_state a
          \<or> ch_kind c = ServiceChanged \<and> es_state b = es_state a \<and> service_of b \<noteq> service_of a
          \<or> ch_kind c = ProductChanged \<and> es_state b = es_state a \<and> service_of b = service_of a
              \<and> product_of b \<noteq> product_of a
          \<or> ch_kind c = VersionChanged \<and> es_state b = es_state a \<and> service_of b = service_of a
              \<and> product_of b = product_of a \<and> version_of b \<noteq> version_of a
          \<or> ch_kind c = ConfidenceOnly \<and> es_state b = es_state a \<and> service_of b = service_of a
              \<and> product_of b = product_of a \<and> version_of b = version_of a
              \<and> confidence_of b \<noteq> confidence_of a))
        \<or> (comparable_scans before after \<and> ch_before c \<noteq> None \<and> ch_after c = None \<and> ch_kind c = EndpointDisappeared)
        \<or> (comparable_scans before after \<and> ch_before c = None \<and> ch_after c \<noteq> None \<and> ch_kind c = EndpointAppeared))"
    by (cases c; cases "map_of (sf_endpoints before) (change_key c)";
        cases "map_of (sf_endpoints after) (change_key c)")
      (auto simp: key_change_def key_verdict_def change_key_def classify_iff [symmetric] split: option.splits)
  finally show ?thesis .
qed

text \<open>
  Every endpoint of either fold gets exactly one answer: it is listed once as a change, or
  once as undetermined, or counted as unchanged (the counter saturates at 64 bits); both lists
  are strictly ordered by target, transport and port.
\<close>

theorem diff_partitions_endpoints:
  "let d = diff before after;
       K = fst ` set (sf_endpoints before) \<union> fst ` set (sf_endpoints after);
       C = map change_key (sd_changes d); U = map undetermined_key (sd_undetermined d)
   in sorted_wrt (<) C \<and> sorted_wrt (<) U \<and> set C \<inter> set U = {} \<and> set C \<union> set U \<subseteq> K
      \<and> unat (sd_unchanged d) = min (card (K - set C - set U)) (2 ^ 64 - 1)"
proof -
  let ?ks = "diff_keys before after" and ?v = "key_verdict before after"
  have C: "map change_key (sd_changes (diff before after)) = filter (\<lambda>k. key_change before after k \<noteq> None) ?ks"
    and U: "map undetermined_key (sd_undetermined (diff before after))
      = filter (\<lambda>k. key_undetermined before after k \<noteq> None) ?ks"
    unfolding diff_fields
    by (rule map_filter_keys, erule key_change_key, rule map_filter_keys, erule key_undetermined_key)
  have sorted: "sorted_wrt (<) (filter P ?ks)" for P
    using diff_keys_wf [of before after] unfolding bs_wf_strict by (rule sorted_wrt_filter)
  have vc: "key_change before after k \<noteq> None \<longleftrightarrow> (\<exists>kind. ?v k = Differs kind)" for k
    by (cases "?v k") (auto simp: key_change_def)
  have vu: "key_undetermined before after k \<noteq> None \<longleftrightarrow> ?v k = CannotSay" for k
    by (cases "?v k") (auto simp: key_undetermined_def)
  have "?v k = Agrees \<longleftrightarrow> \<not> (\<exists>kind. ?v k = Differs kind) \<and> ?v k \<noteq> CannotSay" for k
    by (cases "?v k") simp_all
  then have "set (filter (\<lambda>k. ?v k = Agrees) ?ks)
      = set ?ks - {k. \<exists>kind. ?v k = Differs kind} - {k. ?v k = CannotSay}"
    unfolding set_filter by blast
  moreover have "distinct ?ks"
    using diff_keys_wf [of before after] by (simp add: bs_wf_def)
  ultimately have "length (filter (\<lambda>k. ?v k = Agrees) ?ks)
      = card (set ?ks - {k. \<exists>kind. ?v k = Differs kind} - {k. ?v k = CannotSay})"
    using distinct_card [OF distinct_filter, of ?ks "\<lambda>k. ?v k = Agrees"] by simp
  moreover have "set ?ks - {k. \<exists>kind. ?v k = Differs kind} - {k. ?v k = CannotSay}
      = set ?ks - set (filter (\<lambda>k. key_change before after k \<noteq> None) ?ks)
          - set (filter (\<lambda>k. key_undetermined before after k \<noteq> None) ?ks)"
    unfolding set_filter vc vu by blast
  ultimately have card: "length (filter (\<lambda>k. ?v k = Agrees) ?ks)
      = card (set ?ks - set (filter (\<lambda>k. key_change before after k \<noteq> None) ?ks)
          - set (filter (\<lambda>k. key_undetermined before after k \<noteq> None) ?ks))"
    by simp
  have "set (filter (\<lambda>k. key_change before after k \<noteq> None) ?ks)
      \<inter> set (filter (\<lambda>k. key_undetermined before after k \<noteq> None) ?ks) = {}"
    unfolding set_filter vc vu by auto
  then show ?thesis
    unfolding Let_def C U set_diff_keys [symmetric] diff_fields(3) card
    by (auto simp: sorted)
qed

lemma classify_same: "classify s s = None"
  by (simp add: classify_def)

text \<open>
  Comparing a scan with itself reports nothing: no change of any kind, and nothing is
  undetermined, whatever the scan's outcome; every endpoint counts as unchanged.
\<close>

theorem diff_with_itself_is_empty:
  "sd_changes (diff f f) = [] \<and> sd_undetermined (diff f f) = []
   \<and> unat (sd_unchanged (diff f f)) = min (card (fst ` set (sf_endpoints f))) (2 ^ 64 - 1)"
proof -
  have v: "key_verdict f f k = Agrees" for k
    by (cases "map_of (sf_endpoints f) k") (simp_all add: key_verdict_def classify_same)
  have "length (diff_keys f f) = card (fst ` set (sf_endpoints f))"
    using diff_keys_wf [of f f] set_diff_keys [of f f] by (simp add: bs_wf_def distinct_card [symmetric])
  moreover have "filter (\<lambda>k. True) ks = ks" for ks :: "endpoint_key list" by simp
  ultimately show ?thesis
    unfolding diff_fields by (simp add: List.map_filter_def key_change_def key_undetermined_def v)
qed

fun swap_kind :: "change_kind \<Rightarrow> change_kind" where
  "swap_kind EndpointAppeared = EndpointDisappeared"
| "swap_kind EndpointDisappeared = EndpointAppeared"
| "swap_kind k = k"

definition swap_change :: "change \<Rightarrow> change" where
  "swap_change c = c\<lparr>ch_kind := swap_kind (ch_kind c), ch_before := ch_after c, ch_after := ch_before c\<rparr>"

definition swap_undetermined :: "undetermined \<Rightarrow> undetermined" where
  "swap_undetermined u = u\<lparr>un_before := un_after u, un_after := un_before u\<rparr>"

lemma classify_swap: "classify a b = classify b a"
  unfolding classify_def Let_def by (simp only: eq_commute [of "es_state a"] eq_commute [of "map_option f (es_observation a)" for f]
    eq_commute [of "Option.bind (es_observation a) f" for f])

lemma classify_kind: "classify a b = Some k \<Longrightarrow> swap_kind k = k"
  by (auto simp: classify_def Let_def split: if_splits)

lemma diff_keys_swap: "diff_keys a b = diff_keys b a"
  unfolding diff_keys_def by (rule bs_extend_cong) auto

lemma comparable_swap: "comparable_scans a b = comparable_scans b a"
  by (cases "sf_plan_hash a"; cases "sf_plan_hash b") (auto simp: comparable_scans_def)

lemma key_change_swap: "key_change a b k = map_option swap_change (key_change b a k)"
  by (cases "map_of (sf_endpoints a) k"; cases "map_of (sf_endpoints b) k")
    (auto simp: key_change_def key_verdict_def comparable_swap [of a b] swap_change_def
      classify_swap dest: classify_kind split: option.splits)

lemma key_undetermined_swap: "key_undetermined a b k = map_option swap_undetermined (key_undetermined b a k)"
  by (cases "map_of (sf_endpoints a) k"; cases "map_of (sf_endpoints b) k")
    (auto simp: key_undetermined_def key_verdict_def comparable_swap [of a b] swap_undetermined_def
      split: option.splits)

lemma map_filter_map_option: "List.map_filter (\<lambda>k. map_option g (f k)) ks = map g (List.map_filter f ks)"
  by (induction ks) (auto simp: List.map_filter_def)

text \<open>
  The diff has no preferred direction: exchanging the two scans exchanges the records of
  every entry and turns appearances into disappearances, and changes nothing else.
\<close>

theorem diff_swaps:
  "sd_changes (diff after before) = map swap_change (sd_changes (diff before after))
   \<and> sd_undetermined (diff after before) = map swap_undetermined (sd_undetermined (diff before after))
   \<and> absence_was_evidence (diff after before) = absence_was_evidence (diff before after)"
proof -
  have "key_change after before = (\<lambda>k. map_option swap_change (key_change before after k))"
    "key_undetermined after before = (\<lambda>k. map_option swap_undetermined (key_undetermined before after k))"
    by (rule ext, rule key_change_swap key_undetermined_swap)+
  then show ?thesis
    unfolding absence_was_evidence_def diff_fields diff_keys_swap [of after before]
    by (simp add: map_filter_map_option comparable_swap [of after before])
qed

end
