(* ===== verification/Event_Codec.thy ===== *)
theory Event_Codec
  imports Event Canonical
begin

text \<open>
  Text records for events. The sources write and read event records with the derived \<open>serde\<close>
  code over \<open>serde_json\<close>, which is a parameter of the log; what the log relies on is the locale
  \<open>event_codec\<close>: a record is one non-empty line of UTF-8 and reads back as the event, up to the
  rounding of its confidence. The
  interpretation is a codec for every event, built from codec combinators.
\<close>

section \<open>UTF-8\<close>

fun utf8_cont :: "nat list \<Rightarrow> nat \<Rightarrow> bool" where
  "utf8_cont bs n = (take n bs \<noteq> [] \<and> length (take n bs) = n \<and> list_all (\<lambda>b. 128 \<le> b \<and> b < 192) (take n bs))"

text \<open>\<open>str::from_utf8\<close>: shortest encodings of scalar values only, no surrogates.\<close>

function utf8_bytes :: "nat list \<Rightarrow> bool" where
  "utf8_bytes [] = True"
| "utf8_bytes (b # bs) =
     (if b < 128 then utf8_bytes bs
      else if 194 \<le> b \<and> b < 224 then utf8_cont bs 1 \<and> utf8_bytes (drop 1 bs)
      else if 224 \<le> b \<and> b < 240 then
        utf8_cont bs 2 \<and> (b = 224 \<longrightarrow> 160 \<le> hd bs) \<and> (b = 237 \<longrightarrow> hd bs < 160) \<and> utf8_bytes (drop 2 bs)
      else if 240 \<le> b \<and> b < 245 then
        utf8_cont bs 3 \<and> (b = 240 \<longrightarrow> 144 \<le> hd bs) \<and> (b = 244 \<longrightarrow> hd bs < 144) \<and> utf8_bytes (drop 3 bs)
      else False)"
  by pat_completeness auto
termination
  by (relation "measure length") auto

definition utf8_valid :: "string \<Rightarrow> bool" where
  "utf8_valid s = utf8_bytes (map of_char s)"

lemma utf8_ascii: "\<forall>c \<in> set s. (of_char c :: nat) < 128 \<Longrightarrow> utf8_valid s"
  unfolding utf8_valid_def by (induction s) auto

section \<open>The interface\<close>

text \<open>
  Reading a record back may move the one floating-point field: \<open>serde_json\<close> without its
  \<open>float_roundtrip\<close> feature is documented to be exact only up to the last digits. Every other
  field is read back as it was written. \<open>reread settle e\<close> is \<open>e\<close> with its confidence replaced.
\<close>

fun reread_body :: "(confidence \<Rightarrow> confidence) \<Rightarrow> event_body \<Rightarrow> event_body" where
  "reread_body settle (ServiceObserved t ep obs ev probe rule) =
     ServiceObserved t ep (obs\<lparr>ob_confidence := settle (ob_confidence obs)\<rparr>) ev probe rule"
| "reread_body settle b = b"

definition reread :: "(confidence \<Rightarrow> confidence) \<Rightarrow> event \<Rightarrow> event" where
  "reread settle e = e\<lparr>ev_body := reread_body settle (ev_body e)\<rparr>"

lemma reread_sequence [simp]: "ev_sequence (reread settle e) = ev_sequence e"
  by (simp add: reread_def)

lemma reread_scan_id [simp]: "ev_scan_id (reread settle e) = ev_scan_id e"
  by (simp add: reread_def)

lemma reread_id [simp]: "reread id e = e"
  by (cases e; cases "ev_body e") (simp_all add: reread_def)

locale event_codec =
  fixes write_event :: "event \<Rightarrow> string + string"
    and read_event :: "string \<Rightarrow> string + event"
    and settle :: "confidence \<Rightarrow> confidence"
  assumes write_line: "write_event e = Inr s \<Longrightarrow> s \<noteq> [] \<and> CHR 0x0A \<notin> set s \<and> last s \<noteq> CHR 0x0D"
    and write_utf8: "write_event e = Inr s \<Longrightarrow> utf8_valid s"
    and read_write: "write_event e = Inr s \<Longrightarrow> read_event s = Inr (reread settle e)"

section \<open>Codecs for numbers, words, lists and options\<close>

record 'a codec =
  put :: "'a \<Rightarrow> nat list"
  get :: "nat list \<Rightarrow> ('a \<times> nat list) option"

definition lawful :: "'a codec \<Rightarrow> bool" where
  "lawful c \<longleftrightarrow> (\<forall>x r. get c (put c x @ r) = Some (x, r))"

lemma lawfulD: "lawful c \<Longrightarrow> get c (put c x @ r) = Some (x, r)"
  by (simp add: lawful_def)

definition nat_codec :: "nat codec" where
  "nat_codec = \<lparr>put = (\<lambda>n. [n]), get = (\<lambda>s. case s of [] \<Rightarrow> None | n # r \<Rightarrow> Some (n, r))\<rparr>"

definition via :: "('b \<Rightarrow> 'a) \<Rightarrow> ('a \<Rightarrow> 'b) \<Rightarrow> 'a codec \<Rightarrow> 'b codec" where
  "via f g c = \<lparr>put = (\<lambda>x. put c (f x)), get = (\<lambda>s. map_option (\<lambda>(a, r). (g a, r)) (get c s))\<rparr>"

definition pair_codec :: "'a codec \<Rightarrow> 'b codec \<Rightarrow> ('a \<times> 'b) codec" where
  "pair_codec c d = \<lparr>put = (\<lambda>(a, b). put c a @ put d b),
     get = (\<lambda>s. case get c s of None \<Rightarrow> None
                | Some (a, r) \<Rightarrow> (case get d r of None \<Rightarrow> None | Some (b, r') \<Rightarrow> Some ((a, b), r')))\<rparr>"

definition sum_codec :: "'a codec \<Rightarrow> 'b codec \<Rightarrow> ('a + 'b) codec" where
  "sum_codec c d = \<lparr>put = (\<lambda>x. case x of Inl a \<Rightarrow> 0 # put c a | Inr b \<Rightarrow> 1 # put d b),
     get = (\<lambda>s. case s of [] \<Rightarrow> None
                | t # r \<Rightarrow> (if t = 0 then map_option (\<lambda>(a, r). (Inl a, r)) (get c r)
                           else map_option (\<lambda>(b, r). (Inr b, r)) (get d r)))\<rparr>"

fun get_many :: "(nat list \<Rightarrow> ('a \<times> nat list) option) \<Rightarrow> nat \<Rightarrow> nat list \<Rightarrow> ('a list \<times> nat list) option" where
  "get_many g 0 s = Some ([], s)"
| "get_many g (Suc n) s =
     (case g s of None \<Rightarrow> None
      | Some (a, r) \<Rightarrow> (case get_many g n r of None \<Rightarrow> None | Some (as, r') \<Rightarrow> Some (a # as, r')))"

definition list_codec :: "'a codec \<Rightarrow> 'a list codec" where
  "list_codec c = \<lparr>put = (\<lambda>xs. length xs # concat (map (put c) xs)),
     get = (\<lambda>s. case s of [] \<Rightarrow> None | n # r \<Rightarrow> get_many (get c) n r)\<rparr>"

lemma lawful_nat: "lawful nat_codec"
  by (simp add: lawful_def nat_codec_def)

lemma lawful_via: "lawful c \<Longrightarrow> (\<And>x. g (f x) = x) \<Longrightarrow> lawful (via f g c)"
  by (simp add: lawful_def via_def)

lemma lawful_pair: "lawful c \<Longrightarrow> lawful d \<Longrightarrow> lawful (pair_codec c d)"
  by (simp add: lawful_def pair_codec_def)

lemma lawful_sum: "lawful c \<Longrightarrow> lawful d \<Longrightarrow> lawful (sum_codec c d)"
  by (simp add: lawful_def sum_codec_def split: sum.splits)

lemma lawful_list:
  assumes "lawful c"
  shows "lawful (list_codec c)"
proof -
  have "get_many (get c) (length xs) (concat (map (put c) xs) @ r) = Some (xs, r)" for xs r
    by (induction xs) (simp_all add: lawfulD [OF assms])
  then show ?thesis by (simp add: lawful_def list_codec_def)
qed

definition word_codec :: "'a::len word codec" where
  "word_codec = via unat of_nat nat_codec"

definition string_codec :: "string codec" where
  "string_codec = list_codec (via of_char char_of nat_codec)"

definition option_codec :: "'a codec \<Rightarrow> 'a option codec" where
  "option_codec c = via (\<lambda>x. case x of None \<Rightarrow> Inl 0 | Some a \<Rightarrow> Inr a)
     (\<lambda>x. case x of Inl _ \<Rightarrow> None | Inr a \<Rightarrow> Some a) (sum_codec nat_codec c)"

lemma lawful_word: "lawful word_codec"
  unfolding word_codec_def by (intro lawful_via lawful_nat) simp

lemma lawful_string: "lawful string_codec"
  unfolding string_codec_def by (intro lawful_list lawful_via lawful_nat) simp

lemma lawful_option: "lawful c \<Longrightarrow> lawful (option_codec c)"
  unfolding option_codec_def by (intro lawful_via lawful_sum lawful_nat) (auto split: option.splits)

text \<open>A finite type, by its place in a list of all its values.\<close>

definition enum_codec :: "'a list \<Rightarrow> 'a codec" where
  "enum_codec xs = via (\<lambda>x. the (index_of x xs)) (\<lambda>n. xs ! n) nat_codec"

lemma lawful_enum: "\<forall>x. x \<in> set xs \<Longrightarrow> lawful (enum_codec xs)"
proof -
  assume all: "\<forall>x. x \<in> set xs"
  have "x \<in> set ys \<Longrightarrow> index_of x ys \<noteq> None" for x and ys :: "'a list"
    by (induction ys) auto
  then have "xs ! the (index_of x xs) = x" for x
    using all index_of_Some [of x xs] by fastforce
  then show ?thesis unfolding enum_codec_def by (intro lawful_via lawful_nat) simp
qed

section \<open>The codec of an event\<close>

definition digest_codec :: "digest codec" where
  "digest_codec = via digest_bytes Digest (list_codec word_codec)"

definition digests_codec :: "digest nonempty codec" where
  "digests_codec = via ne_vec NonEmpty (list_codec digest_codec)"

definition ip_codec :: "ip_addr codec" where
  "ip_codec = via (\<lambda>ip. case ip of V4 a \<Rightarrow> Inl a | V6 b \<Rightarrow> Inr b) (\<lambda>x. case x of Inl a \<Rightarrow> V4 a | Inr b \<Rightarrow> V6 b)
     (sum_codec word_codec word_codec)"

definition endpoint_codec :: "endpoint codec" where
  "endpoint_codec = via (\<lambda>e. (ep_transport e, ep_port e)) (\<lambda>(t, p). Endpoint t p)
     (pair_codec (enum_codec [Tcp, Udp]) word_codec)"

definition observation_codec :: "observation codec" where
  "observation_codec =
     via (\<lambda>ob. (ob_service ob, ob_product ob, ob_version ob, confidence_bits (ob_confidence ob)))
       (\<lambda>(s, p, v, c). \<lparr>ob_service = s, ob_product = p, ob_version = v, ob_confidence = Confidence c\<rparr>)
       (pair_codec string_codec (pair_codec (option_codec string_codec)
         (pair_codec (option_codec string_codec) word_codec)))"

type_synonym body_sum =
  "(digest \<times> u64 \<times> u64 \<times> scan_mode option \<times> string option)
   + (ip_addr \<times> string \<times> digest nonempty)
   + (ip_addr \<times> endpoint \<times> port_state \<times> digest nonempty option)
   + (ip_addr \<times> endpoint \<times> observation \<times> digest nonempty \<times> string \<times> string option)
   + (u64 \<times> u64 \<times> u64)
   + (deny_reason \<times> string)
   + (u64 \<times> u64 \<times> u64)
   + (string \<times> string)"

fun body_to_sum :: "event_body \<Rightarrow> body_sum" where
  "body_to_sum (ScanStarted h t p m d) = Inl (h, t, p, m, d)"
| "body_to_sum (HostDiscovered ip m ev) = Inr (Inl (ip, m, ev))"
| "body_to_sum (PortStateObserved ip ep st ev) = Inr (Inr (Inl (ip, ep, st, ev)))"
| "body_to_sum (ServiceObserved ip ep ob ev p r) = Inr (Inr (Inr (Inl (ip, ep, ob, ev, p, r))))"
| "body_to_sum (Progress a b c) = Inr (Inr (Inr (Inr (Inl (a, b, c)))))"
| "body_to_sum (PolicyDenied r d) = Inr (Inr (Inr (Inr (Inr (Inl (r, d))))))"
| "body_to_sum (ScanCompleted a b c) = Inr (Inr (Inr (Inr (Inr (Inr (Inl (a, b, c)))))))"
| "body_to_sum (ScanFailed r d) = Inr (Inr (Inr (Inr (Inr (Inr (Inr (r, d)))))))"

fun body_of_sum :: "body_sum \<Rightarrow> event_body" where
  "body_of_sum (Inl (h, t, p, m, d)) = ScanStarted h t p m d"
| "body_of_sum (Inr (Inl (ip, m, ev))) = HostDiscovered ip m ev"
| "body_of_sum (Inr (Inr (Inl (ip, ep, st, ev)))) = PortStateObserved ip ep st ev"
| "body_of_sum (Inr (Inr (Inr (Inl (ip, ep, ob, ev, p, r))))) = ServiceObserved ip ep ob ev p r"
| "body_of_sum (Inr (Inr (Inr (Inr (Inl (a, b, c)))))) = Progress a b c"
| "body_of_sum (Inr (Inr (Inr (Inr (Inr (Inl (r, d))))))) = PolicyDenied r d"
| "body_of_sum (Inr (Inr (Inr (Inr (Inr (Inr (Inl (a, b, c)))))))) = ScanCompleted a b c"
| "body_of_sum (Inr (Inr (Inr (Inr (Inr (Inr (Inr (r, d)))))))) = ScanFailed r d"

definition triple_codec :: "(u64 \<times> u64 \<times> u64) codec" where
  "triple_codec = pair_codec word_codec (pair_codec word_codec word_codec)"

definition body_codec :: "event_body codec" where
  "body_codec = via body_to_sum body_of_sum
     (sum_codec (pair_codec digest_codec (pair_codec word_codec (pair_codec word_codec
        (pair_codec (option_codec (enum_codec [TcpConnect, TcpSyn])) (option_codec string_codec)))))
     (sum_codec (pair_codec ip_codec (pair_codec string_codec digests_codec))
     (sum_codec (pair_codec ip_codec (pair_codec endpoint_codec
        (pair_codec (enum_codec [Open, Closed, Filtered, Indeterminate]) (option_codec digests_codec))))
     (sum_codec (pair_codec ip_codec (pair_codec endpoint_codec (pair_codec observation_codec
        (pair_codec digests_codec (pair_codec string_codec (option_codec string_codec))))))
     (sum_codec triple_codec
     (sum_codec (pair_codec (enum_codec [ScopeMismatch, ScopeExpired, TargetOutOfScope, BudgetExceedsCeiling])
        string_codec)
     (sum_codec triple_codec (pair_codec string_codec string_codec))))))))"

definition event_value_codec :: "event codec" where
  "event_value_codec =
     via (\<lambda>e. (ev_scan_id e, ev_sequence e, ev_timestamp e, ev_engine_version e, ev_body e))
       (\<lambda>(i, q, t, v, b). \<lparr>ev_scan_id = i, ev_sequence = q, ev_timestamp = t, ev_engine_version = v, ev_body = b\<rparr>)
       (pair_codec word_codec (pair_codec word_codec
         (pair_codec string_codec (pair_codec string_codec body_codec))))"

lemmas lawful_intros = lawful_via lawful_pair lawful_sum lawful_list lawful_word lawful_string
  lawful_option lawful_enum

lemma lawful_digest: "lawful digest_codec"
  unfolding digest_codec_def by (intro lawful_intros) simp

lemma ne_vec_NonEmpty: "NonEmpty (ne_vec x) = x"
  by (cases x) simp

lemma lawful_digests: "lawful digests_codec"
  unfolding digests_codec_def by (intro lawful_intros lawful_digest) (rule ne_vec_NonEmpty)

lemma lawful_ip: "lawful ip_codec"
  unfolding ip_codec_def by (intro lawful_intros) (simp split: ip_addr.split)

lemma lawful_endpoint: "lawful endpoint_codec"
  unfolding endpoint_codec_def by (intro lawful_intros) (auto intro: transport.exhaust)

lemma lawful_observation: "lawful observation_codec"
  unfolding observation_codec_def by (intro lawful_intros) simp

lemma body_sum: "body_of_sum (body_to_sum b) = b"
  by (cases b) simp_all

lemma enum_all:
  "\<forall>x. x \<in> set [TcpConnect, TcpSyn]" "\<forall>x. x \<in> set [Open, Closed, Filtered, Indeterminate]"
  "\<forall>x. x \<in> set [ScopeMismatch, ScopeExpired, TargetOutOfScope, BudgetExceedsCeiling]"
  by (auto intro: scan_mode.exhaust port_state.exhaust deny_reason.exhaust)

lemma lawful_body: "lawful body_codec"
  unfolding body_codec_def triple_codec_def
  by (intro lawful_intros lawful_digest lawful_digests lawful_ip lawful_endpoint lawful_observation
      body_sum enum_all)

lemma lawful_event: "lawful event_value_codec"
  unfolding event_value_codec_def by (intro lawful_intros lawful_body) simp

section \<open>As text\<close>

fun tokens_text :: "nat list \<Rightarrow> string" where
  "tokens_text [] = ''.''"
| "tokens_text (n # ns) = show_nat n @ '' '' @ tokens_text ns"

fun text_tokens :: "nat \<Rightarrow> string \<Rightarrow> nat list option" where
  "text_tokens 0 s = None"
| "text_tokens (Suc fuel) s =
     (if s = ''.'' then Some []
      else case split_once CHR '' '' s of
             None \<Rightarrow> None
           | Some (a, r) \<Rightarrow>
               (case parse_digits 0 a of
                  None \<Rightarrow> None
                | Some n \<Rightarrow> (case text_tokens fuel r of None \<Rightarrow> None | Some ns \<Rightarrow> Some (n # ns))))"

definition write_tokens :: "event \<Rightarrow> string + string" where
  "write_tokens e = Inr (tokens_text (put event_value_codec e))"

definition read_tokens :: "string \<Rightarrow> string + event" where
  "read_tokens s =
     (case text_tokens (Suc (length s)) s of
        None \<Rightarrow> Inl ''not a record''
      | Some ns \<Rightarrow>
          (case get event_value_codec ns of
             Some (e, []) \<Rightarrow> Inr e
           | _ \<Rightarrow> Inl ''not a record''))"

lemma split_once_append: "c \<notin> set a \<Longrightarrow> split_once c (a @ c # r) = Some (a, r)"
  by (induction a) auto

lemma split_once_Some: "split_once c s = Some (a, r) \<Longrightarrow> s = a @ c # r \<and> c \<notin> set a"
  by (induction s arbitrary: a) (auto split: if_splits)

lemma split_once_None: "split_once c s = None \<longleftrightarrow> c \<notin> set s"
  by (induction s) auto

definition token_char :: "char \<Rightarrow> bool" where
  "token_char c \<longleftrightarrow> is_digit c \<or> c = CHR '' '' \<or> c = CHR ''.''"

lemma show_nat_chars: "c \<in> set (show_nat n) \<Longrightarrow> is_digit c"
  using show_nat_digits [of n] unfolding list_all_iff by blast

lemma not_digits: "\<not> is_digit CHR '' ''" "\<not> is_digit CHR ''.''"
  by (simp_all add: is_digit_def)

lemma not_tokens: "\<not> token_char CHR 0x0A" "\<not> token_char CHR 0x0D"
  by (simp_all add: token_char_def is_digit_def)

lemma token_ascii: "token_char c \<Longrightarrow> of_char c < (128 :: nat)"
  by (auto simp: token_char_def is_digit_def)

lemma length_tokens: "length ns < length (tokens_text ns)"
  by (induction ns) auto

lemma text_tokens_text: "length ns < fuel \<Longrightarrow> text_tokens fuel (tokens_text ns) = Some ns"
proof (induction ns arbitrary: fuel)
  case Nil
  then show ?case by (cases fuel) auto
next
  case (Cons n ns)
  then obtain f where f: "fuel = Suc f" "length ns < f" by (cases fuel) auto
  have "CHR '' '' \<notin> set (show_nat n)"
    using show_nat_chars not_digits(1) by blast
  then have "split_once CHR '' '' (tokens_text (n # ns)) = Some (show_nat n, tokens_text ns)"
    using split_once_append [of "CHR '' ''" "show_nat n" "tokens_text ns"] by simp
  moreover have "tokens_text (n # ns) \<noteq> ''.''"
  proof -
    obtain d ds where d: "show_nat n = d # ds" using show_nat_not_Nil [of n] by (cases "show_nat n") blast+
    then have "d \<noteq> CHR ''.''" using show_nat_chars [of d n] not_digits(2) by auto
    then show ?thesis by (simp add: d)
  qed
  ultimately show ?case
    using Cons.IH [OF f(2)] by (simp only: f text_tokens.simps parse_show_nat if_False option.case prod.case)
qed

lemma tokens_chars: "c \<in> set (tokens_text ns) \<Longrightarrow> token_char c"
  by (induction ns) (auto simp: token_char_def dest: show_nat_chars)

interpretation record_text: event_codec write_tokens read_tokens id
proof
  fix e s assume "write_tokens e = Inr s"
  then have s: "s = tokens_text (put event_value_codec e)" by (simp add: write_tokens_def)
  have ascii: "c \<in> set s \<Longrightarrow> token_char c" for c
    unfolding s by (rule tokens_chars)
  have "s \<noteq> []"
    unfolding s by (cases "put event_value_codec e") simp_all
  moreover have "CHR 0x0A \<notin> set s" using ascii not_tokens(1) by blast
  moreover have "CHR 0x0D \<notin> set s" using ascii not_tokens(2) by blast
  ultimately show "s \<noteq> [] \<and> CHR 0x0A \<notin> set s \<and> last s \<noteq> CHR 0x0D"
    by (metis last_in_set)
  show "utf8_valid s"
    using ascii token_ascii by (blast intro: utf8_ascii)
  have "text_tokens (Suc (length s)) s = Some (put event_value_codec e)"
    unfolding s by (rule text_tokens_text) (simp add: length_tokens less_SucI)
  then show "read_tokens s = Inr (reread id e)"
    using lawfulD [OF lawful_event, of e "[]"] by (simp add: read_tokens_def)
qed

end
