(* ===== verification/Wire.thy ===== *)
theory Wire
  imports Diff Event_Codec
begin

text \<open>
  The published form of a fold (\<open>crates/bathy-query/src/wire.rs\<close>), the endpoint filter
  (\<open>crates/bathy-query/src/tools.rs\<close>) and the two result tools built on them
  (\<open>crates/bathy-mcp/src/tools/result.rs\<close>).
\<close>

section \<open>The wire form\<close>

record fold_entry =
  fe_target :: ip_addr
  fe_endpoint :: endpoint
  fe_state :: "port_state option"
  fe_observation :: "observation option"
  fe_evidence_refs :: "digest list"
  fe_probe_id :: "string option"
  fe_rule_id :: "string option"

record scan_fold_wire =
  sw_endpoints :: "fold_entry list"
  sw_hosts_up :: "ip_addr list"
  sw_terminal :: "terminal option"
  sw_plan_hash :: "digest option"

datatype wire_error = DuplicateEndpoint ip_addr transport u16

definition entry_of :: "endpoint_key \<times> endpoint_state \<Rightarrow> fold_entry" where
  "entry_of ks =
     \<lparr>fe_target = fst (fst ks), fe_endpoint = snd (fst ks), fe_state = es_state (snd ks),
      fe_observation = es_observation (snd ks), fe_evidence_refs = es_evidence_refs (snd ks),
      fe_probe_id = es_probe_id (snd ks), fe_rule_id = es_rule_id (snd ks)\<rparr>"

definition wire_encode :: "scan_fold \<Rightarrow> scan_fold_wire" where
  "wire_encode f =
     \<lparr>sw_endpoints = map entry_of (sf_endpoints f), sw_hosts_up = sf_hosts_up f,
      sw_terminal = sf_terminal f, sw_plan_hash = sf_plan_hash f\<rparr>"

definition entry_key :: "fold_entry \<Rightarrow> endpoint_key" where
  "entry_key e = (fe_target e, fe_endpoint e)"

definition entry_state :: "fold_entry \<Rightarrow> endpoint_state" where
  "entry_state e = \<lparr>es_state = fe_state e, es_observation = fe_observation e,
     es_evidence_refs = fe_evidence_refs e, es_probe_id = fe_probe_id e, es_rule_id = fe_rule_id e\<rparr>"

fun decode_entries ::
  "(endpoint_key \<times> endpoint_state) list \<Rightarrow> fold_entry list
     \<Rightarrow> wire_error + (endpoint_key \<times> endpoint_state) list" where
  "decode_entries m [] = Inr m"
| "decode_entries m (e # es) =
     (if map_of m (entry_key e) \<noteq> None
      then Inl (DuplicateEndpoint (fe_target e) (ep_transport (fe_endpoint e)) (ep_port (fe_endpoint e)))
      else decode_entries (bt_insert (entry_key e) (entry_state e) m) es)"

definition wire_decode :: "scan_fold_wire \<Rightarrow> wire_error + scan_fold" where
  "wire_decode w =
     (case decode_entries [] (sw_endpoints w) of
        Inl e \<Rightarrow> Inl e
      | Inr endpoints \<Rightarrow>
          Inr \<lparr>sf_endpoints = endpoints, sf_hosts_up = bs_extend [] (sw_hosts_up w),
               sf_terminal = sw_terminal w, sf_plan_hash = sw_plan_hash w\<rparr>)"

text \<open>
  \<open>Serialize\<close> and \<open>Deserialize\<close> of a fold go through the wire form, whose derived code over \<open>serde_json\<close> is the
  parameters: a text of a wire form or an error, and back.
\<close>

fun show_transport :: "transport \<Rightarrow> string" where
  "show_transport Tcp = ''Tcp''"
| "show_transport Udp = ''Udp''"

fun show_wire_error :: "wire_error \<Rightarrow> string" where
  "show_wire_error (DuplicateEndpoint target transport port) =
     ''duplicate endpoint entry for '' @ show_ip target @ '' '' @ show_transport transport @ ''/'' @ show_word port"

definition fold_serialize :: "(scan_fold_wire \<Rightarrow> string + string) \<Rightarrow> scan_fold \<Rightarrow> string + string" where
  "fold_serialize write f = write (wire_encode f)"

definition fold_deserialize :: "(string \<Rightarrow> string + scan_fold_wire) \<Rightarrow> string \<Rightarrow> string + scan_fold" where
  "fold_deserialize read s =
     (case read s of
        Inl e \<Rightarrow> Inl e
      | Inr w \<Rightarrow> (case wire_decode w of Inl e \<Rightarrow> Inl (show_wire_error e) | Inr f \<Rightarrow> Inr f))"

section \<open>Filtering and the result tools\<close>

record port_bounds =
  pr_low :: u16
  pr_high :: u16

definition port_bounds_contains :: "port_bounds \<Rightarrow> u16 \<Rightarrow> bool" where
  "port_bounds_contains r port =
     (let (low, high) = (if pr_low r \<le> pr_high r then (pr_low r, pr_high r) else (pr_high r, pr_low r))
      in low \<le> port \<and> port \<le> high)"

record endpoint_filter =
  ef_state :: "port_state option"
  ef_service :: "string option"
  ef_min_confidence :: "confidence option"
  ef_port_range :: "port_bounds option"

definition filter_matches :: "endpoint_filter \<Rightarrow> fold_entry \<Rightarrow> bool" where
  "filter_matches f e =
     (if (case ef_state f of Some s \<Rightarrow> fe_state e \<noteq> Some s | None \<Rightarrow> False) then False
      else if (case ef_port_range f of
                 Some r \<Rightarrow> \<not> port_bounds_contains r (ep_port (fe_endpoint e)) | None \<Rightarrow> False) then False
      else if (case ef_service f of
                 Some service \<Rightarrow>
                   (case fe_observation e of Some ob \<Rightarrow> ob_service ob \<noteq> service | None \<Rightarrow> True)
               | None \<Rightarrow> False) then False
      else if (case ef_min_confidence f of
                 Some minimum \<Rightarrow>
                   (case fe_observation e of
                      Some ob \<Rightarrow> \<not> f64_le (confidence_bits minimum) (confidence_bits (ob_confidence ob))
                    | None \<Rightarrow> True)
               | None \<Rightarrow> False) then False
      else True)"

record result_query_output =
  rq_endpoints :: "fold_entry list"
  rq_total :: u64
  rq_total_before_filter :: u64
  rq_hosts_up :: "ip_addr list"
  rq_plan_hash :: "digest option"
  rq_terminal :: "terminal option"

definition query_result :: "endpoint_filter \<Rightarrow> event list \<Rightarrow> result_query_output" where
  "query_result flt events =
     (let w = wire_encode (fold_events events);
          kept = filter (filter_matches flt) (sw_endpoints w)
      in \<lparr>rq_endpoints = kept, rq_total = of_nat (length kept),
          rq_total_before_filter = of_nat (length (sw_endpoints w)),
          rq_hosts_up = sw_hosts_up w, rq_plan_hash = sw_plan_hash w, rq_terminal = sw_terminal w\<rparr>)"

definition diff_scans :: "bool \<Rightarrow> event list \<Rightarrow> event list \<Rightarrow> scan_diff" where
  "diff_scans include_confidence_only before after =
     (let d = diff (fold_events before) (fold_events after)
      in if \<not> include_confidence_only then retain_substantive d else d)"

section \<open>Lemmas\<close>

lemma entry_roundtrip [simp]: "entry_key (entry_of ks) = fst ks" "entry_state (entry_of ks) = snd ks"
  by (simp_all add: entry_key_def entry_of_def entry_state_def)

lemma decode_entries_Inr:
  "bt_wf m \<Longrightarrow> decode_entries m es = Inr m' \<longleftrightarrow>
     distinct (map entry_key es) \<and> entry_key ` set es \<inter> dom (map_of m) = {}
     \<and> bt_wf m' \<and> map_of m' = map_of m ++ map_of (map (\<lambda>e. (entry_key e, entry_state e)) es)"
proof (induction es arbitrary: m)
  case Nil
  then show ?case by (auto intro: bt_wf_map_of_ext)
next
  case (Cons e es)
  let ?m = "bt_insert (entry_key e) (entry_state e) m"
  let ?G = "\<lambda>es. map_of (map (\<lambda>e. (entry_key e, entry_state e)) es)"
  have wf: "bt_wf ?m" by (rule bt_wf_insert [OF Cons.prems])
  have d: "dom (map_of ?m) = insert (entry_key e) (dom (map_of m))"
    by (simp add: map_of_bt_insert)
  have swap: "(map_of m)(k \<mapsto> v) ++ g = map_of m ++ g(k \<mapsto> v)" if "g k = None"
    for k v and g :: "endpoint_key \<Rightarrow> endpoint_state option"
    using that by (auto simp: map_add_def fun_eq_iff split: option.splits)
  show ?case
  proof (cases "map_of m (entry_key e) = None \<and> entry_key e \<notin> entry_key ` set es")
    case True
    then have "?G es (entry_key e) = None"
      by (simp add: map_of_eq_None_iff image_iff)
    then have "map_of ?m ++ ?G es = map_of m ++ ?G (e # es)"
      unfolding map_of_bt_insert by (simp add: swap)
    moreover have "decode_entries m (e # es) = decode_entries ?m es"
      using True by simp
    moreover have "entry_key ` set es \<inter> insert (entry_key e) (dom (map_of m)) = {}
        \<longleftrightarrow> entry_key ` set (e # es) \<inter> dom (map_of m) = {}"
      using True by (simp add: domIff)
    moreover have "distinct (map entry_key (e # es)) \<longleftrightarrow> distinct (map entry_key es)"
      using True by simp
    ultimately show ?thesis
      using Cons.IH [OF wf] unfolding d by (simp only:)
  next
    case False
    have "decode_entries m (e # es) \<noteq> Inr m'"
    proof (cases "map_of m (entry_key e) = None")
      case True
      with False have "entry_key ` set es \<inter> dom (map_of ?m) \<noteq> {}"
        unfolding d by blast
      with True show ?thesis using Cons.IH [OF wf] by simp
    qed simp
    moreover have "\<not> (distinct (map entry_key (e # es)) \<and> entry_key ` set (e # es) \<inter> dom (map_of m) = {})"
      using False by (auto simp: domIff)
    ultimately show ?thesis by blast
  qed
qed

lemma wire_entries: "map_of (map (\<lambda>e. (entry_key e, entry_state e)) (map entry_of m)) = map_of m"
  by (simp add: comp_def)

lemma wire_round_trip: "fold_wf f \<Longrightarrow> wire_decode (wire_encode f) = Inr f"
proof -
  assume wf: "fold_wf f"
  have "distinct (map fst (sf_endpoints f))"
    using wf by (auto simp: fold_wf_def bt_wf_def strict_sorted_iff)
  then have "decode_entries [] (map entry_of (sf_endpoints f)) = Inr (sf_endpoints f)"
    using wf by (simp add: decode_entries_Inr wire_entries comp_def fold_wf_def)
  moreover have "bs_extend [] (sf_hosts_up f) = sf_hosts_up f"
    using wf by (intro bs_wf_unique bs_wf_extend) (auto simp: fold_wf_def)
  ultimately show ?thesis
    by (simp add: wire_decode_def wire_encode_def)
qed

section \<open>The document\<close>

text \<open>
  What is published is the JSON text of the wire form, which the derived \<open>serde\<close> code writes and reads over \<open>serde_json\<close>.
  As for event records, reading a text back may move the one floating-point field, the confidence, because
  \<open>serde_json\<close> is built without \<open>float_roundtrip\<close>; every other field is read as it was written.
\<close>

definition settle_observation :: "(confidence \<Rightarrow> confidence) \<Rightarrow> observation \<Rightarrow> observation" where
  "settle_observation settle ob = ob\<lparr>ob_confidence := settle (ob_confidence ob)\<rparr>"

definition settle_wire :: "(confidence \<Rightarrow> confidence) \<Rightarrow> scan_fold_wire \<Rightarrow> scan_fold_wire" where
  "settle_wire settle w =
     w\<lparr>sw_endpoints := map (\<lambda>e. e\<lparr>fe_observation := map_option (settle_observation settle) (fe_observation e)\<rparr>) (sw_endpoints w)\<rparr>"

definition settle_fold :: "(confidence \<Rightarrow> confidence) \<Rightarrow> scan_fold \<Rightarrow> scan_fold" where
  "settle_fold settle f =
     f\<lparr>sf_endpoints := map (apsnd (\<lambda>st. st\<lparr>es_observation := map_option (settle_observation settle) (es_observation st)\<rparr>)) (sf_endpoints f)\<rparr>"

lemma wire_settles: "wire_encode (settle_fold settle f) = settle_wire settle (wire_encode f)"
  by (simp add: wire_encode_def settle_fold_def settle_wire_def entry_of_def)

lemma settled_wf: "fold_wf f \<Longrightarrow> fold_wf (settle_fold settle f)"
  by (simp add: fold_wf_def bt_wf_def settle_fold_def comp_def)

lemma folded_wf: "fold_wf (fold_events es)"
  using fold_globals_foldl [of "[]" scan_fold_default "total_order es"]
  by (simp add: fold_events_def scan_fold_default_def fold_globals_def fold_wf_def)

locale fold_document =
  fixes write_fold :: "scan_fold_wire \<Rightarrow> string + string"
    and read_fold :: "string \<Rightarrow> string + scan_fold_wire"
    and settle :: "confidence \<Rightarrow> confidence"
  assumes read_write: "write_fold w = Inr s \<Longrightarrow> read_fold s = Inr (settle_wire settle w)"
begin

lemma document_reads:
  assumes "fold_wf f" "fold_serialize write_fold f = Inr s"
  shows "fold_deserialize read_fold s = Inr (settle_fold settle f)"
  using read_write [OF assms(2) [unfolded fold_serialize_def]] wire_round_trip [OF settled_wf [OF assms(1)], of settle]
  by (simp add: wire_settles fold_deserialize_def)

end

text \<open>A text of every wire form, from the codecs of event records.\<close>

definition terminal_codec :: "terminal codec" where
  "terminal_codec = via
     (\<lambda>t. case t of Completed a b c \<Rightarrow> Inl (a, b, c) | Failed r d \<Rightarrow> Inr (Inl (r, d)) | TerminalDenied r d \<Rightarrow> Inr (Inr (r, d)))
     (\<lambda>x. case x of Inl (a, b, c) \<Rightarrow> Completed a b c | Inr (Inl (r, d)) \<Rightarrow> Failed r d | Inr (Inr (r, d)) \<Rightarrow> TerminalDenied r d)
     (sum_codec triple_codec (sum_codec (pair_codec string_codec string_codec)
       (pair_codec (enum_codec [ScopeMismatch, ScopeExpired, TargetOutOfScope, BudgetExceedsCeiling]) string_codec)))"

definition entry_codec :: "fold_entry codec" where
  "entry_codec = via
     (\<lambda>e. (fe_target e, fe_endpoint e, fe_state e, fe_observation e, fe_evidence_refs e, fe_probe_id e, fe_rule_id e))
     (\<lambda>(t, ep, st, ob, ds, p, r). \<lparr>fe_target = t, fe_endpoint = ep, fe_state = st, fe_observation = ob, fe_evidence_refs = ds,
        fe_probe_id = p, fe_rule_id = r\<rparr>)
     (pair_codec ip_codec (pair_codec endpoint_codec
       (pair_codec (option_codec (enum_codec [Open, Closed, Filtered, Indeterminate])) (pair_codec (option_codec observation_codec)
       (pair_codec (list_codec digest_codec) (pair_codec (option_codec string_codec) (option_codec string_codec)))))))"

definition wire_codec :: "scan_fold_wire codec" where
  "wire_codec = via (\<lambda>w. (sw_endpoints w, sw_hosts_up w, sw_terminal w, sw_plan_hash w))
     (\<lambda>(es, hs, t, h). \<lparr>sw_endpoints = es, sw_hosts_up = hs, sw_terminal = t, sw_plan_hash = h\<rparr>)
     (pair_codec (list_codec entry_codec) (pair_codec (list_codec ip_codec)
       (pair_codec (option_codec terminal_codec) (option_codec digest_codec))))"

lemma lawful_terminal: "lawful terminal_codec"
  unfolding terminal_codec_def triple_codec_def
  by (intro lawful_intros) (auto intro: deny_reason.exhaust split: terminal.split)

lemma lawful_entry: "lawful entry_codec"
  unfolding entry_codec_def
  by (intro lawful_intros lawful_ip lawful_endpoint lawful_observation lawful_digest) (auto intro: port_state.exhaust)

lemma lawful_wire: "lawful wire_codec"
  unfolding wire_codec_def by (intro lawful_intros lawful_entry lawful_ip lawful_terminal lawful_digest) auto

definition write_wire_tokens :: "scan_fold_wire \<Rightarrow> string + string" where
  "write_wire_tokens w = Inr (tokens_text (codec.put wire_codec w))"

definition read_wire_tokens :: "string \<Rightarrow> string + scan_fold_wire" where
  "read_wire_tokens s =
     (case text_tokens (Suc (length s)) s of
        None \<Rightarrow> Inl ''not a record''
      | Some ns \<Rightarrow> (case codec.get wire_codec ns of Some (w, []) \<Rightarrow> Inr w | _ \<Rightarrow> Inl ''not a record''))"

lemma settle_wire_id: "settle_wire id w = w"
proof -
  have "settle_observation id = id" by (simp add: settle_observation_def fun_eq_iff)
  then show ?thesis by (simp add: settle_wire_def option.map_id map_idI)
qed

interpretation token_document: fold_document write_wire_tokens read_wire_tokens id
proof
  fix w s assume "write_wire_tokens w = Inr s"
  then have s: "s = tokens_text (codec.put wire_codec w)" by (simp add: write_wire_tokens_def)
  have "text_tokens (Suc (length s)) s = Some (codec.put wire_codec w)"
    unfolding s by (rule text_tokens_text) (simp add: length_tokens less_SucI)
  then show "read_wire_tokens s = Inr (settle_wire id w)"
    using lawfulD [OF lawful_wire, of w "[]"] by (simp add: read_wire_tokens_def settle_wire_id)
qed

text \<open>
  C29: The published form of a fold loses nothing. The wire form written for any event log decodes
  to exactly the fold it was written from; and the document, its text, is read and decoded as that fold with
  each confidence as the text gives it back, every other field as it was.
\<close>

theorem wire_round_trips_every_log:
  fixes write_fold :: "scan_fold_wire \<Rightarrow> string + string" and read_fold :: "string \<Rightarrow> string + scan_fold_wire"
  assumes "\<And>w s. write_fold w = Inr s \<Longrightarrow> read_fold s = Inr (settle_wire settle w)"
    and "fold_serialize write_fold (fold_events es) = Inr s"
  shows "wire_decode (wire_encode (fold_events es)) = Inr (fold_events es) \<and>
    fold_deserialize read_fold s = Inr (settle_fold settle (fold_events es))"
proof -
  have doc: "fold_document write_fold read_fold settle" by (rule fold_document.intro) (rule assms(1))
  show ?thesis
    using wire_round_trip [OF folded_wf] fold_document.document_reads [OF doc folded_wf assms(2)] by blast
qed

theorem wire_round_trips_every_log_witness:
  "\<forall>es. \<exists>s. fold_serialize write_wire_tokens (fold_events es) = Inr s \<and>
     fold_deserialize read_wire_tokens s = Inr (settle_fold id (fold_events es))"
proof
  fix es
  have s: "fold_serialize write_wire_tokens (fold_events es) = Inr (tokens_text (codec.put wire_codec (wire_encode (fold_events es))))"
    by (simp add: fold_serialize_def write_wire_tokens_def)
  show "\<exists>s. fold_serialize write_wire_tokens (fold_events es) = Inr s \<and>
     fold_deserialize read_wire_tokens s = Inr (settle_fold id (fold_events es))"
    using s wire_round_trips_every_log [where write_fold = write_wire_tokens and read_fold = read_wire_tokens and settle = id,
      OF token_document.read_write s] by blast
qed

text \<open>
  A document decodes exactly when no two entries name one endpoint, and the fold it decodes
  to has precisely the entries listed, whatever their order; a repeated endpoint is refused
  rather than resolved by array order.
\<close>

theorem wire_decode_exactly:
  "wire_decode w = Inr f \<longleftrightarrow>
     distinct (map entry_key (sw_endpoints w)) \<and> fold_wf f
     \<and> map_of (sf_endpoints f) = map_of (map (\<lambda>e. (entry_key e, entry_state e)) (sw_endpoints w))
     \<and> set (sf_hosts_up f) = set (sw_hosts_up w)
     \<and> sf_terminal f = sw_terminal w \<and> sf_plan_hash f = sw_plan_hash w"
proof -
  have hosts: "sf_hosts_up f = bs_extend [] (sw_hosts_up w) \<longleftrightarrow>
      bs_wf (sf_hosts_up f) \<and> set (sf_hosts_up f) = set (sw_hosts_up w)"
    by (rule eq_bs_extend_iff)
  have "wire_decode w = Inr f \<longleftrightarrow>
      decode_entries [] (sw_endpoints w) = Inr (sf_endpoints f)
      \<and> sf_hosts_up f = bs_extend [] (sw_hosts_up w)
      \<and> sf_terminal f = sw_terminal w \<and> sf_plan_hash f = sw_plan_hash w"
    by (cases "decode_entries [] (sw_endpoints w)"; cases f) (auto simp: wire_decode_def)
  also have "\<dots> \<longleftrightarrow>
     (distinct (map entry_key (sw_endpoints w)) \<and> bt_wf (sf_endpoints f)
        \<and> map_of (sf_endpoints f) = map_of (map (\<lambda>e. (entry_key e, entry_state e)) (sw_endpoints w)))
     \<and> (bs_wf (sf_hosts_up f) \<and> set (sf_hosts_up f) = set (sw_hosts_up w))
     \<and> sf_terminal f = sw_terminal w \<and> sf_plan_hash f = sw_plan_hash w"
    unfolding hosts decode_entries_Inr [OF bt_wf_Nil] by simp
  finally show ?thesis
    unfolding fold_wf_def by blast
qed

lemma port_bounds_symmetric:
  "port_bounds_contains \<lparr>pr_low = a, pr_high = b\<rparr> = port_bounds_contains \<lparr>pr_low = b, pr_high = a\<rparr>"
  by (rule ext) (auto simp: port_bounds_contains_def)

text \<open>Confidence noise is the only thing the default diff drops.\<close>

lemma diff_scans_fields:
  "sd_undetermined (diff_scans c b a) = sd_undetermined (diff (fold_events b) (fold_events a))"
  "sd_unchanged (diff_scans c b a) = sd_unchanged (diff (fold_events b) (fold_events a))"
  by (simp_all add: diff_scans_def retain_substantive_def Let_def)

end
