(* ===== verification/Evidence_Log.thy ===== *)
theory Evidence_Log
  imports Event_Codec
begin

text \<open>
  The event log, \<open>crates/bathy-evidence/src/log.rs\<close>: one append-only file of records per scan.
  The file is a byte string with the length of its durable prefix and the writer's lock; a crash
  keeps the durable prefix and some part of the rest. The record writer and reader are the
  parameters of \<open>Event_Codec\<close>; paths inside errors are left out. The lemmas relate the bytes to
  the list of events: what a scan of the file accepts, that appending extends the list by one event
  with the next number, that the index seeks to the right record, and what survives a crash.
\<close>

section \<open>Errors, index, file\<close>

datatype log_error =
    LIo
  | Malformed u64 string \<comment> \<open>line, detail\<close>
  | SequenceGap u64 u64 \<comment> \<open>expected, found\<close>
  | Locked
  | Released
  | Unrecordable string

type_synonym record_index = "u64 list"

definition last_seq :: "record_index \<Rightarrow> u64" where
  "last_seq ix = (if length ix < 2 ^ 64 then of_nat (length ix) else - 1)"

definition next_seq :: "record_index \<Rightarrow> u64" where
  "next_seq ix = sat_add (last_seq ix) 1"

definition index_push :: "u64 \<Rightarrow> record_index \<Rightarrow> record_index" where
  "index_push off ix = ix @ [off]"

definition start_after :: "record_index \<Rightarrow> u64 \<Rightarrow> u64 option" where
  "start_after ix after = (if unat after < length ix then Some (ix ! unat after) else None)"

text \<open>
  The file on disk: its bytes when it exists, how many of them are known to survive a crash,
  whether a writer holds its advisory lock, and whether the file system refuses to open it.
\<close>

record log_file =
  lf_bytes :: "string option"
  lf_synced :: nat
  lf_locked :: bool
  lf_refused :: bool

text \<open>What the crate takes from \<open>serde_json\<close> and from \<open>std\<close>.\<close>

record log_env =
  env_write :: "event \<Rightarrow> string + string"
  env_read :: "string \<Rightarrow> string + event"
  env_json :: "string \<Rightarrow> json option" \<comment> \<open>a record read as free-form JSON\<close>
  env_utf8_error :: "string \<Rightarrow> string"

definition engine_version :: string where
  "engine_version = ''0.1.0-alpha.2''"

section \<open>Scanning a file\<close>

datatype tail_policy = RejectPartial | SkipPartial

definition written_by :: "json option \<Rightarrow> string option" where
  "written_by v =
     (case v of
        Some (JObject kvs) \<Rightarrow> (case map_of kvs ''engine_version'' of Some (JString s) \<Rightarrow> Some s | _ \<Rightarrow> None)
      | _ \<Rightarrow> None)"

definition malformed_record :: "log_env \<Rightarrow> u64 \<Rightarrow> string \<Rightarrow> string \<Rightarrow> log_error" where
  "malformed_record env line text detail =
     Malformed line
       (case written_by (env_json env text) of
          None \<Rightarrow> detail
        | Some version \<Rightarrow>
            if version \<noteq> engine_version then
              detail @ '' (this record was written by bathy '' @ version @ '' and this build is '' @
              engine_version @ ''; a record is meant to outlive the build that wrote it, so this is '' @
              ''a compatibility defect in this build, not in the log)''
            else detail)"

text \<open>The body of the loop for one complete line: \<open>content\<close> is the line without its newline.\<close>

definition scan_line :: "log_env \<Rightarrow> string \<Rightarrow> u64 \<Rightarrow> u64 \<Rightarrow> record_index \<Rightarrow> log_error + record_index" where
  "scan_line env content line pos ix =
     (if content = [] then Inr ix
      else if \<not> utf8_valid content then Inl (Malformed line (env_utf8_error env content))
      else
        case env_read env content of
          Inl e \<Rightarrow> Inl (malformed_record env line content e)
        | Inr ev \<Rightarrow>
            if ev_sequence ev \<noteq> next_seq ix then Inl (SequenceGap (next_seq ix) (ev_sequence ev))
            else Inr (index_push pos ix))"

function scan_loop ::
  "log_env \<Rightarrow> tail_policy \<Rightarrow> string \<Rightarrow> u64 \<Rightarrow> u64 \<Rightarrow> record_index \<Rightarrow> log_error + record_index \<times> u64"
where
  "scan_loop env tail s line pos ix =
     (if s = [] then Inr (ix, pos)
      else
        let line' = sat_add line 1 in
        (case split_once (CHR 0x0A) s of
           None \<Rightarrow>
             if tail = SkipPartial then Inr (ix, pos)
             else Inl (Malformed line' ''record is not newline-terminated (truncated or an interrupted write)'')
         | Some (content, rest) \<Rightarrow>
             (case scan_line env content line' pos ix of
                Inl e \<Rightarrow> Inl e
              | Inr ix' \<Rightarrow>
                  (case checked_add pos (of_nat (Suc (length content))) of
                     None \<Rightarrow> Inl (Unrecordable (''byte offset overflowed u64 at line '' @ show_nat (unat line')))
                   | Some pos' \<Rightarrow> scan_loop env tail rest line' pos' ix'))))"
  by pat_completeness auto
termination
  by (relation "measure (\<lambda>(env, tail, s, _). length s)") (auto dest: split_once_Some)

declare scan_loop.simps [simp del]

definition scan_records :: "log_env \<Rightarrow> log_file \<Rightarrow> tail_policy \<Rightarrow> log_error + record_index \<times> u64" where
  "scan_records env f tail =
     (case lf_bytes f of
        None \<Rightarrow> Inr ([], 0)
      | Some s \<Rightarrow> if lf_refused f then Inl LIo else scan_loop env tail s 0 0 [])"

section \<open>The writer\<close>

record event_log =
  el_scan_id :: u128
  el_index :: record_index
  el_end_offset :: u64
  el_durable :: bool
  el_sync_calls :: u64
  el_released :: bool

text \<open>
  Opening creates a missing file, takes the lock or fails with \<open>Locked\<close>, and only then scans; when
  the scan fails the handle is dropped, and the lock with it.
\<close>

definition open_with_durability ::
  "log_env \<Rightarrow> u128 \<Rightarrow> bool \<Rightarrow> log_file \<Rightarrow> (log_error + event_log) \<times> log_file"
where
  "open_with_durability env sid durable f =
     (if lf_refused f then (Inl LIo, f)
      else
        let f' = f\<lparr>lf_bytes := Some (case lf_bytes f of None \<Rightarrow> [] | Some s \<Rightarrow> s)\<rparr> in
        if lf_locked f' then (Inl Locked, f')
        else
          (case scan_records env f' RejectPartial of
             Inl e \<Rightarrow> (Inl e, f')
           | Inr (ix, end_offset) \<Rightarrow>
               (Inr \<lparr>el_scan_id = sid, el_index = ix, el_end_offset = end_offset, el_durable = durable,
                     el_sync_calls = 0, el_released = False\<rparr>,
                f'\<lparr>lf_locked := True\<rparr>)))"

definition log_open :: "log_env \<Rightarrow> u128 \<Rightarrow> log_file \<Rightarrow> (log_error + event_log) \<times> log_file" where
  "log_open env sid f = open_with_durability env sid True f"

definition log_open_without_durability_barrier ::
  "log_env \<Rightarrow> u128 \<Rightarrow> log_file \<Rightarrow> (log_error + event_log) \<times> log_file"
where
  "log_open_without_durability_barrier env sid f = open_with_durability env sid False f"

text \<open>What the operating system answers to a call: the unlock, the write, the flush.\<close>

datatype write_fault = NoFault | WriteFails nat | SyncFails

definition release_writer_lock :: "bool \<Rightarrow> event_log \<Rightarrow> log_file \<Rightarrow> (log_error + unit) \<times> event_log \<times> log_file" where
  "release_writer_lock unlock_fails log f =
     (if el_released log then (Inr (), log, f)
      else if unlock_fails then (Inl LIo, log, f)
      else (Inr (), log\<lparr>el_released := True\<rparr>, f\<lparr>lf_locked := False\<rparr>))"

definition last_sequence :: "event_log \<Rightarrow> u64" where
  "last_sequence log = last_seq (el_index log)"

definition write_all :: "write_fault \<Rightarrow> string \<Rightarrow> log_file \<Rightarrow> (log_error + unit) \<times> log_file" where
  "write_all fault line f =
     (case fault of
        WriteFails k \<Rightarrow> (Inl LIo, f\<lparr>lf_bytes := map_option (\<lambda>s. s @ take k line) (lf_bytes f)\<rparr>)
      | _ \<Rightarrow> (Inr (), f\<lparr>lf_bytes := map_option (\<lambda>s. s @ line) (lf_bytes f)\<rparr>))"

definition raw_sync :: "write_fault \<Rightarrow> event_log \<Rightarrow> log_file \<Rightarrow> (log_error + unit) \<times> event_log \<times> log_file" where
  "raw_sync fault log f =
     (let log' = log\<lparr>el_sync_calls := el_sync_calls log + 1\<rparr> in
      if fault = SyncFails then (Inl LIo, log', f)
      else (Inr (), log', f\<lparr>lf_synced := (case lf_bytes f of None \<Rightarrow> 0 | Some s \<Rightarrow> length s)\<rparr>))"

definition log_sync :: "write_fault \<Rightarrow> event_log \<Rightarrow> log_file \<Rightarrow> (log_error + unit) \<times> event_log \<times> log_file" where
  "log_sync fault log f = raw_sync fault log f"

definition append_record :: "event \<Rightarrow> nat \<Rightarrow> event_log \<Rightarrow> (log_error + event) \<times> event_log" where
  "append_record e len log =
     (let log' = log\<lparr>el_index := index_push (el_end_offset log) (el_index log)\<rparr> in
      (case checked_add (el_end_offset log) (of_nat len) of
         None \<Rightarrow> (Inl (Unrecordable (''byte offset overflowed u64 at sequence '' @ show_nat (unat (ev_sequence e)))), log')
       | Some off \<Rightarrow> (Inr e, log'\<lparr>el_end_offset := off\<rparr>)))"

definition next_event :: "event_log \<Rightarrow> event_body \<Rightarrow> string \<Rightarrow> string \<Rightarrow> event" where
  "next_event log body now version =
     \<lparr>ev_scan_id = el_scan_id log, ev_sequence = next_seq (el_index log), ev_timestamp = now,
      ev_engine_version = version, ev_body = body\<rparr>"

definition log_append ::
  "log_env \<Rightarrow> write_fault \<Rightarrow> event_body \<Rightarrow> string \<Rightarrow> string \<Rightarrow> event_log \<Rightarrow> log_file
     \<Rightarrow> (log_error + event) \<times> event_log \<times> log_file"
where
  "log_append env fault body now version log f =
     (if el_released log then (Inl Released, log, f)
      else
        let e = next_event log body now version in
        (case env_write env e of
           Inl msg \<Rightarrow>
             (Inl (Unrecordable (''event '' @ show_nat (unat (ev_sequence e)) @
                '' could not be serialized: '' @ msg)), log, f)
         | Inr text \<Rightarrow>
             let line = text @ [CHR 0x0A] in
             (case write_all fault line f of
                (Inl err, f') \<Rightarrow> (Inl err, log, f')
              | (Inr _, f') \<Rightarrow>
                  (case (if el_durable log then raw_sync fault log f' else (Inr (), log, f')) of
                     (Inl err, log', f'') \<Rightarrow> (Inl err, log', f'')
                   | (Inr _, log', f'') \<Rightarrow>
                       (case append_record e (length line) log' of (r, log'') \<Rightarrow> (r, log'', f''))))))"

section \<open>Reading\<close>

text \<open>\<open>BufRead::lines\<close>: a line, without its newline and without a carriage return before it.\<close>

definition take_line :: "string \<Rightarrow> string \<times> string" where
  "take_line s =
     (case split_once (CHR 0x0A) s of
        None \<Rightarrow> (s, [])
      | Some (l, rest) \<Rightarrow> (if l \<noteq> [] \<and> last l = CHR 0x0D then butlast l else l, rest))"

function read_loop ::
  "log_env \<Rightarrow> u64 \<Rightarrow> u64 \<Rightarrow> u64 \<Rightarrow> string \<Rightarrow> nat \<Rightarrow> event list \<Rightarrow> log_error + event list"
where
  "read_loop env after upper wanted s i out =
     (if s = [] \<or> of_nat (length out) = wanted then Inr out
      else
        (case take_line s of
           (line, rest) \<Rightarrow>
             if \<not> utf8_valid line then Inl LIo
             else if line = [] then read_loop env after upper wanted rest (Suc i) out
             else
               (case env_read env line of
                  Inl e \<Rightarrow> Inl (malformed_record env (sat_add (sat_add after (of_nat i)) 1) line e)
                | Inr ev \<Rightarrow>
                    read_loop env after upper wanted rest (Suc i)
                      (if after < ev_sequence ev \<and> ev_sequence ev \<le> upper then out @ [ev] else out))))"
  by pat_completeness auto
termination
  by (relation "measure (\<lambda>(env, after, upper, wanted, s, i, out). length s)")
    (auto simp: take_line_def split: option.splits prod.splits dest: split_once_Some)

declare read_loop.simps [simp del]

definition read_records_from :: "log_env \<Rightarrow> log_file \<Rightarrow> record_index \<Rightarrow> u64 \<Rightarrow> log_error + event list" where
  "read_records_from env f ix after =
     (case start_after ix after of
        None \<Rightarrow> Inr []
      | Some off \<Rightarrow>
          if lf_refused f then Inl LIo
          else
            (case lf_bytes f of
               None \<Rightarrow> Inl LIo
             | Some s \<Rightarrow>
                 read_loop env after (last_seq ix) (sat_sub (last_seq ix) after) (drop (unat off) s) 0 []))"

definition log_read_from :: "log_env \<Rightarrow> event_log \<Rightarrow> log_file \<Rightarrow> u64 \<Rightarrow> log_error + event list" where
  "log_read_from env log f after = read_records_from env f (el_index log) after"

record log_reader =
  lr_scan_id :: u128
  lr_index :: record_index

definition reader_open :: "log_env \<Rightarrow> u128 \<Rightarrow> log_file \<Rightarrow> log_error + log_reader" where
  "reader_open env sid f =
     (if lf_bytes f = None then Inl LIo
      else
        (case scan_records env f SkipPartial of
           Inl e \<Rightarrow> Inl e
         | Inr (ix, _) \<Rightarrow> Inr \<lparr>lr_scan_id = sid, lr_index = ix\<rparr>))"

definition reader_read_from :: "log_env \<Rightarrow> log_reader \<Rightarrow> log_file \<Rightarrow> u64 \<Rightarrow> log_error + event list" where
  "reader_read_from env r f after = read_records_from env f (lr_index r) after"

text \<open>
  A crash of the machine: the durable prefix survives, and some part of what followed it; the
  operating system drops the dead process's lock. That the file itself is there is taken for granted:
  \<open>log.rs\<close> flushes the file and never the directory it created the file in, so this is a crash after the
  directory entry has reached the disk.
\<close>

definition crash :: "nat \<Rightarrow> log_file \<Rightarrow> log_file" where
  "crash n f =
     f\<lparr>lf_bytes := map_option (take (max n (lf_synced f))) (lf_bytes f), lf_locked := False\<rparr>"

section \<open>The bytes and the events\<close>

text \<open>
  A file is lines closed by a newline and a tail without one. \<open>offsets\<close> is where the non-empty
  lines begin, \<open>decodes\<close> the event of a line, \<open>numbered k\<close> that events carry the numbers after
  \<open>k\<close>.
\<close>

abbreviation newline :: char where
  "newline \<equiv> CHR 0x0A"

definition lines_text :: "string list \<Rightarrow> string" where
  "lines_text ls = concat (map (\<lambda>l. l @ [newline]) ls)"

fun offsets :: "nat \<Rightarrow> string list \<Rightarrow> record_index" where
  "offsets p [] = []"
| "offsets p (l # ls) = (if l = [] then offsets (Suc p) ls else of_nat p # offsets (p + Suc (length l)) ls)"

definition decodes :: "log_env \<Rightarrow> string \<Rightarrow> event option" where
  "decodes env l =
     (if utf8_valid l then (case env_read env l of Inl _ \<Rightarrow> None | Inr e \<Rightarrow> Some e) else None)"

fun numbered :: "nat \<Rightarrow> event list \<Rightarrow> bool" where
  "numbered k [] = True"
| "numbered k (e # es) = (ev_sequence e = of_nat (Suc k) \<and> numbered (Suc k) es)"

definition recorded :: "log_env \<Rightarrow> nat \<Rightarrow> string list \<Rightarrow> bool" where
  "recorded env k ls =
     (case those (map (decodes env) (filter (\<lambda>l. l \<noteq> []) ls)) of None \<Rightarrow> False | Some es \<Rightarrow> numbered k es)"

lemma lines_text_simps [simp]:
  "lines_text [] = []" "lines_text (l # ls) = l @ newline # lines_text ls"
  "lines_text (ls @ ks) = lines_text ls @ lines_text ks"
  by (simp_all add: lines_text_def)

lemma numbered_append: "numbered k (es @ fs) \<longleftrightarrow> numbered k es \<and> numbered (k + length es) fs"
  by (induction es arbitrary: k) auto

lemma numbered_nth: "numbered k es \<Longrightarrow> i < length es \<Longrightarrow> ev_sequence (es ! i) = of_nat (Suc (k + i))"
  by (induction es arbitrary: k i) (auto simp: nth_Cons split: nat.splits)

lemma numbered_reread [simp]: "numbered k (map (reread settle) es) \<longleftrightarrow> numbered k es"
  by (induction es arbitrary: k) auto

lemma recorded_simps:
  "recorded env k []"
  "recorded env k ([] # ls) \<longleftrightarrow> recorded env k ls"
  "l \<noteq> [] \<Longrightarrow> recorded env k (l # ls) \<longleftrightarrow>
     (case decodes env l of None \<Rightarrow> False | Some e \<Rightarrow> ev_sequence e = of_nat (Suc k) \<and> recorded env (Suc k) ls)"
  by (auto simp: recorded_def split: option.splits)

lemma split_once_line [simp]:
  "newline \<notin> set l \<Longrightarrow> split_once newline (l @ newline # r) = Some (l, r)"
  by (rule split_once_append)

lemma split_once_tail [simp]: "newline \<notin> set t \<Longrightarrow> split_once newline t = None"
  by (simp add: split_once_None)

lemma checked_add_nat:
  "p + n < 2 ^ 64 \<Longrightarrow> checked_add (of_nat p :: u64) (of_nat n) = Some (of_nat (p + n))"
  by (simp add: checked_add_def unat_of_nat_small)

lemma next_seq_nat: "Suc (length ix) < 2 ^ 64 \<Longrightarrow> next_seq ix = of_nat (Suc (length ix))"
proof -
  assume a: "Suc (length ix) < 2 ^ 64"
  then have "unat (of_nat (length ix) :: u64) = length ix" by (simp add: unat_of_nat_small)
  then show ?thesis using a by (simp add: next_seq_def last_seq_def sat_add_def)
qed

lemma scan_line_exactly:
  assumes "Suc (length ix) < 2 ^ 64"
  shows "scan_line env l line pos ix = Inr ix' \<longleftrightarrow>
    (if l = [] then ix' = ix
     else ix' = ix @ [pos] \<and>
       (case decodes env l of None \<Rightarrow> False | Some e \<Rightarrow> ev_sequence e = of_nat (Suc (length ix))))"
  using assms
  by (auto simp: scan_line_def decodes_def next_seq_nat index_push_def split: sum.splits)

lemma scan_loop_exactly:
  assumes "\<forall>l \<in> set ls. newline \<notin> set l" "newline \<notin> set t"
    and "p + length (lines_text ls) < 2 ^ 64" "length ix \<le> p"
  shows "scan_loop env tail (lines_text ls @ t) line (of_nat p) ix = Inr (ix', pos') \<longleftrightarrow>
    (tail = SkipPartial \<or> t = []) \<and> recorded env (length ix) ls \<and>
    ix' = ix @ offsets p ls \<and> pos' = of_nat (p + length (lines_text ls))"
  using assms
proof (induction ls arbitrary: line p ix)
  case Nil
  then show ?case
    by (subst scan_loop.simps) (auto simp: recorded_simps)
next
  case (Cons l ls)
  have small: "Suc (length ix) < 2 ^ 64" "p + Suc (length l) < 2 ^ 64" using Cons.prems by auto
  have step: "scan_loop env tail (lines_text (l # ls) @ t) line (of_nat p) ix =
    (case scan_line env l (sat_add line 1) (of_nat p) ix of
       Inl e \<Rightarrow> Inl e
     | Inr ix'' \<Rightarrow> scan_loop env tail (lines_text ls @ t) (sat_add line 1) (of_nat (p + Suc (length l))) ix'')"
    using Cons.prems(1) checked_add_nat [OF small(2)]
    by (subst scan_loop.simps) (simp add: Let_def split: sum.splits)
  show ?case
  proof (cases "l = []")
    case True
    then have "scan_line env l (sat_add line 1) (of_nat p) ix = Inr ix" by (simp add: scan_line_def)
    then show ?thesis
      using Cons.IH [of "Suc p" ix "sat_add line 1"] Cons.prems True unfolding step
      by (simp add: recorded_simps)
  next
    case False
    show ?thesis
    proof (cases "scan_line env l (sat_add line 1) (of_nat p) ix")
      case (Inl e)
      then have "\<not> recorded env (length ix) (l # ls)"
        using scan_line_exactly [OF small(1), of env l "sat_add line 1" "of_nat p" "ix @ [of_nat p]"] False
        by (auto simp: recorded_simps split: option.splits)
      then show ?thesis unfolding step Inl by simp
    next
      case (Inr ix'')
      then have ix'': "ix'' = ix @ [of_nat p]"
        and e: "case decodes env l of None \<Rightarrow> False | Some e \<Rightarrow> ev_sequence e = of_nat (Suc (length ix))"
        using scan_line_exactly [OF small(1), of env l "sat_add line 1" "of_nat p" ix''] False by auto
      have "recorded env (length ix) (l # ls) \<longleftrightarrow> recorded env (Suc (length ix)) ls"
        using e False by (auto simp: recorded_simps split: option.splits)
      then show ?thesis
        using Cons.IH [of "p + Suc (length l)" ix'' "sat_add line 1"] Cons.prems False ix''
        unfolding step Inr by (simp add: add.assoc add.commute add.left_commute)
    qed
  qed
qed

lemma lines_of: "\<exists>ls t. s = lines_text ls @ t \<and> (\<forall>l \<in> set ls. newline \<notin> set l) \<and> newline \<notin> set t"
proof (induction "length s" arbitrary: s rule: less_induct)
  case less
  show ?case
  proof (cases "split_once newline s")
    case None
    then show ?thesis by (intro exI [of _ "[]"] exI [of _ s]) (simp add: split_once_None)
  next
    case (Some lr)
    then obtain l r where s: "s = l @ newline # r" and l: "newline \<notin> set l"
      using split_once_Some by (cases lr) blast
    then obtain ls t where "r = lines_text ls @ t" "\<forall>l \<in> set ls. newline \<notin> set l" "newline \<notin> set t"
      using less [of r] by auto
    then show ?thesis using s l by (intro exI [of _ "l # ls"] exI [of _ t]) simp
  qed
qed

section \<open>The events a file holds\<close>

definition record_text :: "log_env \<Rightarrow> event \<Rightarrow> string" where
  "record_text env e = projr (env_write env e)"

definition log_text :: "log_env \<Rightarrow> event list \<Rightarrow> string" where
  "log_text env es = lines_text (map (record_text env) es)"

definition writable :: "log_env \<Rightarrow> event list \<Rightarrow> bool" where
  "writable env es = list_all (\<lambda>e. \<not> isl (env_write env e)) es"

text \<open>\<open>holds env f es\<close>: the file is exactly the records of \<open>es\<close>, numbered from 1.\<close>

definition holds :: "log_env \<Rightarrow> log_file \<Rightarrow> event list \<Rightarrow> bool" where
  "holds env f es \<longleftrightarrow>
     lf_bytes f = Some (log_text env es) \<and> lf_synced f \<le> length (log_text env es) \<and> \<not> lf_refused f \<and>
     writable env es \<and> numbered 0 es \<and> length (log_text env es) < 2 ^ 64"

text \<open>The writer's state agrees with the file it holds open.\<close>

definition writer_inv :: "log_env \<Rightarrow> event_log \<Rightarrow> log_file \<Rightarrow> event list \<Rightarrow> bool" where
  "writer_inv env log f es \<longleftrightarrow>
     holds env f es \<and> lf_locked f \<and> \<not> el_released log \<and>
     el_index log = offsets 0 (map (record_text env) es) \<and>
     el_end_offset log = of_nat (length (log_text env es))"

lemma log_text_simps [simp]:
  "log_text env [] = []"
  "log_text env (es @ fs) = log_text env es @ log_text env fs"
  "log_text env (e # es) = record_text env e @ newline # log_text env es"
  by (simp_all add: log_text_def)

lemma writable_simps [simp]:
  "writable env []"
  "writable env (e # es) \<longleftrightarrow> (\<exists>s. env_write env e = Inr s) \<and> writable env es"
  "writable env (es @ fs) \<longleftrightarrow> writable env es \<and> writable env fs"
  by (auto simp: writable_def isl_def) (metis sum.exhaust)+

lemma offsets_append:
  "offsets p (ls @ ks) = offsets p ls @ offsets (p + length (lines_text ls)) ks"
  by (induction ls arbitrary: p) (auto simp: add.assoc)

lemma take_min_length: "take (min a (length xs)) xs = take a xs"
  by (simp add: min_def)

lemma take_lines:
  "m \<le> length (lines_text ls) \<Longrightarrow> \<forall>l \<in> set ls. newline \<notin> set l \<Longrightarrow>
    \<exists>k t. k \<le> length ls \<and> take m (lines_text ls) = lines_text (take k ls) @ t \<and> newline \<notin> set t \<and>
      (t = [] \<or> k < length ls) \<and> (\<forall>j \<le> length ls. length (lines_text (take j ls)) \<le> m \<longrightarrow> j \<le> k)"
proof (induction ls arbitrary: m)
  case Nil
  then show ?case by (intro exI [of _ 0] exI [of _ "[]"]) simp
next
  case (Cons l ls)
  show ?case
  proof (cases "m \<le> length l")
    case True
    then have "newline \<notin> set (take m l)" using Cons.prems by (auto dest: in_set_takeD)
    then show ?thesis
      using True by (intro exI [of _ 0] exI [of _ "take m l"]) (auto simp: take_Cons' split: if_splits)
  next
    case False
    define m' where "m' = m - Suc (length l)"
    have m: "m = Suc (length l) + m'" using False by (simp add: m'_def)
    obtain k t where k: "k \<le> length ls" "take m' (lines_text ls) = lines_text (take k ls) @ t"
      "newline \<notin> set t" "t = [] \<or> k < length ls"
      "\<forall>j \<le> length ls. length (lines_text (take j ls)) \<le> m' \<longrightarrow> j \<le> k"
      using Cons.IH [of m'] Cons.prems m by auto
    have "take m (lines_text (l # ls)) = lines_text (take (Suc k) (l # ls)) @ t"
      using k(2) by (simp add: m)
    moreover have "j \<le> Suc k" if "j \<le> length (l # ls)" "length (lines_text (take j (l # ls))) \<le> m" for j
      using that k(5) by (cases j) (auto simp: m)
    ultimately show ?thesis
      using k by (intro exI [of _ "Suc k"] exI [of _ t]) auto
  qed
qed

locale log_codec = event_codec "env_write env" "env_read env" settle
  for env :: log_env and settle :: "confidence \<Rightarrow> confidence"
begin

lemma record_line:
  assumes "env_write env e = Inr s"
  shows "record_text env e = s" "s \<noteq> []" "newline \<notin> set s" "last s \<noteq> CHR 0x0D"
    "decodes env s = Some (reread settle e)"
  using write_line [OF assms] write_utf8 [OF assms] read_write [OF assms] assms
  by (simp_all add: record_text_def decodes_def)

lemma lines_clean: "writable env es \<Longrightarrow> l \<in> set (map (record_text env) es) \<Longrightarrow> l \<noteq> [] \<and> newline \<notin> set l"
  by (induction es) (auto simp: record_line)

lemma length_offsets: "writable env es \<Longrightarrow> length (offsets p (map (record_text env) es)) = length es"
  by (induction es arbitrary: p) (auto simp: record_line)

lemma offsets_nth:
  assumes "writable env es" "k < length es"
  shows "offsets p (map (record_text env) es) ! k = of_nat (p + length (log_text env (take k es)))"
  using assms
proof (induction es arbitrary: p k)
  case (Cons e es)
  then have ne: "record_text env e \<noteq> []" by (auto simp: record_line)
  show ?case
  proof (cases k)
    case 0
    then show ?thesis using ne by simp
  next
    case (Suc j)
    have "offsets (p + Suc (length (record_text env e))) (map (record_text env) es) ! j =
        of_nat (p + Suc (length (record_text env e)) + length (log_text env (take j es)))"
      using Cons.IH [of j "p + Suc (length (record_text env e))"] Cons.prems Suc by simp
    moreover have "length (log_text env (take k (e # es))) =
        Suc (length (record_text env e)) + length (log_text env (take j es))"
      by (simp add: Suc)
    ultimately show ?thesis using ne by (simp only: Suc list.map offsets.simps if_False nth_Cons_Suc add.assoc)
  qed
qed simp

lemma recorded_log: "writable env es \<Longrightarrow> recorded env k (map (record_text env) es) \<longleftrightarrow> numbered k es"
proof (induction es arbitrary: k)
  case (Cons e es)
  then obtain s where "env_write env e = Inr s" by auto
  note s = record_line [OF this]
  have "recorded env k (map (record_text env) (e # es)) \<longleftrightarrow>
      ev_sequence e = of_nat (Suc k) \<and> recorded env (Suc k) (map (record_text env) es)"
    by (simp only: list.map s(1) recorded_simps(3) [OF s(2)] s(5) option.case reread_sequence)
  then show ?case using Cons by simp
qed (simp add: recorded_simps)

lemma count_le_text: "writable env es \<Longrightarrow> length es \<le> length (log_text env es)"
  by (induction es) auto

lemma scan_log:
  assumes "writable env es" "newline \<notin> set t" "length (log_text env es) < 2 ^ 64"
  shows "scan_loop env tail (log_text env es @ t) 0 0 [] = Inr (ix, pos) \<longleftrightarrow>
    (tail = SkipPartial \<or> t = []) \<and> numbered 0 es \<and>
    ix = offsets 0 (map (record_text env) es) \<and> pos = of_nat (length (log_text env es))"
  using scan_loop_exactly [of "map (record_text env) es" t 0 "[]" env tail 0 ix pos] assms lines_clean
  by (simp add: log_text_def [symmetric] recorded_log)

lemma next_seq_log:
  assumes "writable env es" "length (log_text env (es @ [e])) < 2 ^ 64"
  shows "next_seq (offsets 0 (map (record_text env) es)) = of_nat (Suc (length es))"
proof -
  have "Suc (length es) < 2 ^ 64" using assms count_le_text [OF assms(1)] by auto
  then show ?thesis using next_seq_nat length_offsets [OF assms(1)] by metis
qed

lemma append_extends:
  assumes inv: "writer_inv env log f es"
    and e: "e = next_event log body now version"
    and w: "env_write env e = Inr s" and room: "length (log_text env (es @ [e])) < 2 ^ 64"
  shows "\<exists>log' f'. log_append env NoFault body now version log f = (Inr e, log', f') \<and>
    writer_inv env log' f' (es @ [e]) \<and> el_durable log' = el_durable log \<and>
    el_scan_id log' = el_scan_id log \<and>
    lf_synced f' = (if el_durable log then length (log_text env (es @ [e])) else lf_synced f)"
proof -
  have wr: "writable env es" and num: "numbered 0 es" using inv by (auto simp: writer_inv_def holds_def)
  have rt: "record_text env e = s" using record_line(1) [OF w] .
  have ne: "s \<noteq> []" using record_line(2) [OF w] .
  have seq: "ev_sequence e = of_nat (Suc (length es))"
    using next_seq_log [OF wr room] inv by (simp add: e next_event_def writer_inv_def)
  have len: "length (log_text env es) + Suc (length s) < 2 ^ 64" using room rt by simp
  define log1 where "log1 = (if el_durable log then log\<lparr>el_sync_calls := el_sync_calls log + 1\<rparr> else log)"
  define f1 where "f1 = f\<lparr>lf_bytes := Some (log_text env (es @ [e]))\<rparr>"
  define f2 where "f2 = (if el_durable log then f1\<lparr>lf_synced := length (log_text env (es @ [e]))\<rparr> else f1)"
  define log2 where "log2 = log1\<lparr>el_index := el_index log @ [el_end_offset log],
    el_end_offset := of_nat (length (log_text env (es @ [e])))\<rparr>"
  have add: "checked_add (el_end_offset log) (of_nat (Suc (length s))) =
      Some (of_nat (length (log_text env (es @ [e]))))"
    using checked_add_nat [OF len] inv rt by (simp only: writer_inv_def) simp
  have "log_append env NoFault body now version log f = (Inr e, log2, f2)"
    using inv w add rt
    by (auto simp: log_append_def e [symmetric] write_all_def raw_sync_def append_record_def index_push_def
        Let_def f1_def f2_def log1_def log2_def writer_inv_def holds_def)
  moreover have "writer_inv env log2 f2 (es @ [e])"
    using inv w room seq rt ne
    by (auto simp: writer_inv_def holds_def log2_def f2_def f1_def log1_def numbered_append offsets_append
        log_text_def [symmetric])
  moreover have "lf_synced f2 = (if el_durable log then length (log_text env (es @ [e])) else lf_synced f)"
    by (simp add: f2_def f1_def)
  ultimately show ?thesis by (auto simp: log2_def log1_def)
qed

lemma take_line_record:
  assumes "env_write env e = Inr s"
  shows "take_line (s @ newline # r) = (s, r)"
  using record_line [OF assms] by (simp add: take_line_def)

lemma read_loop_log:
  assumes "writable env es" "\<forall>e \<in> set es. after < ev_sequence e \<and> ev_sequence e \<le> upper"
    and "length out + length es < 2 ^ 64" "wanted = of_nat (length out + length es)"
  shows "read_loop env after upper wanted (log_text env es @ grown) i out = Inr (out @ map (reread settle) es)"
  using assms
proof (induction es arbitrary: i out)
  case Nil
  then show ?case by (subst read_loop.simps) simp
next
  case (Cons e es)
  then obtain s where w: "env_write env e = Inr s" by auto
  note s = record_line [OF w]
  have "(of_nat (length out) :: u64) \<noteq> wanted"
  proof -
    have "unat (of_nat (length out) :: u64) = length out" using Cons.prems(3) by (simp add: unat_of_nat_small)
    moreover have "unat wanted = length out + length (e # es)"
      using Cons.prems(3) by (simp only: Cons.prems(4)) (rule unat_of_nat_small, simp)
    ultimately show ?thesis by auto
  qed
  moreover have "utf8_valid s" using write_utf8 [OF w] .
  ultimately have "read_loop env after upper wanted (log_text env (e # es) @ grown) i out =
      read_loop env after upper wanted (log_text env es @ grown) (Suc i) (out @ [reread settle e])"
    using s read_write [OF w] Cons.prems(2) take_line_record [OF w]
    by (subst read_loop.simps) simp
  also have "\<dots> = Inr ((out @ [reread settle e]) @ map (reread settle) es)"
    using Cons.IH [of "out @ [reread settle e]" "Suc i"] Cons.prems by simp
  finally show ?case by simp
qed

lemma read_log:
  assumes f: "lf_bytes f = Some (log_text env es @ grown)" "\<not> lf_refused f"
    and es: "writable env es" "numbered 0 es" "length (log_text env es) < 2 ^ 64"
  shows "read_records_from env f (offsets 0 (map (record_text env) es)) after =
    Inr (map (reread settle) (drop (unat after) es))"
proof (cases "unat after < length es")
  case False
  then show ?thesis by (simp add: read_records_from_def start_after_def length_offsets es)
next
  case True
  define k where "k = unat after"
  define ix where "ix = offsets 0 (map (record_text env) es)"
  have n: "length es < 2 ^ 64" using count_le_text [OF es(1)] es(3) by simp
  have ix: "length ix = length es" by (simp add: ix_def length_offsets es)
  have pre: "length (log_text env (take k es)) < 2 ^ 64"
    using es(3) by (metis append_take_drop_id le_add1 le_less_trans length_append log_text_simps(2))
  have off: "ix ! k = of_nat (length (log_text env (take k es)))"
    using offsets_nth [OF es(1), of k 0] True by (simp add: k_def ix_def)
  have uoff: "unat (ix ! k) = length (log_text env (take k es))"
    unfolding off using pre by (intro unat_of_nat_small) simp
  have "log_text env es @ grown = log_text env (take k es) @ log_text env (drop k es) @ grown"
    by (metis append.assoc append_take_drop_id log_text_simps(2))
  then have rest: "drop (unat (ix ! k)) (log_text env es @ grown) = log_text env (drop k es) @ grown"
    by (simp add: uoff)
  have us: "unat (of_nat (length es) :: u64) = length es" using n by (simp add: unat_of_nat_small)
  have ls: "last_seq ix = of_nat (length es)" using n by (simp add: last_seq_def ix)
  have wanted: "sat_sub (last_seq ix) after = of_nat (length (drop k es))"
  proof (rule iffD2 [OF word_unat_eq_iff])
    have "unat (of_nat (length (drop k es)) :: u64) = length (drop k es)"
      using n by (intro unat_of_nat_small) simp
    then show "unat (sat_sub (last_seq ix) after) = unat (of_nat (length (drop k es)) :: u64)"
      by (simp only: unat_sat_sub ls us k_def length_drop)
  qed
  have range: "after < ev_sequence e \<and> ev_sequence e \<le> last_seq ix" if e: "e \<in> set (drop k es)" for e
  proof -
    obtain i where i: "i < length (drop k es)" "e = drop k es ! i"
      using e by (metis in_set_conv_nth)
    then have "ev_sequence e = of_nat (Suc (k + i))"
      using numbered_nth [OF es(2), of "k + i"] by simp
    then have "unat (ev_sequence e) = Suc (k + i)"
      using i n unat_of_nat_small [of "Suc (k + i)", where 'a = 64] by (simp del: of_nat_Suc)
    then show ?thesis using i unfolding ls word_less_nat_alt word_le_nat_alt us by (simp add: k_def)
  qed
  have wr: "writable env (drop k es)"
    using es(1) writable_simps(3) [of env "take k es" "drop k es"] by simp
  have "read_loop env after (last_seq ix) (sat_sub (last_seq ix) after) (log_text env (drop k es) @ grown) 0 [] =
      Inr ([] @ map (reread settle) (drop k es))"
    using n range wr by (intro read_loop_log) (simp_all add: wanted)
  then show ?thesis
    using True f rest by (simp add: read_records_from_def start_after_def ix_def [symmetric] ix k_def [symmetric])
qed

lemma open_holds:
  assumes f: "holds env f es" "\<not> lf_locked f"
  shows "\<exists>log. open_with_durability env sid durable f = (Inr log, f\<lparr>lf_locked := True\<rparr>) \<and>
    writer_inv env log (f\<lparr>lf_locked := True\<rparr>) es \<and> el_scan_id log = sid \<and> el_durable log = durable"
proof -
  have "scan_loop env RejectPartial (log_text env es) 0 0 [] =
      Inr (offsets 0 (map (record_text env) es), of_nat (length (log_text env es)))"
    using f scan_log [of es "[]" RejectPartial] by (simp add: holds_def)
  then show ?thesis
    using f by (auto simp: open_with_durability_def scan_records_def holds_def writer_inv_def Let_def)
qed

text \<open>What is left of a log after a crash: some first records and a piece of the next.\<close>

lemma crash_leaves:
  assumes "holds env f es"
  shows "\<exists>k t. lf_bytes (crash n f) = Some (log_text env (take k es) @ t) \<and> newline \<notin> set t \<and>
    k \<le> length es \<and> (\<forall>j \<le> length es. length (log_text env (take j es)) \<le> lf_synced f \<longrightarrow> j \<le> k)"
proof -
  let ?ls = "map (record_text env) es"
  define m where "m = min (max n (lf_synced f)) (length (lines_text ?ls))"
  have wr: "writable env es" using assms by (simp add: holds_def)
  then have "\<forall>l \<in> set ?ls. newline \<notin> set l" using lines_clean by blast
  then obtain k t where k: "k \<le> length ?ls" "take m (lines_text ?ls) = lines_text (take k ?ls) @ t"
    "newline \<notin> set t" "\<forall>j \<le> length ?ls. length (lines_text (take j ?ls)) \<le> m \<longrightarrow> j \<le> k"
    using take_lines [of m ?ls] by (auto simp: m_def)
  have "take (max n (lf_synced f)) (lines_text ?ls) = take m (lines_text ?ls)"
    unfolding m_def by (rule take_min_length [symmetric])
  then have b: "lf_bytes (crash n f) = Some (log_text env (take k es) @ t)"
    using assms k(2) by (simp add: crash_def holds_def log_text_def take_map)
  have "j \<le> k" if "j \<le> length es" "length (log_text env (take j es)) \<le> lf_synced f" for j
  proof -
    have "length (log_text env (take j es)) \<le> length (log_text env es)"
      by (metis append_take_drop_id le_add1 length_append log_text_simps(2))
    then have "length (lines_text (take j ?ls)) \<le> m"
      using that by (simp add: m_def log_text_def take_map)
    then show ?thesis using k(4) that(1) by simp
  qed
  then show ?thesis using b k by auto
qed

lemma read_partial:
  assumes "lf_bytes f = Some (log_text env es @ t)" "newline \<notin> set t" "\<not> lf_refused f"
    and "writable env es" "numbered 0 es" "length (log_text env es) < 2 ^ 64"
  shows "reader_open env sid f = Inr \<lparr>lr_scan_id = sid, lr_index = offsets 0 (map (record_text env) es)\<rparr>"
proof -
  have "scan_loop env SkipPartial (log_text env es @ t) 0 0 [] =
      Inr (offsets 0 (map (record_text env) es), of_nat (length (log_text env es)))"
    using assms scan_log [of es t SkipPartial] by simp
  then show ?thesis using assms by (simp add: reader_open_def scan_records_def)
qed

lemma open_partial:
  assumes "lf_bytes f = Some (log_text env es @ t)" "newline \<notin> set t" "t \<noteq> []" "\<not> lf_refused f"
    and "\<not> lf_locked f" "writable env es" "length (log_text env es) < 2 ^ 64"
  shows "\<exists>e. open_with_durability env sid durable f = (Inl e, f)"
proof -
  have "\<nexists>r. scan_loop env RejectPartial (log_text env es @ t) 0 0 [] = Inr r"
    using assms scan_log [of es t RejectPartial] by auto
  then obtain e where "scan_loop env RejectPartial (log_text env es @ t) 0 0 [] = Inl e"
    by (cases "scan_loop env RejectPartial (log_text env es @ t) 0 0 []") auto
  then show ?thesis
    using assms by (auto simp: open_with_durability_def scan_records_def Let_def)
qed

lemma holds_prefix:
  assumes "holds env f es"
  shows "writable env (take k es)" "numbered 0 (take k es)" "length (log_text env (take k es)) < 2 ^ 64"
proof -
  note split = append_take_drop_id [of k es]
  show "writable env (take k es)" "numbered 0 (take k es)"
    using assms writable_simps(3) [of env "take k es" "drop k es"] numbered_append [of 0 "take k es" "drop k es"]
    unfolding split holds_def by blast+
  have "length (log_text env (take k es)) \<le> length (log_text env es)"
    by (metis split le_add1 length_append log_text_simps(2))
  then show "length (log_text env (take k es)) < 2 ^ 64" using assms unfolding holds_def by linarith
qed

lemma last_seq_log:
  assumes "writable env es" "length (log_text env es) < 2 ^ 64"
  shows "last_seq (offsets 0 (map (record_text env) es)) = of_nat (length es)"
proof -
  have "length es < 2 ^ 64" using assms count_le_text [OF assms(1)] by simp
  then show ?thesis by (simp only: last_seq_def length_offsets [OF assms(1)] if_True)
qed

lemma append_refines:
  assumes inv: "writer_inv env log f es" and w: "env_write env (next_event log body now version) = Inr s"
    and room: "length (log_text env (es @ [next_event log body now version])) < 2 ^ 64"
  shows "\<exists>log' f'. log_append env NoFault body now version log f =
      (Inr (next_event log body now version), log', f') \<and>
    writer_inv env log' f' (es @ [next_event log body now version]) \<and>
    ev_sequence (next_event log body now version) = of_nat (Suc (length es)) \<and>
    last_sequence log' = of_nat (Suc (length es)) \<and>
    lf_synced f' = (if el_durable log then length (log_text env (es @ [next_event log body now version]))
                    else lf_synced f)"
proof -
  let ?e = "next_event log body now version"
  obtain log' f' where r: "log_append env NoFault body now version log f = (Inr ?e, log', f')"
    "writer_inv env log' f' (es @ [?e])"
    "lf_synced f' = (if el_durable log then length (log_text env (es @ [?e])) else lf_synced f)"
    using append_extends [OF inv refl w room] by blast
  have "writable env es" "writable env (es @ [?e])" using inv w by (auto simp: writer_inv_def holds_def)
  then have "ev_sequence ?e = of_nat (Suc (length es))" "last_sequence log' = of_nat (Suc (length es))"
    using next_seq_log [of es ?e] last_seq_log [of "es @ [?e]"] inv r(2) room
    by (auto simp: writer_inv_def last_sequence_def next_event_def)
  then show ?thesis using r by blast
qed

lemma reads:
  assumes "writer_inv env log f es"
  shows "log_read_from env log f after = Inr (map (reread settle) (drop (unat after) es))"
  using assms read_log [of f es "[]" after] by (simp add: log_read_from_def writer_inv_def holds_def)

lemma reader_snapshot:
  assumes f: "lf_bytes f = Some (log_text env es @ t)" "newline \<notin> set t" "\<not> lf_refused f"
    and es: "writable env es" "numbered 0 es" "length (log_text env es) < 2 ^ 64"
    and f': "lf_bytes f' = Some (log_text env es @ grown)" "\<not> lf_refused f'"
  shows "\<exists>r. reader_open env sid f = Inr r \<and> last_seq (lr_index r) = of_nat (length es) \<and>
    reader_read_from env r f' after = Inr (map (reread settle) (drop (unat after) es))"
  using read_partial [OF f es] read_log [OF f' es] last_seq_log [OF es(1,3)]
  by (simp add: reader_read_from_def)

lemma crash_reads:
  assumes "holds env f es"
  shows "\<exists>k r. k \<le> length es \<and>
    (\<forall>j \<le> length es. length (log_text env (take j es)) \<le> lf_synced f \<longrightarrow> j \<le> k) \<and>
    reader_open env sid (crash n f) = Inr r \<and>
    reader_read_from env r (crash n f) 0 = Inr (map (reread settle) (take k es)) \<and>
    (case open_with_durability env sid durable (crash n f) of
       (Inl _, f') \<Rightarrow> lf_bytes f' = lf_bytes (crash n f) \<and> lf_bytes (crash n f) \<noteq> Some (log_text env (take k es))
     | (Inr log, f') \<Rightarrow> lf_bytes f' = Some (log_text env (take k es)) \<and>
         last_sequence log = of_nat k)"
proof -
  obtain k t where k: "lf_bytes (crash n f) = Some (log_text env (take k es) @ t)" "newline \<notin> set t"
    "k \<le> length es" "\<forall>j \<le> length es. length (log_text env (take j es)) \<le> lf_synced f \<longrightarrow> j \<le> k"
    using crash_leaves [OF assms] by blast
  note pre = holds_prefix [OF assms, of k]
  have ok: "\<not> lf_refused (crash n f)" "\<not> lf_locked (crash n f)"
    using assms by (simp_all add: crash_def holds_def)
  obtain r where r: "reader_open env sid (crash n f) = Inr r"
    "reader_read_from env r (crash n f) 0 = Inr (map (reread settle) (take k es))"
    using reader_snapshot [OF k(1,2) ok(1) pre k(1) ok(1), of sid 0] by auto
  have "case open_with_durability env sid durable (crash n f) of
       (Inl _, f') \<Rightarrow> lf_bytes f' = lf_bytes (crash n f) \<and> lf_bytes (crash n f) \<noteq> Some (log_text env (take k es))
     | (Inr log, f') \<Rightarrow> lf_bytes f' = Some (log_text env (take k es)) \<and> last_sequence log = of_nat k"
  proof (cases "t = []")
    case False
    then show ?thesis using open_partial [OF k(1,2) False ok(1,2) pre(1,3), of sid durable] k(1) by auto
  next
    case True
    have "scan_loop env RejectPartial (log_text env (take k es)) 0 0 [] =
      Inr (offsets 0 (map (record_text env) (take k es)), of_nat (length (log_text env (take k es))))"
      using scan_log [OF pre(1) _ pre(3), of "[]" RejectPartial] pre(2) by simp
    then have o: "open_with_durability env sid durable (crash n f) =
      (Inr \<lparr>el_scan_id = sid, el_index = offsets 0 (map (record_text env) (take k es)),
         el_end_offset = of_nat (length (log_text env (take k es))), el_durable = durable,
         el_sync_calls = 0, el_released = False\<rparr>,
       (crash n f)\<lparr>lf_bytes := Some (log_text env (take k es)), lf_locked := True\<rparr>)"
      using k(1) True ok by (simp add: open_with_durability_def scan_records_def Let_def)
    have len: "length (take k es) = k" using k(3) by simp
    have l: "last_seq (offsets 0 (map (record_text env) (take k es))) = of_nat k"
      using last_seq_log [OF pre(1,3)] unfolding len .
    have b: "lf_bytes ((crash n f)\<lparr>lf_bytes := Some (log_text env (take k es)), lf_locked := True\<rparr>) =
      Some (log_text env (take k es))" by simp
    show ?thesis
      unfolding o prod.case sum.case last_sequence_def event_log.simps using b l by blast
  qed
  from k(3,4) r this show ?thesis
    by (intro exI [of _ k] exI [of _ r] conjI)
qed

text \<open>Two records with the same number: neither a writer nor a reader opens the file.\<close>

lemma repeated_number:
  assumes "writable env (es @ [e, e'])" "ev_sequence e = ev_sequence e'"
    and "length (log_text env (es @ [e, e'])) < 2 ^ 64"
    and "lf_bytes f = Some (log_text env (es @ [e, e']))" "\<not> lf_refused f" "\<not> lf_locked f"
  shows "(\<exists>err. open_with_durability env sid durable f = (Inl err, f)) \<and> (\<exists>err. reader_open env sid f = Inl err)"
proof -
  have room: "Suc (length es) + 1 < 2 ^ 64"
    using count_le_text [OF assms(1)] assms(3) by simp
  have "\<not> numbered 0 (es @ [e, e'])"
  proof
    assume "numbered 0 (es @ [e, e'])"
    then have "numbered (length es) [e, e']" by (simp only: numbered_append add_0)
    then have "ev_sequence e = of_nat (Suc (length es))" "ev_sequence e' = of_nat (Suc (Suc (length es)))"
      by (simp_all only: numbered.simps)
    then have "(of_nat (Suc (length es)) :: u64) = of_nat (Suc (Suc (length es)))"
      using assms(2) by (simp only:)
    then show False
      using room unat_of_nat_small [of "Suc (length es)", where 'a = 64]
        unat_of_nat_small [of "Suc (Suc (length es))", where 'a = 64] by (simp del: of_nat_Suc)
  qed
  then have "\<nexists>r. scan_loop env tail (log_text env (es @ [e, e'])) 0 0 [] = Inr r" for tail
    using scan_log [OF assms(1) _ assms(3), of "[]" tail] by auto
  then have "\<exists>err. scan_loop env tail (log_text env (es @ [e, e'])) 0 0 [] = Inl err" for tail
    by (metis sum.exhaust)
  then show ?thesis
    using assms(4-)
    by (auto simp: open_with_durability_def reader_open_def scan_records_def Let_def split: sum.splits prod.splits)
      (metis sum.simps(4))+
qed

lemma failed_flush:
  assumes inv: "writer_inv env log f es" and d: "el_durable log"
    and w: "env_write env (next_event log body now version) = Inr s"
    and w': "env_write env (next_event log body' now' version') = Inr s'"
    and room: "length (log_text env (es @ [next_event log body now version,
      next_event log body' now' version'])) < 2 ^ 64"
  shows "\<exists>log1 f1 log2 f2. log_append env SyncFails body now version log f = (Inl LIo, log1, f1) \<and>
    log_append env NoFault body' now' version' log1 f1 =
      (Inr (next_event log body' now' version'), log2, f2) \<and>
    (\<exists>err. open_with_durability env sid durable (f2\<lparr>lf_locked := False\<rparr>) =
       (Inl err, f2\<lparr>lf_locked := False\<rparr>)) \<and>
    (\<exists>err. reader_open env sid f2 = Inl err)"
proof -
  let ?e = "next_event log body now version" and ?e' = "next_event log body' now' version'"
  let ?es = "es @ [?e, ?e']"
  have wr: "writable env ?es" "lf_bytes f = Some (log_text env es)" "\<not> lf_refused f"
    and rel: "\<not> el_released log" and eo: "el_end_offset log = of_nat (length (log_text env es))"
    using inv w w' by (auto simp: writer_inv_def holds_def)
  note t = record_line(1) [OF w] record_line(1) [OF w']
  define log1 where "log1 = log\<lparr>el_sync_calls := el_sync_calls log + 1\<rparr>"
  define f1 where "f1 = f\<lparr>lf_bytes := Some (log_text env es @ s @ [newline])\<rparr>"
  have a1: "log_append env SyncFails body now version log f = (Inl LIo, log1, f1)"
    using rel w d wr by (simp add: log_append_def write_all_def raw_sync_def Let_def log1_def f1_def)
  have same: "next_event log1 body' now' version' = ?e'" by (simp add: next_event_def log1_def)
  have "length (log_text env es) + Suc (length s') < 2 ^ 64" using room t by simp
  from checked_add_nat [OF this] obtain off where
    off: "checked_add (el_end_offset log) (of_nat (Suc (length s'))) = Some off"
    unfolding eo by blast
  define log2 where "log2 = log1\<lparr>el_sync_calls := el_sync_calls log1 + 1,
    el_index := el_index log @ [el_end_offset log], el_end_offset := off\<rparr>"
  define f2 where "f2 = f1\<lparr>lf_bytes := Some (log_text env ?es), lf_synced := length (log_text env ?es)\<rparr>"
  have a2: "log_append env NoFault body' now' version' log1 f1 = (Inr ?e', log2, f2)"
    using rel w' d off t
    by (simp add: log_append_def same write_all_def raw_sync_def append_record_def index_push_def Let_def)
      (simp add: log1_def f1_def log2_def f2_def t)
  have seq: "ev_sequence ?e = ev_sequence ?e'" by (simp add: next_event_def)
  let ?f = "f2\<lparr>lf_locked := False\<rparr>"
  have f2: "lf_bytes ?f = Some (log_text env ?es)" "\<not> lf_refused ?f" "\<not> lf_locked ?f"
    using wr by (simp_all add: f2_def f1_def)
  note bad = repeated_number [OF wr(1) seq room f2, of sid durable]
  moreover have "reader_open env sid ?f = reader_open env sid f2"
    by (cases f2) (simp add: reader_open_def scan_records_def split: option.splits)
  ultimately show ?thesis using a1 a2 by metis
qed

end

section \<open>The interface, interpreted\<close>

definition sample_log_env :: log_env where
  "sample_log_env = \<lparr>env_write = write_tokens, env_read = read_tokens, env_json = (\<lambda>_. None),
     env_utf8_error = (\<lambda>_. ''invalid utf-8'')\<rparr>"

interpretation sample_log: log_codec sample_log_env id
  by (simp add: log_codec_def sample_log_env_def record_text.event_codec_axioms)

definition empty_file :: log_file where
  "empty_file = \<lparr>lf_bytes = Some [], lf_synced = 0, lf_locked = False, lf_refused = False\<rparr>"

lemma sample_codec: "log_codec sample_log_env id"
  by (rule sample_log.log_codec_axioms)

section \<open>Properties\<close>

text \<open>
  C18: The writer opens a file exactly when every line is closed, every non-empty line is a UTF-8
  record, and the records carry the numbers 1, 2, 3, ...; it then holds the lock, the offset of
  every record and the length of the file. Gaps, repeats, reorderings, unreadable records and an
  unterminated tail are all refused.
\<close>

theorem open_accepts_exactly:
  assumes "\<forall>l \<in> set ls. newline \<notin> set l" "newline \<notin> set t"
    and "length (lines_text ls) < 2 ^ 64" "lf_bytes f = Some (lines_text ls @ t)"
    and "\<not> lf_refused f" "\<not> lf_locked f"
  shows "(\<exists>f'. open_with_durability env sid durable f = (Inr log, f')) \<longleftrightarrow>
    t = [] \<and> recorded env 0 ls \<and>
    log = \<lparr>el_scan_id = sid, el_index = offsets 0 ls, el_end_offset = of_nat (length (lines_text ls)),
           el_durable = durable, el_sync_calls = 0, el_released = False\<rparr>"
proof -
  have "scan_loop env RejectPartial (lines_text ls @ t) 0 0 [] = Inr (ix, pos) \<longleftrightarrow>
      t = [] \<and> recorded env 0 ls \<and> ix = offsets 0 ls \<and> pos = of_nat (length (lines_text ls))" for ix pos
    using scan_loop_exactly [OF assms(1,2), of 0 "[]" env RejectPartial 0 ix pos] assms(3) by simp
  then show ?thesis
    using assms(4,5,6)
    by (cases "scan_loop env RejectPartial (lines_text ls @ t) 0 0 []")
      (auto simp: open_with_durability_def scan_records_def Let_def)
qed

definition first_event :: event where
  "first_event = \<lparr>ev_scan_id = 7, ev_sequence = 1, ev_timestamp = ''t'', ev_engine_version = ''v'',
     ev_body = Progress 1 2 3\<rparr>"

lemma first_event_text: "env_write sample_log_env first_event = Inr (record_text sample_log_env first_event)"
  by (simp add: sample_log_env_def write_tokens_def record_text_def)

theorem open_accepts_exactly_witness:
  "\<exists>f'. open_with_durability sample_log_env 7 True
     (empty_file\<lparr>lf_bytes := Some (lines_text [record_text sample_log_env first_event])\<rparr>) =
     (Inr \<lparr>el_scan_id = 7, el_index = offsets 0 [record_text sample_log_env first_event],
           el_end_offset = of_nat (length (lines_text [record_text sample_log_env first_event])),
           el_durable = True, el_sync_calls = 0, el_released = False\<rparr>, f')"
proof -
  define R where "R = record_text sample_log_env first_event"
  have "length R < 100" unfolding R_def by code_simp
  then have len: "length (lines_text [R]) < 2 ^ 64" by simp
  have r: "newline \<notin> set R" "R \<noteq> []" "decodes sample_log_env R = Some first_event"
    using sample_log.record_line [OF first_event_text] unfolding R_def by simp_all
  have "ev_sequence first_event = of_nat (Suc 0)" by (simp add: first_event_def)
  then have rec: "recorded sample_log_env 0 [R]"
    by (simp only: recorded_simps(1) recorded_simps(3) [OF r(2)] r(3) option.case simp_thms)
  let ?f = "empty_file\<lparr>lf_bytes := Some (lines_text [R])\<rparr>"
  have f: "lf_bytes ?f = Some (lines_text [R] @ [])" "\<not> lf_refused ?f" "\<not> lf_locked ?f"
    by (simp_all add: empty_file_def)
  have ls: "\<forall>l \<in> set [R]. newline \<notin> set l" "newline \<notin> set []" using r(1) by simp_all
  show ?thesis
    unfolding R_def [symmetric]
    using rec by (intro iffD2 [OF open_accepts_exactly [OF ls len f]] conjI refl)
qed

text \<open>
  C17: Appending refines extending the list of events: the new event carries the next number, the
  scan's id and what the caller passed, the file is then exactly the longer list, and a durable
  handle has flushed all of it.
\<close>

theorem append_refines_snoc:
  assumes "log_codec env settle" "writer_inv env log f es"
    and "env_write env (next_event log body now version) = Inr s"
    and "length (log_text env (es @ [next_event log body now version])) < 2 ^ 64"
  shows "\<exists>log' f'. log_append env NoFault body now version log f =
      (Inr (next_event log body now version), log', f') \<and>
    writer_inv env log' f' (es @ [next_event log body now version]) \<and>
    ev_sequence (next_event log body now version) = of_nat (Suc (length es)) \<and>
    last_sequence log' = of_nat (Suc (length es)) \<and>
    lf_synced f' = (if el_durable log then length (log_text env (es @ [next_event log body now version]))
                    else lf_synced f)"
  using assms by (rule log_codec.append_refines)

definition fresh_log :: event_log where
  "fresh_log = \<lparr>el_scan_id = 7, el_index = [], el_end_offset = 0, el_durable = True, el_sync_calls = 0,
     el_released = False\<rparr>"

lemma fresh_inv: "writer_inv sample_log_env fresh_log (empty_file\<lparr>lf_locked := True\<rparr>) []"
  by (simp add: writer_inv_def holds_def fresh_log_def empty_file_def)

lemma fresh_next: "next_event fresh_log (Progress 1 2 3) ''t'' ''v'' = first_event"
  by (simp add: next_event_def fresh_log_def first_event_def next_seq_def last_seq_def sat_add_def)

lemma first_event_short: "length (log_text sample_log_env [first_event]) < 2 ^ 64"
proof -
  have "length (record_text sample_log_env first_event) < 100" by code_simp
  then show ?thesis by simp
qed

theorem append_refines_snoc_witness:
  "\<exists>log' f'. log_append sample_log_env NoFault (Progress 1 2 3) ''t'' ''v'' fresh_log
      (empty_file\<lparr>lf_locked := True\<rparr>) = (Inr first_event, log', f') \<and>
    writer_inv sample_log_env log' f' [first_event] \<and> last_sequence log' = 1"
  using append_refines_snoc [OF sample_codec fresh_inv, of "Progress 1 2 3" "''t''" "''v''"]
    first_event_text first_event_short
  unfolding fresh_next by fastforce

text \<open>
  A writer that agrees with its file reads back exactly the events after any cursor, whatever
  64-bit value the cursor is, up to the rounding of the one floating-point field.
\<close>

theorem read_from_is_drop:
  assumes "log_codec env settle" "writer_inv env log f es"
  shows "log_read_from env log f after = Inr (map (reread settle) (drop (unat after) es))"
  using assms by (rule log_codec.reads)

theorem read_from_is_drop_witness:
  "\<exists>log f. log_read_from sample_log_env log f 0 = Inr [first_event] \<and>
     log_read_from sample_log_env log f 18446744073709551615 = Inr []"
proof -
  obtain log f where "writer_inv sample_log_env log f [first_event]"
    using sample_log.append_refines [OF fresh_inv, of "Progress 1 2 3" "''t''" "''v''"]
      first_event_text first_event_short
    unfolding fresh_next by fastforce
  from read_from_is_drop [OF sample_codec this] show ?thesis
    by (intro exI [of _ log] exI [of _ f]) simp
qed

text \<open>
  C19: A reader takes a snapshot: opened on complete records and an unfinished tail, it counts the
  complete ones, and however the file grows afterwards it answers every cursor with those events
  only, without an error from bytes past them.
\<close>

theorem reader_is_a_snapshot:
  assumes "log_codec env settle"
    and "lf_bytes f = Some (log_text env es @ t)" "newline \<notin> set t" "\<not> lf_refused f"
    and "writable env es" "numbered 0 es" "length (log_text env es) < 2 ^ 64"
    and "lf_bytes f' = Some (log_text env es @ grown)" "\<not> lf_refused f'"
  shows "\<exists>r. reader_open env sid f = Inr r \<and> last_seq (lr_index r) = of_nat (length es) \<and>
    reader_read_from env r f' after = Inr (map (reread settle) (drop (unat after) es))"
  using assms by (rule log_codec.reader_snapshot)

theorem reader_is_a_snapshot_witness:
  "\<exists>r. reader_open sample_log_env 7 (empty_file\<lparr>lf_bytes := Some ''half''\<rparr>) = Inr r \<and>
     reader_read_from sample_log_env r (empty_file\<lparr>lf_bytes := Some ''half a record''\<rparr>) 0 = Inr []"
  using reader_is_a_snapshot [OF sample_codec, of "empty_file\<lparr>lf_bytes := Some ''half''\<rparr>" "[]" "''half''"
      "empty_file\<lparr>lf_bytes := Some ''half a record''\<rparr>" "''half a record''" 7 0]
  by (auto simp: empty_file_def)

text \<open>
  C16: After a crash a reader always opens and reads some first events of the log, at least every
  event that was flushed; a writer either opens on exactly those events and continues their numbers,
  or is refused because a piece of a record follows them, and then changes nothing.
\<close>

theorem crash_keeps_a_prefix:
  assumes "log_codec env settle" "holds env f es"
  shows "\<exists>k r. k \<le> length es \<and>
    (\<forall>j \<le> length es. length (log_text env (take j es)) \<le> lf_synced f \<longrightarrow> j \<le> k) \<and>
    reader_open env sid (crash n f) = Inr r \<and>
    reader_read_from env r (crash n f) 0 = Inr (map (reread settle) (take k es)) \<and>
    (case open_with_durability env sid durable (crash n f) of
       (Inl _, f') \<Rightarrow> lf_bytes f' = lf_bytes (crash n f) \<and> lf_bytes (crash n f) \<noteq> Some (log_text env (take k es))
     | (Inr log, f') \<Rightarrow> lf_bytes f' = Some (log_text env (take k es)) \<and>
         last_sequence log = of_nat k)"
  using assms by (rule log_codec.crash_reads)

theorem crash_keeps_a_prefix_witness:
  "\<exists>r. reader_open sample_log_env 7 (crash 0 empty_file) = Inr r \<and>
     reader_read_from sample_log_env r (crash 0 empty_file) 0 = Inr []"
  using crash_keeps_a_prefix [OF sample_codec, of empty_file "[]" 7 0]
  by (auto simp: holds_def empty_file_def)

text \<open>
  There is one writer. While a handle holds the file, every other open fails with
  \<open>Locked\<close> and leaves the bytes alone; a handle that has released its lock refuses to append and
  changes nothing, so the next writer's numbers stay its own.
\<close>

theorem one_writer:
  assumes "writer_inv env log f es"
  shows "(case open_with_durability env sid durable f of (r, f') \<Rightarrow> r = Inl Locked \<and> f' = f) \<and>
    (case release_writer_lock False log f of
       (r, log', f') \<Rightarrow> r = Inr () \<and> \<not> lf_locked f' \<and> lf_bytes f' = lf_bytes f \<and>
         log_append env fault body now version log' f'' = (Inl Released, log', f'') \<and>
         release_writer_lock fails log' f'' = (Inr (), log', f''))"
  using assms
  by (cases f) (auto simp: writer_inv_def holds_def open_with_durability_def release_writer_lock_def
      log_append_def Let_def)

theorem one_writer_witness:
  "open_with_durability sample_log_env 7 True (empty_file\<lparr>lf_locked := True\<rparr>) =
     (Inl Locked, empty_file\<lparr>lf_locked := True\<rparr>)"
  using one_writer [OF fresh_inv, of 7 True, THEN conjunct1]
  by (cases "open_with_durability sample_log_env 7 True (empty_file\<lparr>lf_locked := True\<rparr>)") simp

text \<open>
  C40: A flush that fails leaves the record in the file but not in the index. A caller that appends
  again with the same handle is told it succeeded, and writes a second record with the same number:
  from then on the file opens neither for writing nor for reading.
\<close>

theorem failed_flush_repeats_a_number:
  assumes "log_codec env settle" "writer_inv env log f es" "el_durable log"
    and "env_write env (next_event log body now version) = Inr s"
    and "env_write env (next_event log body' now' version') = Inr s'"
    and "length (log_text env (es @ [next_event log body now version, next_event log body' now' version']))
      < 2 ^ 64"
  shows "\<exists>log1 f1 log2 f2. log_append env SyncFails body now version log f = (Inl LIo, log1, f1) \<and>
    log_append env NoFault body' now' version' log1 f1 =
      (Inr (next_event log body' now' version'), log2, f2) \<and>
    (\<exists>err. open_with_durability env sid durable (f2\<lparr>lf_locked := False\<rparr>) =
       (Inl err, f2\<lparr>lf_locked := False\<rparr>)) \<and>
    (\<exists>err. reader_open env sid f2 = Inl err)"
  using assms by (rule log_codec.failed_flush)

theorem failed_flush_repeats_a_number_witness:
  "\<exists>log1 f1 log2 f2. log_append sample_log_env SyncFails (Progress 1 2 3) ''t'' ''v'' fresh_log
       (empty_file\<lparr>lf_locked := True\<rparr>) = (Inl LIo, log1, f1) \<and>
     log_append sample_log_env NoFault (Progress 1 2 3) ''t'' ''v'' log1 f1 = (Inr first_event, log2, f2) \<and>
     (\<exists>err. reader_open sample_log_env 7 f2 = Inl err)"
proof -
  have "length (record_text sample_log_env first_event) < 100" by code_simp
  then have "length (log_text sample_log_env ([] @ [first_event, first_event])) < 2 ^ 64" by simp
  then show ?thesis
    using failed_flush_repeats_a_number [OF sample_codec fresh_inv, of "Progress 1 2 3" "''t''" "''v''" _
        "Progress 1 2 3" "''t''" "''v''" _ 7] first_event_text
    unfolding fresh_next by (fastforce simp: fresh_log_def)
qed

end
