(* ===== verification/Durable_Log.thy ===== *)
theory Durable_Log
  imports Evidence_Log
begin

text \<open>
  Group commit, \<open>crates/bathy-engine/src/durable_log.rs\<close>: an event log that flushes after a bounded
  number of appends, after a bounded time, and on every terminal event. Instants are milliseconds.
  The lemmas bound what a crash can lose.
\<close>

section \<open>Operations\<close>

record group_commit_config =
  max_events :: u64
  max_interval :: nat

definition group_commit_config_default :: group_commit_config where
  "group_commit_config_default = \<lparr>max_events = 200, max_interval = 200\<rparr>"

record group_commit_log =
  gc_log :: event_log
  gc_config :: group_commit_config
  gc_pending :: u64
  gc_last_sync :: nat

definition gc_open ::
  "log_env \<Rightarrow> u128 \<Rightarrow> group_commit_config \<Rightarrow> nat \<Rightarrow> log_file \<Rightarrow> (log_error + group_commit_log) \<times> log_file"
where
  "gc_open env sid config now f =
     (case log_open_without_durability_barrier env sid f of
        (Inl e, f') \<Rightarrow> (Inl e, f')
      | (Inr log, f') \<Rightarrow>
          (Inr \<lparr>gc_log = log, gc_config = config, gc_pending = 0, gc_last_sync = now\<rparr>, f'))"

definition sync_now ::
  "write_fault \<Rightarrow> nat \<Rightarrow> group_commit_log \<Rightarrow> log_file \<Rightarrow> (log_error + unit) \<times> group_commit_log \<times> log_file"
where
  "sync_now fault now g f =
     (case log_sync fault (gc_log g) f of
        (Inl e, log, f') \<Rightarrow> (Inl e, g\<lparr>gc_log := log\<rparr>, f')
      | (Inr _, log, f') \<Rightarrow> (Inr (), g\<lparr>gc_log := log, gc_pending := 0, gc_last_sync := now\<rparr>, f'))"

definition gc_release_writer_lock ::
  "write_fault \<Rightarrow> bool \<Rightarrow> nat \<Rightarrow> group_commit_log \<Rightarrow> log_file \<Rightarrow> (log_error + unit) \<times> group_commit_log \<times> log_file"
where
  "gc_release_writer_lock fault unlock_fails now g f =
     (case (if gc_pending g > 0 then sync_now fault now g f else (Inr (), g, f)) of
        (Inl e, g', f') \<Rightarrow> (Inl e, g', f')
      | (Inr _, g', f') \<Rightarrow>
          (case release_writer_lock unlock_fails (gc_log g') f' of
             (r, log, f'') \<Rightarrow> (r, g'\<lparr>gc_log := log\<rparr>, f'')))"

text \<open>
  \<open>append\<close>, with the answers of the operating system to the write and to the flush; \<open>now\<close> is the
  instant after the write. The counter's overflow is a panic.
\<close>

definition gc_append ::
  "log_env \<Rightarrow> write_fault \<Rightarrow> write_fault \<Rightarrow> event_body \<Rightarrow> string \<Rightarrow> string \<Rightarrow> nat \<Rightarrow> group_commit_log \<Rightarrow> log_file
     \<Rightarrow> (log_error + event) rust \<times> group_commit_log \<times> log_file"
where
  "gc_append env write_answer sync_answer body timestamp version now g f =
     (let terminal = is_terminal body in
      (case log_append env write_answer body timestamp version (gc_log g) f of
         (Inl e, log, f') \<Rightarrow> (Ret (Inl e), g\<lparr>gc_log := log\<rparr>, f')
       | (Inr ev, log, f') \<Rightarrow>
           if gc_pending g = - 1 then (Panic, g\<lparr>gc_log := log\<rparr>, f')
           else
             let g' = g\<lparr>gc_log := log, gc_pending := gc_pending g + 1\<rparr> in
             if terminal \<or> gc_pending g' \<ge> max_events (gc_config g')
                \<or> now - gc_last_sync g' \<ge> max_interval (gc_config g') then
               (case sync_now sync_answer now g' f' of
                  (Inl e, g'', f'') \<Rightarrow> (Ret (Inl e), g'', f'')
                | (Inr _, g'', f'') \<Rightarrow> (Ret (Inr ev), g'', f''))
             else (Ret (Inr ev), g', f')))"

definition force_sync ::
  "write_fault \<Rightarrow> nat \<Rightarrow> group_commit_log \<Rightarrow> log_file \<Rightarrow> (log_error + unit) \<times> group_commit_log \<times> log_file"
where
  "force_sync fault now g f = sync_now fault now g f"

text \<open>A run of appends the operating system all carried out; it stops at the first error.\<close>

record append_call =
  ac_body :: event_body
  ac_timestamp :: string
  ac_version :: string
  ac_now :: nat

fun gc_run ::
  "log_env \<Rightarrow> append_call list \<Rightarrow> group_commit_log \<Rightarrow> log_file
     \<Rightarrow> (log_error + event list) rust \<times> group_commit_log \<times> log_file"
where
  "gc_run env [] g f = (Ret (Inr []), g, f)"
| "gc_run env (c # cs) g f =
     (case gc_append env NoFault NoFault (ac_body c) (ac_timestamp c) (ac_version c) (ac_now c) g f of
        (Ret (Inr ev), g', f') \<Rightarrow>
          (case gc_run env cs g' f' of
             (Ret (Inr evs), g'', f'') \<Rightarrow> (Ret (Inr (ev # evs)), g'', f'')
           | r \<Rightarrow> r)
      | (Ret (Inl e), g', f') \<Rightarrow> (Ret (Inl e), g', f')
      | (Panic, g', f') \<Rightarrow> (Panic, g', f'))"

section \<open>What is flushed\<close>

text \<open>
  The handle and its file agree, all but the last \<open>gc_pending\<close> events are flushed, and fewer events
  than the configured number are pending.
\<close>

definition gc_inv :: "log_env \<Rightarrow> group_commit_log \<Rightarrow> log_file \<Rightarrow> event list \<Rightarrow> bool" where
  "gc_inv env g f es \<longleftrightarrow>
     writer_inv env (gc_log g) f es \<and> \<not> el_durable (gc_log g) \<and>
     unat (gc_pending g) \<le> length es \<and>
     length (log_text env (take (length es - unat (gc_pending g)) es)) \<le> lf_synced f \<and>
     unat (gc_pending g) < max 1 (unat (max_events (gc_config g)))"

lemma append_success:
  assumes "log_append env NoFault body now version log f = (Inr e, log', f')"
  shows "e = next_event log body now version \<and> (\<exists>s. env_write env e = Inr s)"
proof (cases "env_write env (next_event log body now version)")
  case (Inl m)
  then show ?thesis using assms by (simp add: log_append_def Let_def split: if_splits)
next
  case (Inr s)
  then have "\<exists>log1 n. append_record (next_event log body now version) n log1 = (Inr e, log')"
    using assms
    by (auto simp: log_append_def write_all_def raw_sync_def Let_def split: if_splits prod.splits)
  then have "e = next_event log body now version"
    by (auto simp: append_record_def Let_def split: option.splits)
  then show ?thesis using Inr by blast
qed

lemma unat_succ:
  fixes w :: "'a::len word"
  assumes "w \<noteq> - 1"
  shows "unat (w + 1) = Suc (unat w)"
proof -
  have "unat w \<noteq> 2 ^ LENGTH('a) - 1" using assms unat_max_word [where 'a = 'a] by (metis word_unat_eq_iff)
  then have "unat w + 1 < 2 ^ LENGTH('a)" using unat_bounded [of w] by arith
  then show ?thesis by (simp add: unat_word_ariths)
qed

lemma log_text_mono: "length (log_text env (take k es)) \<le> length (log_text env es)"
  by (metis append_take_drop_id le_add1 length_append log_text_simps(2))

lemma sync_now_ok:
  assumes "writer_inv env (gc_log g) f es" "\<not> el_durable (gc_log g)" "sync_now NoFault now g f = (r, g', f')"
  shows "r = Inr () \<and> gc_inv env g' f' es \<and> gc_pending g' = 0 \<and> gc_last_sync g' = now \<and>
    gc_config g' = gc_config g \<and> lf_synced f' = length (log_text env es)"
  using assms
  by (auto simp: sync_now_def log_sync_def raw_sync_def Let_def gc_inv_def writer_inv_def holds_def)

context log_codec
begin

lemma gc_append_ok:
  assumes inv: "gc_inv env g f es"
    and run: "gc_append env NoFault NoFault body timestamp version now g f = (Ret (Inr e), g', f')"
    and room: "length (log_text env (es @ [e])) < 2 ^ 64"
  shows "gc_inv env g' f' (es @ [e]) \<and> gc_config g' = gc_config g \<and> ev_body e = body \<and>
    (is_terminal body \<longrightarrow> gc_pending g' = 0) \<and>
    (gc_pending g' \<noteq> 0 \<longrightarrow> now - gc_last_sync g' < max_interval (gc_config g'))"
proof -
  have wi: "writer_inv env (gc_log g) f es" and nd: "\<not> el_durable (gc_log g)"
    and pend: "unat (gc_pending g) \<le> length es"
    "length (log_text env (take (length es - unat (gc_pending g)) es)) \<le> lf_synced f"
    "unat (gc_pending g) < max 1 (unat (max_events (gc_config g)))"
    using inv by (simp_all add: gc_inv_def)
  obtain log f1 where a: "log_append env NoFault body timestamp version (gc_log g) f = (Inr e, log, f1)"
    using run by (auto simp: gc_append_def Let_def split: prod.splits sum.splits if_splits)
  obtain s where e: "e = next_event (gc_log g) body timestamp version" and w: "env_write env e = Inr s"
    using append_success [OF a] by blast
  from append_extends [OF wi e w room] a nd
  have wi1: "writer_inv env log f1 (es @ [e])" "\<not> el_durable log" "lf_synced f1 = lf_synced f" by auto
  define g1 where "g1 = g\<lparr>gc_log := log, gc_pending := gc_pending g + 1\<rparr>"
  have body: "ev_body e = body" by (simp add: e next_event_def)
  have np: "gc_pending g \<noteq> - 1" using run a by (auto simp: gc_append_def Let_def)
  then have p1: "unat (gc_pending g1) = Suc (unat (gc_pending g))"
    by (simp add: g1_def unat_succ)
  let ?trigger = "is_terminal body \<or> gc_pending g1 \<ge> max_events (gc_config g1)
    \<or> now - gc_last_sync g1 \<ge> max_interval (gc_config g1)"
  have eq: "gc_append env NoFault NoFault body timestamp version now g f =
    (if ?trigger then
       (case sync_now NoFault now g1 f1 of
          (Inl e, g'', f'') \<Rightarrow> (Ret (Inl e), g'', f'')
        | (Inr _, g'', f'') \<Rightarrow> (Ret (Inr e), g'', f''))
     else (Ret (Inr e), g1, f1))"
    using a np by (simp add: gc_append_def Let_def g1_def)
  show ?thesis
  proof (cases ?trigger)
    case True
    then have sync: "sync_now NoFault now g1 f1 = (Inr (), g', f')"
      using run unfolding eq by (auto split: prod.splits sum.splits)
    have "gc_log g1 = log" "gc_config g1 = gc_config g" by (simp_all add: g1_def)
    with sync_now_ok [OF _ _ sync, of env "es @ [e]"] wi1(1,2)
    have "gc_inv env g' f' (es @ [e]) \<and> gc_config g' = gc_config g \<and> gc_pending g' = 0" by metis
    then show ?thesis using body by blast
  next
    case False
    then have g': "g' = g1" "f' = f1"
      using run unfolding eq by auto
    have "take (length (es @ [e]) - Suc (unat (gc_pending g))) (es @ [e]) = take (length es - unat (gc_pending g)) es"
      using pend(1) by simp
    then have "length (log_text env (take (length (es @ [e]) - unat (gc_pending g1)) (es @ [e]))) \<le> lf_synced f1"
      using pend(2) by (simp only: p1 wi1(3))
    moreover have "unat (gc_pending g1) < unat (max_events (gc_config g1))"
      using False by (simp only: not_le word_less_nat_alt de_Morgan_disj)
    moreover have "gc_log g1 = log" by (simp add: g1_def)
    ultimately have "gc_inv env g1 f1 (es @ [e])"
      using wi1(1,2) pend(1) p1 by (simp add: gc_inv_def)
    then show ?thesis using g' False body by (auto simp: g1_def)
  qed
qed

lemma gc_run_ok:
  "gc_inv env g f es \<Longrightarrow> gc_run env cs g f = (Ret (Inr evs), g', f') \<Longrightarrow>
    length (log_text env (es @ evs)) < 2 ^ 64 \<Longrightarrow>
    gc_inv env g' f' (es @ evs) \<and> gc_config g' = gc_config g \<and> map ev_body evs = map ac_body cs \<and>
    (cs \<noteq> [] \<and> is_terminal (ac_body (last cs)) \<longrightarrow> gc_pending g' = 0)"
proof (induction cs arbitrary: g f es evs)
  case (Cons c cs)
  obtain ev g1 f1 where a: "gc_append env NoFault NoFault (ac_body c) (ac_timestamp c) (ac_version c) (ac_now c) g f
      = (Ret (Inr ev), g1, f1)"
    using Cons.prems(2) by (auto split: prod.splits rust.splits sum.splits)
  obtain rest where r: "gc_run env cs g1 f1 = (Ret (Inr rest), g', f')" and evs: "evs = ev # rest"
    using Cons.prems(2) a by (auto split: prod.splits rust.splits sum.splits)
  have "length (log_text env (es @ [ev])) < 2 ^ 64" using Cons.prems(3) evs by simp
  note one = gc_append_ok [OF Cons.prems(1) a this]
  have "gc_inv env g1 f1 (es @ [ev])" using one by blast
  moreover have "length (log_text env ((es @ [ev]) @ rest)) < 2 ^ 64" using Cons.prems(3) evs by simp
  ultimately have tail: "gc_inv env g' f' ((es @ [ev]) @ rest) \<and> gc_config g' = gc_config g1 \<and>
      map ev_body rest = map ac_body cs \<and> (cs \<noteq> [] \<and> is_terminal (ac_body (last cs)) \<longrightarrow> gc_pending g' = 0)"
    using Cons.IH r by blast
  show ?case
  proof (cases "cs = []")
    case True
    then have "g' = g1" using r by simp
    then show ?thesis using True tail one evs by auto
  next
    case False
    then show ?thesis using tail one evs by simp
  qed
qed simp

lemma run_crash:
  assumes inv: "gc_inv env g f es" and run: "gc_run env cs g f = (Ret (Inr evs), g', f')"
    and room: "length (log_text env (es @ evs)) < 2 ^ 64"
  shows "\<exists>k r. reader_open env sid (crash n f') = Inr r \<and> k \<le> length (es @ evs) \<and>
    reader_read_from env r (crash n f') 0 = Inr (map (reread settle) (take k (es @ evs))) \<and>
    length (es @ evs) - k < max 1 (unat (max_events (gc_config g))) \<and>
    (cs \<noteq> [] \<and> is_terminal (ac_body (last cs)) \<longrightarrow> k = length (es @ evs))"
proof -
  note ok = gc_run_ok [OF inv run room]
  let ?p = "unat (gc_pending g')"
  have h: "holds env f' (es @ evs)" and p: "?p \<le> length (es @ evs)"
    "length (log_text env (take (length (es @ evs) - ?p) (es @ evs))) \<le> lf_synced f'"
    "?p < max 1 (unat (max_events (gc_config g)))"
    using ok unfolding gc_inv_def writer_inv_def by metis+
  obtain k r where k: "k \<le> length (es @ evs)"
    "\<forall>j \<le> length (es @ evs). length (log_text env (take j (es @ evs))) \<le> lf_synced f' \<longrightarrow> j \<le> k"
    "reader_open env sid (crash n f') = Inr r"
    "reader_read_from env r (crash n f') 0 = Inr (map (reread settle) (take k (es @ evs)))"
    using crash_reads [OF h, of sid n] by blast
  have "length (es @ evs) - ?p \<le> k" using k(2) p(2) by (meson diff_le_self)
  then have "length (es @ evs) - k < max 1 (unat (max_events (gc_config g)))"
    and "?p = 0 \<longrightarrow> k = length (es @ evs)"
    using p(3) k(1) by linarith+
  then show ?thesis using k ok by (metis unat_0)
qed

end

lemma gc_open_inv:
  assumes "log_codec env settle" "holds env f es" "\<not> lf_locked f" "lf_synced f = length (log_text env es)"
  shows "\<exists>g f'. gc_open env sid config now f = (Inr g, f') \<and> gc_inv env g f' es \<and> gc_config g = config"
  using log_codec.open_holds [OF assms(1,2,3), of sid False] assms(4)
  by (auto simp: gc_open_def log_open_without_durability_barrier_def gc_inv_def)

lemma gc_release_flushes:
  assumes "gc_inv env g f es" "gc_release_writer_lock NoFault False now g f = (Inr (), g', f')"
  shows "lf_synced f' = length (log_text env es) \<and> \<not> lf_locked f' \<and> el_released (gc_log g')"
proof (cases "gc_pending g > 0")
  case True
  have "writer_inv env (gc_log g) f es" "\<not> el_durable (gc_log g)" using assms(1) by (auto simp: gc_inv_def)
  then obtain g1 f1 where s: "sync_now NoFault now g f = (Inr (), g1, f1)" "gc_inv env g1 f1 es"
    "lf_synced f1 = length (log_text env es)"
    using sync_now_ok by (metis prod.exhaust)
  then show ?thesis
    using assms(2) True
    by (auto simp: gc_release_writer_lock_def release_writer_lock_def gc_inv_def writer_inv_def
        split: if_splits)
next
  case False
  then have "gc_pending g = 0" by (simp add: word_gt_0)
  then show ?thesis
    using assms(2) assms(1)
    by (auto simp: gc_release_writer_lock_def release_writer_lock_def gc_inv_def writer_inv_def holds_def
        split: if_splits)
qed

section \<open>Properties\<close>

text \<open>
  C20: Group commit bounds what a crash loses. After any run of appends, whenever the machine stops,
  a reader opens the log and reads a prefix of what was appended, missing fewer events than the
  configured batch; and once a scan's terminal event has been appended nothing is missing.
\<close>

theorem group_commit_bounds_loss:
  assumes "log_codec env settle" "gc_inv env g f es" "gc_run env cs g f = (Ret (Inr evs), g', f')"
    and "length (log_text env (es @ evs)) < 2 ^ 64"
  shows "\<exists>k r. reader_open env sid (crash n f') = Inr r \<and> k \<le> length (es @ evs) \<and>
    reader_read_from env r (crash n f') 0 = Inr (map (reread settle) (take k (es @ evs))) \<and>
    length (es @ evs) - k < max 1 (unat (max_events (gc_config g))) \<and>
    (cs \<noteq> [] \<and> is_terminal (ac_body (last cs)) \<longrightarrow> k = length (es @ evs))"
  using assms by (rule log_codec.run_crash)

definition sample_group :: group_commit_log where
  "sample_group = \<lparr>gc_log = fresh_log\<lparr>el_durable := False\<rparr>, gc_config = group_commit_config_default,
     gc_pending = 0, gc_last_sync = 0\<rparr>"

definition sample_calls :: "append_call list" where
  "sample_calls = [\<lparr>ac_body = ScanCompleted 1 2 3, ac_timestamp = ''t'', ac_version = ''v'', ac_now = 1\<rparr>]"

theorem group_commit_bounds_loss_witness:
  "\<exists>f' e r. snd (snd (gc_run sample_log_env sample_calls sample_group (empty_file\<lparr>lf_locked := True\<rparr>))) = f' \<and>
     reader_open sample_log_env 7 (crash 0 f') = Inr r \<and>
     reader_read_from sample_log_env r (crash 0 f') 0 = Inr [e] \<and> ev_body e = ScanCompleted 1 2 3"
proof -
  let ?f = "empty_file\<lparr>lf_locked := True\<rparr>"
  have inv: "gc_inv sample_log_env sample_group ?f []"
    using fresh_inv by (simp add: gc_inv_def sample_group_def writer_inv_def holds_def group_commit_config_default_def)
  define log where "log = fresh_log\<lparr>el_durable := False\<rparr>"
  define e0 where "e0 = next_event log (ScanCompleted 1 2 3) ''t'' ''v''"
  have wi: "writer_inv sample_log_env log ?f []" using inv by (simp add: gc_inv_def sample_group_def log_def)
  have "e0 = first_event\<lparr>ev_body := ScanCompleted 1 2 3\<rparr>"
    by (simp add: e0_def log_def next_event_def first_event_def fresh_log_def next_seq_def last_seq_def sat_add_def)
  then have "length (record_text sample_log_env e0) < 100" by (simp only:) code_simp
  then have room: "length (log_text sample_log_env ([] @ [e0])) < 2 ^ 64" by simp
  have w: "env_write sample_log_env e0 = Inr (tokens_text (put event_value_codec e0))"
    by (simp add: sample_log_env_def write_tokens_def)
  obtain log1 f1 where a: "log_append sample_log_env NoFault (ScanCompleted 1 2 3) ''t'' ''v'' log ?f = (Inr e0, log1, f1)"
    using sample_log.append_extends [OF wi e0_def w room] by blast
  obtain g' f' where run: "gc_run sample_log_env sample_calls sample_group ?f = (Ret (Inr [e0]), g', f')"
    using a by (simp add: sample_calls_def gc_append_def sample_group_def log_def [symmetric]
        sync_now_def log_sync_def raw_sync_def Let_def)
  define evs where "evs = [e0]"
  note run = run [folded evs_def] and len = room [folded evs_def]
  have bodies: "map ev_body evs = [ScanCompleted 1 2 3]"
    using sample_log.gc_run_ok [OF inv run len] by (simp add: sample_calls_def)
  then obtain e where e: "evs = [e]" "ev_body e = ScanCompleted 1 2 3" by auto
  from group_commit_bounds_loss [OF sample_codec inv run len, of 7 0] obtain r where
    "reader_open sample_log_env 7 (crash 0 f') = Inr r"
    "reader_read_from sample_log_env r (crash 0 f') 0 = Inr evs"
    by (auto simp: sample_calls_def e)
  then show ?thesis using run e by auto
qed

end
