(* ===== verification/Evidence_Store.thy ===== *)
theory Evidence_Store
  imports Canonical
begin

text \<open>
  The content-addressed evidence store, \<open>crates/bathy-evidence/src/store.rs\<close>. A file system is
  what its paths hold now, with a mark for flushed contents, what the directories hold for
  certain after a crash, and the directories themselves, each with a mark for an entry flushed in its
  parent. \<open>put\<close> is modelled system call by system call, so that several writers can
  interleave; the hash is a parameter. The lemmas show that a blob is only ever replaced by complete
  contents with the same digest, and that what a durable \<open>put\<close> has returned is there after a crash
  if its fan-out directories are: \<open>put\<close> makes them and flushes the innermost one, but never the entries of
  the new directories in their parents.
\<close>

section \<open>Paths\<close>

text \<open>A path is its directory, below the store's root, and a file name.\<close>

type_synonym path = "string list \<times> string"

datatype evidence_error = EIo | ENotFound digest | ECorrupt digest

definition blob_hex :: "digest \<Rightarrow> string" where
  "blob_hex d = concat (map hex02 (digest_bytes d))"

text \<open>The first two bytes name the directories; a digest has 32, and the pattern of the source is total.\<close>

fun blob_dir :: "digest \<Rightarrow> string list" where
  "blob_dir (Digest (first # second # rest)) = [''blobs'', hex02 first, hex02 second]"
| "blob_dir _ = [''blobs'']"

definition blob_path :: "digest \<Rightarrow> path" where
  "blob_path d = (blob_dir d, blob_hex d)"

definition tmp_path :: "string list \<Rightarrow> nat \<Rightarrow> u64 \<Rightarrow> path" where
  "tmp_path parent pid seq = (parent, ''.tmp-'' @ show_nat pid @ ''-'' @ show_nat (unat seq))"

section \<open>The file system\<close>

record disk =
  fs_now :: "path \<Rightarrow> (string \<times> bool) option" \<comment> \<open>contents, and whether they are flushed\<close>
  fs_safe :: "path \<Rightarrow> string option" \<comment> \<open>flushed contents under an entry flushed in the path's directory\<close>
  fs_dirs :: "string list \<Rightarrow> bool" \<comment> \<open>the directories there are; the store's root is \<open>[]\<close>\<close>
  fs_dirs_safe :: "string list \<Rightarrow> bool" \<comment> \<open>those whose entry is flushed in their parent\<close>

text \<open>A store's root on the disk, and nothing in it.\<close>

definition empty_disk :: disk where
  "empty_disk = \<lparr>fs_now = Map.empty, fs_safe = Map.empty, fs_dirs = (\<lambda>x. x = []), fs_dirs_safe = (\<lambda>x. x = [])\<rparr>"

text \<open>\<open>create_dir_all\<close> makes what is missing of a directory and its parents, and flushes nothing.\<close>

definition fs_create_dir_all :: "string list \<Rightarrow> disk \<Rightarrow> disk" where
  "fs_create_dir_all dir fs = fs\<lparr>fs_dirs := (\<lambda>x. fs_dirs fs x \<or> take (length x) dir = x)\<rparr>"

definition fs_create :: "path \<Rightarrow> disk \<Rightarrow> disk" where
  "fs_create p fs = fs\<lparr>fs_now := (fs_now fs)(p \<mapsto> ([], False))\<rparr>"

definition fs_write :: "path \<Rightarrow> string \<Rightarrow> disk \<Rightarrow> disk" where
  "fs_write p bytes fs = fs\<lparr>fs_now := (fs_now fs)(p \<mapsto> (bytes, False))\<rparr>"

definition fs_sync_all :: "path \<Rightarrow> disk \<Rightarrow> disk" where
  "fs_sync_all p fs = fs\<lparr>fs_now := (fs_now fs)(p := map_option (\<lambda>(c, _). (c, True)) (fs_now fs p))\<rparr>"

definition fs_rename :: "path \<Rightarrow> path \<Rightarrow> disk \<Rightarrow> disk" where
  "fs_rename p q fs = fs\<lparr>fs_now := (fs_now fs)(q := fs_now fs p, p := None)\<rparr>"

text \<open>Flushing a directory flushes the entries in it, of files and of directories, not its own.\<close>

definition fsync_dir :: "string list \<Rightarrow> disk \<Rightarrow> disk" where
  "fsync_dir dir fs =
     fs\<lparr>fs_safe := (\<lambda>p. if fst p \<noteq> dir then fs_safe fs p
          else (case fs_now fs p of Some (c, True) \<Rightarrow> Some c | _ \<Rightarrow> None)),
        fs_dirs_safe := (\<lambda>x. if x \<noteq> [] \<and> butlast x = dir then fs_dirs fs x else fs_dirs_safe fs x)\<rparr>"

text \<open>The entry of one directory, written back by the kernel in its own time.\<close>

definition settle_entry :: "string list \<Rightarrow> disk \<Rightarrow> disk" where
  "settle_entry x fs = fs\<lparr>fs_dirs_safe := (fs_dirs_safe fs)(x := fs_dirs fs x)\<rparr>"

text \<open>A directory that a crash cannot take: its entry is flushed and so are those of its parents.\<close>

definition lasting :: "disk \<Rightarrow> string list \<Rightarrow> bool" where
  "lasting fs dir = list_all (\<lambda>n. fs_dirs_safe fs (take n dir)) [0..<Suc (length dir)]"

lemma lasting_iff: "lasting fs dir \<longleftrightarrow> (\<forall>n \<le> length dir. fs_dirs_safe fs (take n dir))"
  unfolding lasting_def list_all_iff by (auto simp del: upt_Suc)

text \<open>
  What a path may hold after a crash that left the directories \<open>D\<close>. Nothing, if its directory is not one
  of them; else flushed contents are there or the directory still has its earlier entry, and contents never
  flushed may be anything.
\<close>

definition survives :: "(string list \<Rightarrow> bool) \<Rightarrow> disk \<Rightarrow> path \<Rightarrow> string option \<Rightarrow> bool" where
  "survives D fs p r =
     (if \<not> D (fst p) then r = None
      else (case fs_now fs p of
        Some (c, True) \<Rightarrow> r = Some c \<or> r = fs_safe fs p
      | Some (c, False) \<Rightarrow> True
      | None \<Rightarrow> r = None \<or> r = fs_safe fs p))"

text \<open>A crash leaves the lasting directories and any of the others, a directory only in its parent, and the files \<open>r\<close>.\<close>

definition crash_leaves :: "disk \<Rightarrow> (string list \<Rightarrow> bool) \<Rightarrow> (path \<Rightarrow> string option) \<Rightarrow> bool" where
  "crash_leaves fs D r \<longleftrightarrow>
     (\<forall>dir. D dir \<longrightarrow> fs_dirs fs dir \<and> (dir = [] \<or> D (butlast dir))) \<and>
     (\<forall>dir. lasting fs dir \<longrightarrow> D dir) \<and> (\<forall>p. survives D fs p (r p))"

section \<open>Operations\<close>

record store =
  st_durable :: bool

text \<open>What the operating system answers to a system call: \<open>PartlyWritten\<close> an error after a part of it was done.\<close>

datatype answer = Done | Refused | PartlyWritten nat

definition mkdir_all :: "answer \<Rightarrow> string list \<Rightarrow> disk \<Rightarrow> disk" where
  "mkdir_all a dir fs =
     (case a of Done \<Rightarrow> fs_create_dir_all dir fs | Refused \<Rightarrow> fs | PartlyWritten k \<Rightarrow> fs_create_dir_all (take k dir) fs)"

definition open_store :: "answer \<Rightarrow> bool \<Rightarrow> disk \<Rightarrow> (evidence_error + store) \<times> disk" where
  "open_store a durable fs = (if a = Done then Inr \<lparr>st_durable = durable\<rparr> else Inl EIo, mkdir_all a [''blobs''] fs)"

text \<open>Where a call of \<open>put\<close> is.\<close>

datatype stage = Begin | DirMade | TmpCreated | TmpWritten | TmpSynced | Renamed | Finished | Failed

record writer =
  wr_bytes :: string
  wr_seq :: u64
  wr_stage :: stage

definition put_step ::
  "(string \<Rightarrow> digest) \<Rightarrow> nat \<Rightarrow> store \<Rightarrow> answer \<Rightarrow> writer \<Rightarrow> disk \<Rightarrow> writer \<times> disk"
where
  "put_step hash pid st a w fs =
     (let d = hash (wr_bytes w); parent = blob_dir d; path = blob_path d; tmp = tmp_path parent pid (wr_seq w)
      in (case wr_stage w of
        Begin \<Rightarrow> (w\<lparr>wr_stage := (if a = Done then DirMade else Failed)\<rparr>, mkdir_all a parent fs)
      | DirMade \<Rightarrow>
          if a = Done then (w\<lparr>wr_stage := TmpCreated\<rparr>, fs_create tmp fs) else (w\<lparr>wr_stage := Failed\<rparr>, fs)
      | TmpCreated \<Rightarrow>
          (case a of
             Done \<Rightarrow> (w\<lparr>wr_stage := TmpWritten\<rparr>, fs_write tmp (wr_bytes w) fs)
           | Refused \<Rightarrow> (w\<lparr>wr_stage := Failed\<rparr>, fs)
           | PartlyWritten k \<Rightarrow> (w\<lparr>wr_stage := Failed\<rparr>, fs_write tmp (take k (wr_bytes w)) fs))
      | TmpWritten \<Rightarrow>
          if \<not> st_durable st then (w\<lparr>wr_stage := TmpSynced\<rparr>, fs)
          else if a = Done then (w\<lparr>wr_stage := TmpSynced\<rparr>, fs_sync_all tmp fs)
          else (w\<lparr>wr_stage := Failed\<rparr>, fs)
      | TmpSynced \<Rightarrow>
          if a = Done then (w\<lparr>wr_stage := Renamed\<rparr>, fs_rename tmp path fs) else (w\<lparr>wr_stage := Failed\<rparr>, fs)
      | Renamed \<Rightarrow>
          if \<not> st_durable st then (w\<lparr>wr_stage := Finished\<rparr>, fs)
          else if a = Done then (w\<lparr>wr_stage := Finished\<rparr>, fsync_dir parent fs)
          else (w\<lparr>wr_stage := Failed\<rparr>, fs)
      | Finished \<Rightarrow> (w, fs)
      | Failed \<Rightarrow> (w, fs)))"

text \<open>A call that runs alone: one step per answer, at most six.\<close>

fun put_run :: "(string \<Rightarrow> digest) \<Rightarrow> nat \<Rightarrow> store \<Rightarrow> answer list \<Rightarrow> writer \<Rightarrow> disk \<Rightarrow> writer \<times> disk" where
  "put_run hash pid st [] w fs = (w, fs)"
| "put_run hash pid st (a # as) w fs =
     (case put_step hash pid st a w fs of (w', fs') \<Rightarrow> put_run hash pid st as w' fs')"

definition put_result :: "(string \<Rightarrow> digest) \<Rightarrow> writer \<Rightarrow> evidence_error + digest" where
  "put_result hash w = (if wr_stage w = Finished then Inr (hash (wr_bytes w)) else Inl EIo)"

definition put ::
  "(string \<Rightarrow> digest) \<Rightarrow> nat \<Rightarrow> u64 \<Rightarrow> store \<Rightarrow> answer list \<Rightarrow> string \<Rightarrow> disk \<Rightarrow> (evidence_error + digest) \<times> disk"
where
  "put hash pid seq st answers bytes fs =
     (case put_run hash pid st (take 6 answers) \<lparr>wr_bytes = bytes, wr_seq = seq, wr_stage = Begin\<rparr> fs of
        (w, fs') \<Rightarrow> (put_result hash w, fs'))"

definition put_capped ::
  "(string \<Rightarrow> digest) \<Rightarrow> nat \<Rightarrow> u64 \<Rightarrow> store \<Rightarrow> answer list \<Rightarrow> string \<Rightarrow> nat \<Rightarrow> disk
     \<Rightarrow> (evidence_error + digest \<times> bool) \<times> disk"
where
  "put_capped hash pid seq st answers bytes cap fs =
     (let truncated = length bytes > cap; slice = (if truncated then take cap bytes else bytes) in
      (case put hash pid seq st answers slice fs of
         (Inl e, fs') \<Rightarrow> (Inl e, fs')
       | (Inr d, fs') \<Rightarrow> (Inr (d, truncated), fs')))"

definition contains :: "digest \<Rightarrow> disk \<Rightarrow> bool" where
  "contains d fs = (fs_now fs (blob_path d) \<noteq> None)"

text \<open>\<open>get\<close>, on what the path holds; \<open>refused\<close> is an I/O error other than a missing file.\<close>

definition get_bytes :: "(string \<Rightarrow> digest) \<Rightarrow> bool \<Rightarrow> digest \<Rightarrow> string option \<Rightarrow> evidence_error + string" where
  "get_bytes hash refused d r =
     (if refused then Inl EIo
      else (case r of
        None \<Rightarrow> Inl (ENotFound d)
      | Some bytes \<Rightarrow> if hash bytes \<noteq> d then Inl (ECorrupt d) else Inr bytes))"

definition get :: "(string \<Rightarrow> digest) \<Rightarrow> bool \<Rightarrow> digest \<Rightarrow> disk \<Rightarrow> evidence_error + string" where
  "get hash refused d fs = get_bytes hash refused d (map_option fst (fs_now fs (blob_path d)))"

section \<open>Several writers\<close>

record system =
  sy_disk :: disk
  sy_seq :: u64 \<comment> \<open>\<open>TMP_SEQ\<close>, shared by every call of the process\<close>
  sy_writers :: "writer list"

inductive sys_step :: "(string \<Rightarrow> digest) \<Rightarrow> nat \<Rightarrow> store \<Rightarrow> system \<Rightarrow> system \<Rightarrow> bool"
  for hash pid st where
  begin_put: "length (sy_writers s) < 2 ^ 64 \<Longrightarrow>
     sys_step hash pid st s
       (s\<lparr>sy_seq := sy_seq s + 1,
          sy_writers := sy_writers s @ [\<lparr>wr_bytes = bytes, wr_seq = sy_seq s, wr_stage = Begin\<rparr>]\<rparr>)"
| one_call: "i < length (sy_writers s) \<Longrightarrow> put_step hash pid st a (sy_writers s ! i) (sy_disk s) = (w, fs) \<Longrightarrow>
     sys_step hash pid st s (s\<lparr>sy_disk := fs, sy_writers := (sy_writers s)[i := w]\<rparr>)"
| write_back: "fs = fsync_dir x (sy_disk s) \<or> fs = settle_entry x (sy_disk s) \<Longrightarrow> sys_step hash pid st s (s\<lparr>sy_disk := fs\<rparr>)"

definition blobs_ok :: "(string \<Rightarrow> digest) \<Rightarrow> disk \<Rightarrow> bool" where
  "blobs_ok hash fs \<longleftrightarrow>
     (\<forall>d c fl. fs_now fs (blob_path d) = Some (c, fl) \<longrightarrow> fl \<and> hash c = d) \<and>
     (\<forall>d c. fs_safe fs (blob_path d) = Some c \<longrightarrow> hash c = d)"

text \<open>A stored digest: its blob is there, with its contents and its entry flushed.\<close>

definition stored :: "disk \<Rightarrow> digest \<Rightarrow> bool" where
  "stored fs d \<longleftrightarrow> fs_now fs (blob_path d) \<noteq> None \<and> fs_safe fs (blob_path d) \<noteq> None"

definition tmp_of :: "(string \<Rightarrow> digest) \<Rightarrow> nat \<Rightarrow> writer \<Rightarrow> path" where
  "tmp_of hash pid w = tmp_path (blob_dir (hash (wr_bytes w))) pid (wr_seq w)"

definition writer_ok :: "(string \<Rightarrow> digest) \<Rightarrow> nat \<Rightarrow> disk \<Rightarrow> writer \<Rightarrow> bool" where
  "writer_ok hash pid fs w =
     (case wr_stage w of
        TmpWritten \<Rightarrow> (\<exists>fl. fs_now fs (tmp_of hash pid w) = Some (wr_bytes w, fl))
      | TmpSynced \<Rightarrow> fs_now fs (tmp_of hash pid w) = Some (wr_bytes w, True)
      | Renamed \<Rightarrow> fs_now fs (blob_path (hash (wr_bytes w))) \<noteq> None
      | Finished \<Rightarrow> fs_now fs (blob_path (hash (wr_bytes w))) \<noteq> None \<and>
          fs_safe fs (blob_path (hash (wr_bytes w))) \<noteq> None
      | _ \<Rightarrow> True)"

definition sys_inv :: "(string \<Rightarrow> digest) \<Rightarrow> nat \<Rightarrow> system \<Rightarrow> bool" where
  "sys_inv hash pid s \<longleftrightarrow>
     length (sy_writers s) \<le> 2 ^ 64 \<and> sy_seq s = of_nat (length (sy_writers s)) \<and>
     (\<forall>i < length (sy_writers s). wr_seq (sy_writers s ! i) = of_nat i \<and>
        writer_ok hash pid (sy_disk s) (sy_writers s ! i)) \<and>
     blobs_ok hash (sy_disk s)"

lemma hex_no_dot: "CHR ''.'' \<notin> set (blob_hex d)"
proof -
  have "\<not> is_lower_hex CHR ''.''" by (simp add: is_lower_hex_def)
  then show ?thesis using all_lower_hex [of "digest_bytes d"] unfolding blob_hex_def list_all_iff by blast
qed

lemma tmp_not_blob [simp]: "tmp_path parent pid seq \<noteq> blob_path d" "blob_path d \<noteq> tmp_path parent pid seq"
proof -
  have "CHR ''.'' \<in> set (snd (tmp_path parent pid seq))" by (simp add: tmp_path_def)
  moreover have "CHR ''.'' \<notin> set (snd (blob_path d))" by (simp add: blob_path_def hex_no_dot)
  ultimately show "tmp_path parent pid seq \<noteq> blob_path d" "blob_path d \<noteq> tmp_path parent pid seq" by metis+
qed

lemma blob_path_inj [simp]: "blob_path d = blob_path d' \<longleftrightarrow> d = d'"
proof
  assume "blob_path d = blob_path d'"
  then have "decode_pairs (blob_hex d) = decode_pairs (blob_hex d')" by (simp add: blob_path_def)
  then show "d = d'" by (simp add: blob_hex_def decode_pairs_hex digest.expand)
qed simp

lemma tmp_of_inj: "tmp_of hash pid w = tmp_of hash pid w' \<Longrightarrow> wr_seq w = wr_seq w'"
  by (simp add: tmp_of_def tmp_path_def show_nat_inj) (metis show_nat_inj word_unat_eq_iff)

lemma tmp_of_not_blob [simp]: "tmp_of hash pid w \<noteq> blob_path d" "blob_path d \<noteq> tmp_of hash pid w"
  by (simp_all add: tmp_of_def)

text \<open>What one system call of a durable \<open>put\<close> does to the disk.\<close>

lemma put_step_disk:
  assumes "put_step hash pid st a w fs = (w', fs')" "st_durable st" "writer_ok hash pid fs w"
    and "blobs_ok hash fs"
  shows "wr_seq w' = wr_seq w \<and> wr_bytes w' = wr_bytes w \<and> writer_ok hash pid fs' w' \<and>
    (\<forall>p. p \<noteq> tmp_of hash pid w \<and> p \<noteq> blob_path (hash (wr_bytes w)) \<longrightarrow> fs_now fs' p = fs_now fs p) \<and>
    (fs_now fs' (blob_path (hash (wr_bytes w))) = fs_now fs (blob_path (hash (wr_bytes w))) \<or>
     fs_now fs' (blob_path (hash (wr_bytes w))) = Some (wr_bytes w, True)) \<and>
    (\<forall>p. fs_safe fs' p = fs_safe fs p \<or>
       fs_now fs' p = fs_now fs p \<and>
       fs_safe fs' p = (case fs_now fs p of Some (c, True) \<Rightarrow> Some c | _ \<Rightarrow> None))"
proof -
  let ?d = "hash (wr_bytes w)"
  have tmp: "tmp_path (blob_dir ?d) pid (wr_seq w) = tmp_of hash pid w" by (simp add: tmp_of_def)
  have flushed: "fs_now fs (blob_path ?d) = Some (c, fl) \<Longrightarrow> fl" for c fl
    using assms(4) unfolding blobs_ok_def by blast
  have dir: "fst (blob_path ?d) = blob_dir ?d" by (simp add: blob_path_def)
  have st: "put_step hash pid st a w fs = (w', fs')" by (rule assms(1))
  show ?thesis
    using st [unfolded put_step_def Let_def tmp] assms(2,3) flushed dir
    by (cases "wr_stage w")
      (auto simp: writer_ok_def fs_create_def fs_write_def fs_sync_all_def fs_rename_def fsync_dir_def
        mkdir_all_def fs_create_dir_all_def
        tmp_of_def split: if_splits answer.splits)
qed

lemma put_step_blobs_ok:
  assumes "put_step hash pid st a w fs = (w', fs')" "st_durable st" "writer_ok hash pid fs w" "blobs_ok hash fs"
  shows "blobs_ok hash fs'"
proof -
  let ?d = "hash (wr_bytes w)"
  note eff = put_step_disk [OF assms]
  have now: "fl \<and> hash c = d" if "fs_now fs' (blob_path d) = Some (c, fl)" for d c fl
  proof (cases "fs_now fs' (blob_path d) = fs_now fs (blob_path d)")
    case True
    then show ?thesis using assms(4) that unfolding blobs_ok_def by metis
  next
    case False
    then have "blob_path d = blob_path ?d" using eff tmp_of_not_blob by metis
    then have "d = ?d" by simp
    then show ?thesis using eff that False by auto
  qed
  moreover have "hash c = d" if "fs_safe fs' (blob_path d) = Some c" for d c
  proof (cases "fs_safe fs' (blob_path d) = fs_safe fs (blob_path d)")
    case True
    then show ?thesis using assms(4) that unfolding blobs_ok_def by metis
  next
    case False
    have "fs_safe fs' (blob_path d) = fs_safe fs (blob_path d) \<or>
       fs_now fs' (blob_path d) = fs_now fs (blob_path d) \<and>
       fs_safe fs' (blob_path d) = (case fs_now fs (blob_path d) of Some (c, True) \<Rightarrow> Some c | _ \<Rightarrow> None)"
      using eff by blast
    then have "fs_now fs' (blob_path d) = Some (c, True)"
      using False that by (auto split: option.splits prod.splits bool.splits)
    then show ?thesis using now by blast
  qed
  ultimately show ?thesis unfolding blobs_ok_def by blast
qed

text \<open>A call leaves every stored digest stored, and another writer's files as that one needs them.\<close>

lemma put_step_now:
  assumes "put_step hash pid st a w fs = (w', fs')" "st_durable st" "writer_ok hash pid fs w" "blobs_ok hash fs"
    and "fs_now fs (blob_path d) \<noteq> None"
  shows "fs_now fs' (blob_path d) \<noteq> None"
proof (cases "blob_path d = blob_path (hash (wr_bytes w))")
  case True
  then show ?thesis using put_step_disk [OF assms(1-4)] assms(5) by auto
next
  case False
  then have "fs_now fs' (blob_path d) = fs_now fs (blob_path d)"
    using put_step_disk [OF assms(1-4)] tmp_of_not_blob by blast
  then show ?thesis using assms(5) by simp
qed

lemma put_step_stored:
  assumes "put_step hash pid st a w fs = (w', fs')" "st_durable st" "writer_ok hash pid fs w" "blobs_ok hash fs"
    and "stored fs d"
  shows "stored fs' d"
proof -
  note eff = put_step_disk [OF assms(1-4)]
  have "fs_safe fs' (blob_path d) \<noteq> None"
  proof (cases "fs_safe fs' (blob_path d) = fs_safe fs (blob_path d)")
    case False
    obtain c fl where c: "fs_now fs (blob_path d) = Some (c, fl)" using assms(5) by (auto simp: stored_def)
    then have "fl" using assms(4) unfolding blobs_ok_def by blast
    then have "fs_now fs (blob_path d) = Some (c, True)" using c by simp
    moreover have "fs_safe fs' (blob_path d) = (case fs_now fs (blob_path d) of Some (c, True) \<Rightarrow> Some c | _ \<Rightarrow> None)"
      using eff False by blast
    ultimately show ?thesis by simp
  qed (use assms(5) in \<open>simp add: stored_def\<close>)
  then show ?thesis using put_step_now [OF assms(1-4)] assms(5) by (simp add: stored_def)
qed

lemma put_step_frame:
  assumes "put_step hash pid st a w fs = (w', fs')" "st_durable st" "writer_ok hash pid fs w" "blobs_ok hash fs"
    and v: "writer_ok hash pid fs v" "wr_seq v \<noteq> wr_seq w"
  shows "writer_ok hash pid fs' v"
proof -
  have "tmp_of hash pid v \<noteq> tmp_of hash pid w" using v(2) tmp_of_inj by blast
  then have "fs_now fs' (tmp_of hash pid v) = fs_now fs (tmp_of hash pid v)"
    using put_step_disk [OF assms(1-4)] tmp_of_not_blob by blast
  then show ?thesis
    using v(1) put_step_now [OF assms(1-4)] put_step_stored [OF assms(1-4)]
    by (auto simp: writer_ok_def stored_def split: stage.splits)
qed

text \<open>The same of what the kernel writes back.\<close>

lemma written_back_ok:
  assumes "blobs_ok hash fs" "fs_now fs' = fs_now fs"
    and "\<And>p. fs_safe fs' p = fs_safe fs p \<or> fs_safe fs' p = (case fs_now fs p of Some (c, True) \<Rightarrow> Some c | _ \<Rightarrow> None)"
  shows "blobs_ok hash fs'"
proof -
  have "hash c = d" if "fs_safe fs' (blob_path d) = Some c" for d c
    using assms(1) assms(3) [of "blob_path d"] that unfolding blobs_ok_def by (auto split: option.splits prod.splits bool.splits)
  then show ?thesis using assms(1,2) unfolding blobs_ok_def by metis
qed

lemma written_back_stored:
  assumes "blobs_ok hash fs" "fs_now fs' = fs_now fs"
    and "\<And>p. fs_safe fs' p = fs_safe fs p \<or> fs_safe fs' p = (case fs_now fs p of Some (c, True) \<Rightarrow> Some c | _ \<Rightarrow> None)"
    and "stored fs d"
  shows "stored fs' d"
proof -
  obtain c fl where c: "fs_now fs (blob_path d) = Some (c, fl)" using assms(4) by (auto simp: stored_def)
  then have fl using assms(1) unfolding blobs_ok_def by blast
  then show ?thesis using assms(2,4) assms(3) [of "blob_path d"] c by (auto simp: stored_def)
qed

lemma sys_step_inv:
  assumes "sys_step hash pid st s s'" "st_durable st" "sys_inv hash pid s"
  shows "sys_inv hash pid s'"
  using assms
proof (induction rule: sys_step.induct)
  case (begin_put s bytes)
  then show ?case
    by (auto simp: sys_inv_def nth_append less_Suc_eq writer_ok_def)
next
  case (one_call i s a w fs)
  let ?v = "sy_writers s ! i"
  have v: "writer_ok hash pid (sy_disk s) ?v" "wr_seq ?v = of_nat i" "blobs_ok hash (sy_disk s)"
    and len: "length (sy_writers s) \<le> 2 ^ 64"
    using one_call by (auto simp: sys_inv_def)
  note step = one_call(2,3) v(1,3)
  have "wr_seq ((sy_writers s)[i := w] ! j) = of_nat j \<and> writer_ok hash pid fs ((sy_writers s)[i := w] ! j)"
    if j: "j < length (sy_writers s)" for j
  proof (cases "j = i")
    case True
    then show ?thesis using put_step_disk [OF step] v(2) one_call(1) by simp
  next
    case False
    have "wr_seq (sy_writers s ! j) = of_nat j" "writer_ok hash pid (sy_disk s) (sy_writers s ! j)"
      using one_call(4) j by (auto simp: sys_inv_def)
    moreover have "(of_nat j :: u64) \<noteq> of_nat i"
    proof -
      have "unat (of_nat j :: u64) = j" "unat (of_nat i :: u64) = i"
        using j one_call(1) len by (simp_all add: unat_of_nat_small)
      then show ?thesis using False by metis
    qed
    ultimately show ?thesis using put_step_frame [OF step] v(2) False by simp
  qed
  then show ?case
    using one_call(4) put_step_blobs_ok [OF step] by (simp add: sys_inv_def)
next
  case (write_back fs x s)
  have disk: "fs_now fs = fs_now (sy_disk s)" "fs_safe fs p = fs_safe (sy_disk s) p \<or>
      fs_safe fs p = (case fs_now (sy_disk s) p of Some (c, True) \<Rightarrow> Some c | _ \<Rightarrow> None)" for p
    using write_back(1) by (auto simp: fsync_dir_def settle_entry_def)
  have ok: "blobs_ok hash (sy_disk s)" using write_back(3) by (simp add: sys_inv_def)
  then have "blobs_ok hash fs" using disk by (rule written_back_ok)
  moreover have "writer_ok hash pid fs w" if "writer_ok hash pid (sy_disk s) w" for w
    using that written_back_stored [OF ok disk] by (auto simp: writer_ok_def stored_def disk(1) split: stage.splits)
  ultimately show ?case using write_back(3) by (auto simp: sys_inv_def)
qed

lemma sys_steps_inv:
  "(sys_step hash pid st)\<^sup>*\<^sup>* s s' \<Longrightarrow> st_durable st \<Longrightarrow> sys_inv hash pid s \<Longrightarrow> sys_inv hash pid s'"
  by (induction rule: rtranclp_induct) (auto intro: sys_step_inv)

text \<open>A call that runs alone is one of the runs of the system.\<close>

lemma put_run_steps:
  "i < length (sy_writers s) \<Longrightarrow> put_run hash pid st as (sy_writers s ! i) (sy_disk s) = (w', fs') \<Longrightarrow>
     (sys_step hash pid st)\<^sup>*\<^sup>* s (s\<lparr>sy_disk := fs', sy_writers := (sy_writers s)[i := w']\<rparr>)"
proof (induction "as" arbitrary: s)
  case Nil
  then show ?case by (cases s) auto
next
  case (Cons a "as")
  obtain w1 fs1 where one: "put_step hash pid st a (sy_writers s ! i) (sy_disk s) = (w1, fs1)"
    by (cases "put_step hash pid st a (sy_writers s ! i) (sy_disk s)")
  let ?s = "s\<lparr>sy_disk := fs1, sy_writers := (sy_writers s)[i := w1]\<rparr>"
  have "put_run hash pid st as (sy_writers ?s ! i) (sy_disk ?s) = (w', fs')"
    using Cons.prems one by simp
  then have "(sys_step hash pid st)\<^sup>*\<^sup>* ?s (?s\<lparr>sy_disk := fs', sy_writers := (sy_writers ?s)[i := w']\<rparr>)"
    using Cons.IH [of ?s] Cons.prems(1) by simp
  moreover have "sys_step hash pid st s ?s" using one_call [OF Cons.prems(1) one] .
  ultimately show ?case by simp
qed

text \<open>The six system calls of a \<open>put\<close> that nothing interrupts.\<close>

lemma put_run_done:
  "put_run hash pid st (replicate 6 Done) \<lparr>wr_bytes = bytes, wr_seq = seq, wr_stage = Begin\<rparr> fs = (w, fs') \<Longrightarrow>
     w = \<lparr>wr_bytes = bytes, wr_seq = seq, wr_stage = Finished\<rparr> \<and>
     map_option fst (fs_now fs' (blob_path (hash bytes))) = Some bytes \<and>
     (\<forall>d. d \<noteq> hash bytes \<longrightarrow> fs_now fs' (blob_path d) = fs_now fs (blob_path d))"
  by (auto simp: numeral_eq_Suc put_step_def Let_def fs_create_def fs_write_def fs_sync_all_def fs_rename_def
      fsync_dir_def mkdir_all_def fs_create_dir_all_def split: if_splits)

text \<open>
  A whole call on a durable store, whatever fails in it: no blob is corrupted, nothing stored is lost,
  and a digest it returns is stored.
\<close>

lemma put_run_keeps:
  assumes "st_durable st"
  shows "put_run hash pid st as w fs = (w', fs') \<Longrightarrow> writer_ok hash pid fs w \<Longrightarrow> blobs_ok hash fs \<Longrightarrow>
    writer_ok hash pid fs' w' \<and> wr_bytes w' = wr_bytes w \<and> blobs_ok hash fs' \<and> (\<forall>d. stored fs d \<longrightarrow> stored fs' d)"
proof (induction "as" arbitrary: w fs)
  case (Cons a "as")
  obtain w1 fs1 where one: "put_step hash pid st a w fs = (w1, fs1)" by (cases "put_step hash pid st a w fs")
  note step = one assms Cons.prems(2,3)
  show ?case
    using Cons.IH [of w1 fs1] Cons.prems(1) one put_step_disk [OF step] put_step_blobs_ok [OF step]
      put_step_stored [OF step] by auto
qed simp

lemma put_keeps:
  assumes "put hash pid seq st answers bytes fs = (r, fs')" "st_durable st" "blobs_ok hash fs"
  shows "blobs_ok hash fs'" "stored fs d \<Longrightarrow> stored fs' d" "r = Inr d \<Longrightarrow> stored fs' d"
proof -
  let ?w = "\<lparr>wr_bytes = bytes, wr_seq = seq, wr_stage = Begin\<rparr>"
  obtain w fs1 where "put_run hash pid st (take 6 answers) ?w fs = (w, fs1)"
    by (cases "put_run hash pid st (take 6 answers) ?w fs")
  moreover have "writer_ok hash pid fs ?w" by (simp add: writer_ok_def)
  ultimately show "blobs_ok hash fs'" "stored fs d \<Longrightarrow> stored fs' d" "r = Inr d \<Longrightarrow> stored fs' d"
    using put_run_keeps [OF assms(2), of hash pid "take 6 answers" ?w fs w fs1] assms(1,3)
    by (auto simp: put_def put_result_def writer_ok_def stored_def split: if_splits)
qed

text \<open>The directories: only what is there has an entry on the disk, and no call or write-back takes one away.\<close>

definition dirs_ok :: "disk \<Rightarrow> bool" where
  "dirs_ok fs \<longleftrightarrow> (\<forall>x. fs_dirs_safe fs x \<longrightarrow> fs_dirs fs x)"

definition dirs_grow :: "disk \<Rightarrow> disk \<Rightarrow> bool" where
  "dirs_grow fs fs' \<longleftrightarrow> (\<forall>x. fs_dirs fs x \<longrightarrow> fs_dirs fs' x) \<and> (\<forall>x. fs_dirs_safe fs' x = fs_dirs_safe fs x \<or> fs_dirs_safe fs' x = fs_dirs fs' x)"

lemma dirs_grow_ok: "dirs_grow fs fs' \<Longrightarrow> dirs_ok fs \<Longrightarrow> dirs_ok fs'"
  unfolding dirs_grow_def dirs_ok_def by metis

lemma dirs_grow_lasting: "dirs_grow fs fs' \<Longrightarrow> dirs_ok fs \<Longrightarrow> lasting fs dir \<Longrightarrow> lasting fs' dir"
  unfolding dirs_grow_def dirs_ok_def lasting_iff by metis

lemma dirs_grow_simps [simp]:
  "dirs_grow fs fs" "dirs_grow fs (mkdir_all a dir fs)" "dirs_grow fs (fsync_dir dir fs)" "dirs_grow fs (settle_entry dir fs)"
  "dirs_grow fs (fs_create p fs)" "dirs_grow fs (fs_write p bytes fs)" "dirs_grow fs (fs_sync_all p fs)" "dirs_grow fs (fs_rename p q fs)"
  by (simp_all add: dirs_grow_def mkdir_all_def fs_create_dir_all_def fsync_dir_def settle_entry_def fs_create_def fs_write_def
    fs_sync_all_def fs_rename_def split: answer.split)

lemma put_step_dirs: "put_step hash pid st a w fs = (w', fs') \<Longrightarrow> dirs_grow fs fs'"
  by (cases "wr_stage w"; cases a) (auto simp: put_step_def Let_def split: if_splits)

lemma put_run_dirs:
  "put_run hash pid st as w fs = (w', fs') \<Longrightarrow> dirs_ok fs \<Longrightarrow> dirs_ok fs'"
  by (induction "as" arbitrary: w fs) (auto split: prod.splits dest: put_step_dirs dirs_grow_ok)

lemma sys_step_dirs: "sys_step hash pid st s s' \<Longrightarrow> dirs_grow (sy_disk s) (sy_disk s')"
  by (induction rule: sys_step.induct) (auto dest: put_step_dirs)

lemma sys_steps_dirs: "(sys_step hash pid st)\<^sup>*\<^sup>* s s' \<Longrightarrow> dirs_ok (sy_disk s) \<Longrightarrow> dirs_ok (sy_disk s')"
  by (induction rule: rtranclp_induct) (auto dest: sys_step_dirs dirs_grow_ok)

lemma sys_steps_lasting:
  "(sys_step hash pid st)\<^sup>*\<^sup>* s s' \<Longrightarrow> dirs_ok (sy_disk s) \<Longrightarrow> lasting (sy_disk s) dir \<Longrightarrow> lasting (sy_disk s') dir"
  by (induction rule: rtranclp_induct) (auto dest: sys_step_dirs dirs_grow_lasting sys_steps_dirs)

text \<open>The crash that takes all it can.\<close>

lemma harshest_crash:
  assumes "dirs_ok fs"
  shows "crash_leaves fs (lasting fs) (\<lambda>p. if lasting fs (fst p) then fs_safe fs p else None)"
proof -
  have "fs_dirs fs dir" "lasting fs (butlast dir)" if l: "lasting fs dir" for dir
  proof -
    have safe: "n \<le> length dir \<Longrightarrow> fs_dirs_safe fs (take n dir)" for n using l by (simp add: lasting_iff)
    from safe [of "length dir"] show "fs_dirs fs dir" using assms by (simp add: dirs_ok_def)
    show "lasting fs (butlast dir)" using safe by (simp add: lasting_iff butlast_conv_take)
  qed
  then show ?thesis by (auto simp: crash_leaves_def survives_def split: option.split bool.split)
qed

text \<open>What a crash leaves of a blob.\<close>

lemma survives_blob:
  "blobs_ok hash fs \<Longrightarrow> survives D fs (blob_path d) r \<Longrightarrow> r = Some c \<Longrightarrow> hash c = d"
  unfolding survives_def blobs_ok_def by (auto split: option.splits prod.splits bool.splits if_splits)

lemma survives_there:
  assumes "blobs_ok hash fs" "survives D fs (blob_path d) r" "D (blob_dir d)" "stored fs d"
  shows "r \<noteq> None"
proof -
  obtain c fl c' where now: "fs_now fs (blob_path d) = Some (c, fl)" "fs_safe fs (blob_path d) = Some c'"
    using assms(4) by (auto simp: stored_def)
  then have fl using assms(1) unfolding blobs_ok_def by blast
  then show ?thesis using assms(2,3) now by (auto simp: survives_def blob_path_def)
qed

text \<open>A store whose fan-out directories for the sample digest are on the disk.\<close>

definition sample_disk :: disk where
  "sample_disk = empty_disk\<lparr>fs_dirs := (\<lambda>_. True), fs_dirs_safe := (\<lambda>_. True)\<rparr>"

section \<open>Properties\<close>

text \<open>
  A \<open>put\<close> that nothing interrupts makes its digest retrievable whatever the store held before:
  it returns the hash, \<open>get\<close> then returns exactly those bytes, also where a corrupted blob sat, and no
  other blob changes.
\<close>

theorem put_then_get:
  "case put hash pid seq st (replicate 6 Done) bytes fs of
     (r, fs') \<Rightarrow> r = Inr (hash bytes) \<and> get hash False (hash bytes) fs' = Inr bytes \<and>
       (\<forall>d. d \<noteq> hash bytes \<longrightarrow> get hash refused d fs' = get hash refused d fs)"
proof -
  obtain w fs' where "put_run hash pid st (replicate 6 Done) \<lparr>wr_bytes = bytes, wr_seq = seq, wr_stage = Begin\<rparr> fs
      = (w, fs')"
    by (cases "put_run hash pid st (replicate 6 Done) \<lparr>wr_bytes = bytes, wr_seq = seq, wr_stage = Begin\<rparr> fs")
  with put_run_done [OF this] show ?thesis
    by (auto simp: put_def put_result_def get_def get_bytes_def)
qed

theorem put_then_get_witness:
  "fst (put (\<lambda>b. Digest (replicate 32 (of_nat (length b)))) 1 0 \<lparr>st_durable = True\<rparr> (replicate 6 Done) ''ab''
      empty_disk) = Inr (Digest (replicate 32 2))"
  using put_then_get [where hash = "\<lambda>b. Digest (replicate 32 (of_nat (length b)))" and pid = 1 and seq = 0
      and st = "\<lparr>st_durable = True\<rparr>" and bytes = "''ab''" and fs = "empty_disk"
      and refused = False]
  by (auto split: prod.splits)

text \<open>
  C21: On a durable store, however several calls interleave, whatever system calls fail and whatever the kernel
  writes back on its own, a crash at any moment leaves no corrupt blob anywhere. Every \<open>put\<close> that had returned
  is retrievable after it, its digest's path holding bytes with that digest; the one exception is a fan-out directory
  whose own entry had not reached the disk, and then the blob is missing, not damaged. A directory that
  was on the disk stays so: every \<open>put\<close> into a directory that was there for good before the session is never lost.
\<close>

theorem returned_puts_survive_a_crash:
  assumes "st_durable st" "(sys_step hash pid st)\<^sup>*\<^sup>* s s'"
    and "blobs_ok hash (sy_disk s)" "dirs_ok (sy_disk s)" "sy_writers s = []" "sy_seq s = 0"
    and "crash_leaves (sy_disk s') D r"
  shows "get_bytes hash False d (r (blob_path d)) \<noteq> Inl (ECorrupt d) \<and>
    ((\<exists>w \<in> set (sy_writers s'). put_result hash w = Inr d) \<longrightarrow>
     (\<exists>bytes. get_bytes hash False d (r (blob_path d)) = Inr bytes \<and> hash bytes = d) \<or>
     get_bytes hash False d (r (blob_path d)) = Inl (ENotFound d) \<and>
       \<not> lasting (sy_disk s') (blob_dir d) \<and> \<not> lasting (sy_disk s) (blob_dir d))"
proof -
  have inv: "sys_inv hash pid s'" and keeps: "lasting (sy_disk s) dir \<Longrightarrow> lasting (sy_disk s') dir" for dir
    using sys_steps_inv [OF assms(2,1)] sys_steps_lasting [OF assms(2,4)] assms(3-6) by (simp_all add: sys_inv_def)
  then have ok: "blobs_ok hash (sy_disk s')" by (simp add: sys_inv_def)
  have r: "survives D (sy_disk s') (blob_path d) (r (blob_path d))" "lasting (sy_disk s') (blob_dir d) \<Longrightarrow> D (blob_dir d)"
    using assms(7) unfolding crash_leaves_def by blast+
  have good: "hash c = d" if "r (blob_path d) = Some c" for c
    using survives_blob [OF ok r(1) that] .
  moreover have "r (blob_path d) \<noteq> None" if w: "w \<in> set (sy_writers s')" "put_result hash w = Inr d"
    and there: "lasting (sy_disk s') (blob_dir d)" for w
  proof -
    have "wr_stage w = Finished" "hash (wr_bytes w) = d"
      using w(2) by (auto simp: put_result_def split: if_splits)
    moreover have "writer_ok hash pid (sy_disk s') w"
      using inv w(1) by (auto simp: sys_inv_def in_set_conv_nth)
    ultimately have "stored (sy_disk s') d" by (simp add: writer_ok_def stored_def)
    then show ?thesis using survives_there [OF ok r(1)] r(2) there by blast
  qed
  ultimately show ?thesis
    using keeps by (cases "r (blob_path d)") (auto simp: get_bytes_def)
qed

theorem returned_puts_survive_a_crash_witness:
  "\<exists>s'. (sys_step (\<lambda>b. Digest (replicate 32 7)) 1 \<lparr>st_durable = True\<rparr>)\<^sup>*\<^sup>*
       \<lparr>sy_disk = sample_disk, sy_seq = 0, sy_writers = []\<rparr> s' \<and>
     (\<exists>bytes. get_bytes (\<lambda>b. Digest (replicate 32 7)) False (Digest (replicate 32 7))
       (if lasting (sy_disk s') (blob_dir (Digest (replicate 32 7)))
        then fs_safe (sy_disk s') (blob_path (Digest (replicate 32 7))) else None) = Inr bytes)"
proof -
  let ?h = "\<lambda>b :: string. Digest (replicate 32 7)" and ?st = "\<lparr>st_durable = True\<rparr>" and ?d = "Digest (replicate 32 7)"
  let ?s0 = "\<lparr>sy_disk = sample_disk, sy_seq = 0, sy_writers = []\<rparr>"
  let ?w = "\<lparr>wr_bytes = ''ab'', wr_seq = 0, wr_stage = Begin\<rparr>"
  let ?s1 = "\<lparr>sy_disk = sample_disk, sy_seq = 1, sy_writers = [?w]\<rparr>"
  have first: "sys_step ?h 1 ?st ?s0 ?s1"
    using begin_put [of ?s0 ?h 1 ?st "''ab''"] by simp
  obtain w fs where run: "put_run ?h 1 ?st (replicate 6 Done) ?w (sy_disk ?s1) = (w, fs)"
    by (cases "put_run ?h 1 ?st (replicate 6 Done) ?w (sy_disk ?s1)")
  let ?s2 = "?s1\<lparr>sy_disk := fs, sy_writers := [w]\<rparr>"
  have "(sys_step ?h 1 ?st)\<^sup>*\<^sup>* ?s1 ?s2"
    using put_run_steps [of 0 ?s1 ?h 1 ?st "replicate 6 Done" w fs] run by simp
  with first have reach: "(sys_step ?h 1 ?st)\<^sup>*\<^sup>* ?s0 ?s2" by (rule converse_rtranclp_into_rtranclp)
  have fin: "put_result ?h w = Inr ?d"
    using put_run_done [OF run] by (simp add: put_result_def)
  have disk: "blobs_ok ?h sample_disk" "dirs_ok sample_disk" "lasting sample_disk (blob_dir ?d)"
    by (simp_all add: sample_disk_def blobs_ok_def dirs_ok_def empty_disk_def lasting_iff)
  have "dirs_ok fs" using sys_steps_dirs [OF reach] disk(2) by simp
  from harshest_crash [OF this] returned_puts_survive_a_crash [OF _ reach, of D r ?d for D r] fin disk show ?thesis
    using reach by (fastforce simp: blob_path_def)
qed

text \<open>
  The exception is real. In a store that was just opened, a \<open>put\<close> that returns after six system calls of which none failed may be lost by a crash
  right after it: its directories were made and their entries were never flushed.
\<close>

theorem a_returned_put_may_be_lost:
  "case put hash pid seq \<lparr>st_durable = True\<rparr> (replicate 6 Done) bytes (snd (open_store Done True empty_disk)) of
     (r, fs) \<Rightarrow> r = Inr (hash bytes) \<and>
       (\<exists>D left. crash_leaves fs D left \<and> get_bytes hash False (hash bytes) (left (blob_path (hash bytes))) = Inl (ENotFound (hash bytes)))"
proof -
  let ?fs0 = "snd (open_store Done True empty_disk)" and ?w = "\<lparr>wr_bytes = bytes, wr_seq = seq, wr_stage = Begin\<rparr>"
  have fs0: "dirs_ok ?fs0" "\<not> fs_dirs_safe ?fs0 [''blobs'']"
    by (simp_all add: open_store_def mkdir_all_def fs_create_dir_all_def empty_disk_def dirs_ok_def)
  obtain w fs where run: "put_run hash pid \<lparr>st_durable = True\<rparr> (replicate 6 Done) ?w ?fs0 = (w, fs)" by fastforce
  obtain b where b: "blob_dir (hash bytes) = ''blobs'' # b" by (cases "hash bytes" rule: blob_dir.cases) auto
  have ok: "dirs_ok fs" using put_run_dirs [OF run fs0(1)] by simp
  have "fs_dirs_safe fs [''blobs''] = fs_dirs_safe ?fs0 [''blobs'']"
    using run b by (auto simp: numeral_eq_Suc put_step_def Let_def mkdir_all_def fs_create_dir_all_def fs_create_def fs_write_def
      fs_sync_all_def fs_rename_def fsync_dir_def split: if_splits)
  then have "\<not> lasting fs (blob_dir (hash bytes))"
    using fs0(2) by (auto simp: lasting_iff b intro!: exI [of _ 1])
  with harshest_crash [OF ok] have "\<exists>D left. crash_leaves fs D left \<and>
      get_bytes hash False (hash bytes) (left (blob_path (hash bytes))) = Inl (ENotFound (hash bytes))"
    by (intro exI [of _ "lasting fs"] exI [of _ "\<lambda>p. if lasting fs (fst p) then fs_safe fs p else None"])
      (simp add: get_bytes_def blob_path_def)
  then show ?thesis using run put_run_done [OF run] by (simp add: put_def put_result_def)
qed

end
