(* ===== verification/Task_Store.thy ===== *)
theory Task_Store
  imports Ids Event "HOL-Library.Sublist"
begin

text \<open>
  The task store, \<open>crates/bathy-store/src/tasks.rs\<close> with \<open>schema.sql\<close>: one row per scan and one
  row per finished unit. Columns hold what the source binds to them, text for identifiers and
  digests and 64-bit signed integers for counters, and the constraints are those of the schema:
  the primary keys, the unique idempotency key, the foreign key of a unit. Several connections
  share a file, so an operation that reads and then writes sees one database per statement; what
  other connections may do in between is the relation \<open>db_step\<close>. Failures of the engine itself
  are arguments.
\<close>

section \<open>Rows and statements\<close>

datatype sql_error = ConstraintUnique | ConstraintPrimaryKey | ConstraintForeignKey | OutOfRange | Engine string

datatype store_error =
    Sqlite sql_error
  | StoreIo
  | IdempotencyConflict string digest digest \<comment> \<open>key, existing plan, incoming plan\<close>
  | NotFound u128
  | UnsupportedSchemaVersion int int \<comment> \<open>found, expected\<close>

record scan_row =
  r_scan_id :: string
  r_plan_hash :: string
  r_idempotency_key :: string
  r_scope_id :: string
  r_status :: string
  r_request_json :: string
  r_estimated_targets :: int
  r_estimated_probes :: int
  r_packets_spent :: int
  r_elapsed_seconds :: int
  r_last_sequence :: int
  r_created_at :: string
  r_updated_at :: string

record db =
  db_scans :: "scan_row list"
  db_units :: "(string \<times> int) list"

text \<open>\<open>rusqlite\<close> binds a \<open>u64\<close> as an \<open>i64\<close> and reads it back; both directions check the range.\<close>

definition to_sql :: "u64 \<Rightarrow> sql_error + int" where
  "to_sql v = (if uint v < 2 ^ 63 then Inr (uint v) else Inl OutOfRange)"

definition from_sql :: "int \<Rightarrow> sql_error + u64" where
  "from_sql i = (if 0 \<le> i then Inr (of_int i) else Inl OutOfRange)"

fun status_to_db :: "task_status \<Rightarrow> string" where
  "status_to_db TPending = ''pending''"
| "status_to_db TRunning = ''running''"
| "status_to_db TPaused = ''paused''"
| "status_to_db TCompleted = ''completed''"
| "status_to_db TCancelled = ''cancelled''"
| "status_to_db TFailed = ''failed''"
| "status_to_db TDenied = ''denied''"

definition status_from_db :: "string \<Rightarrow> task_status rust" where
  "status_from_db raw =
     (case find (\<lambda>s. status_to_db s = raw)
             [TPending, TRunning, TPaused, TCompleted, TCancelled, TFailed, TDenied] of
        None \<Rightarrow> Panic
      | Some s \<Rightarrow> Ret s)"

text \<open>\<open>INSERT INTO scans\<close>; which of two violated constraints is reported is the engine's choice.\<close>

definition insert_scan :: "bool \<Rightarrow> scan_row \<Rightarrow> db \<Rightarrow> sql_error + db" where
  "insert_scan pk_first row d =
     (let dup_id = list_ex (\<lambda>r. r_scan_id r = r_scan_id row) (db_scans d);
          dup_key = list_ex (\<lambda>r. r_idempotency_key r = r_idempotency_key row) (db_scans d)
      in if dup_id \<and> (pk_first \<or> \<not> dup_key) then Inl ConstraintPrimaryKey
         else if dup_key then Inl ConstraintUnique
         else Inr (d\<lparr>db_scans := db_scans d @ [row]\<rparr>))"

text \<open>\<open>UPDATE scans SET ... WHERE scan_id = ?\<close>, with the number of rows changed.\<close>

definition update_scans :: "string \<Rightarrow> (scan_row \<Rightarrow> scan_row) \<Rightarrow> db \<Rightarrow> nat \<times> db" where
  "update_scans key f d =
     (length (filter (\<lambda>r. r_scan_id r = key) (db_scans d)),
      d\<lparr>db_scans := map (\<lambda>r. if r_scan_id r = key then f r else r) (db_scans d)\<rparr>)"

text \<open>\<open>INSERT OR IGNORE INTO unit_progress\<close>: a repeat is ignored, a missing scan is not.\<close>

definition insert_unit :: "string \<Rightarrow> int \<Rightarrow> db \<Rightarrow> sql_error + db" where
  "insert_unit key u d =
     (if (key, u) \<in> set (db_units d) then Inr d
      else if \<not> list_ex (\<lambda>r. r_scan_id r = key) (db_scans d) then Inl ConstraintForeignKey
      else Inr (d\<lparr>db_units := db_units d @ [(key, u)]\<rparr>))"

section \<open>Records\<close>

record task_record =
  tr_scan_id :: u128
  tr_plan_hash :: digest
  tr_idempotency_key :: string
  tr_scope_id :: u128
  tr_status :: task_status
  tr_request_json :: string
  tr_estimated_targets :: u64
  tr_estimated_probes :: u64
  tr_packets_spent :: u64
  tr_elapsed_seconds :: u64
  tr_last_sequence :: u64
  tr_created_at :: string
  tr_updated_at :: string

text \<open>
  The four text columns are parsed with \<open>expect\<close>; the integer columns are read afterwards, in the
  order of the record's fields, and the first one out of range is an error.
\<close>

fun expect_ok :: "'e + 'a \<Rightarrow> 'a rust" where
  "expect_ok (Inl e) = Panic"
| "expect_ok (Inr a) = Ret a"

fun rust_bind :: "'a rust \<Rightarrow> ('a \<Rightarrow> 'b rust) \<Rightarrow> 'b rust" where
  "rust_bind Panic f = Panic"
| "rust_bind (Ret a) f = f a"

definition row_to_record :: "(string \<Rightarrow> u128 option) \<Rightarrow> scan_row \<Rightarrow> (sql_error + task_record) rust" where
  "row_to_record decode r =
     rust_bind (expect_ok (id_from_str decode ''scan'' (r_scan_id r))) (\<lambda>scan_id.
     rust_bind (expect_ok (digest_from_str (r_plan_hash r))) (\<lambda>plan_hash.
     rust_bind (expect_ok (id_from_str decode ''scope'' (r_scope_id r))) (\<lambda>scope_id.
     rust_bind (status_from_db (r_status r)) (\<lambda>status.
     Ret (res_bind (from_sql (r_estimated_targets r)) (\<lambda>targets.
          res_bind (from_sql (r_estimated_probes r)) (\<lambda>probes.
          res_bind (from_sql (r_packets_spent r)) (\<lambda>packets.
          res_bind (from_sql (r_elapsed_seconds r)) (\<lambda>elapsed.
          res_bind (from_sql (r_last_sequence r)) (\<lambda>last_sequence.
          Inr \<lparr>tr_scan_id = scan_id, tr_plan_hash = plan_hash,
               tr_idempotency_key = r_idempotency_key r, tr_scope_id = scope_id,
               tr_status = status, tr_request_json = r_request_json r,
               tr_estimated_targets = targets, tr_estimated_probes = probes,
               tr_packets_spent = packets, tr_elapsed_seconds = elapsed,
               tr_last_sequence = last_sequence,
               tr_created_at = r_created_at r, tr_updated_at = r_updated_at r\<rparr>)))))))))) "

section \<open>Opening\<close>

text \<open>
  A database file as \<open>open\<close> finds it: its \<open>user_version\<close>, and the shape of the \<open>scans\<close> table, which
  an early build created without \<open>elapsed_seconds\<close>.
\<close>

datatype scans_table = NoTable | WithoutElapsed db | WithElapsed db

record db_file =
  df_user_version :: int
  df_scans :: scans_table

definition current_schema_version :: int where
  "current_schema_version = 1"

definition migrate_from_unversioned :: "scans_table \<Rightarrow> scans_table" where
  "migrate_from_unversioned t =
     (case t of
        WithoutElapsed d \<Rightarrow> WithElapsed (d\<lparr>db_scans := map (\<lambda>r. r\<lparr>r_elapsed_seconds := 0\<rparr>) (db_scans d)\<rparr>)
      | _ \<Rightarrow> t)"

text \<open>\<open>schema.sql\<close>: tables are created when they are missing, and the version is stamped.\<close>

definition run_schema :: "db_file \<Rightarrow> db_file" where
  "run_schema f =
     f\<lparr>df_user_version := current_schema_version,
       df_scans := (case df_scans f of NoTable \<Rightarrow> WithElapsed \<lparr>db_scans = [], db_units = []\<rparr> | t \<Rightarrow> t)\<rparr>"

definition store_open :: "db_file \<Rightarrow> (store_error + unit) \<times> db_file" where
  "store_open f =
     (if df_user_version f = current_schema_version then (Inr (), run_schema f)
      else if df_user_version f = 0 then
        (Inr (), run_schema (f\<lparr>df_scans := migrate_from_unversioned (df_scans f)\<rparr>))
      else (Inl (UnsupportedSchemaVersion (df_user_version f) current_schema_version), f))"

section \<open>Starting a scan\<close>

record start_request =
  sq_idempotency_key :: string
  sq_plan_hash :: digest
  sq_scope_id :: u128
  sq_request_json :: string
  sq_estimated_targets :: u64
  sq_estimated_probes :: u64

datatype start_outcome = Started u128 | Reused u128 task_status

text \<open>What the engine may answer instead of executing a statement.\<close>

datatype store_fault =
    StoreOk
  | LookupFault sql_error
  | InsertFault sql_error
  | CommitFault sql_error
  | RelookupFault sql_error

definition store_lookup ::
  "(string \<Rightarrow> u128 option) \<Rightarrow> db \<Rightarrow> string \<Rightarrow> digest \<Rightarrow> (store_error + start_outcome option) rust"
where
  "store_lookup decode d key incoming =
     (case find (\<lambda>r. r_idempotency_key r = key) (db_scans d) of
        None \<Rightarrow> Ret (Inr None)
      | Some r \<Rightarrow>
          rust_bind (expect_ok (digest_from_str (r_plan_hash r))) (\<lambda>existing.
          if existing \<noteq> incoming then Ret (Inl (IdempotencyConflict key existing incoming))
          else
            rust_bind (expect_ok (id_from_str decode ''scan'' (r_scan_id r))) (\<lambda>scan_id.
            rust_bind (status_from_db (r_status r)) (\<lambda>status.
            Ret (Inr (Some (Reused scan_id status)))))))"

definition new_row :: "(u128 \<Rightarrow> string) \<Rightarrow> start_request \<Rightarrow> u128 \<Rightarrow> string \<Rightarrow> sql_error + scan_row" where
  "new_row encode req scan_id now =
     res_bind (to_sql (sq_estimated_targets req)) (\<lambda>targets.
     res_bind (to_sql (sq_estimated_probes req)) (\<lambda>probes.
     Inr \<lparr>r_scan_id = id_display encode ''scan'' scan_id,
          r_plan_hash = digest_display (sq_plan_hash req),
          r_idempotency_key = sq_idempotency_key req,
          r_scope_id = id_display encode ''scope'' (sq_scope_id req),
          r_status = status_to_db TPending, r_request_json = sq_request_json req,
          r_estimated_targets = targets, r_estimated_probes = probes,
          r_packets_spent = 0, r_elapsed_seconds = 0, r_last_sequence = 0,
          r_created_at = now, r_updated_at = now\<rparr>))"

definition is_unique_violation :: "sql_error \<Rightarrow> bool" where
  "is_unique_violation e = (e = ConstraintUnique)"

text \<open>
  \<open>d0\<close>, \<open>d1\<close> and \<open>d2\<close> are the database at the lookup, at the insert and at the second lookup: other
  connections may have changed it in between. The result has the database this call leaves.
\<close>

definition start_or_reuse ::
  "(u128 \<Rightarrow> string) \<Rightarrow> (string \<Rightarrow> u128 option) \<Rightarrow> bool \<Rightarrow> store_fault \<Rightarrow> start_request \<Rightarrow> u128 \<Rightarrow> string
     \<Rightarrow> db \<Rightarrow> db \<Rightarrow> db \<Rightarrow> (store_error + start_outcome) rust \<times> db"
where
  "start_or_reuse encode decode pk_first fault req scan_id now d0 d1 d2 =
     (let key = sq_idempotency_key req; plan = sq_plan_hash req in
      (case (case fault of LookupFault e \<Rightarrow> Ret (Inl (Sqlite e)) | _ \<Rightarrow> store_lookup decode d0 key plan) of
         Panic \<Rightarrow> (Panic, d0)
       | Ret (Inl e) \<Rightarrow> (Ret (Inl e), d0)
       | Ret (Inr (Some outcome)) \<Rightarrow> (Ret (Inr outcome), d0)
       | Ret (Inr None) \<Rightarrow>
           (case (case fault of
                    InsertFault e \<Rightarrow> Inl e
                  | _ \<Rightarrow> res_bind (new_row encode req scan_id now) (\<lambda>row. insert_scan pk_first row d1)) of
              Inr d1' \<Rightarrow>
                (case fault of
                   CommitFault e \<Rightarrow> (Ret (Inl (Sqlite e)), d1)
                 | _ \<Rightarrow> (Ret (Inr (Started scan_id)), d1'))
            | Inl e \<Rightarrow>
                if is_unique_violation e then
                  (case (case fault of RelookupFault e' \<Rightarrow> Ret (Inl (Sqlite e'))
                         | _ \<Rightarrow> store_lookup decode d2 key plan) of
                     Panic \<Rightarrow> (Panic, d2)
                   | Ret (Inl e') \<Rightarrow> (Ret (Inl e'), d2)
                   | Ret (Inr (Some outcome)) \<Rightarrow> (Ret (Inr outcome), d2)
                   | Ret (Inr None) \<Rightarrow> (Ret (Inl (Sqlite e)), d2))
                else (Ret (Inl (Sqlite e)), d1))))"

section \<open>The other operations\<close>

definition store_get ::
  "(u128 \<Rightarrow> string) \<Rightarrow> (string \<Rightarrow> u128 option) \<Rightarrow> u128 \<Rightarrow> db \<Rightarrow> (store_error + task_record option) rust"
where
  "store_get encode decode scan_id d =
     (case find (\<lambda>r. r_scan_id r = id_display encode ''scan'' scan_id) (db_scans d) of
        None \<Rightarrow> Ret (Inr None)
      | Some r \<Rightarrow>
          rust_bind (row_to_record decode r) (\<lambda>x.
          Ret (case x of Inl e \<Rightarrow> Inl (Sqlite e) | Inr rec \<Rightarrow> Inr (Some rec))))"

definition run_update :: "u128 \<Rightarrow> (nat \<times> db) \<Rightarrow> db \<Rightarrow> (store_error + unit) \<times> db" where
  "run_update scan_id r d =
     (case r of (changed, d') \<Rightarrow> if changed = 0 then (Inl (NotFound scan_id), d) else (Inr (), d'))"

definition set_status ::
  "(u128 \<Rightarrow> string) \<Rightarrow> u128 \<Rightarrow> task_status \<Rightarrow> string \<Rightarrow> db \<Rightarrow> (store_error + unit) \<times> db"
where
  "set_status encode scan_id status now d =
     run_update scan_id
       (update_scans (id_display encode ''scan'' scan_id)
          (\<lambda>r. r\<lparr>r_status := status_to_db status, r_updated_at := now\<rparr>) d) d"

definition record_progress ::
  "(u128 \<Rightarrow> string) \<Rightarrow> u128 \<Rightarrow> u64 \<Rightarrow> u64 \<Rightarrow> u64 \<Rightarrow> string \<Rightarrow> db \<Rightarrow> (store_error + unit) \<times> db"
where
  "record_progress encode scan_id last_sequence packets_spent elapsed_seconds now d =
     (case res_bind (to_sql last_sequence) (\<lambda>l. res_bind (to_sql packets_spent) (\<lambda>p.
             res_bind (to_sql elapsed_seconds) (\<lambda>t. Inr (l, p, t)))) of
        Inl e \<Rightarrow> (Inl (Sqlite e), d)
      | Inr (l, p, t) \<Rightarrow>
          run_update scan_id
            (update_scans (id_display encode ''scan'' scan_id)
               (\<lambda>r. r\<lparr>r_last_sequence := l, r_packets_spent := p, r_elapsed_seconds := t,
                      r_updated_at := now\<rparr>) d) d)"

text \<open>Rows with one \<open>created_at\<close> come in insertion order; a panic in any row is the call's.\<close>

fun collect_rust :: "('a \<Rightarrow> ('e + 'b) rust) \<Rightarrow> 'a list \<Rightarrow> ('e + 'b list) rust" where
  "collect_rust f [] = Ret (Inr [])"
| "collect_rust f (x # xs) =
     rust_bind (f x) (\<lambda>y. case y of
       Inl e \<Rightarrow> Ret (Inl e)
     | Inr b \<Rightarrow> rust_bind (collect_rust f xs) (\<lambda>ys. Ret (case ys of Inl e \<Rightarrow> Inl e | Inr bs \<Rightarrow> Inr (b # bs))))"

definition store_list ::
  "(string \<Rightarrow> u128 option) \<Rightarrow> task_status option \<Rightarrow> db \<Rightarrow> (sql_error + task_record list) rust"
where
  "store_list decode status d =
     collect_rust (row_to_record decode)
       (sort_key r_created_at
          (case status of
             None \<Rightarrow> db_scans d
           | Some st \<Rightarrow> filter (\<lambda>r. r_status r = status_to_db st) (db_scans d)))"

fun insert_units :: "string \<Rightarrow> u64 list \<Rightarrow> db \<Rightarrow> sql_error + db" where
  "insert_units key [] d = Inr d"
| "insert_units key (u # us) d =
     res_bind (to_sql u) (\<lambda>i. res_bind (insert_unit key i d) (insert_units key us))"

definition mark_units_done :: "(u128 \<Rightarrow> string) \<Rightarrow> u128 \<Rightarrow> u64 list \<Rightarrow> db \<Rightarrow> (store_error + unit) \<times> db" where
  "mark_units_done encode scan_id units d =
     (case insert_units (id_display encode ''scan'' scan_id) units d of
        Inl e \<Rightarrow> (Inl (Sqlite e), d)
      | Inr d' \<Rightarrow> (Inr (), d'))"

definition completed_units :: "(u128 \<Rightarrow> string) \<Rightarrow> u128 \<Rightarrow> db \<Rightarrow> store_error + u64 list" where
  "completed_units encode scan_id d =
     (case collect_results from_sql
             (sort (map snd (filter (\<lambda>ku. fst ku = id_display encode ''scan'' scan_id) (db_units d)))) of
        Inl e \<Rightarrow> Inl (Sqlite e)
      | Inr us \<Rightarrow> Inr us)"

text \<open>The loop over the candidates \<open>0..limit\<close>, with the iterator of finished units beside it.\<close>

function pending_loop :: "nat \<Rightarrow> nat \<Rightarrow> u64 list \<Rightarrow> u64 option" where
  "pending_loop candidate limit done =
     (if candidate \<ge> limit then None
      else
        (case done of
           d # rest \<Rightarrow>
             if d = of_nat candidate then pending_loop (Suc candidate) limit rest
             else Some (of_nat candidate)
         | [] \<Rightarrow> Some (of_nat candidate)))"
  by pat_completeness auto
termination
  by (relation "measure (\<lambda>(candidate, limit, _). limit - candidate)") auto

declare pending_loop.simps [simp del]

definition next_pending_unit :: "(u128 \<Rightarrow> string) \<Rightarrow> u128 \<Rightarrow> u64 \<Rightarrow> db \<Rightarrow> store_error + u64 option" where
  "next_pending_unit encode scan_id limit d =
     (case completed_units encode scan_id d of
        Inl e \<Rightarrow> Inl e
      | Inr done \<Rightarrow> Inr (pending_loop 0 (unat limit) done))"

section \<open>What the schema keeps\<close>

definition row_ok :: "(string \<Rightarrow> u128 option) \<Rightarrow> scan_row \<Rightarrow> bool" where
  "row_ok decode r = (case row_to_record decode r of Ret (Inr _) \<Rightarrow> True | _ \<Rightarrow> False)"

definition db_ok :: "(string \<Rightarrow> u128 option) \<Rightarrow> db \<Rightarrow> bool" where
  "db_ok decode d \<longleftrightarrow>
     list_all (row_ok decode) (db_scans d) \<and> distinct (map r_scan_id (db_scans d)) \<and>
     distinct (map r_idempotency_key (db_scans d)) \<and> distinct (db_units d) \<and>
     list_all (\<lambda>(k, u). k \<in> r_scan_id ` set (db_scans d) \<and> 0 \<le> u \<and> u < 2 ^ 63) (db_units d)"

text \<open>What one statement of some connection may do to the database.\<close>

inductive db_step :: "(u128 \<Rightarrow> string) \<Rightarrow> db \<Rightarrow> db \<Rightarrow> bool" for encode where
  step_insert: "new_row encode req scan_id now = Inr row \<Longrightarrow> digest_wf (sq_plan_hash req) \<Longrightarrow>
     insert_scan pk_first row d = Inr d' \<Longrightarrow> db_step encode d d'"
| step_status: "set_status encode scan_id status now d = (Inr (), d') \<Longrightarrow> db_step encode d d'"
| step_progress: "record_progress encode scan_id l p t now d = (Inr (), d') \<Longrightarrow> db_step encode d d'"
| step_units: "mark_units_done encode scan_id us d = (Inr (), d') \<Longrightarrow> db_step encode d d'"

abbreviation db_steps :: "(u128 \<Rightarrow> string) \<Rightarrow> db \<Rightarrow> db \<Rightarrow> bool" where
  "db_steps encode \<equiv> (db_step encode)\<^sup>*\<^sup>*"

text \<open>The columns no statement of the source ever updates.\<close>

definition identity_of :: "scan_row \<Rightarrow> string \<times> string \<times> string \<times> string" where
  "identity_of r = (r_idempotency_key r, r_plan_hash r, r_scan_id r, r_scope_id r)"

lemma from_to_sql: "to_sql v = Inr i \<Longrightarrow> from_sql i = Inr v \<and> 0 \<le> i \<and> i < 2 ^ 63"
  by (auto simp: to_sql_def from_sql_def split: if_splits)

lemma status_round_trip: "status_from_db (status_to_db s) = Ret s"
  by (cases s) (simp_all add: status_from_db_def)

lemma find_or_panic: "(case find P xs of None \<Rightarrow> Panic | Some x \<Rightarrow> Ret x) = Ret y \<Longrightarrow> P y"
  by (induction xs) (auto split: if_splits)

lemma status_from_Ret: "status_from_db raw = Ret st \<longleftrightarrow> raw = status_to_db st"
proof
  assume "status_from_db raw = Ret st"
  then have "status_to_db st = raw" unfolding status_from_db_def by (rule find_or_panic)
  then show "raw = status_to_db st" ..
qed (simp add: status_round_trip)

lemma update_identity:
  assumes "\<And>r. identity_of (f r) = identity_of r"
  shows "map identity_of (db_scans (snd (update_scans k f d))) = map identity_of (db_scans d)"
    "db_units (snd (update_scans k f d)) = db_units d"
  using assms by (simp_all add: update_scans_def)

lemma insert_units_scans: "insert_units k us d = Inr d' \<Longrightarrow> db_scans d' = db_scans d"
  by (induction us arbitrary: d)
    (auto simp: res_bind_Inr_iff insert_unit_def split: if_splits)

lemma run_update_Inr:
  "run_update i (update_scans k f d) d = (Inr (), d') \<Longrightarrow> d' = snd (update_scans k f d)"
  by (auto simp: run_update_def split: prod.splits if_splits)

lemma update_effect:
  "set_status encode i st now d = (Inr (), d') \<Longrightarrow>
     \<exists>f. (\<forall>r. identity_of (f r) = identity_of r) \<and> d' = snd (update_scans (id_display encode ''scan'' i) f d)"
  "record_progress encode i l p t now d = (Inr (), d') \<Longrightarrow>
     \<exists>f. (\<forall>r. identity_of (f r) = identity_of r) \<and> d' = snd (update_scans (id_display encode ''scan'' i) f d)"
  unfolding set_status_def record_progress_def
  by (auto split: sum.splits dest!: run_update_Inr) (rule exI, rule conjI [OF _ refl], simp add: identity_of_def)+

lemma identities_grow: "db_step encode d d' \<Longrightarrow> prefix (map identity_of (db_scans d)) (map identity_of (db_scans d'))"
proof (induction rule: db_step.induct)
  case (step_insert req scan_id now row pk_first d d')
  then show ?case by (auto simp: insert_scan_def Let_def split: if_splits)
next
  case (step_status scan_id status now d d')
  then show ?case using update_effect(1) update_identity(1) by (metis prefix_order.order_refl)
next
  case (step_progress scan_id l p t now d d')
  then show ?case using update_effect(2) update_identity(1) by (metis prefix_order.order_refl)
next
  case (step_units scan_id us d d')
  then show ?case by (auto simp: mark_units_done_def dest: insert_units_scans split: sum.splits)
qed

lemma identities_grow_steps:
  "db_steps encode d d' \<Longrightarrow> prefix (map identity_of (db_scans d)) (map identity_of (db_scans d'))"
  by (induction rule: rtranclp_induct) (auto dest: identities_grow intro: prefix_order.trans)

lemma row_survives:
  assumes "db_steps encode d d'" "r \<in> set (db_scans d)"
  shows "\<exists>r' \<in> set (db_scans d'). identity_of r' = identity_of r"
proof -
  have "identity_of r \<in> set (map identity_of (db_scans d'))"
    using identities_grow_steps [OF assms(1)] assms(2) by (auto simp: prefix_def) (metis image_eqI set_map UnI1 set_append)
  then show ?thesis by auto
qed

lemma row_ok_iff:
  "row_ok decode r \<longleftrightarrow>
     (\<exists>i. id_from_str decode ''scan'' (r_scan_id r) = Inr i) \<and> (\<exists>p. digest_from_str (r_plan_hash r) = Inr p) \<and>
     (\<exists>c. id_from_str decode ''scope'' (r_scope_id r) = Inr c) \<and> (\<exists>st. status_from_db (r_status r) = Ret st) \<and>
     0 \<le> r_estimated_targets r \<and> 0 \<le> r_estimated_probes r \<and> 0 \<le> r_packets_spent r \<and>
     0 \<le> r_elapsed_seconds r \<and> 0 \<le> r_last_sequence r"
  unfolding row_ok_def row_to_record_def
  by (cases "id_from_str decode ''scan'' (r_scan_id r)"; cases "digest_from_str (r_plan_hash r)";
      cases "id_from_str decode ''scope'' (r_scope_id r)"; cases "status_from_db (r_status r)")
    (simp_all add: from_sql_def)

lemma update_scan_ids: "(\<And>r. identity_of (f r) = identity_of r) \<Longrightarrow>
    map r_scan_id (db_scans (snd (update_scans k f d))) = map r_scan_id (db_scans d) \<and>
    map r_idempotency_key (db_scans (snd (update_scans k f d))) = map r_idempotency_key (db_scans d)"
  by (simp add: update_scans_def identity_of_def)

lemma update_ok:
  assumes "db_ok decode d" "\<And>r. identity_of (f r) = identity_of r" "\<And>r. row_ok decode r \<Longrightarrow> row_ok decode (f r)"
  shows "db_ok decode (snd (update_scans k f d))"
proof -
  let ?d = "snd (update_scans k f d)"
  have "list_all (row_ok decode) (db_scans ?d)"
    using assms(1,3) by (auto simp: db_ok_def update_scans_def list_all_iff)
  moreover have "r_scan_id ` set (db_scans ?d) = r_scan_id ` set (db_scans d)"
    using update_scan_ids [of f k d] assms(2) by (metis list.set_map)
  ultimately show ?thesis
    using assms(1) update_scan_ids [of f k d] assms(2) update_identity(2) [of f k d]
    unfolding db_ok_def by (simp only:)
qed

lemma insert_unit_ok:
  "db_ok decode d \<Longrightarrow> 0 \<le> u \<Longrightarrow> u < 2 ^ 63 \<Longrightarrow> insert_unit k u d = Inr d' \<Longrightarrow> db_ok decode d'"
  by (auto simp: db_ok_def insert_unit_def list_ex_iff split: if_splits)

lemma insert_units_ok:
  "insert_units k us d = Inr d' \<Longrightarrow> db_ok decode d \<Longrightarrow>
     db_ok decode d' \<and> set (db_units d') = set (db_units d) \<union> (\<lambda>u. (k, uint u)) ` set us"
proof (induction us arbitrary: d)
  case (Cons u us)
  then obtain i d1 where i: "to_sql u = Inr i" and d1: "insert_unit k i d = Inr d1"
    and r: "insert_units k us d1 = Inr d'" by (auto simp: res_bind_Inr_iff)
  have "i = uint u" using i by (simp add: to_sql_def split: if_splits)
  moreover have "set (db_units d1) = insert (k, i) (set (db_units d))"
    using d1 by (auto simp: insert_unit_def split: if_splits)
  moreover have "db_ok decode d1" using insert_unit_ok [OF Cons.prems(2) _ _ d1] from_to_sql [OF i] by blast
  ultimately show ?case using Cons.IH [OF r] by simp
qed simp

lemma find_map_same: "(\<And>x. P (g x) = P x) \<Longrightarrow> find P (map g xs) = map_option g (find P xs)"
  by (induction xs) simp_all

lemma find_Some_key: "find P xs = Some x \<Longrightarrow> P x"
  by (induction xs) (auto split: if_splits)

text \<open>What a call may answer about a key from the database it read.\<close>

definition answers :: "(u128 \<Rightarrow> string) \<Rightarrow> db \<Rightarrow> string \<Rightarrow> digest \<Rightarrow> store_error + start_outcome \<Rightarrow> bool" where
  "answers encode d key plan ans =
     (case ans of
        Inr (Reused j st) \<Rightarrow>
          list_ex (\<lambda>r. r_idempotency_key r = key \<and> r_plan_hash r = digest_display plan \<and>
            r_scan_id r = id_display encode ''scan'' j \<and> r_status r = status_to_db st) (db_scans d)
      | Inl (IdempotencyConflict k p q) \<Rightarrow>
          k = key \<and> q = plan \<and> p \<noteq> q \<and>
          list_ex (\<lambda>r. r_idempotency_key r = key \<and> r_plan_hash r = digest_display p) (db_scans d)
      | _ \<Rightarrow> False)"

text \<open>The idempotency contract of one call that saw \<open>d0\<close>, \<open>d1\<close>, \<open>d2\<close> and left \<open>d'\<close>.\<close>

definition contract ::
  "(u128 \<Rightarrow> string) \<Rightarrow> store_fault \<Rightarrow> start_request \<Rightarrow> u128 \<Rightarrow> db \<Rightarrow> db \<Rightarrow> db \<Rightarrow> store_error + start_outcome \<Rightarrow> db \<Rightarrow> bool"
where
  "contract encode fault req i d0 d1 d2 ans d' =
     (case ans of
        Inr (Started j) \<Rightarrow>
          j = i \<and> (\<forall>r \<in> set (db_scans d1). r_idempotency_key r \<noteq> sq_idempotency_key req) \<and>
          (\<exists>row. db_scans d' = db_scans d1 @ [row] \<and> r_idempotency_key row = sq_idempotency_key req \<and>
             r_plan_hash row = digest_display (sq_plan_hash req) \<and>
             r_scan_id row = id_display encode ''scan'' i \<and> r_status row = status_to_db TPending)
      | Inl (Sqlite e) \<Rightarrow>
          d' \<in> {d0, d1, d2} \<and> (fault \<noteq> StoreOk \<or> e = OutOfRange \<or> e = ConstraintPrimaryKey)
      | _ \<Rightarrow> d' \<in> {d0, d2} \<and> answers encode d' (sq_idempotency_key req) (sq_plan_hash req) ans)"

lemma answers_contract:
  "answers encode d (sq_idempotency_key req) (sq_plan_hash req) ans \<Longrightarrow> d = d0 \<or> d = d2 \<Longrightarrow>
     contract encode fault req i d0 d1 d2 ans d"
  by (auto simp: answers_def contract_def split: sum.splits store_error.splits start_outcome.splits)

lemma find_key:
  "distinct (map f xs) \<Longrightarrow> x \<in> set xs \<Longrightarrow> f x = k \<Longrightarrow> find (\<lambda>y. f y = k) xs = Some x"
  by (induction xs) (auto simp: image_iff)

context ulid_laws
begin

lemma new_row_ok:
  assumes "new_row encode req i now = Inr row" "digest_wf (sq_plan_hash req)"
  shows "row_ok decode row" "r_scan_id row = id_display encode ''scan'' i"
    "r_idempotency_key row = sq_idempotency_key req"
    "r_plan_hash row = digest_display (sq_plan_hash req)" "r_status row = status_to_db TPending"
  using assms id_from_str_exact digest_from_str_iff status_round_trip [of TPending]
  by (auto simp: new_row_def res_bind_Inr_iff row_ok_iff dest!: from_to_sql)

lemma insert_scan_ok:
  assumes "db_ok decode d" "row_ok decode row" "insert_scan pk_first row d = Inr d'"
  shows "db_ok decode d'" "db_scans d' = db_scans d @ [row]"
    "\<forall>r \<in> set (db_scans d). r_idempotency_key r \<noteq> r_idempotency_key row"
  using assms
  by (fastforce simp: insert_scan_def Let_def db_ok_def list_ex_iff list_all_iff split: if_splits)+

lemma step_ok: "db_step encode d d' \<Longrightarrow> db_ok decode d \<Longrightarrow> db_ok decode d'"
proof (induction rule: db_step.induct)
  case (step_insert req i now row pk_first d d')
  then show ?case using new_row_ok(1) insert_scan_ok(1) by blast
next
  case (step_status i st now d d')
  have d': "d' = snd (update_scans (id_display encode ''scan'' i)
      (\<lambda>r. r\<lparr>r_status := status_to_db st, r_updated_at := now\<rparr>) d)"
    using step_status(1) unfolding set_status_def by (rule run_update_Inr)
  show ?case
    unfolding d' by (rule update_ok [OF step_status(2)]) (auto simp: identity_of_def row_ok_iff status_round_trip)
next
  case (step_progress i l p t now d d')
  then obtain a b c where abc: "to_sql l = Inr a" "to_sql p = Inr b" "to_sql t = Inr c"
    and run: "run_update i (update_scans (id_display encode ''scan'' i)
      (\<lambda>r. r\<lparr>r_last_sequence := a, r_packets_spent := b, r_elapsed_seconds := c, r_updated_at := now\<rparr>) d) d
      = (Inr (), d')"
    by (auto simp: record_progress_def res_bind_Inr_iff split: sum.splits)
  show ?case
    unfolding run_update_Inr [OF run]
    by (rule update_ok [OF step_progress(2)]) (use abc in \<open>auto simp: identity_of_def row_ok_iff dest!: from_to_sql\<close>)
next
  case (step_units i us d d')
  then show ?case by (auto simp: mark_units_done_def dest: insert_units_ok split: sum.splits)
qed

lemma steps_ok: "db_steps encode d d' \<Longrightarrow> db_ok decode d \<Longrightarrow> db_ok decode d'"
  by (induction rule: rtranclp_induct) (auto intro: step_ok)

text \<open>A lookup never panics on a database the store wrote, and answers by the one row with the key.\<close>

lemma lookup_unseen:
  "\<forall>r \<in> set (db_scans d). r_idempotency_key r \<noteq> key \<Longrightarrow> store_lookup decode d key plan = Ret (Inr None)"
proof -
  assume "\<forall>r \<in> set (db_scans d). r_idempotency_key r \<noteq> key"
  then have "find (\<lambda>r. r_idempotency_key r = key) (db_scans d) = None" by (simp add: find_None_iff)
  then show ?thesis by (simp add: store_lookup_def)
qed

lemma lookup_seen:
  assumes ok: "db_ok decode d" and r: "r \<in> set (db_scans d)" "r_idempotency_key r = key"
  shows "\<exists>p i st. digest_wf p \<and> r_plan_hash r = digest_display p \<and> r_scan_id r = id_display encode ''scan'' i \<and>
    r_status r = status_to_db st \<and>
    store_lookup decode d key plan =
      Ret (if p = plan then Inr (Some (Reused i st)) else Inl (IdempotencyConflict key p plan))"
proof -
  have "distinct (map r_idempotency_key (db_scans d))" using ok by (simp add: db_ok_def)
  then have "find (\<lambda>r'. r_idempotency_key r' = key) (db_scans d) = Some r"
    using r by (rule find_key)
  moreover have "row_ok decode r" using ok r(1) by (simp add: db_ok_def list_all_iff)
  then obtain p i st where p: "digest_from_str (r_plan_hash r) = Inr p"
    "id_from_str decode ''scan'' (r_scan_id r) = Inr i" "status_from_db (r_status r) = Ret st"
    by (auto simp: row_ok_iff)
  ultimately have "store_lookup decode d key plan =
      Ret (if p = plan then Inr (Some (Reused i st)) else Inl (IdempotencyConflict key p plan))"
    by (simp add: store_lookup_def)
  then show ?thesis
    using p unfolding digest_from_str_iff id_from_str_exact status_from_Ret by blast
qed

lemma lookup_answers:
  assumes "db_ok decode d"
  shows "(store_lookup decode d key plan = Ret (Inr None) \<and> (\<forall>r \<in> set (db_scans d). r_idempotency_key r \<noteq> key)) \<or>
    (\<exists>out. store_lookup decode d key plan = Ret (Inr (Some out)) \<and> answers encode d key plan (Inr out)) \<or>
    (\<exists>e. store_lookup decode d key plan = Ret (Inl e) \<and> answers encode d key plan (Inl e))"
proof (cases "\<forall>r \<in> set (db_scans d). r_idempotency_key r \<noteq> key")
  case True
  then show ?thesis using lookup_unseen by blast
next
  case False
  then obtain r where r: "r \<in> set (db_scans d)" "r_idempotency_key r = key" by blast
  obtain p i st where row: "digest_wf p" "r_plan_hash r = digest_display p"
    "r_scan_id r = id_display encode ''scan'' i" "r_status r = status_to_db st"
    and out: "store_lookup decode d key plan =
      Ret (if p = plan then Inr (Some (Reused i st)) else Inl (IdempotencyConflict key p plan))"
    using lookup_seen [OF assms r] by blast
  show ?thesis
  proof (cases "p = plan")
    case True
    have "answers encode d key plan (Inr (Reused i st))"
      using r row True by (auto simp: answers_def list_ex_iff)
    then show ?thesis using out True by auto
  next
    case False
    then have "answers encode d key plan (Inl (IdempotencyConflict key p plan))"
      using r row by (auto simp: answers_def list_ex_iff)
    then show ?thesis using out False by auto
  qed
qed

text \<open>A losing insert has the winner's row to read: the row that made it lose is still there.\<close>

lemma lost_race:
  assumes "insert_scan pk_first row d1 = Inl ConstraintUnique" "db_steps encode d1 d2" "db_ok decode d2"
  shows "(\<exists>out. store_lookup decode d2 (r_idempotency_key row) plan = Ret (Inr (Some out)) \<and>
      answers encode d2 (r_idempotency_key row) plan (Inr out)) \<or>
    (\<exists>e. store_lookup decode d2 (r_idempotency_key row) plan = Ret (Inl e) \<and>
      answers encode d2 (r_idempotency_key row) plan (Inl e))"
proof -
  obtain r where r: "r \<in> set (db_scans d1)" "r_idempotency_key r = r_idempotency_key row"
    using assms(1) by (auto simp: insert_scan_def Let_def list_ex_iff split: if_splits)
  obtain r' where "r' \<in> set (db_scans d2)" "identity_of r' = identity_of r"
    using row_survives [OF assms(2) r(1)] by blast
  then have "\<not> (\<forall>r \<in> set (db_scans d2). r_idempotency_key r \<noteq> r_idempotency_key row)"
    using r(2) by (auto simp: identity_of_def)
  then show ?thesis using lookup_answers [OF assms(3)] by blast
qed

lemma insert_errors:
  assumes "res_bind (new_row encode req i now) (\<lambda>row. insert_scan pk_first row d1) = Inl e"
  shows "e = OutOfRange \<or> e = ConstraintPrimaryKey \<or>
    (e = ConstraintUnique \<and> (\<exists>row. r_idempotency_key row = sq_idempotency_key req \<and>
       insert_scan pk_first row d1 = Inl ConstraintUnique))"
proof (cases "new_row encode req i now")
  case (Inl e')
  then have "e' = OutOfRange"
    by (auto simp: new_row_def to_sql_def split: if_splits)
  then show ?thesis using assms Inl by simp
next
  case (Inr row)
  then have "r_idempotency_key row = sq_idempotency_key req"
    by (auto simp: new_row_def res_bind_Inr_iff)
  moreover have "insert_scan pk_first row d1 = Inl e" using assms Inr by simp
  moreover from this have "e = ConstraintPrimaryKey \<or> e = ConstraintUnique"
    by (auto simp: insert_scan_def Let_def split: if_splits)
  ultimately show ?thesis by blast
qed

lemma insert_succeeds:
  assumes "res_bind (new_row encode req i now) (\<lambda>row. insert_scan pk_first row d1) = Inr d'"
    and "db_ok decode d1" "digest_wf (sq_plan_hash req)"
  shows "db_ok decode d' \<and> contract encode fault req i d0 d1 d2 (Inr (Started i)) d'"
proof -
  obtain row where row: "new_row encode req i now = Inr row" "insert_scan pk_first row d1 = Inr d'"
    using assms(1) by (auto simp: res_bind_Inr_iff)
  note ok = new_row_ok [OF row(1) assms(3)] and ins = insert_scan_ok [OF assms(2) _ row(2)]
  show ?thesis using ins [OF ok(1)] ok(2-) by (auto simp: contract_def)
qed

text \<open>The part of a call after a first lookup that found nothing.\<close>

lemma insert_phase:
  assumes d: "db_ok decode d1" "db_ok decode d2" "db_steps encode d1 d2" "digest_wf (sq_plan_hash req)"
    and none: "store_lookup decode d0 (sq_idempotency_key req) (sq_plan_hash req) = Ret (Inr None)"
    and run: "start_or_reuse encode decode pk_first StoreOk req i now d0 d1 d2 = (res, d')"
  shows "\<exists>ans. res = Ret ans \<and> db_ok decode d' \<and> contract encode StoreOk req i d0 d1 d2 ans d'"
proof (cases "res_bind (new_row encode req i now) (\<lambda>row. insert_scan pk_first row d1)")
  case (Inr d1')
  then have "res = Ret (Inr (Started i))" "d' = d1'"
    using run none by (simp_all add: start_or_reuse_def Let_def)
  then show ?thesis using insert_succeeds [OF Inr d(1,4)] by blast
next
  case (Inl e)
  consider "e \<noteq> ConstraintUnique" "e = OutOfRange \<or> e = ConstraintPrimaryKey"
    | row where "e = ConstraintUnique" "r_idempotency_key row = sq_idempotency_key req"
      "insert_scan pk_first row d1 = Inl ConstraintUnique"
    using insert_errors [OF Inl] by auto
  then show ?thesis
  proof cases
    case 1
    then have "res = Ret (Inl (Sqlite e))" "d' = d1"
      using run none Inl by (simp_all add: start_or_reuse_def Let_def is_unique_violation_def)
    then show ?thesis using d(1) 1(2) by (auto simp: contract_def)
  next
    case 2
    from lost_race [OF 2(3) d(3,2), of "sq_plan_hash req"] show ?thesis
      unfolding 2(2)
    proof (elim disjE exE conjE)
      fix out assume a: "store_lookup decode d2 (sq_idempotency_key req) (sq_plan_hash req) = Ret (Inr (Some out))"
        "answers encode d2 (sq_idempotency_key req) (sq_plan_hash req) (Inr out)"
      then have "res = Ret (Inr out)" "d' = d2"
        using run none Inl 2(1) by (simp_all add: start_or_reuse_def Let_def is_unique_violation_def)
      then show ?thesis using a(2) d(2) by (auto intro: answers_contract)
    next
      fix e' assume a: "store_lookup decode d2 (sq_idempotency_key req) (sq_plan_hash req) = Ret (Inl e')"
        "answers encode d2 (sq_idempotency_key req) (sq_plan_hash req) (Inl e')"
      then have "res = Ret (Inl e')" "d' = d2"
        using run none Inl 2(1) by (simp_all add: start_or_reuse_def Let_def is_unique_violation_def)
      then show ?thesis using a(2) d(2) by (auto intro: answers_contract)
    qed
  qed
qed

text \<open>A failing engine: the call reports it, or answers from a row that is there, and inserts nothing.\<close>

lemma fault_phase:
  assumes d: "db_ok decode d0" "db_ok decode d1" "db_ok decode d2" and f: "fault \<noteq> StoreOk"
    and none: "store_lookup decode d0 (sq_idempotency_key req) (sq_plan_hash req) = Ret (Inr None)"
    and run: "start_or_reuse encode decode pk_first fault req i now d0 d1 d2 = (res, d')"
    and new: "digest_wf (sq_plan_hash req)"
  shows "\<exists>ans. res = Ret ans \<and> db_ok decode d' \<and> contract encode fault req i d0 d1 d2 ans d'"
proof -
  let ?key = "sq_idempotency_key req" and ?plan = "sq_plan_hash req"
  let ?ins = "res_bind (new_row encode req i now) (\<lambda>row. insert_scan pk_first row d1)"
  have sqlite: "contract encode fault req i d0 d1 d2 (Inl (Sqlite e)) d" if "d \<in> {d0, d1, d2}" for e d
    using f that by (simp add: contract_def)
  have answered: "contract encode fault req i d0 d1 d2 ans d2" if "answers encode d2 ?key ?plan ans" for ans
    using that by (auto intro: answers_contract)
  consider (lookup) e where "res = Ret (Inl (Sqlite e))" "d' \<in> {d0, d1, d2}"
    | (relookup) "d' = d2" "res = (case store_lookup decode d2 ?key ?plan of Panic \<Rightarrow> Panic
        | Ret (Inl e) \<Rightarrow> Ret (Inl e) | Ret (Inr (Some out)) \<Rightarrow> Ret (Inr out)
        | Ret (Inr None) \<Rightarrow> Ret (Inl (Sqlite ConstraintUnique)))"
    | (inserted) "?ins = Inr d'" "res = Ret (Inr (Started i))"
    using run none f
    by (cases fault; cases ?ins; cases "store_lookup decode d2 ?key ?plan")
      (auto simp: start_or_reuse_def Let_def is_unique_violation_def split: if_splits sum.splits option.splits)
  then show ?thesis
  proof cases
    case lookup
    then show ?thesis using sqlite d by auto
  next
    case relookup
    from lookup_answers [OF d(3), of ?key ?plan] show ?thesis
      using relookup d(3) answered sqlite by auto
  next
    case inserted
    then show ?thesis using insert_succeeds [OF inserted(1) d(2) new] by blast
  qed
qed

lemma start_contract:
  assumes d: "db_ok decode d0" "db_steps encode d0 d1" "db_steps encode d1 d2" "digest_wf (sq_plan_hash req)"
    and run: "start_or_reuse encode decode pk_first fault req i now d0 d1 d2 = (res, d')"
  shows "\<exists>ans. res = Ret ans \<and> db_ok decode d' \<and> contract encode fault req i d0 d1 d2 ans d'"
proof -
  let ?key = "sq_idempotency_key req" and ?plan = "sq_plan_hash req"
  have ok: "db_ok decode d1" "db_ok decode d2"
    using steps_ok d(1,2,3) by blast+
  show ?thesis
  proof (cases "\<exists>e. fault = LookupFault e")
    case True
    then show ?thesis using run d(1) by (auto simp: start_or_reuse_def Let_def contract_def)
  next
    case False
    from lookup_answers [OF d(1), of ?key ?plan] show ?thesis
    proof (elim disjE exE conjE)
      assume none: "store_lookup decode d0 ?key ?plan = Ret (Inr None)"
      show ?thesis
        using insert_phase [OF ok d(3,4) none] fault_phase [OF d(1) ok _ none run d(4)] run by blast
    next
      fix out assume a: "store_lookup decode d0 ?key ?plan = Ret (Inr (Some out))" "answers encode d0 ?key ?plan (Inr out)"
      then have "res = Ret (Inr out)" "d' = d0"
        using run False by (auto simp: start_or_reuse_def Let_def split: store_fault.splits)
      then show ?thesis using a(2) d(1) by (auto intro: answers_contract)
    next
      fix e assume a: "store_lookup decode d0 ?key ?plan = Ret (Inl e)" "answers encode d0 ?key ?plan (Inl e)"
      then have "res = Ret (Inl e)" "d' = d0"
        using run False by (auto simp: start_or_reuse_def Let_def split: store_fault.splits)
      then show ?thesis using a(2) d(1) by (auto intro: answers_contract)
    qed
  qed
qed

lemma retry_answers:
  assumes d: "db_ok decode d" "db_steps encode d d0" and r: "r \<in> set (db_scans d)"
    "r_idempotency_key r = sq_idempotency_key req"
  shows "\<exists>p j st. r_plan_hash r = digest_display p \<and> r_scan_id r = id_display encode ''scan'' j \<and>
    start_or_reuse encode decode pk_first StoreOk req i now d0 d1 d2 =
      (Ret (if p = sq_plan_hash req then Inr (Reused j st)
            else Inl (IdempotencyConflict (sq_idempotency_key req) p (sq_plan_hash req))), d0)"
proof -
  obtain r' where r': "r' \<in> set (db_scans d0)" "identity_of r' = identity_of r"
    using row_survives [OF d(2) r(1)] by blast
  then have key: "r_idempotency_key r' = sq_idempotency_key req"
    and same: "r_plan_hash r' = r_plan_hash r" "r_scan_id r' = r_scan_id r"
    using r(2) by (simp_all add: identity_of_def)
  obtain p j st where "r_plan_hash r' = digest_display p" "r_scan_id r' = id_display encode ''scan'' j"
    "store_lookup decode d0 (sq_idempotency_key req) (sq_plan_hash req) =
      Ret (if p = sq_plan_hash req then Inr (Some (Reused j st))
           else Inl (IdempotencyConflict (sq_idempotency_key req) p (sq_plan_hash req)))"
    using lookup_seen [OF steps_ok [OF d(2,1)] r'(1) key] by blast
  then show ?thesis
    unfolding same by (auto simp: start_or_reuse_def Let_def)
qed

end

section \<open>Finished units\<close>

definition done_units :: "(u128 \<Rightarrow> string) \<Rightarrow> u128 \<Rightarrow> db \<Rightarrow> u64 set" where
  "done_units encode i d = {u. (id_display encode ''scan'' i, uint u) \<in> set (db_units d)}"

lemma collect_from_sql: "\<forall>i \<in> set is. 0 \<le> i \<Longrightarrow> collect_results from_sql is = Inr (map of_int is)"
  by (induction "is") (simp_all add: from_sql_def)

lemma uint_of_int_range: "0 \<le> i \<Longrightarrow> i < 2 ^ 63 \<Longrightarrow> uint (of_int i :: u64) = i"
  by (simp add: uint_word_of_int)

lemma completed_units_exact:
  assumes "db_ok decode d"
  shows "\<exists>us. completed_units encode i d = Inr us \<and> sorted_wrt (<) us \<and> set us = done_units encode i d"
proof -
  define k where "k = id_display encode ''scan'' i"
  define L where "L = sort (map snd (filter (\<lambda>ku. fst ku = k) (db_units d)))"
  have setL: "set L = {u. (k, u) \<in> set (db_units d)}" by (force simp: L_def)
  have range: "0 \<le> u \<and> u < 2 ^ 63" if "u \<in> set L" for u
    using assms that unfolding setL db_ok_def list_all_iff by blast
  have "inj_on snd (set (filter (\<lambda>ku. fst ku = k) (db_units d)))" by (auto simp: inj_on_def)
  then have "distinct L" using assms by (simp add: L_def distinct_map db_ok_def)
  then have sorted: "sorted_wrt (<) L" by (simp add: strict_sorted_iff L_def)
  have u: "uint (of_int v :: u64) = v" if "v \<in> set L" for v
    using range [OF that] uint_of_int_range by blast
  have "sorted_wrt (<) (map (of_int :: int \<Rightarrow> u64) L)"
    unfolding sorted_wrt_map
    using sorted by (rule sorted_wrt_mono_rel [rotated]) (simp add: word_less_def u)
  moreover have "set (map (of_int :: int \<Rightarrow> u64) L) = done_units encode i d"
  proof (rule set_eqI)
    fix v :: u64
    have "v \<in> set (map of_int L) \<longleftrightarrow> uint v \<in> set L"
      using u by (metis (no_types, lifting) imageE image_eqI list.set_map word_of_int_uint)
    then show "v \<in> set (map of_int L) \<longleftrightarrow> v \<in> done_units encode i d"
      by (simp add: done_units_def setL k_def)
  qed
  moreover have "completed_units encode i d = Inr (map of_int L)"
    using collect_from_sql [of L] range by (simp add: completed_units_def L_def [symmetric] k_def [symmetric])
  ultimately show ?thesis by blast
qed

lemma pending_loop_least:
  assumes "sorted_wrt (<) us" "\<forall>u \<in> set us. c \<le> unat u" "limit < 2 ^ 64"
  shows "case pending_loop c limit us of
      Some u \<Rightarrow> c \<le> unat u \<and> unat u < limit \<and> u \<notin> set us \<and> (\<forall>v. c \<le> unat v \<and> v < u \<longrightarrow> v \<in> set us)
    | None \<Rightarrow> \<forall>v. c \<le> unat v \<and> unat v < limit \<longrightarrow> v \<in> set us"
  using assms
proof (induction c limit us rule: pending_loop.induct)
  case (1 c limit us)
  show ?case
  proof (cases "limit \<le> c")
    case True
    then show ?thesis by (subst pending_loop.simps) auto
  next
    case False
    then have c: "unat (of_nat c :: u64) = c" using 1(4) by (intro unat_of_nat_small) simp
    have none_below: "\<not> (c \<le> unat v \<and> v < of_nat c)" for v :: u64
      by (simp add: word_less_nat_alt c)
    show ?thesis
    proof (cases us)
      case Nil
      then show ?thesis using False c none_below by (subst pending_loop.simps) simp
    next
      case (Cons u rest)
      show ?thesis
      proof (cases "u = of_nat c")
        case True
        have later: "\<forall>v \<in> set rest. Suc c \<le> unat v"
          using 1(2) Cons True c by (auto simp: word_less_nat_alt Suc_le_eq)
        have eq: "pending_loop c limit us = pending_loop (Suc c) limit rest"
          using False True Cons by (subst pending_loop.simps) simp
        have split: "c \<le> unat v \<longleftrightarrow> v = u \<or> Suc c \<le> unat v" for v :: u64
          using c True by (auto simp: le_Suc_eq not_less_eq_eq word_unat_eq_iff)
        have "sorted_wrt (<) rest" using 1(2) Cons by simp
        from "1.IH" [OF False Cons True this later 1(4)] show ?thesis
          unfolding eq using Cons split c True by (auto split: option.splits)
      next
        case u: False
        then have "c < unat u" using 1(3) Cons c by (auto simp: le_less word_unat_eq_iff)
        then have "of_nat c \<notin> set us"
          using 1(2) Cons u c by (auto simp: word_less_nat_alt)
        then show ?thesis
          using False u Cons c none_below by (subst pending_loop.simps) (simp, blast)
      qed
    qed
  qed
qed

section \<open>Progress\<close>

context ulid_laws
begin

lemma progress_get:
  assumes d: "db_ok decode d" and row: "\<exists>r \<in> set (db_scans d). r_scan_id r = id_display encode ''scan'' i"
    and range: "uint l < 2 ^ 63" "uint p < 2 ^ 63" "uint t < 2 ^ 63"
  shows "\<exists>d' rec rec'. record_progress encode i l p t now d = (Inr (), d') \<and> db_ok decode d' \<and>
    store_get encode decode i d = Ret (Inr (Some rec)) \<and> store_get encode decode i d' = Ret (Inr (Some rec')) \<and>
    rec' = rec\<lparr>tr_last_sequence := l, tr_packets_spent := p, tr_elapsed_seconds := t, tr_updated_at := now\<rparr> \<and>
    (\<forall>j. j \<noteq> i \<longrightarrow> store_get encode decode j d' = store_get encode decode j d)"
proof -
  let ?k = "id_display encode ''scan'' i"
  define f :: "scan_row \<Rightarrow> scan_row" where "f = (\<lambda>r. r\<lparr>r_last_sequence := uint l, r_packets_spent := uint p,
    r_elapsed_seconds := uint t, r_updated_at := now\<rparr>)"
  define d' where "d' = snd (update_scans ?k f d)"
  obtain r where r: "r \<in> set (db_scans d)" "r_scan_id r = ?k" using row by blast
  have dist: "distinct (map r_scan_id (db_scans d))" using d by (simp add: db_ok_def)
  have sql: "to_sql l = Inr (uint l)" "to_sql p = Inr (uint p)" "to_sql t = Inr (uint t)"
    using range by (simp_all add: to_sql_def)
  have "filter (\<lambda>r. r_scan_id r = ?k) (db_scans d) \<noteq> []" using r by (auto simp: filter_empty_conv)
  then have run: "record_progress encode i l p t now d = (Inr (), d')"
    by (simp add: record_progress_def sql run_update_def update_scans_def d'_def f_def)
  have find: "find (\<lambda>r. r_scan_id r = id_display encode ''scan'' j) (db_scans d') =
      map_option (\<lambda>r. if r_scan_id r = ?k then f r else r)
        (find (\<lambda>r. r_scan_id r = id_display encode ''scan'' j) (db_scans d))" for j
    unfolding d'_def update_scans_def by (simp add: find_map_same f_def)
  have ok: "row_ok decode r" using d r(1) by (simp add: db_ok_def list_all_iff)
  then obtain rec where rec: "row_to_record decode r = Ret (Inr rec)"
    by (auto simp: row_ok_def split: rust.splits sum.splits)
  have "row_to_record decode (f r) =
      Ret (Inr (rec\<lparr>tr_last_sequence := l, tr_packets_spent := p, tr_elapsed_seconds := t, tr_updated_at := now\<rparr>))"
  proof -
    obtain a b c e where parts: "id_from_str decode ''scan'' (r_scan_id r) = Inr a"
      "digest_from_str (r_plan_hash r) = Inr b" "id_from_str decode ''scope'' (r_scope_id r) = Inr c"
      "status_from_db (r_status r) = Ret e" and nn: "0 \<le> r_estimated_targets r" "0 \<le> r_estimated_probes r"
      "0 \<le> r_packets_spent r" "0 \<le> r_elapsed_seconds r" "0 \<le> r_last_sequence r"
      using ok by (auto simp: row_ok_iff)
    show ?thesis
      using rec parts nn by (auto simp: row_to_record_def f_def from_sql_def)
  qed
  moreover have "find (\<lambda>r. r_scan_id r = ?k) (db_scans d) = Some r"
    using dist r by (rule find_key)
  moreover have "db_ok decode d'" using step_ok [OF step_progress [OF run] d] .
  moreover have "store_get encode decode j d' = store_get encode decode j d" if "j \<noteq> i" for j
  proof -
    have "id_display encode ''scan'' j \<noteq> ?k" using that id_from_str_exact by (metis sum.inject(2))
    then show ?thesis
      unfolding store_get_def find
      by (auto split: option.splits dest!: find_Some_key)
  qed
  ultimately show ?thesis
    using run r(2) rec by (auto simp: store_get_def find f_def [symmetric])
qed

end

lemma migration_keeps_rows:
  assumes "df_user_version f = 0" "df_scans f = WithoutElapsed d" "store_open f = (r, f')"
  shows "r = Inr () \<and> df_user_version f' = current_schema_version \<and>
    (\<exists>d'. df_scans f' = WithElapsed d' \<and> map identity_of (db_scans d') = map identity_of (db_scans d) \<and>
       db_units d' = db_units d \<and> (\<forall>r \<in> set (db_scans d'). r_elapsed_seconds r = 0))"
  using assms
  by (auto simp: store_open_def run_schema_def migrate_from_unversioned_def current_schema_version_def identity_of_def)

section \<open>Properties\<close>

definition sample_start :: start_request where
  "sample_start = \<lparr>sq_idempotency_key = ''key'', sq_plan_hash = Digest (replicate 32 0), sq_scope_id = 9,
     sq_request_json = ''{}'', sq_estimated_targets = 1, sq_estimated_probes = 2\<rparr>"

definition empty_db :: db where
  "empty_db = \<lparr>db_scans = [], db_units = []\<rparr>"

definition sample_db :: db where
  "sample_db = empty_db\<lparr>db_scans := [projr (new_row crockford_encode sample_start 5 ''t'')]\<rparr>"

lemma sample_wf: "digest_wf (sq_plan_hash sample_start)"
  by (simp add: sample_start_def digest_wf_def)

lemma empty_ok: "db_ok decode empty_db"
  by (simp add: db_ok_def empty_db_def)

lemma sample_row: "\<exists>row. new_row crockford_encode sample_start 5 ''t'' = Inr row \<and> sample_db = empty_db\<lparr>db_scans := [row]\<rparr>"
  by (simp add: sample_db_def new_row_def to_sql_def sample_start_def)

lemma sample_ok:
  "db_ok crockford_decode sample_db" "db_step crockford_encode empty_db sample_db"
  "\<exists>r \<in> set (db_scans sample_db). r_scan_id r = id_display crockford_encode ''scan'' 5 \<and>
     r_idempotency_key r = ''key''"
proof -
  obtain row where row: "new_row crockford_encode sample_start 5 ''t'' = Inr row"
    and d: "sample_db = empty_db\<lparr>db_scans := [row]\<rparr>" using sample_row by blast
  have "insert_scan True row empty_db = Inr sample_db"
    by (simp add: insert_scan_def empty_db_def d)
  then show step: "db_step crockford_encode empty_db sample_db"
    by (rule step_insert [OF row sample_wf])
  show "db_ok crockford_decode sample_db" using ulid.step_ok [OF step empty_ok] .
  show "\<exists>r \<in> set (db_scans sample_db). r_scan_id r = id_display crockford_encode ''scan'' 5 \<and>
     r_idempotency_key r = ''key''"
    using ulid.new_row_ok(2,3) [OF row sample_wf] by (simp add: d sample_start_def)
qed

lemma sample_steps: "db_steps crockford_encode empty_db sample_db"
  using sample_ok(2) by blast

text \<open>
  C22: The idempotency contract holds whatever other connections do between the statements of a
  call: it never panics, at most one row ever carries a key, a new scan is started only when no row
  had the key, and otherwise the answer is the scan already planned identically, or a conflict
  naming the other plan. A lost race gives one of these answers too, never the engine's error.
\<close>

theorem start_or_reuse_contract:
  assumes "ulid_laws encode decode"
    and "db_ok decode d0" "db_steps encode d0 d1" "db_steps encode d1 d2" "digest_wf (sq_plan_hash req)"
    and "start_or_reuse encode decode pk_first fault req i now d0 d1 d2 = (res, d')"
  shows "\<exists>ans. res = Ret ans \<and> db_ok decode d' \<and> contract encode fault req i d0 d1 d2 ans d'"
  using assms by (rule ulid_laws.start_contract)

theorem start_or_reuse_contract_witness:
  "\<exists>ans d'. start_or_reuse crockford_encode crockford_decode True StoreOk sample_start 6 ''u''
       empty_db sample_db sample_db = (Ret ans, d') \<and>
     db_ok crockford_decode d' \<and> contract crockford_encode StoreOk sample_start 6 empty_db sample_db sample_db ans d'"
proof -
  obtain res d' where run: "start_or_reuse crockford_encode crockford_decode True StoreOk sample_start 6 ''u''
      empty_db sample_db sample_db = (res, d')" by (cases "start_or_reuse crockford_encode crockford_decode True
        StoreOk sample_start 6 ''u'' empty_db sample_db sample_db")
  from start_or_reuse_contract [OF ulid.ulid_laws_axioms empty_ok sample_steps
      rtranclp.rtrancl_refl sample_wf run] run
  show ?thesis by blast
qed

text \<open>
  C23: Once a row carries a key, every later call with that key, after any changes by any connection,
  starts nothing: with the same plan it returns that scan, with another plan it is refused with both
  plans named.
\<close>

theorem retry_gets_the_same_scan:
  assumes "ulid_laws encode decode" "db_ok decode d" "db_steps encode d d0" "r \<in> set (db_scans d)"
    and "r_idempotency_key r = sq_idempotency_key req"
  shows "\<exists>p j st. r_plan_hash r = digest_display p \<and> r_scan_id r = id_display encode ''scan'' j \<and>
    start_or_reuse encode decode pk_first StoreOk req i now d0 d1 d2 =
      (Ret (if p = sq_plan_hash req then Inr (Reused j st)
            else Inl (IdempotencyConflict (sq_idempotency_key req) p (sq_plan_hash req))), d0)"
  using assms by (rule ulid_laws.retry_answers)

theorem retry_gets_the_same_scan_witness:
  "\<exists>j st p. snd (start_or_reuse crockford_encode crockford_decode True StoreOk sample_start 6 ''u''
       sample_db sample_db sample_db) = sample_db \<and>
     fst (start_or_reuse crockford_encode crockford_decode True StoreOk sample_start 6 ''u''
       sample_db sample_db sample_db) \<in> {Ret (Inr (Reused j st)),
         Ret (Inl (IdempotencyConflict ''key'' p (sq_plan_hash sample_start)))}"
proof -
  obtain r where "r \<in> set (db_scans sample_db)" "r_idempotency_key r = ''key''" using sample_ok(3) by blast
  then show ?thesis
    using retry_gets_the_same_scan [OF ulid.ulid_laws_axioms sample_ok(1) rtranclp.rtrancl_refl, of r sample_start
        True 6 "''u''" sample_db sample_db]
    by (auto simp: sample_start_def split: if_splits)
qed

text \<open>
  The counters a scheduler records are the ones a resumption reads back: after
  \<open>record_progress\<close> the scan's record has exactly those counters and that timestamp, its other
  fields and every other scan are as they were.
\<close>

theorem progress_is_read_back:
  assumes "ulid_laws encode decode" "db_ok decode d"
    and "\<exists>r \<in> set (db_scans d). r_scan_id r = id_display encode ''scan'' i"
    and "uint l < 2 ^ 63" "uint p < 2 ^ 63" "uint t < 2 ^ 63"
  shows "\<exists>d' rec rec'. record_progress encode i l p t now d = (Inr (), d') \<and> db_ok decode d' \<and>
    store_get encode decode i d = Ret (Inr (Some rec)) \<and> store_get encode decode i d' = Ret (Inr (Some rec')) \<and>
    rec' = rec\<lparr>tr_last_sequence := l, tr_packets_spent := p, tr_elapsed_seconds := t, tr_updated_at := now\<rparr> \<and>
    (\<forall>j. j \<noteq> i \<longrightarrow> store_get encode decode j d' = store_get encode decode j d)"
  using assms by (rule ulid_laws.progress_get)

theorem progress_is_read_back_witness:
  "\<exists>d' rec. record_progress crockford_encode 5 7 8 9 ''u'' sample_db = (Inr (), d') \<and>
     store_get crockford_encode crockford_decode 5 d' = Ret (Inr (Some rec)) \<and>
     tr_last_sequence rec = 7 \<and> tr_packets_spent rec = 8 \<and> tr_elapsed_seconds rec = 9"
proof -
  have "\<exists>r \<in> set (db_scans sample_db). r_scan_id r = id_display crockford_encode ''scan'' 5"
    using sample_ok(3) by blast
  from progress_is_read_back [OF ulid.ulid_laws_axioms sample_ok(1) this, of 7 8 9 "''u''"]
  show ?thesis by fastforce
qed

text \<open>
  The resumption cursor: \<open>next_pending_unit\<close> is the lowest unit below the total that is not
  recorded as done, and none exactly when all of them are.
\<close>

theorem next_pending_unit_exact:
  assumes "db_ok decode d"
  shows "\<exists>next. next_pending_unit encode i limit d = Inr next \<and>
    (case next of
       Some u \<Rightarrow> u < limit \<and> u \<notin> done_units encode i d \<and> (\<forall>v < u. v \<in> done_units encode i d)
     | None \<Rightarrow> \<forall>v < limit. v \<in> done_units encode i d)"
proof -
  obtain us where us: "completed_units encode i d = Inr us" "sorted_wrt (<) us" "set us = done_units encode i d"
    using completed_units_exact [OF assms] by blast
  have "unat limit < 2 ^ 64" using unat_bounded [of limit] by simp
  from pending_loop_least [OF us(2) _ this, of 0] show ?thesis
    by (auto simp: next_pending_unit_def us word_less_nat_alt split: option.splits)
qed

theorem next_pending_unit_exact_witness:
  "next_pending_unit crockford_encode 5 3 (sample_db\<lparr>db_units := []\<rparr>) = Inr (Some 0)"
proof -
  have none: "done_units crockford_encode 5 (sample_db\<lparr>db_units := []\<rparr>) = {}" by (simp add: done_units_def)
  have "db_ok crockford_decode (sample_db\<lparr>db_units := []\<rparr>)" using sample_ok(1) by (simp add: db_ok_def)
  from next_pending_unit_exact [OF this, of crockford_encode 5 3] obtain x where
    x: "next_pending_unit crockford_encode 5 3 (sample_db\<lparr>db_units := []\<rparr>) = Inr x"
    and c: "case x of Some u \<Rightarrow> u < 3 \<and> u \<notin> {} \<and> (\<forall>v < u. v \<in> {}) | None \<Rightarrow> \<forall>v < (3 :: u64). v \<in> {}"
    unfolding none by blast
  have "x = Some 0"
  proof (cases x)
    case None
    then have "(0 :: u64) < 3 \<Longrightarrow> False" using c by (simp only: option.case) blast
    then show ?thesis by simp
  next
    case (Some u)
    then have "\<not> 0 < u" using c by auto
    then show ?thesis using Some by (simp add: word_gt_0)
  qed
  then show ?thesis using x by simp
qed

end
