(* ===== verification/Clock.thy ===== *)
theory Clock
  imports Canonical
begin

text \<open>
  Time, \<open>crates/bathy-types/src/clock.rs\<close>: the conversion between seconds since 1970 and the text of
  a timestamp, in both directions, and the two clocks. Signed 64-bit integers are \<open>int\<close> with every
  checked operation of the source going through \<open>i64\<close>; \<open>div\<close> and \<open>mod\<close> by a positive constant are
  \<open>div_euclid\<close> and \<open>rem_euclid\<close>. The lemmas show that the two directions are one calendar, and that
  it is the Gregorian one.
\<close>

section \<open>Checked 64-bit arithmetic\<close>

definition i64 :: "int \<Rightarrow> int option" where
  "i64 x = (if - (2 ^ 63) \<le> x \<and> x < 2 ^ 63 then Some x else None)"

definition c_add :: "int \<Rightarrow> int \<Rightarrow> int option" where "c_add a b = i64 (a + b)"
definition c_sub :: "int \<Rightarrow> int \<Rightarrow> int option" where "c_sub a b = i64 (a - b)"
definition c_mul :: "int \<Rightarrow> int \<Rightarrow> int option" where "c_mul a b = i64 (a * b)"

lemma i64_Some [simp]: "- 9000000000000000000 \<le> x \<Longrightarrow> x \<le> 9000000000000000000 \<Longrightarrow> i64 x = Some x"
  by (simp add: i64_def)

section \<open>Formatting\<close>

definition min_formattable_epoch_secs :: int where
  "min_formattable_epoch_secs = - 62167219200"

definition max_formattable_epoch_secs :: int where
  "max_formattable_epoch_secs = 253402300799"

definition earliest_formattable_timestamp :: string where
  "earliest_formattable_timestamp = ''0000-01-01T00:00:00.000Z''"

text \<open>\<open>{:0w}\<close>: zeros up to the width, after the sign.\<close>

definition pad :: "nat \<Rightarrow> int \<Rightarrow> string" where
  "pad w i =
     (let ds = show_nat (nat \<bar>i\<bar>); sign = (if i < 0 then ''-'' else [])
      in sign @ replicate (w - length sign - length ds) (CHR ''0'') @ ds)"

text \<open>Hinnant's \<open>civil_from_days\<close>: year, month and day of a day count.\<close>

definition civil_from_days :: "int \<Rightarrow> (int \<times> int \<times> int) option" where
  "civil_from_days days = do {
     z \<leftarrow> c_add days 719468;
     let era = z div 146097;
     let doe = z mod 146097;
     n1 \<leftarrow> c_sub doe (doe div 1460);
     n2 \<leftarrow> c_add n1 (doe div 36524);
     n3 \<leftarrow> c_sub n2 (doe div 146096);
     let yoe = n3 div 365;
     e400 \<leftarrow> c_mul era 400;
     y \<leftarrow> c_add yoe e400;
     y365 \<leftarrow> c_mul yoe 365;
     s1 \<leftarrow> c_add y365 (yoe div 4);
     s2 \<leftarrow> c_sub s1 (yoe div 100);
     doy \<leftarrow> c_sub doe s2;
     d5 \<leftarrow> c_mul doy 5;
     d52 \<leftarrow> c_add d5 2;
     let mp = d52 div 153;
     m153 \<leftarrow> c_mul mp 153;
     m1532 \<leftarrow> c_add m153 2;
     d0 \<leftarrow> c_sub doy (m1532 div 5);
     d \<leftarrow> c_add d0 1;
     m \<leftarrow> (if mp < 10 then c_add mp 3 else c_sub mp 9);
     y' \<leftarrow> (if m \<le> 2 then c_add y 1 else Some y);
     Some (y', m, d)
   }"

definition format_rfc3339_millis :: "int \<Rightarrow> nat \<Rightarrow> string option" where
  "format_rfc3339_millis epoch_secs millis =
     (if \<not> (min_formattable_epoch_secs \<le> epoch_secs \<and> epoch_secs \<le> max_formattable_epoch_secs)
         \<or> millis > 999 then None
      else
        let days = epoch_secs div 86400; secs_of_day = epoch_secs mod 86400 in
        (case civil_from_days days of
           None \<Rightarrow> None
         | Some (y, m, d) \<Rightarrow>
             Some (pad 4 y @ ''-'' @ pad 2 m @ ''-'' @ pad 2 d @ ''T'' @ pad 2 (secs_of_day div 3600) @ '':''
               @ pad 2 (secs_of_day mod 3600 div 60) @ '':'' @ pad 2 (secs_of_day mod 60) @ ''.''
               @ pad 3 (int millis) @ ''Z'')))"

definition format_rfc3339_millis_clamped :: "int \<Rightarrow> nat \<Rightarrow> string" where
  "format_rfc3339_millis_clamped epoch_secs millis =
     (let secs = max min_formattable_epoch_secs (min epoch_secs max_formattable_epoch_secs) in
      (case format_rfc3339_millis secs (min millis 999) of
         None \<Rightarrow> earliest_formattable_timestamp
       | Some s \<Rightarrow> s))"

text \<open>A system time, in nanoseconds since the epoch, as whole seconds and milliseconds.\<close>

definition secs_i64 :: "int \<Rightarrow> int" where
  "secs_i64 s = (case i64 s of None \<Rightarrow> 2 ^ 63 - 1 | Some s \<Rightarrow> s)"

definition unix_epoch_offset :: "int \<Rightarrow> int \<times> nat" where
  "unix_epoch_offset t =
     (if 0 \<le> t then (secs_i64 (t div 10 ^ 9), nat (t mod 10 ^ 9 div 10 ^ 6))
      else
        let d = - t; secs = secs_i64 (d div 10 ^ 9); sub = nat (d mod 10 ^ 9 div 10 ^ 6) in
        if sub = 0 then ((case i64 (- secs) of None \<Rightarrow> - (2 ^ 63) | Some s \<Rightarrow> s), 0)
        else ((case do { s \<leftarrow> i64 (- secs); c_sub s 1 } of None \<Rightarrow> - (2 ^ 63) | Some s \<Rightarrow> s), 1000 - sub))"

definition system_now_rfc3339 :: "int \<Rightarrow> string" where
  "system_now_rfc3339 t = (case unix_epoch_offset t of (secs, millis) \<Rightarrow> format_rfc3339_millis_clamped secs millis)"

section \<open>Parsing\<close>

datatype clock_error = InvalidTimestamp string

record civil_time =
  ct_year :: int
  ct_month :: int
  ct_day :: int
  ct_hour :: int
  ct_minute :: int
  ct_second :: int
  ct_millis :: int

fun parse_field :: "int \<Rightarrow> string \<Rightarrow> int option" where
  "parse_field n [] = Some n"
| "parse_field n (c # cs) = do {
     d \<leftarrow> to_digit 10 c;
     m \<leftarrow> c_mul n 10;
     n' \<leftarrow> c_add m (int d);
     parse_field n' cs
   }"

text \<open>The 24 bytes are one slice pattern of the source; the fields are read in order.\<close>

definition parse_rfc3339_millis :: "string \<Rightarrow> clock_error + civil_time" where
  "parse_rfc3339_millis s =
     (let err = Inl (InvalidTimestamp s) in
      (if length s \<noteq> 24 then err
       else if (s ! 4, s ! 7, s ! 10, s ! 13, s ! 16, s ! 19, s ! 23)
         \<noteq> (CHR ''-'', CHR ''-'', CHR ''T'', CHR '':'', CHR '':'', CHR ''.'', CHR ''Z'') then err
       else
         (case do {
            year \<leftarrow> parse_field 0 (take 4 s);
            month \<leftarrow> parse_field 0 (take 2 (drop 5 s));
            day \<leftarrow> parse_field 0 (take 2 (drop 8 s));
            hour \<leftarrow> parse_field 0 (take 2 (drop 11 s));
            minute \<leftarrow> parse_field 0 (take 2 (drop 14 s));
            second \<leftarrow> parse_field 0 (take 2 (drop 17 s));
            millis \<leftarrow> parse_field 0 (take 3 (drop 20 s));
            Some \<lparr>ct_year = year, ct_month = month, ct_day = day, ct_hour = hour, ct_minute = minute,
                  ct_second = second, ct_millis = millis\<rparr>
          } of
            None \<Rightarrow> err
          | Some t \<Rightarrow>
              if \<not> (1 \<le> ct_month t \<and> ct_month t \<le> 12) \<or> \<not> (1 \<le> ct_day t \<and> ct_day t \<le> 31)
                 \<or> ct_hour t > 23 \<or> ct_minute t > 59 \<or> ct_second t > 60 then err
              else Inr t)))"

definition epoch_millis_checked :: "civil_time \<Rightarrow> int option" where
  "epoch_millis_checked t = do {
     y \<leftarrow> (if ct_month t \<le> 2 then c_sub (ct_year t) 1 else Some (ct_year t));
     let era = y div 400;
     e400 \<leftarrow> c_mul era 400;
     yoe \<leftarrow> c_sub y e400;
     mp \<leftarrow> (if ct_month t > 2 then c_sub (ct_month t) 3 else c_add (ct_month t) 9);
     m153 \<leftarrow> c_mul mp 153;
     m1532 \<leftarrow> c_add m153 2;
     doy0 \<leftarrow> c_add (m1532 div 5) (ct_day t);
     doy \<leftarrow> c_sub doy0 1;
     y365 \<leftarrow> c_mul yoe 365;
     s1 \<leftarrow> c_add y365 (yoe div 4);
     s2 \<leftarrow> c_sub s1 (yoe div 100);
     doe \<leftarrow> c_add s2 doy;
     e1 \<leftarrow> c_mul era 146097;
     e2 \<leftarrow> c_add e1 doe;
     days \<leftarrow> c_sub e2 719468;
     t1 \<leftarrow> c_mul days 86400;
     h \<leftarrow> c_mul (ct_hour t) 3600;
     t2 \<leftarrow> c_add t1 h;
     mi \<leftarrow> c_mul (ct_minute t) 60;
     t3 \<leftarrow> c_add t2 mi;
     secs \<leftarrow> c_add t3 (ct_second t);
     ms \<leftarrow> c_mul secs 1000;
     c_add ms (ct_millis t)
   }"

definition epoch_millis_from_civil :: "civil_time \<Rightarrow> u64" where
  "epoch_millis_from_civil t =
     (let ms = (case epoch_millis_checked t of None \<Rightarrow> 0 | Some ms \<Rightarrow> ms)
      in if 0 \<le> ms then of_int ms else 0)"

section \<open>The fixed clock\<close>

text \<open>\<open>from_parts\<close> is the \<open>ulid\<close> crate's.\<close>

record fixed_clock =
  fc_now :: string
  fc_now_millis :: u64
  fc_counter :: u64
  fc_seed :: u64

definition fixed_clock_new :: "string \<Rightarrow> u64 \<Rightarrow> clock_error + fixed_clock" where
  "fixed_clock_new now seed =
     res_bind (parse_rfc3339_millis now) (\<lambda>parsed.
       Inr \<lparr>fc_now = now, fc_now_millis = epoch_millis_from_civil parsed, fc_counter = 0, fc_seed = seed\<rparr>)"

definition fixed_next_ulid :: "(u64 \<Rightarrow> u128 \<Rightarrow> u128) \<Rightarrow> fixed_clock \<Rightarrow> u128 \<times> fixed_clock" where
  "fixed_next_ulid from_parts c =
     (from_parts (fc_seed c) (ucast (fc_counter c)), c\<lparr>fc_counter := fc_counter c + 1\<rparr>)"


section \<open>The calendar\<close>

text \<open>
  The reference: the Gregorian leap rule, the lengths of the months, and the day after a day. It
  shares nothing with the closed formulas of the source.
\<close>

definition leap :: "int \<Rightarrow> bool" where
  "leap y \<longleftrightarrow> y mod 4 = 0 \<and> (y mod 100 \<noteq> 0 \<or> y mod 400 = 0)"

definition month_length :: "int \<Rightarrow> int \<Rightarrow> int" where
  "month_length y m = (if m = 2 then if leap y then 29 else 28 else if m \<in> {4, 6, 9, 11} then 30 else 31)"

fun next_day :: "int \<times> int \<times> int \<Rightarrow> int \<times> int \<times> int" where
  "next_day (y, m, d) =
     (if d < month_length y m then (y, m, d + 1) else if m < 12 then (y, m + 1, 1) else (y + 1, 1, 1))"

fun valid_date :: "int \<times> int \<times> int \<Rightarrow> bool" where
  "valid_date (y, m, d) \<longleftrightarrow> 1 \<le> m \<and> m \<le> 12 \<and> 1 \<le> d \<and> d \<le> month_length y m"

definition calendar :: "nat \<Rightarrow> int \<times> int \<times> int" where
  "calendar n = (next_day ^^ n) (0, 1, 1)"

text \<open>The closed formula for the number of a day, over unbounded integers.\<close>

definition march_year :: "int \<Rightarrow> int \<Rightarrow> int" where
  "march_year y m = (if m \<le> 2 then y - 1 else y)"

definition march_month :: "int \<Rightarrow> int" where
  "march_month m = (if m > 2 then m - 3 else m + 9)"

definition day_of_year :: "int \<Rightarrow> int \<Rightarrow> int" where
  "day_of_year m d = (153 * march_month m + 2) div 5 + d - 1"

definition year_start :: "int \<Rightarrow> int" where
  "year_start y = 365 * y + y div 4 - y div 100 + y div 400"

fun day_number :: "int \<times> int \<times> int \<Rightarrow> int" where
  "day_number (y, m, d) = year_start (march_year y m) + day_of_year m d - 719468"

lemma month_cases:
  fixes m :: int
  assumes "1 \<le> m" "m \<le> 12"
  shows "m = 1 \<or> m = 2 \<or> m = 3 \<or> m = 4 \<or> m = 5 \<or> m = 6 \<or> m = 7 \<or> m = 8 \<or> m = 9 \<or> m = 10 \<or> m = 11 \<or> m = 12"
  using assms by presburger

lemma div_step:
  fixes k :: int
  assumes "0 < k"
  shows "(y + 1) div k = y div k + (if (y + 1) mod k = 0 then 1 else 0)"
proof -
  have m: "0 \<le> y mod k" "y mod k < k" using assms by simp_all
  have y: "y = k * (y div k) + y mod k" by simp
  show ?thesis
  proof (cases "y mod k + 1 = k")
    case True
    then have e: "y + 1 = k * (y div k + 1)" using y by (metis add.assoc distrib_left mult.right_neutral)
    show ?thesis unfolding e using assms by simp
  next
    case False
    then have l: "y mod k + 1 < k" using m by simp
    have e: "y + 1 = k * (y div k) + (y mod k + 1)" using y by (simp add: algebra_simps)
    have "(y + 1) div k = y div k" using l m by (intro int_div_pos_eq [OF e]) simp_all
    moreover have "(y + 1) mod k = y mod k + 1" using l m by (intro int_mod_pos_eq [OF e]) simp_all
    ultimately show ?thesis using m by simp
  qed
qed

lemma leap_sum:
  fixes y :: int
  assumes "a' = a + (if P then 1 else 0)" "b' = b + (if Q then 1 else 0)" "c' = c + (if R then 1 else 0)"
    and "R \<Longrightarrow> Q" "Q \<Longrightarrow> P"
  shows "365 * (y + 1) + a' - b' + c' = 365 * y + a - b + c + (if P \<and> (\<not> Q \<or> R) then 366 else 365)"
  using assms by auto

lemma year_start_Suc: "year_start (y + 1) = year_start y + (if leap (y + 1) then 366 else 365)"
proof -
  have dvd: "a dvd b \<Longrightarrow> (y + 1) mod b = 0 \<Longrightarrow> (y + 1) mod a = 0" for a b :: int
    by (meson dvd_trans mod_0_imp_dvd mod_eq_0_iff_dvd)
  show ?thesis
    unfolding year_start_def leap_def
    by (rule leap_sum [OF div_step div_step div_step]) (simp_all only: zero_less_numeral dvd [of 100 400] dvd [of 4 100], (erule dvd [rotated], simp)+)
qed

lemma year_start_mono: "a \<le> b \<Longrightarrow> year_start a \<le> year_start b"
proof (induction "nat (b - a)" arbitrary: b)
  case 0
  then show ?case by simp
next
  case (Suc n)
  then have "year_start a \<le> year_start (b - 1)" by simp
  also have "\<dots> \<le> year_start b" using year_start_Suc [of "b - 1"] by simp
  finally show ?case .
qed

lemma month_length_bounds: "28 \<le> month_length y m \<and> month_length y m \<le> 31"
  by (simp add: month_length_def)

lemma day_number_next_day:
  assumes "valid_date x"
  shows "day_number (next_day x) = day_number x + 1"
proof (cases x)
  case (fields y m d)
  have "m = 1 \<or> m = 2 \<or> m = 3 \<or> m = 4 \<or> m = 5 \<or> m = 6 \<or> m = 7 \<or> m = 8 \<or> m = 9 \<or> m = 10 \<or> m = 11 \<or> m = 12"
    using assms by (intro month_cases) (simp_all add: fields)
  moreover have "year_start y = year_start (y - 1) + (if leap y then 366 else 365)"
    using year_start_Suc [of "y - 1"] by simp
  ultimately show ?thesis
    using assms unfolding fields
    apply (elim disjE)
    apply (simp_all add: month_length_def day_of_year_def march_year_def march_month_def split: if_splits)
    done
qed

lemma one_le_month_length [simp]: "1 \<le> month_length y m"
  using month_length_bounds [of y m] by linarith

lemma valid_next_day: "valid_date x \<Longrightarrow> valid_date (next_day x)"
  by (cases x) simp

lemma calendar_valid: "valid_date (calendar n)"
proof (induction n)
  case 0
  show ?case by (simp add: calendar_def month_length_def)
next
  case (Suc n)
  then show ?case by (simp add: calendar_def valid_next_day)
qed

lemma calendar_day_number: "day_number (calendar n) = int n - 719528"
proof (induction n)
  case 0
  show ?case by (simp add: calendar_def year_start_def march_year_def march_month_def day_of_year_def)
next
  case (Suc n)
  then show ?case using day_number_next_day [OF calendar_valid [of n]] by (simp add: calendar_def)
qed

lemma next_day_year: "fst x \<le> fst (next_day x)"
  by (cases x) simp

lemma calendar_year_nonneg: "0 \<le> fst (calendar n)"
proof (induction n)
  case 0
  show ?case by (simp add: calendar_def)
next
  case (Suc n)
  then show ?case using next_day_year [of "calendar n"] by (simp add: calendar_def)
qed

lemma day_of_year_nonneg: "valid_date (y, m, d) \<Longrightarrow> 0 \<le> day_of_year m d"
  by (auto simp: day_of_year_def march_month_def)

lemma calendar_year_four_digits:
  assumes "n \<le> 3652424"
  shows "fst (calendar n) \<le> 9999"
proof (rule ccontr)
  obtain y m d where c: "calendar n = (y, m, d)" by (cases "calendar n")
  assume "\<not> ?thesis"
  then have y: "10000 \<le> y" by (simp add: c)
  have v: "valid_date (y, m, d)" using calendar_valid [of n] by (simp add: c)
  have n: "int n = day_number (y, m, d) + 719528" using calendar_day_number [of n] by (simp add: c)
  show False
  proof (cases "m \<le> 2")
    case True
    have "year_start 9999 \<le> year_start (y - 1)" using y by (intro year_start_mono) simp
    moreover have "306 \<le> day_of_year m d" using v True
      by (auto simp: day_of_year_def march_month_def dest!: month_cases)
    ultimately show ?thesis using n assms True
      by (simp add: march_year_def) (simp add: year_start_def)
  next
    case False
    have "year_start 10000 \<le> year_start y" using y by (intro year_start_mono) simp
    then show ?thesis using n assms False day_of_year_nonneg [OF v]
      by (simp add: march_year_def) (simp add: year_start_def)
  qed
qed

lemma div_between: "0 < k \<Longrightarrow> k * q \<le> n \<Longrightarrow> n < k * (q + 1) \<Longrightarrow> n div k = (q :: int)"
  by (rule int_div_pos_eq [of n k q "n - k * q"]) (simp_all add: algebra_simps)

lemma c_add_SomeI: "a + b = c \<Longrightarrow> - 9000000000000000000 \<le> c \<Longrightarrow> c \<le> 9000000000000000000 \<Longrightarrow> c_add a b = Some c"
  by (auto simp: c_add_def)

lemma c_sub_SomeI: "a - b = c \<Longrightarrow> - 9000000000000000000 \<le> c \<Longrightarrow> c \<le> 9000000000000000000 \<Longrightarrow> c_sub a b = Some c"
  by (auto simp: c_sub_def)

lemma c_mul_SomeI: "a * b = c \<Longrightarrow> - 9000000000000000000 \<le> c \<Longrightarrow> c \<le> 9000000000000000000 \<Longrightarrow> c_mul a b = Some c"
  by (auto simp: c_mul_def)

lemmas checked_SomeI = c_add_SomeI c_sub_SomeI c_mul_SomeI

text \<open>
  A year counted from March is a position in its 400 years: centuries, groups of four and single
  years. The last day of such a year exists only before a leap day's year ends.
\<close>

definition year_parts :: "int \<Rightarrow> int \<Rightarrow> int \<Rightarrow> int \<Rightarrow> int \<Rightarrow> bool" where
  "year_parts yy era c q y \<longleftrightarrow>
     yy = 400 * era + 100 * c + 4 * q + y \<and> 0 \<le> c \<and> c \<le> 3 \<and> 0 \<le> q \<and> q \<le> 24 \<and> 0 \<le> y \<and> y \<le> 3"

lemma year_parts_exist: "\<exists>era c q y. year_parts yy era c q y"
proof -
  define n where "n = yy mod 400"
  define k where "k = n mod 100"
  have n: "yy = 400 * (yy div 400) + n" "0 \<le> n" "n < 400" by (simp_all add: n_def)
  have k: "n = 100 * (n div 100) + k" "0 \<le> k" "k < 100" by (simp_all add: k_def)
  have y: "k = 4 * (k div 4) + k mod 4" "0 \<le> k mod 4" "k mod 4 < 4" by simp_all
  have "year_parts yy (yy div 400) (n div 100) (k div 4) (k mod 4)"
    unfolding year_parts_def using n k y by linarith
  then show ?thesis by blast
qed

lemma year_parts_divs:
  assumes "year_parts yy era c q y"
  shows "yy div 400 = era" "yy div 100 = 4 * era + c" "yy div 4 = 100 * era + 25 * c + q"
    "(100 * c + 4 * q + y) div 4 = 25 * c + q" "(100 * c + 4 * q + y) div 100 = c"
  using assms unfolding year_parts_def by (auto intro!: div_between)

lemma year_start_parts:
  "year_parts yy era c q y \<Longrightarrow> year_start yy = 146097 * era + 36524 * c + 1461 * q + 365 * y"
  by (simp add: year_start_def year_parts_divs) (simp add: year_parts_def)

lemma leap_parts:
  assumes "year_parts yy era c q y" "leap (yy + 1)"
  shows "y = 3 \<and> (q = 24 \<longrightarrow> c = 3)"
proof -
  have p: "yy = 400 * era + 100 * c + 4 * q + y" "0 \<le> c" "c \<le> 3" "0 \<le> q" "q \<le> 24" "0 \<le> y" "y \<le> 3"
    using assms(1) by (auto simp: year_parts_def)
  have four: "y < 3 \<Longrightarrow> (yy + 1) mod 4 = y + 1"
    using p by (intro int_mod_pos_eq [of _ _ "100 * era + 25 * c + q"]) simp_all
  have hundred: "y = 3 \<Longrightarrow> q = 24 \<Longrightarrow> (yy + 1) mod 100 = 0"
    using p by (intro int_mod_pos_eq [of _ _ "4 * era + c + 1"]) simp_all
  have fourhundred: "y = 3 \<Longrightarrow> q = 24 \<Longrightarrow> c < 3 \<Longrightarrow> (yy + 1) mod 400 = 100 * (c + 1)"
    using p by (intro int_mod_pos_eq [of _ _ era]) simp_all
  show ?thesis
  proof (cases "y = 3 \<and> q = 24 \<and> c < 3")
    case True
    then have "(yy + 1) mod 100 = 0" "(yy + 1) mod 400 = 100 * (c + 1)" using hundred fourhundred by blast+
    then show ?thesis using assms(2) p(2) by (simp add: leap_def)
  next
    case False
    have "(yy + 1) mod 4 = 0" using assms(2) by (simp add: leap_def)
    then have "\<not> y < 3" using four p(6) by fastforce
    then show ?thesis using False p by linarith
  qed
qed

lemma yoe_divs:
  assumes p: "year_parts yy era c q y" and r: "0 \<le> r" "r \<le> 365" "r = 365 \<Longrightarrow> y = 3 \<and> (q = 24 \<longrightarrow> c = 3)"
    and doe: "doe = 36524 * c + 1461 * q + 365 * y + r"
  obtains e f where "doe div 1460 = 25 * c + q + e" "doe div 36524 = c + f" "doe div 146096 = f"
    "(365 * (100 * c + 4 * q + y) + (r - e)) div 365 = 100 * c + 4 * q + y" "0 \<le> doe" "doe < 146097"
    "e = 0 \<or> e = 1" "f = 0 \<or> f = 1"
proof -
  have p: "0 \<le> c" "c \<le> 3" "0 \<le> q" "q \<le> 24" "0 \<le> y" "y \<le> 3"
    using p by (auto simp: year_parts_def)
  define e :: int where "e = (if 24 * c + q + 365 * y + r \<ge> 1460 then 1 else 0)"
  define f :: int where "f = (if doe = 146096 then 1 else 0)"
  have last_day: "doe = 146096" if "36524 \<le> 1461 * q + 365 * y + r"
  proof -
    have "q = 24" "y = 3" "r = 365" using that p r(1,2) by linarith+
    then show ?thesis using r(3) doe by simp
  qed
  have le: "doe \<le> 146096" 
    using p r doe by linarith
  show ?thesis
  proof
    show "doe div 1460 = 25 * c + q + e"
      using p r doe by (intro div_between) (auto simp: e_def)
    show "doe div 36524 = c + f"
    proof (cases "doe = 146096")
      case True
      have "c = 3" using p r doe True by linarith
      then show ?thesis using True by (simp add: f_def)
    next
      case False
      then have "1461 * q + 365 * y + r < 36524" using last_day by linarith
      then show ?thesis using p r(1) doe False by (intro div_between) (auto simp: f_def)
    qed
    show "doe div 146096 = f"
      using p r doe le by (intro div_between) (auto simp: f_def)
    have "0 \<le> r - e \<and> r - e < 365"
      using p r(1,2) r(3) [THEN conjunct1] unfolding e_def by (cases "r = 365") auto
    then show "(365 * (100 * c + 4 * q + y) + (r - e)) div 365 = 100 * c + 4 * q + y"
      by (intro div_between) auto
    show "0 \<le> doe" "doe < 146097" using p r doe le by auto
    show "e = 0 \<or> e = 1" "f = 0 \<or> f = 1" by (auto simp: e_def f_def)
  qed
qed

lemma day_of_year_parts:
  assumes "valid_date (y, m, d)"
  shows "0 \<le> day_of_year m d" "day_of_year m d \<le> 365"
    "day_of_year m d = 365 \<Longrightarrow> m = 2 \<and> leap y"
    "(5 * day_of_year m d + 2) div 153 = march_month m"
    "0 \<le> march_month m" "march_month m \<le> 11"
proof -
  have m: "m = 1 \<or> m = 2 \<or> m = 3 \<or> m = 4 \<or> m = 5 \<or> m = 6 \<or> m = 7 \<or> m = 8 \<or> m = 9 \<or> m = 10 \<or> m = 11 \<or> m = 12"
    using assms by (intro month_cases) simp_all
  show "0 \<le> day_of_year m d" by (rule day_of_year_nonneg [OF assms])
  show "day_of_year m d \<le> 365"
    using assms m by (elim disjE) (auto simp: day_of_year_def march_month_def month_length_def split: if_splits)
  show "m = 2 \<and> leap y" if "day_of_year m d = 365"
    using assms m that by (elim disjE) (auto simp: day_of_year_def march_month_def month_length_def split: if_splits)
  show "(5 * day_of_year m d + 2) div 153 = march_month m"
    using assms m by (intro div_between; elim disjE)
      (auto simp: day_of_year_def march_month_def month_length_def split: if_splits)
  show "0 \<le> march_month m" "march_month m \<le> 11"
    using assms by (auto simp: march_month_def)
qed

lemma civil_eval:
  assumes "c_add days 719468 = Some z" "z div 146097 = era" "z mod 146097 = doe"
    "doe div 1460 = e1" "c_sub doe e1 = Some n1" "doe div 36524 = e2" "c_add n1 e2 = Some n2"
    "doe div 146096 = e3" "c_sub n2 e3 = Some n3" "n3 div 365 = yoe" "c_mul era 400 = Some e400"
    "c_add yoe e400 = Some yy" "c_mul yoe 365 = Some y365" "yoe div 4 = q4" "c_add y365 q4 = Some s1"
    "yoe div 100 = q100" "c_sub s1 q100 = Some s2" "c_sub doe s2 = Some doy" "c_mul doy 5 = Some d5"
    "c_add d5 2 = Some d52" "d52 div 153 = mp" "c_mul mp 153 = Some m153" "c_add m153 2 = Some m1532"
    "c_sub doy (m1532 div 5) = Some d0" "c_add d0 1 = Some d"
    "(if mp < 10 then c_add mp 3 else c_sub mp 9) = Some m"
    "(if m \<le> 2 then c_add yy 1 else Some yy) = Some y"
  shows "civil_from_days days = Some (y, m, d)"
  by (simp only: civil_from_days_def assms Let_def Option.bind_eq_Some_conv bind.bind_lunit)

lemma civil_from_days_day_number:
  assumes v: "valid_date (y, m, d)" and y: "- 10000 \<le> y" "y \<le> 10000"
  shows "civil_from_days (day_number (y, m, d)) = Some (y, m, d)"
proof -
  define yy where "yy = march_year y m"
  obtain era c q k where p: "year_parts yy era c q k" using year_parts_exist by blast
  define r where "r = day_of_year m d"
  define doe where "doe = 36524 * c + 1461 * q + 365 * k + r"
  have doe: "doe = 36524 * c + 1461 * q + 365 * k + r" by (simp add: doe_def)
  note dy = day_of_year_parts [OF v, folded r_def]
  have lp: "k = 3 \<and> (q = 24 \<longrightarrow> c = 3)" if "r = 365"
    using dy(3) [OF that] by (intro leap_parts [OF p]) (simp add: yy_def march_year_def)
  obtain e f where e: "doe div 1460 = 25 * c + q + e" "doe div 36524 = c + f" "doe div 146096 = f"
    "(365 * (100 * c + 4 * q + k) + (r - e)) div 365 = 100 * c + 4 * q + k" "0 \<le> doe" "doe < 146097"
    "e = 0 \<or> e = 1" "f = 0 \<or> f = 1"
    using yoe_divs [OF p dy(1,2) lp doe_def] by blast
  have dn: "day_number (y, m, d) = 146097 * era + doe - 719468"
    using year_start_parts [OF p] by (simp add: doe_def r_def yy_def)
  have pb: "yy = 400 * era + 100 * c + 4 * q + k" "0 \<le> c" "c \<le> 3" "0 \<le> q" "q \<le> 24" "0 \<le> k" "k \<le> 3"
    using p by (auto simp: year_parts_def)
  have era: "- 100 \<le> era" "era \<le> 100" using pb y by (auto simp: yy_def march_year_def split: if_splits)
  have ef: "0 \<le> e" "e \<le> 1" "0 \<le> f" "f \<le> 1" using e(7,8) by auto
  define yoe where "yoe = 100 * c + 4 * q + k"
  have yoe: "0 \<le> yoe" "yoe \<le> 399" "yy = 400 * era + yoe" using pb by (auto simp: yoe_def)
  note bounds = yoe(1,2) pb(2-7) era e(5,6) ef dy(1,2,5,6)
  have m: "m = 1 \<or> m = 2 \<or> m = 3 \<or> m = 4 \<or> m = 5 \<or> m = 6 \<or> m = 7 \<or> m = 8 \<or> m = 9 \<or> m = 10 \<or> m = 11 \<or> m = 12"
    using v by (intro month_cases) simp_all
  have n3: "doe - (25 * c + q + e) + (c + f) - f = 365 * yoe + (r - e)"
    by (simp add: doe yoe_def)
  have s2: "365 * yoe + (25 * c + q) - c = doe - r"
    by (simp add: doe yoe_def)
  show ?thesis unfolding dn
  proof (rule civil_eval)
    show "c_add (146097 * era + doe - 719468) 719468 = Some (146097 * era + doe)"
      by (rule c_add_SomeI) (use bounds in linarith)+
    show "(146097 * era + doe) div 146097 = era" using e(5,6) by (intro int_div_pos_eq [OF refl])
    show "(146097 * era + doe) mod 146097 = doe" using e(5,6) by (intro int_mod_pos_eq [OF refl])
    show "doe div 1460 = 25 * c + q + e" "doe div 36524 = c + f" "doe div 146096 = f" by (fact e)+
    show "c_sub doe (25 * c + q + e) = Some (doe - (25 * c + q + e))"
      by (rule c_sub_SomeI) (use bounds in linarith)+
    show "c_add (doe - (25 * c + q + e)) (c + f) = Some (doe - (25 * c + q + e) + (c + f))"
      by (rule c_add_SomeI) (use bounds in linarith)+
    show "c_sub (doe - (25 * c + q + e) + (c + f)) f = Some (365 * yoe + (r - e))"
      by (rule c_sub_SomeI [OF n3]) (use bounds in linarith)+
    show "(365 * yoe + (r - e)) div 365 = yoe" unfolding yoe_def by (fact e)
    show "c_mul era 400 = Some (400 * era)"
      by (rule c_mul_SomeI) (use bounds in linarith)+
    show "c_add yoe (400 * era) = Some yy"
      by (rule c_add_SomeI) (use bounds yoe(3) in linarith)+
    show "c_mul yoe 365 = Some (365 * yoe)"
      by (rule c_mul_SomeI) (use bounds in linarith)+
    show "yoe div 4 = 25 * c + q" "yoe div 100 = c"
      unfolding yoe_def by (fact year_parts_divs [OF p])+
    show "c_add (365 * yoe) (25 * c + q) = Some (365 * yoe + (25 * c + q))"
      by (rule c_add_SomeI) (use bounds in linarith)+
    show "c_sub (365 * yoe + (25 * c + q)) c = Some (doe - r)"
      by (rule c_sub_SomeI [OF s2]) (use bounds in linarith)+
    show "c_sub doe (doe - r) = Some r"
      by (rule c_sub_SomeI) (use bounds in linarith)+
    show "c_mul r 5 = Some (5 * r)" by (rule c_mul_SomeI) (use bounds in linarith)+
    show "c_add (5 * r) 2 = Some (5 * r + 2)" by (rule c_add_SomeI) (use bounds in linarith)+
    show "(5 * r + 2) div 153 = march_month m" by (fact dy)
    show "c_mul (march_month m) 153 = Some (153 * march_month m)"
      by (rule c_mul_SomeI) (use bounds in linarith)+
    show "c_add (153 * march_month m) 2 = Some (153 * march_month m + 2)"
      by (rule c_add_SomeI) (use bounds in linarith)+
    show "c_sub r ((153 * march_month m + 2) div 5) = Some (d - 1)"
      using v month_length_bounds [of y m] by (intro c_sub_SomeI) (auto simp: r_def day_of_year_def)
    show "c_add (d - 1) 1 = Some d"
      using v month_length_bounds [of y m] by (intro c_add_SomeI) auto
    show "(if march_month m < 10 then c_add (march_month m) 3 else c_sub (march_month m) 9) = Some m"
      using m by (elim disjE) (simp_all add: march_month_def c_add_def c_sub_def)
    show "(if m \<le> 2 then c_add yy 1 else Some yy) = Some y"
      using y by (auto simp: yy_def march_year_def c_add_def)
  qed
qed

lemma civil_from_days_calendar:
  assumes "n \<le> 3652424"
  shows "civil_from_days (int n - 719528) = Some (calendar n)"
proof (cases "calendar n")
  case (fields y m d)
  have "civil_from_days (day_number (y, m, d)) = Some (y, m, d)"
    using calendar_valid [of n] calendar_year_nonneg [of n] calendar_year_four_digits [OF assms]
    by (intro civil_from_days_day_number) (simp_all only: fields fst_conv)
  then show ?thesis using calendar_day_number [of n] by (simp only: fields)
qed

section \<open>Text and fields\<close>

lemma length_digits_rev: "0 < w \<Longrightarrow> n < 10 ^ w \<Longrightarrow> length (digits_rev 10 n) \<le> w"
proof (induction w arbitrary: n)
  case 0
  then show ?case by simp
next
  case (Suc w)
  show ?case
  proof (cases "n < 10")
    case True
    then show ?thesis by (simp add: digits_rev_base)
  next
    case False
    have "n div 10 < 10 ^ w" using Suc.prems by (simp add: less_mult_imp_div_less mult.commute)
    moreover have "0 < w" using Suc.prems False by (cases w) auto
    ultimately have "length (digits_rev 10 (n div 10)) \<le> w" by (intro Suc.IH)
    then show ?thesis using False by (simp add: digits_rev_step)
  qed
qed

lemma parse_digits_zeros: "parse_digits 0 (replicate k (CHR ''0'') @ s) = parse_digits 0 s"
  by (induction k) (simp_all add: to_digit_def)

lemma parse_digits_grows: "parse_digits a s = Some m \<Longrightarrow> a \<le> m"
proof (induction s arbitrary: a)
  case Nil
  then show ?case by simp
next
  case (Cons c s)
  then obtain d where "to_digit 10 c = Some d" "parse_digits (a * 10 + d) s = Some m"
    by (auto split: option.splits)
  then show ?case using Cons.IH by fastforce
qed

lemma parse_field_digits:
  "parse_digits a s = Some m \<Longrightarrow> m \<le> 9000000000000000000 \<Longrightarrow> parse_field (int a) s = Some (int m)"
proof (induction s arbitrary: a)
  case Nil
  then show ?case by simp
next
  case (Cons c s)
  then obtain d where d: "to_digit 10 c = Some d" "parse_digits (a * 10 + d) s = Some m"
    by (auto split: option.splits)
  have b: "a * 10 + d \<le> 9000000000000000000" using parse_digits_grows [OF d(2)] Cons.prems(2) by simp
  have "c_mul (int a) 10 = Some (int (a * 10))" using b by (intro c_mul_SomeI) simp_all
  moreover have "c_add (int (a * 10)) (int d) = Some (int (a * 10 + d))" using b by (intro c_add_SomeI) simp_all
  ultimately show ?case using Cons.IH [OF d(2) Cons.prems(2)] by (simp only: parse_field.simps d bind.bind_lunit)
qed

lemma pad_field:
  assumes "0 \<le> i" "i < 10 ^ w" "0 < w" "w \<le> 4"
  shows "length (pad w i) = w" "parse_field 0 (pad w i) = Some i"
proof -
  have n: "nat i < 10 ^ w" using assms by (simp add: nat_less_iff)
  have pad: "pad w i = replicate (w - length (show_nat (nat i))) (CHR ''0'') @ show_nat (nat i)"
    using assms(1) by (simp add: pad_def Let_def)
  show "length (pad w i) = w"
    using length_digits_rev [OF assms(3) n] by (simp add: pad show_nat_def)
  have "parse_digits 0 (pad w i) = Some (nat i)"
    by (simp add: pad parse_digits_zeros parse_show_nat)
  moreover have "(10 :: nat) ^ w \<le> 10 ^ 4" using assms(4) by (intro power_increasing) simp_all
  ultimately show "parse_field 0 (pad w i) = Some i"
    using parse_field_digits [of 0 "pad w i" "nat i"] n assms(1) by simp
qed

text \<open>The text of a date and a time of day: what the template of \<open>format!\<close> holds.\<close>

fun stamp :: "int \<times> int \<times> int \<Rightarrow> int \<Rightarrow> nat \<Rightarrow> string" where
  "stamp (y, m, d) sod ms =
     pad 4 y @ ''-'' @ pad 2 m @ ''-'' @ pad 2 d @ ''T'' @ pad 2 (sod div 3600) @ '':''
       @ pad 2 (sod mod 3600 div 60) @ '':'' @ pad 2 (sod mod 60) @ ''.'' @ pad 3 (int ms) @ ''Z''"

lemma parse_template:
  assumes "length y = 4" "length m = 2" "length d = 2" "length h = 2" "length mi = 2" "length s = 2" "length ms = 3"
    "parse_field 0 y = Some y'" "parse_field 0 m = Some m'" "parse_field 0 d = Some d'" "parse_field 0 h = Some h'"
    "parse_field 0 mi = Some mi'" "parse_field 0 s = Some s'" "parse_field 0 ms = Some ms'"
    "1 \<le> m'" "m' \<le> 12" "1 \<le> d'" "d' \<le> 31" "h' \<le> 23" "mi' \<le> 59" "s' \<le> 60"
  shows "parse_rfc3339_millis
      (y @ ''-'' @ m @ ''-'' @ d @ ''T'' @ h @ '':'' @ mi @ '':'' @ s @ ''.'' @ ms @ ''Z'') =
    Inr \<lparr>ct_year = y', ct_month = m', ct_day = d', ct_hour = h', ct_minute = mi', ct_second = s', ct_millis = ms'\<rparr>"
proof -
  let ?t = "y @ ''-'' @ m @ ''-'' @ d @ ''T'' @ h @ '':'' @ mi @ '':'' @ s @ ''.'' @ ms @ ''Z''"
  have l: "length ?t = 24" using assms by simp
  have fixed: "(?t ! 4, ?t ! 7, ?t ! 10, ?t ! 13, ?t ! 16, ?t ! 19, ?t ! 23)
      = (CHR ''-'', CHR ''-'', CHR ''T'', CHR '':'', CHR '':'', CHR ''.'', CHR ''Z'')"
    by (simp add: assms nth_append)
  have fields: "take 4 ?t = y" "take 2 (drop 5 ?t) = m" "take 2 (drop 8 ?t) = d" "take 2 (drop 11 ?t) = h"
      "take 2 (drop 14 ?t) = mi" "take 2 (drop 17 ?t) = s" "take 3 (drop 20 ?t) = ms"
    by (simp_all add: assms)
  show ?thesis
    unfolding parse_rfc3339_millis_def Let_def l fixed fields
    using assms by simp
qed

lemma epoch_eval:
  assumes "(if ct_month t \<le> 2 then c_sub (ct_year t) 1 else Some (ct_year t)) = Some yy" "yy div 400 = era"
    "c_mul era 400 = Some e400" "c_sub yy e400 = Some yoe"
    "(if ct_month t > 2 then c_sub (ct_month t) 3 else c_add (ct_month t) 9) = Some mp"
    "c_mul mp 153 = Some m153" "c_add m153 2 = Some m1532" "m1532 div 5 = m5" "c_add m5 (ct_day t) = Some doy0"
    "c_sub doy0 1 = Some doy" "c_mul yoe 365 = Some y365" "yoe div 4 = q4" "c_add y365 q4 = Some s1"
    "yoe div 100 = q100" "c_sub s1 q100 = Some s2" "c_add s2 doy = Some doe" "c_mul era 146097 = Some e1"
    "c_add e1 doe = Some e2" "c_sub e2 719468 = Some days" "c_mul days 86400 = Some t1"
    "c_mul (ct_hour t) 3600 = Some h" "c_add t1 h = Some t2" "c_mul (ct_minute t) 60 = Some mi"
    "c_add t2 mi = Some t3" "c_add t3 (ct_second t) = Some secs" "c_mul secs 1000 = Some ms"
    "c_add ms (ct_millis t) = Some r"
  shows "epoch_millis_checked t = Some r"
  by (simp only: epoch_millis_checked_def assms Let_def bind.bind_lunit)

definition fields_in_range :: "civil_time \<Rightarrow> bool" where
  "fields_in_range t \<longleftrightarrow>
     0 \<le> ct_year t \<and> ct_year t \<le> 9999 \<and> 1 \<le> ct_month t \<and> ct_month t \<le> 12 \<and> 1 \<le> ct_day t \<and> ct_day t \<le> 31
     \<and> 0 \<le> ct_hour t \<and> ct_hour t \<le> 23 \<and> 0 \<le> ct_minute t \<and> ct_minute t \<le> 59 \<and> 0 \<le> ct_second t
     \<and> ct_second t \<le> 60 \<and> 0 \<le> ct_millis t \<and> ct_millis t \<le> 999"

lemma epoch_millis_closed:
  assumes "fields_in_range t"
  shows "epoch_millis_checked t = Some (((day_number (ct_year t, ct_month t, ct_day t)) * 86400
    + ct_hour t * 3600 + ct_minute t * 60 + ct_second t) * 1000 + ct_millis t)"
proof -
  have f: "0 \<le> ct_year t" "ct_year t \<le> 9999" "1 \<le> ct_month t" "ct_month t \<le> 12" "1 \<le> ct_day t" "ct_day t \<le> 31"
      "0 \<le> ct_hour t" "ct_hour t \<le> 23" "0 \<le> ct_minute t" "ct_minute t \<le> 59" "0 \<le> ct_second t"
      "ct_second t \<le> 60" "0 \<le> ct_millis t" "ct_millis t \<le> 999"
    using assms by (simp_all add: fields_in_range_def)
  define mp where "mp = march_month (ct_month t)"
  define yy where "yy = march_year (ct_year t) (ct_month t)"
  have mp: "0 \<le> mp" "mp \<le> 11" using f by (auto simp: mp_def march_month_def)
  have yy: "- 1 \<le> yy" "yy \<le> 9999" using f by (auto simp: yy_def march_year_def)
  obtain era c q k where p: "year_parts yy era c q k" using year_parts_exist by blast
  have pb: "yy = 400 * era + 100 * c + 4 * q + k" "0 \<le> c" "c \<le> 3" "0 \<le> q" "q \<le> 24" "0 \<le> k" "k \<le> 3"
    using p by (auto simp: year_parts_def)
  define yoe where "yoe = 100 * c + 4 * q + k"
  have yoe: "0 \<le> yoe" "yoe \<le> 399" "yy = 400 * era + yoe" using pb by (auto simp: yoe_def)
  have era: "- 1 \<le> era" "era \<le> 24" using yy yoe by linarith+
  define doy where "doy = day_of_year (ct_month t) (ct_day t)"
  have m5: "0 \<le> (153 * mp + 2) div 5" "(153 * mp + 2) div 5 \<le> 337" using mp by auto
  have doy: "0 \<le> doy" "doy \<le> 367" "(153 * mp + 2) div 5 + ct_day t - 1 = doy"
    using m5 f(5,6) by (auto simp: doy_def day_of_year_def mp_def)
  define doe where "doe = 36524 * c + 1461 * q + 365 * k + doy"
  have doe: "0 \<le> doe" "doe \<le> 200000" using pb doy by (auto simp: doe_def)
  define days where "days = 146097 * era + doe - 719468"
  have days: "- 1000000 \<le> days" "days \<le> 4000000" using era doe by (auto simp: days_def)
  have dn: "day_number (ct_year t, ct_month t, ct_day t) = days"
    using year_start_parts [OF p] by (simp add: days_def doe_def doy_def yy_def)
  have s2: "365 * yoe + (25 * c + q) - c + doy = doe"
    by (simp add: doe_def yoe_def)
  note bounds = mp yoe(1,2) era m5 doy(1,2) doe days pb(2-7) f
  define secs where "secs = days * 86400 + ct_hour t * 3600 + ct_minute t * 60 + ct_second t"
  have secs: "- 100000000000 \<le> secs" "secs \<le> 400000000000"
    unfolding secs_def using bounds by linarith+
  show ?thesis unfolding dn
  proof (rule epoch_eval)
    show "(if ct_month t \<le> 2 then c_sub (ct_year t) 1 else Some (ct_year t)) = Some yy"
      using f by (auto simp: yy_def march_year_def c_sub_def)
    show "(if ct_month t > 2 then c_sub (ct_month t) 3 else c_add (ct_month t) 9) = Some mp"
      using f by (auto simp: mp_def march_month_def c_sub_def c_add_def)
    show "yy div 400 = era" by (rule year_parts_divs [OF p])
    show "yoe div 4 = 25 * c + q" "yoe div 100 = c" unfolding yoe_def by (rule year_parts_divs [OF p])+
    show "c_mul era 400 = Some (400 * era)" by (rule c_mul_SomeI) (use bounds in linarith)+
    show "c_sub yy (400 * era) = Some yoe" by (rule c_sub_SomeI) (use bounds yoe(3) in linarith)+
    show "c_mul mp 153 = Some (153 * mp)" by (rule c_mul_SomeI) (use bounds in linarith)+
    show "c_add (153 * mp) 2 = Some (153 * mp + 2)" by (rule c_add_SomeI) (use bounds in linarith)+
    show "(153 * mp + 2) div 5 = (153 * mp + 2) div 5" by (rule refl)
    show "c_add ((153 * mp + 2) div 5) (ct_day t) = Some (doy + 1)"
      by (rule c_add_SomeI) (use bounds doy(3) in linarith)+
    show "c_sub (doy + 1) 1 = Some doy" by (rule c_sub_SomeI) (use bounds in linarith)+
    show "c_mul yoe 365 = Some (365 * yoe)" by (rule c_mul_SomeI) (use bounds in linarith)+
    show "c_add (365 * yoe) (25 * c + q) = Some (365 * yoe + (25 * c + q))"
      by (rule c_add_SomeI) (use bounds in linarith)+
    show "c_sub (365 * yoe + (25 * c + q)) c = Some (365 * yoe + (25 * c + q) - c)"
      by (rule c_sub_SomeI) (use bounds in linarith)+
    show "c_add (365 * yoe + (25 * c + q) - c) doy = Some doe"
      by (rule c_add_SomeI [OF s2]) (use bounds in linarith)+
    show "c_mul era 146097 = Some (146097 * era)" by (rule c_mul_SomeI) (use bounds in linarith)+
    show "c_add (146097 * era) doe = Some (days + 719468)"
      by (rule c_add_SomeI) (use bounds days_def in \<open>simp; linarith\<close>)+
    show "c_sub (days + 719468) 719468 = Some days" by (rule c_sub_SomeI) (use bounds in linarith)+
    show "c_mul days 86400 = Some (days * 86400)" by (rule c_mul_SomeI) (use bounds in linarith)+
    show "c_mul (ct_hour t) 3600 = Some (ct_hour t * 3600)" by (rule c_mul_SomeI) (use bounds in linarith)+
    show "c_add (days * 86400) (ct_hour t * 3600) = Some (days * 86400 + ct_hour t * 3600)"
      by (rule c_add_SomeI) (use bounds in linarith)+
    show "c_mul (ct_minute t) 60 = Some (ct_minute t * 60)" by (rule c_mul_SomeI) (use bounds in linarith)+
    show "c_add (days * 86400 + ct_hour t * 3600) (ct_minute t * 60)
        = Some (days * 86400 + ct_hour t * 3600 + ct_minute t * 60)"
      by (rule c_add_SomeI) (use bounds in linarith)+
    show "c_add (days * 86400 + ct_hour t * 3600 + ct_minute t * 60) (ct_second t) = Some secs"
      unfolding secs_def by (rule c_add_SomeI) (use bounds in linarith)+
    show "c_mul secs 1000 = Some (secs * 1000)" by (rule c_mul_SomeI) (use secs in linarith)+
    show "c_add (secs * 1000) (ct_millis t)
        = Some ((days * 86400 + ct_hour t * 3600 + ct_minute t * 60 + ct_second t) * 1000 + ct_millis t)"
      unfolding secs_def [symmetric] by (rule c_add_SomeI) (use secs f in linarith)+
  qed
qed

section \<open>The two directions\<close>

definition day_index :: "int \<Rightarrow> nat" where
  "day_index secs = nat ((secs - min_formattable_epoch_secs) div 86400)"

definition formattable :: "int \<Rightarrow> bool" where
  "formattable secs \<longleftrightarrow> min_formattable_epoch_secs \<le> secs \<and> secs \<le> max_formattable_epoch_secs"

lemma day_index_days:
  assumes "formattable secs"
  shows "int (day_index secs) - 719528 = secs div 86400" "day_index secs \<le> 3652424"
proof -
  have i: "int (day_index secs) = (secs + 62167219200) div 86400"
    using assms by (simp add: day_index_def formattable_def min_formattable_epoch_secs_def pos_imp_zdiv_nonneg_iff)
  have "(secs + 719528 * 86400) div 86400 = secs div 86400 + 719528" by simp
  then show d: "int (day_index secs) - 719528 = secs div 86400" unfolding i by simp
  have "secs div 86400 \<le> 253402300799 div 86400"
    using assms by (intro zdiv_mono1) (simp_all add: formattable_def max_formattable_epoch_secs_def)
  then show "day_index secs \<le> 3652424" using d by simp
qed

lemma format_stamp:
  assumes "formattable secs" "ms \<le> 999"
  shows "format_rfc3339_millis secs ms = Some (stamp (calendar (day_index secs)) (secs mod 86400) ms)"
  using civil_from_days_calendar [OF day_index_days(2) [OF assms(1)]] assms
  by (cases "calendar (day_index secs)")
    (simp add: day_index_days(1) format_rfc3339_millis_def formattable_def Let_def)

definition clamp_secs :: "int \<Rightarrow> int" where
  "clamp_secs secs = max min_formattable_epoch_secs (min secs max_formattable_epoch_secs)"

lemma formattable_clamp: "formattable (clamp_secs secs)"
  by (simp add: formattable_def clamp_secs_def min_formattable_epoch_secs_def max_formattable_epoch_secs_def)

lemma pads:
  "0 \<le> i \<Longrightarrow> i \<le> 9999 \<Longrightarrow> length (pad 4 i) = 4 \<and> parse_field 0 (pad 4 i) = Some i"
  "0 \<le> i \<Longrightarrow> i \<le> 99 \<Longrightarrow> length (pad 2 i) = 2 \<and> parse_field 0 (pad 2 i) = Some i"
  "0 \<le> i \<Longrightarrow> i \<le> 999 \<Longrightarrow> length (pad 3 i) = 3 \<and> parse_field 0 (pad 3 i) = Some i"
  using pad_field [of i 4] pad_field [of i 2] pad_field [of i 3] by simp_all

lemma template_reads_back:
  assumes "fields_in_range t"
  shows "parse_rfc3339_millis
      (pad 4 (ct_year t) @ ''-'' @ pad 2 (ct_month t) @ ''-'' @ pad 2 (ct_day t) @ ''T'' @ pad 2 (ct_hour t) @ '':''
        @ pad 2 (ct_minute t) @ '':'' @ pad 2 (ct_second t) @ ''.'' @ pad 3 (ct_millis t) @ ''Z'') = Inr t"
proof -
  have f: "0 \<le> ct_year t" "ct_year t \<le> 9999" "1 \<le> ct_month t" "ct_month t \<le> 12" "1 \<le> ct_day t" "ct_day t \<le> 31"
      "0 \<le> ct_hour t" "ct_hour t \<le> 23" "0 \<le> ct_minute t" "ct_minute t \<le> 59" "0 \<le> ct_second t"
      "ct_second t \<le> 60" "0 \<le> ct_millis t" "ct_millis t \<le> 999"
    using assms by (simp_all add: fields_in_range_def)
  have p: "length (pad 4 (ct_year t)) = 4 \<and> parse_field 0 (pad 4 (ct_year t)) = Some (ct_year t)"
      "length (pad 2 (ct_month t)) = 2 \<and> parse_field 0 (pad 2 (ct_month t)) = Some (ct_month t)"
      "length (pad 2 (ct_day t)) = 2 \<and> parse_field 0 (pad 2 (ct_day t)) = Some (ct_day t)"
      "length (pad 2 (ct_hour t)) = 2 \<and> parse_field 0 (pad 2 (ct_hour t)) = Some (ct_hour t)"
      "length (pad 2 (ct_minute t)) = 2 \<and> parse_field 0 (pad 2 (ct_minute t)) = Some (ct_minute t)"
      "length (pad 2 (ct_second t)) = 2 \<and> parse_field 0 (pad 2 (ct_second t)) = Some (ct_second t)"
      "length (pad 3 (ct_millis t)) = 3 \<and> parse_field 0 (pad 3 (ct_millis t)) = Some (ct_millis t)"
    by (rule pads; use f in linarith)+
  note t = parse_template [OF p(1) [THEN conjunct1] p(2) [THEN conjunct1] p(3) [THEN conjunct1] p(4) [THEN conjunct1]
      p(5) [THEN conjunct1] p(6) [THEN conjunct1] p(7) [THEN conjunct1] p(1) [THEN conjunct2] p(2) [THEN conjunct2]
      p(3) [THEN conjunct2] p(4) [THEN conjunct2] p(5) [THEN conjunct2] p(6) [THEN conjunct2] p(7) [THEN conjunct2]
      f(3,4,5,6,8,10,12)]
  then show ?thesis by simp
qed

lemma clock_split:
  fixes sod :: int
  assumes "0 \<le> sod" "sod < 86400"
  shows "0 \<le> sod div 3600" "sod div 3600 \<le> 23" "0 \<le> sod mod 3600 div 60" "sod mod 3600 div 60 \<le> 59"
    "0 \<le> sod mod 60" "sod mod 60 \<le> 59" "sod div 3600 * 3600 + sod mod 3600 div 60 * 60 + sod mod 60 = sod"
proof -
  show "0 \<le> sod div 3600" "0 \<le> sod mod 60" using assms by (simp_all add: pos_imp_zdiv_nonneg_iff)
  show "sod div 3600 \<le> 23" using zdiv_mono1 [of sod 86399 3600] assms(2) by simp
  show "0 \<le> sod mod 3600 div 60" by (simp add: pos_imp_zdiv_nonneg_iff)
  have "sod mod 3600 < 3600" by simp
  then show "sod mod 3600 div 60 \<le> 59" using zdiv_mono1 [of "sod mod 3600" 3599 60] by simp
  have "sod mod 60 < 60" by simp
  then show "sod mod 60 \<le> 59" by linarith
  have "sod mod 3600 mod 60 = sod mod 60" by (rule mod_mod_cancel) simp
  then show "sod div 3600 * 3600 + sod mod 3600 div 60 * 60 + sod mod 60 = sod"
    using div_mult_mod_eq [of sod 3600] div_mult_mod_eq [of "sod mod 3600" 60] by linarith
qed

lemma stamp_reads_back:
  assumes "formattable secs" "ms \<le> 999"
  shows "\<exists>t. parse_rfc3339_millis (stamp (calendar (day_index secs)) (secs mod 86400) ms) = Inr t
    \<and> epoch_millis_checked t = Some (secs * 1000 + int ms)"
proof -
  obtain y m d where c: "calendar (day_index secs) = (y, m, d)" by (cases "calendar (day_index secs)")
  define sod where "sod = secs mod 86400"
  have "0 \<le> sod" "sod < 86400" by (simp_all add: sod_def)
  note hms = clock_split [OF this]
  define t where "t = \<lparr>ct_year = y, ct_month = m, ct_day = d, ct_hour = sod div 3600,
      ct_minute = sod mod 3600 div 60, ct_second = sod mod 60, ct_millis = int ms\<rparr>"
  have sel: "ct_year t = y" "ct_month t = m" "ct_day t = d" "ct_hour t = sod div 3600"
      "ct_minute t = sod mod 3600 div 60" "ct_second t = sod mod 60" "ct_millis t = int ms"
    by (simp_all only: t_def civil_time.simps)
  have v: "valid_date (y, m, d)" "0 \<le> y" "y \<le> 9999"
    using calendar_valid [of "day_index secs"] calendar_year_nonneg [of "day_index secs"]
      calendar_year_four_digits [OF day_index_days(2) [OF assms(1)]]
    by (simp_all only: c fst_conv)
  have r: "fields_in_range t"
    unfolding fields_in_range_def sel using v month_length_bounds [of y m] hms assms(2)
    unfolding valid_date.simps by linarith
  have days: "day_number (y, m, d) = secs div 86400"
    using calendar_day_number [of "day_index secs"] day_index_days(1) [OF assms(1)] by (simp only: c)
  have "secs = secs div 86400 * 86400 + sod" by (simp add: sod_def)
  then have "day_number (y, m, d) * 86400 + sod div 3600 * 3600 + sod mod 3600 div 60 * 60 + sod mod 60 = secs"
    unfolding days using hms(7) by linarith
  then have "epoch_millis_checked t = Some (secs * 1000 + int ms)"
    using epoch_millis_closed [OF r] by (simp only: sel)
  moreover have "parse_rfc3339_millis (stamp (y, m, d) sod ms) = Inr t"
    using template_reads_back [OF r] by (simp only: sel stamp.simps)
  ultimately show ?thesis unfolding c sod_def [symmetric] by blast
qed

lemma clamped_stamp:
  "format_rfc3339_millis_clamped secs ms =
     stamp (calendar (day_index (clamp_secs secs))) (clamp_secs secs mod 86400) (min ms 999)"
proof -
  have m: "min ms 999 \<le> 999" by simp
  show ?thesis
    unfolding format_rfc3339_millis_clamped_def clamp_secs_def [symmetric] Let_def
      format_stamp [OF formattable_clamp m] option.case ..
qed

section \<open>Properties\<close>

text \<open>
  The formatter is defined exactly on the seconds of the years 0000 to 9999 and a millisecond
  below 1000, no checked operation of its chain fails there, and the date it prints is the one
  reached from 1 January 0000 by stepping day by day through the Gregorian calendar (months of 28
  to 31 days, leap years by the rule of 4, 100 and 400), with the time of day of the second.
\<close>

theorem formatter_walks_the_calendar:
  "format_rfc3339_millis secs ms =
     (if formattable secs \<and> ms \<le> 999 then Some (stamp (calendar (day_index secs)) (secs mod 86400) ms) else None)"
proof (cases "formattable secs \<and> ms \<le> 999")
  case True
  then show ?thesis by (simp add: format_stamp)
next
  case False
  then have "format_rfc3339_millis secs ms = None"
    unfolding format_rfc3339_millis_def formattable_def by auto
  then show ?thesis using False by simp
qed

text \<open>
  C37: whatever second and millisecond a clock reports, the clamped formatter prints a text the
  parser accepts, and the decoder turns the parsed fields into exactly the clamped instant in
  milliseconds, without overflow: the fallback text is never needed, and the two directions are one
  calendar.
\<close>

theorem clamped_text_reads_back:
  "\<exists>t. parse_rfc3339_millis (format_rfc3339_millis_clamped secs ms) = Inr t
     \<and> epoch_millis_checked t = Some (clamp_secs secs * 1000 + int (min ms 999))"
  unfolding clamped_stamp by (rule stamp_reads_back [OF formattable_clamp]) simp

end
