(* ===== verification/Probes.thy ===== *)
theory Probes
  imports Event Canonical
begin

text \<open>
  The probe registry and the choice of probes, \<open>crates/bathy-probe/src/framework.rs\<close> and the ids and
  affinities of \<open>crates/bathy-probe/src/probes/\<close>, with the capture a probe hands to the interpreter
  (\<open>crates/bathy-types/src/capture.rs\<close>). Here a probe is its id, its kind and its
  affinity; what it sends and reads is in \<open>Probe_Io\<close>.
\<close>

section \<open>Captures and probes\<close>

record probe_capture =
  pc_probe_id :: string
  pc_transport :: transport
  pc_port :: u16
  pc_request :: "string option"
  pc_response :: string
  pc_elapsed_micros :: u64
  pc_truncated :: bool

datatype probe_kind = ListenFirst | SendFirst

record probe =
  pb_id :: string
  pb_kind :: probe_kind
  pb_affinity :: "u16 \<Rightarrow> u8"

definition http_get_probe :: probe where
  "http_get_probe = \<lparr>pb_id = ''http-get-v1'', pb_kind = SendFirst,
     pb_affinity = (\<lambda>port. if port \<in> {80, 8080, 8000, 8008} then 100 else if port \<in> {443, 8443} then 40 else 55)\<rparr>"

definition tls_probe :: probe where
  "tls_probe = \<lparr>pb_id = ''tls-v1'', pb_kind = SendFirst,
     pb_affinity = (\<lambda>port. if port \<in> {443, 8443, 993, 995} then 100 else 10)\<rparr>"

definition ssh_banner_probe :: probe where
  "ssh_banner_probe = \<lparr>pb_id = ''ssh-banner-v1'', pb_kind = ListenFirst,
     pb_affinity = (\<lambda>port. if port \<in> {22, 2222} then 100 else 8)\<rparr>"

definition smtp_banner_probe :: probe where
  "smtp_banner_probe = \<lparr>pb_id = ''smtp-banner-v1'', pb_kind = ListenFirst,
     pb_affinity = (\<lambda>port. if port \<in> {25, 465, 587} then 100 else 5)\<rparr>"

definition dns_version_bind_probe :: probe where
  "dns_version_bind_probe = \<lparr>pb_id = ''dns-version-bind-v1'', pb_kind = SendFirst,
     pb_affinity = (\<lambda>port. if port = 53 then 100 else 5)\<rparr>"

definition postgres_startup_probe :: probe where
  "postgres_startup_probe = \<lparr>pb_id = ''postgres-startup-v1'', pb_kind = SendFirst,
     pb_affinity = (\<lambda>port. if port = 5432 then 100 else 5)\<rparr>"

definition mysql_greeting_probe :: probe where
  "mysql_greeting_probe = \<lparr>pb_id = ''mysql-greeting-v1'', pb_kind = ListenFirst,
     pb_affinity = (\<lambda>port. if port = 3306 then 100 else 5)\<rparr>"

definition redis_ping_probe :: probe where
  "redis_ping_probe = \<lparr>pb_id = ''redis-ping-v1'', pb_kind = SendFirst,
     pb_affinity = (\<lambda>port. if port = 6379 then 100 else 5)\<rparr>"

section \<open>The registry\<close>

text \<open>\<open>str::rfind\<close> of a pattern: where its last occurrence starts.\<close>

definition rfind_at :: "string \<Rightarrow> string \<Rightarrow> nat option" where
  "rfind_at pat s = find (\<lambda>i. take (length pat) (drop i s) = pat) (rev [0..<length s])"

definition has_version_suffix :: "string \<Rightarrow> bool" where
  "has_version_suffix s =
     (case rfind_at ''-v'' s of
        None \<Rightarrow> False
      | Some i \<Rightarrow> (let digits = drop (i + 2) s in digits \<noteq> [] \<and> list_all is_digit digits))"

fun probe_id_violations_from :: "string list \<Rightarrow> string list \<Rightarrow> string list" where
  "probe_id_violations_from seen [] = []"
| "probe_id_violations_from seen (i # ids) =
     (if i \<in> set seen then [''duplicate probe id `'' @ i @ ''`''] else []) @
     (if \<not> has_version_suffix i
      then [''probe id `'' @ i @ ''` has no version suffix (expected e.g. `-v1`)''] else []) @
     probe_id_violations_from (i # seen) ids"

definition probe_id_violations :: "string list \<Rightarrow> string list" where
  "probe_id_violations ids = probe_id_violations_from [] ids"

definition registry_new :: "probe list \<Rightarrow> probe list rust" where
  "registry_new probes = (if probe_id_violations (map pb_id probes) = [] then Ret probes else Panic)"

definition registry_standard :: "probe list rust" where
  "registry_standard = registry_new
     [http_get_probe, tls_probe, ssh_banner_probe, smtp_banner_probe, dns_version_bind_probe,
      postgres_startup_probe, mysql_greeting_probe, redis_ping_probe]"

text \<open>\<open>sort_by_key\<close> with \<open>Reverse\<close> is a stable sort by descending affinity.\<close>

definition select_probes :: "u16 \<Rightarrow> u8 \<Rightarrow> probe list \<Rightarrow> probe list" where
  "select_probes port intensity registry =
     (let candidates = sort_key (\<lambda>p. 255 - unat (pb_affinity p port)) registry;
          budget = (if intensity = 0 then 1 else unat intensity)
      in take (min budget (length candidates)) candidates)"

lemma length_select_probes: "length (select_probes port intensity reg) = min (max 1 (unat intensity)) (length reg)"
  by (auto simp: select_probes_def Let_def min_def max_def unat_eq_0 Suc_le_eq word_gt_0_no unat_gt_0)

end
