(* ===== verification/Interpret.thy ===== *)
theory Interpret
  imports Probes
begin

text \<open>
  Interpretation of a capture, \<open>crates/bathy-interpret/src/interpret.rs\<close>: every rule registered for
  the capture's probe is tried, and the interpretations are ordered by descending confidence, then
  by rule id. The registered rules are an argument.
\<close>

record interp =
  ip_observation :: observation
  ip_rule_id :: string
  ip_matched_span :: "nat \<times> nat"
  ip_rationale :: string

text \<open>A rule of the table: its documentation, its probe and its matcher.\<close>

record rule_hit =
  hit_product :: "string option"
  hit_version :: "string option"
  hit_span :: "nat \<times> nat"
  hit_confidence :: confidence

record rule =
  ru_id :: string
  ru_probe_id :: string
  ru_service :: string
  ru_rationale :: string
  ru_matcher :: "string \<Rightarrow> rule_hit option"

definition rules_for :: "rule list \<Rightarrow> string \<Rightarrow> rule list" where
  "rules_for rules probe_id = filter (\<lambda>r. ru_probe_id r = probe_id) rules"

text \<open>Confidences are never NaN, so \<open>partial_cmp\<close> is the order of the values.\<close>

definition sort_stable :: "interp list \<Rightarrow> interp list" where
  "sort_stable out =
     sort_key (\<lambda>i. (- f64_value_key (confidence_bits (ob_confidence (ip_observation i))), ip_rule_id i)) out"

definition interpret_capture :: "rule list \<Rightarrow> probe_capture \<Rightarrow> interp list" where
  "interpret_capture rules capture =
     sort_stable
       (List.map_filter
         (\<lambda>r. map_option
            (\<lambda>hit. \<lparr>ip_observation = \<lparr>ob_service = ru_service r, ob_product = hit_product hit,
                       ob_version = hit_version hit, ob_confidence = hit_confidence hit\<rparr>,
                     ip_rule_id = ru_id r, ip_matched_span = hit_span hit, ip_rationale = ru_rationale r\<rparr>)
            (ru_matcher r (pc_response capture)))
         (rules_for rules (pc_probe_id capture)))"

end
