(* ===== verification/Packetd_Client.thy ===== *)
theory Packetd_Client
  imports Event Canonical
begin

text \<open>
  The engine's half of the seam to the privileged daemon, \<open>crates/bathy-engine/src/packetd.rs\<close>: the
  requests and responses of the line protocol, the session opened from the manifest, one exchange,
  the worker that stops at the first broken one, and the errors. The operating system's answers
  (spawning, pipes, lines, exit status) and serde's text of requests and responses are arguments.
\<close>

section \<open>The line protocol\<close>

datatype host_state = Up | Down | Unknown

datatype 'n request =
    Init "'n list" "'n list" u32 u64 \<comment> \<open>allowed, denied, packets per second, maximum packets\<close>
  | ProbeRequest u64 ip_addr u16
  | IcmpProbe u64 ip_addr
  | Shutdown

datatype response =
    Ready bool
  | Result u64 port_state
  | HostResult u64 host_state
  | RefusedProbe u64 string
  | Fatal string

datatype probe_answer = PortAnswer port_state | HostAnswer host_state

datatype packetd_error =
    Unavailable string
  | Gone string
  | Refusal u64 string string \<comment> \<open>id, endpoint, reason\<close>

fun show_packetd_error :: "packetd_error \<Rightarrow> string" where
  "show_packetd_error (Unavailable s) = ''packetd is unavailable: '' @ s"
| "show_packetd_error (Gone s) = ''packetd stopped answering mid-scan: '' @ s"
| "show_packetd_error (Refusal i endpoint reason) =
     ''packetd refused probe '' @ show_word i @ '' at '' @ endpoint @ '': '' @ reason"

fun terminal_reason :: "packetd_error \<Rightarrow> string option" where
  "terminal_reason (Unavailable s) = None"
| "terminal_reason (Gone s) = Some ''packetd_unavailable''"
| "terminal_reason (Refusal i endpoint reason) = Some ''packetd_refused''"

definition init_request :: "'n scope_manifest \<Rightarrow> 'n request" where
  "init_request m = Init (sm_allowed m) (sm_denied m)
     (maximum_packets_per_second (sm_ceiling m)) (maximum_packets (sm_ceiling m))"

text \<open>
  \<open>serde_json\<close> on the two types, and the debug text of a response. \<open>trim_end\<close> is applied before
  parsing, so the parameter reads a line without its end.
\<close>

record 'n line_env =
  le_write :: "'n request \<Rightarrow> string + string"
  le_parse :: "string \<Rightarrow> string + response"
  le_debug :: "response \<Rightarrow> string"

definition to_line :: "'n line_env \<Rightarrow> 'n request \<Rightarrow> packetd_error + string" where
  "to_line L r =
     (case le_write L r of
        Inl e \<Rightarrow> Inl (Unavailable (''serializing a request: '' @ e))
      | Inr s \<Rightarrow> Inr (s @ [CHR 0x0A]))"

text \<open>What one \<open>read_line\<close> gives.\<close>

datatype reading = ReadFailed string | EndOfStream | ReadLine string

definition read_response :: "'n line_env \<Rightarrow> reading \<Rightarrow> packetd_error + response option" where
  "read_response L r =
     (case r of
        EndOfStream \<Rightarrow> Inr None
      | ReadLine line \<Rightarrow>
          (case le_parse L line of
             Inl e \<Rightarrow> Inl (Gone (''packetd wrote a line this build cannot parse ('' @ e @
               ''); the two halves disagree about the protocol''))
           | Inr resp \<Rightarrow> Inr (Some resp))
      | ReadFailed e \<Rightarrow> Inl (Gone (''reading from packetd: '' @ e)))"

section \<open>One exchange\<close>

record 'n job =
  job_request :: "'n request"
  job_endpoint :: string

text \<open>The pipes' answers to one exchange: the error of the write if it fails, and the line read.\<close>

record pipes =
  pp_write_fails :: "string option"
  pp_reading :: reading

fun request_id :: "'n request \<Rightarrow> u64" where
  "request_id (ProbeRequest i target port) = i"
| "request_id (IcmpProbe i target) = i"
| "request_id _ = 0"

definition exchange :: "'n line_env \<Rightarrow> 'n job \<Rightarrow> pipes \<Rightarrow> packetd_error + probe_answer" where
  "exchange L job p =
     res_bind (to_line L (job_request job)) (\<lambda>_.
     (case pp_write_fails p of
        Some e \<Rightarrow> Inl (Gone (''writing a probe: '' @ e))
      | None \<Rightarrow>
          let i = request_id (job_request job);
              lost = (\<lambda>answered. Inl (Gone (''packetd answered probe '' @ show_word answered @
                '' while probe '' @ show_word i @ '' was outstanding; the line protocol is one request and '' @
                ''one response, so a mismatched id means the two sides have lost sync'')))
          in
          (case read_response L (pp_reading p) of
             Inr (Some (Result answered state)) \<Rightarrow> if answered = i then Inr (PortAnswer state) else lost answered
           | Inr (Some (HostResult answered state)) \<Rightarrow> if answered = i then Inr (HostAnswer state) else lost answered
           | Inr (Some (RefusedProbe _ reason)) \<Rightarrow> Inl (Refusal i (job_endpoint job) reason)
           | Inr (Some (Fatal detail)) \<Rightarrow> Inl (Gone (''packetd went fatal: '' @ detail))
           | Inr (Some other) \<Rightarrow> Inl (Gone (''packetd answered a probe with '' @ le_debug L other))
           | Inr None \<Rightarrow> Inl (Gone ''packetd closed its output mid-scan'')
           | Inl e \<Rightarrow> Inl (Gone (show_packetd_error e)))))"

section \<open>The client\<close>

text \<open>
  A client is its next id and whether its worker still serves. The worker appends what the daemon
  said on standard error (trimmed, \<open>said\<close>) to the reason it died of, and returns.
\<close>

record client =
  cl_next_id :: u64
  cl_serving :: bool

definition postmortem :: "string \<Rightarrow> string" where
  "postmortem said = (if said = [] then ''the daemon exited without saying why'' else said)"

definition serve_job ::
  "'n line_env \<Rightarrow> 'n job \<Rightarrow> pipes \<Rightarrow> string \<Rightarrow> (packetd_error + probe_answer) \<times> bool"
where
  "serve_job L job p said =
     (case exchange L job p of
        Inl (Gone reason) \<Rightarrow> (Inl (Gone (if said = [] then reason else reason @ '': '' @ said)), False)
      | answer \<Rightarrow> (answer, True))"

definition client_exchange ::
  "'n line_env \<Rightarrow> 'n request \<Rightarrow> string \<Rightarrow> pipes \<Rightarrow> string \<Rightarrow> client \<Rightarrow> (packetd_error + probe_answer) \<times> client"
where
  "client_exchange L request endpoint p said c =
     (if \<not> cl_serving c then (Inl (Gone (postmortem said)), c)
      else
        (case serve_job L \<lparr>job_request = request, job_endpoint = endpoint\<rparr> p said of
           (answer, serving) \<Rightarrow> (answer, c\<lparr>cl_serving := serving\<rparr>)))"

fun show_port_state :: "port_state \<Rightarrow> string" where
  "show_port_state Open = ''Open''"
| "show_port_state Closed = ''Closed''"
| "show_port_state Filtered = ''Filtered''"
| "show_port_state Indeterminate = ''Indeterminate''"

fun show_host_state :: "host_state \<Rightarrow> string" where
  "show_host_state Up = ''Up''"
| "show_host_state Down = ''Down''"
| "show_host_state Unknown = ''Unknown''"

definition client_probe ::
  "'n line_env \<Rightarrow> ip_addr \<Rightarrow> u16 \<Rightarrow> pipes \<Rightarrow> string \<Rightarrow> client \<Rightarrow> (packetd_error + port_state) \<times> client"
where
  "client_probe L target port p said c =
     (let i = cl_next_id c in
      (case client_exchange L (ProbeRequest i target port) (show_ip target @ '':'' @ show_word port) p said
              (c\<lparr>cl_next_id := i + 1\<rparr>) of
         (Inl e, c') \<Rightarrow> (Inl e, c')
       | (Inr (PortAnswer state), c') \<Rightarrow> (Inr state, c')
       | (Inr (HostAnswer state), c') \<Rightarrow>
           (Inl (Gone (''packetd answered a port probe with the host state '' @ show_host_state state @
              ''; the two sides disagree about the protocol'')), c')))"

definition client_icmp_probe ::
  "'n line_env \<Rightarrow> ip_addr \<Rightarrow> pipes \<Rightarrow> string \<Rightarrow> client \<Rightarrow> (packetd_error + host_state) \<times> client"
where
  "client_icmp_probe L target p said c =
     (let i = cl_next_id c in
      (case client_exchange L (IcmpProbe i target) (show_ip target) p said (c\<lparr>cl_next_id := i + 1\<rparr>) of
         (Inl e, c') \<Rightarrow> (Inl e, c')
       | (Inr (HostAnswer state), c') \<Rightarrow> (Inr state, c')
       | (Inr (PortAnswer state), c') \<Rightarrow>
           (Inl (Gone (''packetd answered a host probe with the port state '' @ show_port_state state @
              ''; the two sides disagree about the protocol'')), c')))"

section \<open>Starting\<close>

text \<open>
  The operating system's answers to the start of a session: the spawn, the three pipes, the write of
  \<open>init\<close> and the first line; and, if it fails, the exit status and what the daemon said.
\<close>

record launch =
  la_spawn_fails :: "string option"
  la_pipes_missing :: bool
  la_write_fails :: "string option"
  la_reading :: reading
  la_exit_code :: "int option"
  la_said :: string

definition show_exit_code :: "int \<Rightarrow> string" where
  "show_exit_code c = show_int c"

definition finish_and_describe :: "int option \<Rightarrow> string \<Rightarrow> string" where
  "finish_and_describe status said =
     (case (status, said = []) of
        (Some code, False) \<Rightarrow> '' (exit '' @ show_exit_code code @ '': '' @ said @ '')''
      | (Some code, True) \<Rightarrow> '' (exit '' @ show_exit_code code @ '')''
      | (None, False) \<Rightarrow> '' ('' @ said @ '')''
      | (None, True) \<Rightarrow> [])"

definition handshake :: "'n line_env \<Rightarrow> 'n scope_manifest \<Rightarrow> launch \<Rightarrow> packetd_error + unit" where
  "handshake L m la =
     res_bind (to_line L (init_request m)) (\<lambda>_.
     (case la_write_fails la of
        Some e \<Rightarrow> Inl (Unavailable (''writing init: '' @ e))
      | None \<Rightarrow>
          res_bind (read_response L (la_reading la)) (\<lambda>r.
          (case r of
             Some (Ready True) \<Rightarrow> Inr ()
           | Some (Ready False) \<Rightarrow>
               Inl (Unavailable (''packetd reported that it still holds capabilities; refusing to stream '' @
                 ''targets to a privileged process''))
           | Some (Fatal detail) \<Rightarrow> Inl (Unavailable (''packetd refused the session: '' @ detail))
           | Some other \<Rightarrow> Inl (Unavailable (''packetd answered init with '' @ le_debug L other @ '' instead of ready''))
           | None \<Rightarrow> Inl (Unavailable ''packetd exited before answering init'')))))"

definition client_start :: "'n line_env \<Rightarrow> string \<Rightarrow> 'n scope_manifest \<Rightarrow> launch \<Rightarrow> packetd_error + client" where
  "client_start L binary m la =
     (case la_spawn_fails la of
        Some e \<Rightarrow> Inl (Unavailable (''spawning '' @ binary @ '': '' @ e))
      | None \<Rightarrow>
          if la_pipes_missing la then Inl (Unavailable ''packetd was spawned without a usable pipe'')
          else
            (case handshake L m la of
               Inl e \<Rightarrow>
                 (let detail = finish_and_describe (la_exit_code la) (la_said la);
                      reason = (case e of Unavailable reason \<Rightarrow> reason | other \<Rightarrow> show_packetd_error other)
                  in Inl (Unavailable (reason @ detail)))
             | Inr _ \<Rightarrow> Inr \<lparr>cl_next_id = 1, cl_serving = True\<rparr>))"

end
