(* ===== verification/Connect.thy ===== *)
theory Connect
  imports Event Packetd_Client
begin

text \<open>
  Connect probes and host discovery, \<open>crates/bathy-engine/src/connect.rs\<close> and \<open>discovery.rs\<close>. What the
  operating system answers to a connection attempt is an argument; the wait of a limiter is not
  visible here.
\<close>

section \<open>Connect probes\<close>

datatype connect_outcome = COpen | CClosed | CFiltered | CUnreachable

text \<open>The kinds of \<open>std::io::Error\<close> the sources name, and all the others.\<close>

datatype io_error_kind =
    ConnectionRefused
  | HostUnreachable
  | NetworkUnreachable
  | NetworkDown
  | TimedOut
  | PermissionDenied
  | AddrNotAvailable
  | ConnectionAborted
  | OtherKind

text \<open>\<open>timeout(budget, TcpStream::connect(addr))\<close>.\<close>

datatype dial = Connected | DialFailed io_error_kind | DialElapsed

fun classify_io_error :: "io_error_kind \<Rightarrow> connect_outcome" where
  "classify_io_error ConnectionRefused = CClosed"
| "classify_io_error HostUnreachable = CUnreachable"
| "classify_io_error NetworkUnreachable = CUnreachable"
| "classify_io_error NetworkDown = CUnreachable"
| "classify_io_error TimedOut = CFiltered"
| "classify_io_error PermissionDenied = CFiltered"
| "classify_io_error AddrNotAvailable = CFiltered"
| "classify_io_error ConnectionAborted = CFiltered"
| "classify_io_error _ = CFiltered"

fun probe_connect :: "dial \<Rightarrow> connect_outcome" where
  "probe_connect Connected = COpen"
| "probe_connect (DialFailed e) = classify_io_error e"
| "probe_connect DialElapsed = CFiltered"

definition is_local_failure :: "io_error_kind \<Rightarrow> bool" where
  "is_local_failure e \<longleftrightarrow> e \<in> {AddrNotAvailable, PermissionDenied}"

fun probe_connect_with_local_signal :: "dial \<Rightarrow> connect_outcome \<times> bool" where
  "probe_connect_with_local_signal Connected = (COpen, False)"
| "probe_connect_with_local_signal (DialFailed e) = (classify_io_error e, is_local_failure e)"
| "probe_connect_with_local_signal DialElapsed = (CFiltered, False)"

section \<open>Discovery\<close>

record discovery_config =
  dc_probe_ports :: "u16 list"
  dc_timeout :: nat

datatype discovery_config_error = EmptyProbePorts

definition discovery_config_new :: "u16 list \<Rightarrow> nat \<Rightarrow> discovery_config_error + discovery_config" where
  "discovery_config_new probe_ports timeout =
     (if probe_ports = [] then Inl EmptyProbePorts
      else Inr \<lparr>dc_probe_ports = probe_ports, dc_timeout = timeout\<rparr>)"

definition discovery_config_default :: discovery_config where
  "discovery_config_default = \<lparr>dc_probe_ports = [443, 80, 22], dc_timeout = 2000\<rparr>"

definition method_tcp_open :: string where "method_tcp_open = ''tcp-connect-open''"
definition method_tcp_refused :: string where "method_tcp_refused = ''tcp-connect-refused''"
definition method_no_response :: string where "method_no_response = ''no-response''"
definition method_icmp_up :: string where "method_icmp_up = ''icmp-echo-reply''"
definition method_icmp_down :: string where "method_icmp_down = ''icmp-unreachable''"

record discovery_result =
  dr_up :: bool
  dr_method :: string
  dr_packets_spent :: u64

text \<open>The loop over the configured ports; \<open>dials\<close> are the answers to the connection attempts.\<close>

fun discover_ports :: "(u16 \<Rightarrow> dial) \<Rightarrow> u64 \<Rightarrow> u16 list \<Rightarrow> discovery_result" where
  "discover_ports dials spent [] = \<lparr>dr_up = False, dr_method = method_no_response, dr_packets_spent = spent\<rparr>"
| "discover_ports dials spent (port # ports) =
     (let spent = spent + 1 in
      (case probe_connect (dials port) of
         COpen \<Rightarrow> \<lparr>dr_up = True, dr_method = method_tcp_open, dr_packets_spent = spent\<rparr>
       | CClosed \<Rightarrow> \<lparr>dr_up = True, dr_method = method_tcp_refused, dr_packets_spent = spent\<rparr>
       | CFiltered \<Rightarrow> discover_ports dials spent ports
       | CUnreachable \<Rightarrow> discover_ports dials spent ports))"

definition discover_host :: "(u16 \<Rightarrow> dial) \<Rightarrow> discovery_config \<Rightarrow> discovery_result" where
  "discover_host dials config = discover_ports dials 0 (dc_probe_ports config)"

text \<open>\<open>icmp\<close> is what the client's echo probe answers, \<open>None\<close> without a client.\<close>

definition discover_host_combined ::
  "(u16 \<Rightarrow> dial) \<Rightarrow> discovery_config \<Rightarrow> (packetd_error + host_state) option \<Rightarrow> packetd_error + discovery_result"
where
  "discover_host_combined dials config icmp =
     (case icmp of
        None \<Rightarrow> Inr (discover_host dials config)
      | Some (Inl e) \<Rightarrow> Inl e
      | Some (Inr Up) \<Rightarrow> Inr \<lparr>dr_up = True, dr_method = method_icmp_up, dr_packets_spent = 1\<rparr>
      | Some (Inr Down) \<Rightarrow> Inr \<lparr>dr_up = False, dr_method = method_icmp_down, dr_packets_spent = 1\<rparr>
      | Some (Inr Unknown) \<Rightarrow>
          (let tcp = discover_host dials config
           in Inr (tcp\<lparr>dr_packets_spent := sat_add (dr_packets_spent tcp) 1\<rparr>)))"

lemma discover_ports_spent:
  "unat spent + length ports < 2 ^ 64 \<Longrightarrow>
    unat (dr_packets_spent (discover_ports dials spent ports)) \<le> unat spent + length ports"
proof (induction ports arbitrary: spent)
  case Nil
  then show ?case by simp
next
  case (Cons p ps)
  have s: "unat (spent + 1) = Suc (unat spent)"
    using Cons.prems by (simp add: unat_word_ariths)
  then have "unat (spent + 1) + length ps < 2 ^ 64" using Cons.prems by simp
  from Cons.IH [OF this] s show ?case
    by (auto simp: Let_def split: connect_outcome.splits)
qed

end
