(* ===== verification/Engine.thy ===== *)
theory Engine
  imports Budget Plan Durable_Log Evidence_Store Task_Store Connect Interpret
begin

text \<open>
  The scheduler, \<open>crates/bathy-engine/src/scheduler.rs\<close>. Its state is the components it drives (the
  budget ledger, the group-commit log and its file, the task store, the evidence store, the client
  of the privileged daemon) and the local variables of \<open>run\<close>. What the surroundings answer (the
  cancellation token, the clock, the network, the faults of files and database, which probe task
  finishes first) is read off an \<open>env\<close> at the tick of the call, so that a theorem over every \<open>env\<close> is
  a theorem over every schedule. An operation that returns \<open>Err\<close> ends \<open>run\<close>; since every call may
  fail at every tick, the states a crash can leave are the final states of such runs.
\<close>

section \<open>Errors, results, configuration\<close>

datatype engine_error =
    ELog log_error
  | EStore store_error
  | EEvidence evidence_error
  | EJoin
  | EDiscovery canonical_error
  | EPlanMismatch u128 digest digest \<comment> \<open>scan, expected, actual\<close>
  | EPanic

record run_summary =
  rs_units_completed :: u64
  rs_packets_spent :: u64
  rs_open_ports :: u64
  rs_cancelled :: bool
  rs_budget_exhausted :: bool
  rs_time_exhausted :: bool
  rs_policy_denied :: bool
  rs_local_resource_failures :: u64
  rs_packetd_unavailable :: bool
  rs_scan_mode :: "scan_mode option"
  rs_packetd_fallback :: "string option"

definition run_summary_default :: run_summary where
  "run_summary_default =
     \<lparr>rs_units_completed = 0, rs_packets_spent = 0, rs_open_ports = 0, rs_cancelled = False,
      rs_budget_exhausted = False, rs_time_exhausted = False, rs_policy_denied = False,
      rs_local_resource_failures = 0, rs_packetd_unavailable = False, rs_scan_mode = None,
      rs_packetd_fallback = None\<rparr>"

record scheduler_config =
  sc_concurrency :: nat
  sc_progress_every :: u64
  sc_packetd_binary :: "string option"

definition store_flush_batch :: nat where "store_flush_batch = 64"

fun port_state_of :: "connect_outcome \<Rightarrow> port_state" where
  "port_state_of COpen = Open"
| "port_state_of CClosed = Closed"
| "port_state_of CFiltered = Filtered"
| "port_state_of CUnreachable = Filtered"

record service_finding =
  sf_observation :: observation
  sf_evidence :: string
  sf_probe_id :: string
  sf_rule_id :: string

text \<open>What \<open>Scheduler::new\<close> is given, with the external functions its parts rely on.\<close>

record 'n scheduler =
  sd_net :: "'n ipnet"
  sd_parse_time :: "string \<Rightarrow> int option"
  sd_encode :: "u128 \<Rightarrow> string"
  sd_decode :: "string \<Rightarrow> u128 option"
  sd_log_env :: log_env
  sd_encoder :: encoder
  sd_hash :: "string \<Rightarrow> digest"
  sd_line_env :: "'n line_env"
  sd_rules :: "rule list"
  sd_probes :: "probe list"
  sd_manifest :: "'n scope_manifest"
  sd_config :: scheduler_config
  sd_scan_id :: u128
  sd_engine_version :: string
  sd_detection :: service_detection
  sd_evidence_level :: evidence_level
  sd_objective :: objective
  sd_store :: store
  sd_pid :: nat

section \<open>The surroundings and the state\<close>

record env =
  an_cancelled :: "nat \<Rightarrow> bool"
  an_elapsed :: "nat \<Rightarrow> u64" \<comment> \<open>\<open>ceil_elapsed_seconds(started.elapsed())\<close>\<close>
  an_timestamp :: "nat \<Rightarrow> string"
  an_instant :: "nat \<Rightarrow> nat"
  an_write :: "nat \<Rightarrow> write_fault"
  an_sync :: "nat \<Rightarrow> write_fault"
  an_unlock_fails :: "nat \<Rightarrow> bool"
  an_sql :: "nat \<Rightarrow> sql_error option"
  an_put :: "nat \<Rightarrow> answer list"
  an_dial :: "nat \<Rightarrow> u16 \<Rightarrow> dial"
  an_capture :: "nat \<Rightarrow> probe_capture option" \<comment> \<open>a reconnect and the probe run over it\<close>
  an_launch :: "nat \<Rightarrow> launch"
  an_pipes :: "nat \<Rightarrow> pipes"
  an_said :: "nat \<Rightarrow> string"
  an_finishes :: "nat \<Rightarrow> nat \<Rightarrow> bool" \<comment> \<open>which tasks in flight have finished since\<close>
  an_pick :: "nat \<Rightarrow> nat" \<comment> \<open>which of the finished ones is joined\<close>
  an_join_fails :: "nat \<Rightarrow> bool"

text \<open>A spawned connect task: what it will return, and whether it has.\<close>

record flight =
  fl_unit :: scan_unit
  fl_state :: port_state
  fl_local :: bool
  fl_finished :: bool

text \<open>
  \<open>w_probed\<close> and \<open>w_dispatched\<close> are histories no code reads: the address of every probe started, and the index of
  every unit a probe was started for. A probe is what the budget counts (\<open>Budgets\<close> in \<open>request.rs\<close>): one connection
  attempt, one request to the daemon or one echo request. The segments it puts on the wire are a small multiple, of
  which this side of the seam sees nothing; the daemon counts its own packets.
\<close>

record world =
  w_tick :: nat
  w_ledger :: ledger
  w_gc :: group_commit_log
  w_file :: log_file
  w_db :: db
  w_disk :: disk
  w_put_seq :: u64
  w_client :: "client option"
  w_summary :: run_summary
  w_batch :: "u64 list"
  w_last_progress :: u64
  w_flight :: "flight list"
  w_denial :: "(deny_reason \<times> string) option"
  w_failure :: "packetd_error option"
  w_probed :: "ip_addr list"
  w_dispatched :: "u64 list"

section \<open>Operations that may fail\<close>

type_synonym 'a eng = "world \<Rightarrow> (engine_error + 'a) \<times> world"

definition eng_ret :: "'a \<Rightarrow> 'a eng" where
  "eng_ret x w = (Inr x, w)"

definition eng_fail :: "engine_error \<Rightarrow> 'a eng" where
  "eng_fail e w = (Inl e, w)"

definition eng_bind :: "'a eng \<Rightarrow> ('a \<Rightarrow> 'b eng) \<Rightarrow> 'b eng" where
  "eng_bind m f w = (case m w of (Inl e, w') \<Rightarrow> (Inl e, w') | (Inr x, w') \<Rightarrow> f x w')"

definition eng_then :: "unit eng \<Rightarrow> 'b eng \<Rightarrow> 'b eng" where
  "eng_then m n = eng_bind m (\<lambda>_. n)"

definition eng_get :: "(world \<Rightarrow> 'a) \<Rightarrow> 'a eng" where
  "eng_get f w = (Inr (f w), w)"

definition eng_mod :: "(world \<Rightarrow> world) \<Rightarrow> unit eng" where
  "eng_mod f w = (Inr (), f w)"

definition ask :: "(nat \<Rightarrow> 'a) \<Rightarrow> 'a eng" where
  "ask q w = (Inr (q (w_tick w)), w\<lparr>w_tick := Suc (w_tick w)\<rparr>)"

fun eng_when :: "bool \<Rightarrow> unit eng \<Rightarrow> unit eng" where
  "eng_when True m = m"
| "eng_when False m = eng_ret ()"

definition set_summary :: "(run_summary \<Rightarrow> run_summary) \<Rightarrow> unit eng" where
  "set_summary f = eng_mod (\<lambda>w. w\<lparr>w_summary := f (w_summary w)\<rparr>)"

section \<open>The components\<close>

definition log_event :: "'n scheduler \<Rightarrow> env \<Rightarrow> event_body \<Rightarrow> unit eng" where
  "log_event S A body w =
     (let t = w_tick w; w' = w\<lparr>w_tick := Suc t\<rparr> in
      (case gc_append (sd_log_env S) (an_write A t) (an_sync A t) body (an_timestamp A t) (sd_engine_version S)
              (an_instant A t) (w_gc w) (w_file w) of
         (Panic, g, f) \<Rightarrow> (Inl EPanic, w'\<lparr>w_gc := g, w_file := f\<rparr>)
       | (Ret (Inl e), g, f) \<Rightarrow> (Inl (ELog e), w'\<lparr>w_gc := g, w_file := f\<rparr>)
       | (Ret (Inr ev), g, f) \<Rightarrow> (Inr (), w'\<lparr>w_gc := g, w_file := f\<rparr>)))"

definition log_force_sync :: "env \<Rightarrow> unit eng" where
  "log_force_sync A w =
     (let t = w_tick w; w' = w\<lparr>w_tick := Suc t\<rparr> in
      (case force_sync (an_sync A t) (an_instant A t) (w_gc w) (w_file w) of
         (Inl e, g, f) \<Rightarrow> (Inl (ELog e), w'\<lparr>w_gc := g, w_file := f\<rparr>)
       | (Inr _, g, f) \<Rightarrow> (Inr (), w'\<lparr>w_gc := g, w_file := f\<rparr>)))"

definition log_release :: "env \<Rightarrow> unit eng" where
  "log_release A w =
     (let t = w_tick w; w' = w\<lparr>w_tick := Suc t\<rparr> in
      (case gc_release_writer_lock (an_sync A t) (an_unlock_fails A t) (an_instant A t) (w_gc w) (w_file w) of
         (Inl e, g, f) \<Rightarrow> (Inl (ELog e), w'\<lparr>w_gc := g, w_file := f\<rparr>)
       | (Inr _, g, f) \<Rightarrow> (Inr (), w'\<lparr>w_gc := g, w_file := f\<rparr>)))"

definition log_last_sequence :: "world \<Rightarrow> u64" where
  "log_last_sequence w = last_sequence (gc_log (w_gc w))"

text \<open>A statement of the task store: the database may refuse it instead.\<close>

definition run_sql :: "env \<Rightarrow> (db \<Rightarrow> (store_error + 'a) \<times> db) \<Rightarrow> 'a eng" where
  "run_sql A q w =
     (let w' = w\<lparr>w_tick := Suc (w_tick w)\<rparr> in
      (case an_sql A (w_tick w) of
         Some e \<Rightarrow> (Inl (EStore (Sqlite e)), w')
       | None \<Rightarrow>
           (case q (w_db w) of
              (Inl e, d) \<Rightarrow> (Inl (EStore e), w'\<lparr>w_db := d\<rparr>)
            | (Inr x, d) \<Rightarrow> (Inr x, w'\<lparr>w_db := d\<rparr>))))"

definition load_record :: "'n scheduler \<Rightarrow> env \<Rightarrow> task_record option eng" where
  "load_record S A =
     eng_bind (run_sql A (\<lambda>d. (Inr (store_get (sd_encode S) (sd_decode S) (sd_scan_id S) d), d)))
       (\<lambda>r. case r of
          Panic \<Rightarrow> eng_fail EPanic
        | Ret (Inl e) \<Rightarrow> eng_fail (EStore e)
        | Ret (Inr rec) \<Rightarrow> eng_ret rec)"

text \<open>Storing evidence; the digest it is stored under.\<close>

definition put_evidence :: "'n scheduler \<Rightarrow> env \<Rightarrow> string \<Rightarrow> digest eng" where
  "put_evidence S A bytes w =
     (let t = w_tick w; w' = w\<lparr>w_tick := Suc t, w_put_seq := w_put_seq w + 1\<rparr> in
      (case put (sd_hash S) (sd_pid S) (w_put_seq w) (sd_store S) (an_put A t) bytes (w_disk w) of
         (Inl e, fs) \<Rightarrow> (Inl (EEvidence e), w'\<lparr>w_disk := fs\<rparr>)
       | (Inr d, fs) \<Rightarrow> (Inr d, w'\<lparr>w_disk := fs\<rparr>)))"

definition put_evidence_capped :: "'n scheduler \<Rightarrow> env \<Rightarrow> string \<Rightarrow> nat \<Rightarrow> digest eng" where
  "put_evidence_capped S A bytes cap w =
     (let t = w_tick w; w' = w\<lparr>w_tick := Suc t, w_put_seq := w_put_seq w + 1\<rparr> in
      (case put_capped (sd_hash S) (sd_pid S) (w_put_seq w) (sd_store S) (an_put A t) bytes cap (w_disk w) of
         (Inl e, fs) \<Rightarrow> (Inl (EEvidence e), w'\<lparr>w_disk := fs\<rparr>)
       | (Inr (d, truncated), fs) \<Rightarrow> (Inr d, w'\<lparr>w_disk := fs\<rparr>)))"

text \<open>A reservation: whether the ledger granted it.\<close>

definition try_spend :: "u64 \<Rightarrow> bool eng" where
  "try_spend n w =
     (case try_spend_packets (w_ledger w) n of
        (l, Inl e) \<Rightarrow> (Inr False, w\<lparr>w_ledger := l\<rparr>)
      | (l, Inr _) \<Rightarrow> (Inr True, w\<lparr>w_ledger := l\<rparr>))"

definition runtime_exceeded :: "env \<Rightarrow> bool eng" where
  "runtime_exceeded A =
     eng_bind (ask (an_elapsed A)) (\<lambda>s. eng_get (\<lambda>w. elapsed_exceeded (w_ledger w) s))"

definition total_elapsed_seconds :: "env \<Rightarrow> u64 eng" where
  "total_elapsed_seconds A =
     eng_bind (ask (an_elapsed A)) (\<lambda>s. eng_get (\<lambda>w. sat_add (lg_seconds_already_elapsed (w_ledger w)) s))"

definition send_probes :: "ip_addr \<Rightarrow> nat \<Rightarrow> unit eng" where
  "send_probes target n = eng_mod (\<lambda>w. w\<lparr>w_probed := w_probed w @ replicate n target\<rparr>)"

section \<open>Recording a unit\<close>

text \<open>
  The candidates of one open endpoint, in order, until one's capture has an interpretation. The
  \<open>select!\<close> around the limiter reports a cancellation first.
\<close>

fun detect_loop :: "'n scheduler \<Rightarrow> env \<Rightarrow> scan_unit \<Rightarrow> probe list \<Rightarrow> service_finding option eng" where
  "detect_loop S A unit [] = eng_ret None"
| "detect_loop S A unit (p # ps) =
     eng_bind (ask (an_cancelled A)) (\<lambda>cancelled.
     if cancelled then eng_ret None
     else
       eng_bind (ask (an_cancelled A)) (\<lambda>cancelled.
       if cancelled then eng_ret None
       else
         eng_bind (try_spend 1) (\<lambda>granted.
         if \<not> granted then eng_ret None
         else
           eng_then (send_probes (su_target unit) 1)
          (eng_bind (ask (an_capture A)) (\<lambda>dialled.
           case dialled of
             None \<Rightarrow> detect_loop S A unit ps
           | Some capture \<Rightarrow>
               (case interpret_capture (sd_rules S) capture of
                  [] \<Rightarrow> detect_loop S A unit ps
                | best # _ \<Rightarrow>
                    eng_ret (Some \<lparr>sf_observation = ip_observation best, sf_evidence = pc_response capture,
                                   sf_probe_id = pc_probe_id capture, sf_rule_id = ip_rule_id best\<rparr>)))))))"

definition detect_service :: "'n scheduler \<Rightarrow> env \<Rightarrow> scan_unit \<Rightarrow> service_finding option eng" where
  "detect_service S A unit =
     (if \<not> allows (sd_net S) (sd_manifest S) (su_target unit) then eng_ret None
      else detect_loop S A unit
        (select_probes (ep_port (su_endpoint unit)) (sd_intensity (sd_detection S)) (sd_probes S)))"

definition emit_service_observed :: "'n scheduler \<Rightarrow> env \<Rightarrow> scan_unit \<Rightarrow> service_finding \<Rightarrow> unit eng" where
  "emit_service_observed S A unit finding =
     (case (case sd_evidence_level S of EvNone \<Rightarrow> None | EvHeaders \<Rightarrow> Some (8 * 1024) | EvFull \<Rightarrow> Some (64 * 1024)) of
        None \<Rightarrow> eng_ret ()
      | Some cap \<Rightarrow>
          eng_bind (put_evidence_capped S A (sf_evidence finding) cap) (\<lambda>digest.
          log_event S A (ServiceObserved (su_target unit) (su_endpoint unit) (sf_observation finding)
            (ne_new digest) (sf_probe_id finding) (Some (sf_rule_id finding)))))"

definition record_unit :: "'n scheduler \<Rightarrow> env \<Rightarrow> scan_unit \<Rightarrow> port_state \<Rightarrow> bool \<Rightarrow> unit eng" where
  "record_unit S A unit state local_failure =
     eng_then (log_event S A (PortStateObserved (su_target unit) (su_endpoint unit) state None))
    (eng_then (eng_when (state = Open)
       (eng_then (set_summary (\<lambda>s. s\<lparr>rs_open_ports := rs_open_ports s + 1\<rparr>))
         (eng_when (sd_enabled (sd_detection S))
           (eng_bind (detect_service S A unit) (\<lambda>found.
            case found of
              None \<Rightarrow> eng_ret ()
            | Some finding \<Rightarrow> emit_service_observed S A unit finding)))))
    (eng_then (eng_when local_failure
       (set_summary (\<lambda>s. s\<lparr>rs_local_resource_failures := rs_local_resource_failures s + 1\<rparr>)))
    (eng_then (eng_mod (\<lambda>w. w\<lparr>w_batch := w_batch w @ [su_index unit]\<rparr>))
      (set_summary (\<lambda>s. s\<lparr>rs_units_completed := rs_units_completed s + 1\<rparr>)))))"

text \<open>
  The flush: the log durable first, then the cursor of the store, then progress. Its arguments
  \<open>completed\<close>, \<open>units_completed\<close> and \<open>last_progress_emitted_at\<close> are the state's.
\<close>

definition flush_progress :: "'n scheduler \<Rightarrow> env \<Rightarrow> u64 \<Rightarrow> unit eng" where
  "flush_progress S A estimated_probes =
     eng_bind (eng_get w_batch) (\<lambda>completed.
     if completed = [] then eng_ret ()
     else
       eng_then (log_force_sync A)
      (eng_then (run_sql A (mark_units_done (sd_encode S) (sd_scan_id S) completed))
      (eng_bind (eng_get (\<lambda>w. (rs_units_completed (w_summary w), w_last_progress w, lg_packets_spent (w_ledger w))))
        (\<lambda>(units_completed, last_progress, packets_spent).
       eng_then (eng_when (sat_sub units_completed last_progress \<ge> max (sc_progress_every (sd_config S)) 1)
          (eng_then (log_event S A (Progress units_completed estimated_probes packets_spent))
            (eng_mod (\<lambda>w. w\<lparr>w_last_progress := units_completed\<rparr>))))
      (eng_bind (eng_get log_last_sequence) (\<lambda>last_sequence.
       eng_bind (total_elapsed_seconds A) (\<lambda>elapsed.
       eng_bind (ask (an_timestamp A)) (\<lambda>now.
       eng_then (run_sql A (record_progress (sd_encode S) (sd_scan_id S) last_sequence packets_spent elapsed now))
         (eng_mod (\<lambda>w. w\<lparr>w_batch := []\<rparr>))))))))))"

text \<open>The text of one discovery record; \<open>put\<close> runs to completion before the event is appended.\<close>

definition discovery_record :: "ip_addr \<Rightarrow> discovery_result \<Rightarrow> json" where
  "discovery_record target result =
     JObject [(''target'', JString (show_ip target)), (''up'', JBool (dr_up result)),
              (''method'', JString (dr_method result)),
              (''packets_spent'', JNumber (PosInt (dr_packets_spent result)))]"

definition emit_host_discovered :: "'n scheduler \<Rightarrow> env \<Rightarrow> ip_addr \<Rightarrow> discovery_result \<Rightarrow> unit eng" where
  "emit_host_discovered S A target result =
     (if \<not> dr_up result then eng_ret ()
      else
        (case canonical_json (sd_encoder S) (discovery_record target result) of
           Inl e \<Rightarrow> eng_fail (EDiscovery e)
         | Inr bytes \<Rightarrow>
             eng_bind (put_evidence S A bytes) (\<lambda>digest.
             log_event S A (HostDiscovered target (dr_method result) (ne_new digest)))))"

section \<open>Tasks in flight\<close>

definition is_permitted :: "'n scheduler \<Rightarrow> ip_addr \<Rightarrow> bool" where
  "is_permitted S target = allows (sd_net S) (sd_manifest S) target"

definition finish_some :: "(nat \<Rightarrow> bool) \<Rightarrow> flight list \<Rightarrow> flight list" where
  "finish_some p fs = map (\<lambda>(i, f). if p i then f\<lparr>fl_finished := True\<rparr> else f) (zip [0..<length fs] fs)"

text \<open>Some of the tasks in flight finish, and give back their permits.\<close>

definition let_tasks_run :: "env \<Rightarrow> unit eng" where
  "let_tasks_run A = eng_bind (ask (an_finishes A)) (\<lambda>p. eng_mod (\<lambda>w. w\<lparr>w_flight := finish_some p (w_flight w)\<rparr>))"

definition running :: "flight list \<Rightarrow> nat" where
  "running fs = length (filter (\<lambda>f. \<not> fl_finished f) fs)"

fun finish_first :: "flight list \<Rightarrow> flight list" where
  "finish_first [] = []"
| "finish_first (f # fs) = (if fl_finished f then f # finish_first fs else f\<lparr>fl_finished := True\<rparr> # fs)"

text \<open>
  The wait for a limiter token and a permit, raced against cancellation. With every permit taken,
  the wait ends when a task finishes.
\<close>

definition await_permit :: "'n scheduler \<Rightarrow> env \<Rightarrow> bool eng" where
  "await_permit S A =
     eng_then (let_tasks_run A)
    (eng_bind (ask (an_cancelled A)) (\<lambda>cancelled.
     if cancelled then eng_ret False
     else
       eng_then (eng_mod (\<lambda>w. if running (w_flight w) < max (sc_concurrency (sd_config S)) 1 then w
                               else w\<lparr>w_flight := finish_first (w_flight w)\<rparr>))
         (eng_ret True)))"

text \<open>Joining: one of the finished tasks leaves the set, and is recorded.\<close>

definition remove_nth :: "nat \<Rightarrow> 'a list \<Rightarrow> 'a list" where
  "remove_nth i xs = take i xs @ drop (Suc i) xs"

definition join_at :: "'n scheduler \<Rightarrow> env \<Rightarrow> nat \<Rightarrow> unit eng" where
  "join_at S A i =
     eng_bind (eng_get (\<lambda>w. w_flight w ! i)) (\<lambda>f.
     eng_then (eng_mod (\<lambda>w. w\<lparr>w_flight := remove_nth i (w_flight w)\<rparr>))
    (eng_bind (ask (an_join_fails A)) (\<lambda>fails.
     if fails then eng_fail EJoin else record_unit S A (fl_unit f) (fl_state f) (fl_local f))))"

definition ready :: "flight list \<Rightarrow> nat list" where
  "ready fs = filter (\<lambda>i. fl_finished (fs ! i)) [0..<length fs]"

text \<open>
  \<open>try_join_next\<close> until no task is ready, and \<open>join_next\<close> until none is left. Each round removes one
  task and nothing adds one, so the number of tasks in flight is fuel enough.
\<close>

fun try_join_all :: "'n scheduler \<Rightarrow> env \<Rightarrow> nat \<Rightarrow> unit eng" where
  "try_join_all S A 0 = eng_ret ()"
| "try_join_all S A (Suc n) =
     eng_then (let_tasks_run A)
    (eng_bind (ask (an_pick A)) (\<lambda>k.
     eng_bind (eng_get (\<lambda>w. ready (w_flight w))) (\<lambda>is.
     if is = [] then eng_ret ()
     else eng_then (join_at S A (is ! (k mod length is))) (try_join_all S A n))))"

fun join_all :: "'n scheduler \<Rightarrow> env \<Rightarrow> nat \<Rightarrow> unit eng" where
  "join_all S A 0 = eng_ret ()"
| "join_all S A (Suc n) =
     eng_bind (ask (an_pick A)) (\<lambda>k.
     eng_bind (eng_get (\<lambda>w. length (w_flight w))) (\<lambda>l.
     if l = 0 then eng_ret ()
     else eng_then (join_at S A (k mod l)) (join_all S A n)))"

section \<open>The loops of a run\<close>

definition cancel_run :: "unit eng" where
  "cancel_run = set_summary (\<lambda>s. s\<lparr>rs_cancelled := True\<rparr>)"

definition exhaust_time :: "unit eng" where
  "exhaust_time = set_summary (\<lambda>s. s\<lparr>rs_time_exhausted := True\<rparr>)"

definition exhaust_budget :: "unit eng" where
  "exhaust_budget = set_summary (\<lambda>s. s\<lparr>rs_budget_exhausted := True\<rparr>)"

definition deny :: "deny_reason \<Rightarrow> string \<Rightarrow> unit eng" where
  "deny reason detail = eng_mod (\<lambda>w. w\<lparr>w_denial := Some (reason, detail)\<rparr>)"

definition fail_packetd :: "packetd_error \<Rightarrow> unit eng" where
  "fail_packetd e = eng_mod (\<lambda>w. w\<lparr>w_failure := Some e\<rparr>)"

definition show_manifest_id :: "'n scheduler \<Rightarrow> string" where
  "show_manifest_id S = show_scope_id (sd_encode S) (sm_id (sd_manifest S))"

definition discover :: "'n scheduler \<Rightarrow> env \<Rightarrow> ip_addr \<Rightarrow> (packetd_error + discovery_result) eng" where
  "discover S A target =
     eng_bind (ask (\<lambda>t. (an_pipes A t, an_said A t, an_dial A t))) (\<lambda>(p, said, dials).
     eng_bind (eng_get w_client) (\<lambda>c.
       (case c of
          None \<Rightarrow>
            (case discover_host_combined dials discovery_config_default None of
               Inl e \<Rightarrow> eng_ret (Inl e)
             | Inr r \<Rightarrow> eng_then (send_probes target (unat (dr_packets_spent r))) (eng_ret (Inr r)))
        | Some c \<Rightarrow>
            (case client_icmp_probe (sd_line_env S) target p said c of
               (icmp, c') \<Rightarrow>
                 eng_then (eng_mod (\<lambda>w. w\<lparr>w_client := Some c'\<rparr>))
                 (case discover_host_combined dials discovery_config_default (Some icmp) of
                    Inl e \<Rightarrow> eng_then (send_probes target 1) (eng_ret (Inl e))
                  | Inr r \<Rightarrow> eng_then (send_probes target (unat (dr_packets_spent r))) (eng_ret (Inr r)))))))"

text \<open>Host discovery; \<open>True\<close> when it breaks off the dispatch.\<close>

fun discover_loop :: "'n scheduler \<Rightarrow> env \<Rightarrow> u64 \<Rightarrow> ip_addr list \<Rightarrow> bool eng" where
  "discover_loop S A worst_case [] = eng_ret False"
| "discover_loop S A worst_case (target # targets) =
     eng_bind (ask (an_cancelled A)) (\<lambda>cancelled.
     if cancelled then eng_then cancel_run (eng_ret True)
     else
       eng_bind (runtime_exceeded A) (\<lambda>exceeded.
       if exceeded then eng_then exhaust_time (eng_ret True)
       else if \<not> is_permitted S target then
         eng_then (deny TargetOutOfScope (show_ip target @ '' is not authorized by manifest '' @
           show_manifest_id S @ '' (host discovery)'')) (eng_ret True)
       else
         eng_bind (try_spend worst_case) (\<lambda>granted.
         if \<not> granted then eng_then exhaust_budget (eng_ret True)
         else
           eng_bind (discover S A target) (\<lambda>r.
           case r of
             Inl e \<Rightarrow> eng_then (fail_packetd e) (eng_ret True)
           | Inr result \<Rightarrow>
               eng_then (emit_host_discovered S A target result) (discover_loop S A worst_case targets)))))"

text \<open>A unit that has its reservation: probed through the daemon, or spawned. \<open>False\<close> stops the loop.\<close>

definition dispatch :: "'n scheduler \<Rightarrow> env \<Rightarrow> scan_unit \<Rightarrow> bool eng" where
  "dispatch S A unit =
     eng_then (eng_mod (\<lambda>w. w\<lparr>w_dispatched := w_dispatched w @ [su_index unit]\<rparr>))
    (eng_then (send_probes (su_target unit) 1)
    (eng_bind (eng_get w_client) (\<lambda>c.
     case c of
       Some c \<Rightarrow>
         eng_bind (ask (\<lambda>t. client_probe (sd_line_env S) (su_target unit) (ep_port (su_endpoint unit))
                              (an_pipes A t) (an_said A t) c)) (\<lambda>(answer, c').
         eng_then (eng_mod (\<lambda>w. w\<lparr>w_client := Some c'\<rparr>))
         (case answer of
            Inr state \<Rightarrow> eng_then (record_unit S A unit state False) (eng_ret True)
          | Inl e \<Rightarrow> eng_then (fail_packetd e) (eng_ret False)))
     | None \<Rightarrow>
         eng_bind (ask (\<lambda>t. probe_connect_with_local_signal (an_dial A t (ep_port (su_endpoint unit)))))
           (\<lambda>(outcome, local_failure).
         eng_then (eng_mod (\<lambda>w. w\<lparr>w_flight := w_flight w @
             [\<lparr>fl_unit = unit, fl_state = port_state_of outcome, fl_local = local_failure, fl_finished = False\<rparr>]\<rparr>))
           (eng_ret True)))))"

text \<open>The \<open>'drive\<close> loop over the units the plan has left.\<close>

fun drive :: "'n scheduler \<Rightarrow> env \<Rightarrow> u64 \<Rightarrow> u64 list \<Rightarrow> scan_unit list \<Rightarrow> unit eng" where
  "drive S A estimated_probes already_done units =
     eng_bind (ask (an_cancelled A)) (\<lambda>cancelled.
     if cancelled then cancel_run
     else
       eng_bind (runtime_exceeded A) (\<lambda>exceeded.
       if exceeded then exhaust_time
       else
        (case units of
           [] \<Rightarrow> eng_ret ()
         | unit # rest \<Rightarrow>
             if su_index unit \<in> set already_done then drive S A estimated_probes already_done rest
             else if \<not> is_permitted S (su_target unit) then
               deny TargetOutOfScope (show_ip (su_target unit) @ '' is not authorized by manifest '' @
                 show_manifest_id S @ '' (unit index '' @ show_word (su_index unit) @ '')'')
             else
               eng_bind (await_permit S A) (\<lambda>acquired.
               if \<not> acquired then cancel_run
               else
                 eng_bind (try_spend 1) (\<lambda>granted.
                 if \<not> granted then exhaust_budget
                 else
                   eng_bind (dispatch S A unit) (\<lambda>go_on.
                   if \<not> go_on then eng_ret ()
                   else
                     eng_bind (eng_get (\<lambda>w. length (w_flight w))) (\<lambda>n.
                     eng_then (try_join_all S A n)
                    (eng_bind (eng_get (\<lambda>w. length (w_batch w))) (\<lambda>b.
                     eng_then (eng_when (b \<ge> store_flush_batch) (flush_progress S A estimated_probes))
                       (drive S A estimated_probes already_done rest))))))))))"

section \<open>A run\<close>

text \<open>Whether the log's last event already ended the scan.\<close>

definition already_terminated :: "'n scheduler \<Rightarrow> bool eng" where
  "already_terminated S =
     eng_bind (eng_get (\<lambda>w. (log_last_sequence w, w_gc w, w_file w))) (\<lambda>(last_sequence, g, f).
     if last_sequence = 0 then eng_ret False
     else
       (case log_read_from (sd_log_env S) (gc_log g) f (last_sequence - 1) of
          Inl e \<Rightarrow> eng_fail (ELog e)
        | Inr tail \<Rightarrow> eng_ret (tail \<noteq> [] \<and> is_terminal (ev_body (List.last tail)))))"

definition check_scope :: "'n scheduler \<Rightarrow> env \<Rightarrow> task_record \<Rightarrow> unit eng" where
  "check_scope S A rec =
     (if tr_scope_id rec \<noteq> sm_id (sd_manifest S) then
        deny ScopeMismatch (''scan '' @ id_display (sd_encode S) ''scan'' (sd_scan_id S) @ '' was started under scope ''
          @ show_scope_id (sd_encode S) (tr_scope_id rec) @ '', but this Scheduler was built with manifest ''
          @ show_manifest_id S)
      else
        eng_bind (ask (an_timestamp A)) (\<lambda>now.
        if is_expired (sd_parse_time S) (sd_manifest S) now then
          eng_bind (ask (an_timestamp A)) (\<lambda>now'.
          deny ScopeExpired (''manifest '' @ show_manifest_id S @ '' expired before '' @ now'))
        else eng_ret ()))"

text \<open>Which probing method the run uses: the daemon, if it was asked for and starts.\<close>

definition choose_method :: "'n scheduler \<Rightarrow> env \<Rightarrow> (scan_mode \<times> string option) eng" where
  "choose_method S A =
     (case sc_packetd_binary (sd_config S) of
        None \<Rightarrow> eng_ret (TcpConnect, None)
      | Some binary \<Rightarrow>
          eng_bind (ask (\<lambda>t. client_start (sd_line_env S) binary (sd_manifest S) (an_launch A t))) (\<lambda>r.
          case r of
            Inr c \<Rightarrow> eng_then (eng_mod (\<lambda>w. w\<lparr>w_client := Some c\<rparr>)) (eng_ret (TcpSyn, None))
          | Inl e \<Rightarrow> eng_ret (TcpConnect, Some (''requested tcp-syn via '' @ binary @
              '', fell back to tcp-connect: '' @ show_packetd_error e))))"

definition worst_case_packets :: "world \<Rightarrow> u64" where
  "worst_case_packets w =
     sat_add (of_nat (length (dc_probe_ports discovery_config_default))) (if w_client w = None then 0 else 1)"

definition run_units :: "'n scheduler \<Rightarrow> env \<Rightarrow> scan_plan \<Rightarrow> u64 \<Rightarrow> unit eng" where
  "run_units S A p from_index =
     eng_bind (run_sql A (\<lambda>d. (completed_units (sd_encode S) (sd_scan_id S) d, d))) (\<lambda>already_done.
     (case units_from p from_index of
        Panic \<Rightarrow> eng_fail EPanic
      | Ret units \<Rightarrow>
          eng_then (drive S A (plan_len p) already_done units)
         (eng_bind (eng_get (\<lambda>w. length (w_flight w))) (\<lambda>n.
          eng_then (join_all S A n) (flush_progress S A (plan_len p))))))"

definition dispatch_block :: "'n scheduler \<Rightarrow> env \<Rightarrow> scan_plan \<Rightarrow> u64 \<Rightarrow> unit eng" where
  "dispatch_block S A p from_index =
     eng_bind (choose_method S A) (\<lambda>(mode, detail).
     eng_then (set_summary (\<lambda>s. s\<lparr>rs_scan_mode := Some mode, rs_packetd_fallback := detail\<rparr>))
    (eng_bind (eng_get (\<lambda>w. log_last_sequence w = 0)) (\<lambda>first_run.
     eng_then (eng_when first_run
       (log_event S A (ScanStarted (pl_hash p) (of_nat (length (pl_targets p))) (plan_len p) (Some mode) detail)))
    (eng_bind (eng_get worst_case_packets) (\<lambda>worst_case.
     eng_bind (if first_run \<and> sd_objective S = HostInventory
               then discover_loop S A worst_case (pl_targets p) else eng_ret False) (\<lambda>broken_off.
     if broken_off then eng_ret () else run_units S A p from_index)))))) "

text \<open>The terminal event, and the status it comes with.\<close>

definition conclude :: "'n scheduler \<Rightarrow> env \<Rightarrow> task_status eng" where
  "conclude S A =
     eng_bind (eng_get (\<lambda>w. (w_failure w, w_denial w, w_summary w))) (\<lambda>(failure, denial, s).
     (case failure of
        Some e \<Rightarrow>
          eng_then (set_summary (\<lambda>s. s\<lparr>rs_packetd_unavailable := True\<rparr>))
         (eng_then (log_event S A (ScanFailed
             (case terminal_reason e of None \<Rightarrow> ''packetd_unavailable'' | Some r \<Rightarrow> r) (show_packetd_error e)))
           (eng_ret TFailed))
      | None \<Rightarrow>
          if rs_budget_exhausted s then
            eng_then (log_event S A (ScanFailed ''budget_exhausted''
              (''packet budget spent after '' @ show_word (rs_units_completed s) @ '' units''))) (eng_ret TFailed)
          else if rs_time_exhausted s then
            eng_then (log_event S A (ScanFailed ''time_exhausted''
              (''runtime budget elapsed after '' @ show_word (rs_units_completed s) @ '' units''))) (eng_ret TFailed)
          else
            (case denial of
               Some (reason, detail) \<Rightarrow>
                 eng_then (set_summary (\<lambda>s. s\<lparr>rs_policy_denied := True\<rparr>))
                (eng_then (log_event S A (PolicyDenied reason detail)) (eng_ret TDenied))
             | None \<Rightarrow>
                 if rs_cancelled s then eng_ret TCancelled
                 else eng_then (log_event S A (ScanCompleted (rs_units_completed s) (rs_packets_spent s) (rs_open_ports s)))
                   (eng_ret TCompleted))))"

definition publish_terminal_status :: "'n scheduler \<Rightarrow> env \<Rightarrow> task_status \<Rightarrow> unit eng" where
  "publish_terminal_status S A status =
     eng_then (log_release A)
    (eng_bind (ask (an_timestamp A)) (\<lambda>now.
     run_sql A (set_status (sd_encode S) (sd_scan_id S) status now)))"

text \<open>The end of a run: the log durable, then the counters, then the status.\<close>

definition close_run :: "'n scheduler \<Rightarrow> env \<Rightarrow> u64 \<Rightarrow> task_status \<Rightarrow> run_summary eng" where
  "close_run S A spent terminal =
     eng_then (log_force_sync A)
    (eng_bind (eng_get log_last_sequence) (\<lambda>last_sequence.
     eng_bind (total_elapsed_seconds A) (\<lambda>elapsed.
     eng_bind (ask (an_timestamp A)) (\<lambda>now.
     eng_then (run_sql A (record_progress (sd_encode S) (sd_scan_id S) last_sequence spent elapsed now))
    (eng_then (publish_terminal_status S A terminal) (eng_get w_summary))))))"

text \<open>A run of a scan that has not ended.\<close>

definition run_open :: "'n scheduler \<Rightarrow> env \<Rightarrow> scan_plan \<Rightarrow> u64 \<Rightarrow> task_record \<Rightarrow> run_summary eng" where
  "run_open S A p from_index rec =
     eng_then (check_scope S A rec)
    (eng_bind (eng_get (\<lambda>w. w_denial w = None)) (\<lambda>permitted.
     eng_then (eng_when permitted (dispatch_block S A p from_index))
    (eng_bind (eng_get (\<lambda>w. lg_packets_spent (w_ledger w))) (\<lambda>spent.
     eng_then (set_summary (\<lambda>s. s\<lparr>rs_packets_spent := spent\<rparr>))
    (eng_bind (conclude S A) (close_run S A spent))))))"

definition run_body :: "'n scheduler \<Rightarrow> env \<Rightarrow> scan_plan \<Rightarrow> u64 \<Rightarrow> run_summary eng" where
  "run_body S A p from_index =
     eng_bind (load_record S A) (\<lambda>found.
     case found of
       None \<Rightarrow> eng_fail (EStore (NotFound (sd_scan_id S)))
     | Some rec \<Rightarrow>
         if tr_plan_hash rec \<noteq> pl_hash p then eng_fail (EPlanMismatch (sd_scan_id S) (tr_plan_hash rec) (pl_hash p))
         else
           eng_bind (already_terminated S) (\<lambda>terminated.
           if terminated then
             eng_bind (eng_get (\<lambda>w. lg_packets_spent (w_ledger w))) (\<lambda>spent.
             eng_then (set_summary (\<lambda>s. s\<lparr>rs_packets_spent := spent\<rparr>)) (eng_get w_summary))
           else run_open S A p from_index rec))"

text \<open>\<open>run\<close> begins with fresh local variables, over the components as they are.\<close>

definition start_state ::
  "ledger \<Rightarrow> group_commit_log \<Rightarrow> log_file \<Rightarrow> db \<Rightarrow> disk \<Rightarrow> u64 \<Rightarrow> world"
where
  "start_state ledger g f d fs seq =
     \<lparr>w_tick = 0, w_ledger = ledger, w_gc = g, w_file = f, w_db = d, w_disk = fs, w_put_seq = seq, w_client = None,
      w_summary = run_summary_default, w_batch = [], w_last_progress = 0, w_flight = [], w_denial = None,
      w_failure = None, w_probed = [], w_dispatched = []\<rparr>"

definition run ::
  "'n scheduler \<Rightarrow> env \<Rightarrow> scan_plan \<Rightarrow> u64 \<Rightarrow> ledger \<Rightarrow> group_commit_log \<Rightarrow> log_file \<Rightarrow> db \<Rightarrow> disk \<Rightarrow> u64
     \<Rightarrow> (engine_error + run_summary) \<times> world"
where
  "run S A p from_index ledger g f d fs seq = run_body S A p from_index (start_state ledger g f d fs seq)"

end
