(* ===== verification/Engine_Safety.thy ===== *)
theory Engine_Safety
  imports Engine
begin

text \<open>
  What every run of the scheduler keeps, under every schedule and every fault: the weakest
  preconditions of its operations, the probes it starts (where to and how many), the order in which
  the log, the evidence store and the task store are written, and which units it probes.
\<close>

section \<open>Weakest preconditions\<close>

definition wp :: "'a eng \<Rightarrow> ('a \<Rightarrow> world \<Rightarrow> bool) \<Rightarrow> (world \<Rightarrow> bool) \<Rightarrow> world \<Rightarrow> bool" where
  "wp m Q E w = (case m w of (Inl e, w') \<Rightarrow> E w' | (Inr x, w') \<Rightarrow> Q x w')"

lemma wp_simps [simp]:
  "wp (eng_ret x) Q E w = Q x w"
  "wp (eng_fail e) Q E w = E w"
  "wp (eng_get f) Q E w = Q (f w) w"
  "wp (eng_mod h) Q' E w = Q' () (h w)"
  "wp (ask q) Q E w = Q (q (w_tick w)) (w\<lparr>w_tick := Suc (w_tick w)\<rparr>)"
  "wp (set_summary g) Q' E w = Q' () (w\<lparr>w_summary := g (w_summary w)\<rparr>)"
  by (simp_all add: wp_def eng_ret_def eng_fail_def eng_get_def eng_mod_def ask_def set_summary_def)

lemma wp_bind [simp]: "wp (eng_bind m f) Q E w = wp m (\<lambda>x. wp (f x) Q E) E w"
  by (auto simp: wp_def eng_bind_def split: prod.splits sum.splits)

lemma wp_then [simp]: "wp (eng_then m n) Q E w = wp m (\<lambda>_. wp n Q E) E w"
  by (simp add: eng_then_def)

lemma wp_when [simp]: "wp (eng_when b m) Q E w = (if b then wp m Q E w else Q () w)"
  by (cases b) simp_all

lemma wp_mono:
  assumes "wp m Q E w" "\<And>x w'. Q x w' \<Longrightarrow> Q' x w'" "\<And>w'. E w' \<Longrightarrow> E' w'"
  shows "wp m Q' E' w"
  using assms by (auto simp: wp_def split: prod.splits sum.splits)

lemma wp_conj:
  "wp m Q E w \<Longrightarrow> wp m Q' E' w \<Longrightarrow> wp m (\<lambda>x w'. Q x w' \<and> Q' x w') (\<lambda>w'. E w' \<and> E' w') w"
  by (auto simp: wp_def split: prod.splits sum.splits)

lemma wp_run: "wp m Q E w \<Longrightarrow> m w = (r, w') \<Longrightarrow> (case r of Inl e \<Rightarrow> E w' | Inr x \<Rightarrow> Q x w')"
  by (auto simp: wp_def split: sum.splits)

section \<open>What each operation touches\<close>

lemma wp_log_event_frame:
  assumes "\<And>g f t. Q () (w\<lparr>w_tick := t, w_gc := g, w_file := f\<rparr>)" "\<And>g f t. E (w\<lparr>w_tick := t, w_gc := g, w_file := f\<rparr>)"
  shows "wp (log_event S A b) Q E w"
  using assms by (auto simp: wp_def log_event_def Let_def split: prod.splits sum.splits rust.splits)

lemma wp_force_sync_frame:
  assumes "\<And>g f t. Q () (w\<lparr>w_tick := t, w_gc := g, w_file := f\<rparr>)" "\<And>g f t. E (w\<lparr>w_tick := t, w_gc := g, w_file := f\<rparr>)"
  shows "wp (log_force_sync A) Q E w"
  using assms by (auto simp: wp_def log_force_sync_def Let_def split: prod.splits sum.splits)

lemma wp_release_frame:
  assumes "\<And>g f t. Q () (w\<lparr>w_tick := t, w_gc := g, w_file := f\<rparr>)" "\<And>g f t. E (w\<lparr>w_tick := t, w_gc := g, w_file := f\<rparr>)"
  shows "wp (log_release A) Q E w"
  using assms by (auto simp: wp_def log_release_def Let_def split: prod.splits sum.splits)

lemma wp_sql_frame:
  assumes "\<And>x d t. Q x (w\<lparr>w_tick := t, w_db := d\<rparr>)" "\<And>d t. E (w\<lparr>w_tick := t, w_db := d\<rparr>)"
    "\<And>t. E (w\<lparr>w_tick := t\<rparr>)"
  shows "wp (run_sql A q) Q E w"
  using assms by (auto simp: wp_def run_sql_def Let_def split: prod.splits sum.splits option.splits)

lemma wp_put_frame:
  assumes "\<And>x s t fs. Q x (w\<lparr>w_tick := t, w_put_seq := s, w_disk := fs\<rparr>)" "\<And>s t fs. E (w\<lparr>w_tick := t, w_put_seq := s, w_disk := fs\<rparr>)"
  shows "wp (put_evidence S A bytes) Q E w"
  using assms by (auto simp: wp_def put_evidence_def Let_def split: prod.splits sum.splits)

lemma wp_put_capped_frame:
  assumes "\<And>x s t fs. Q x (w\<lparr>w_tick := t, w_put_seq := s, w_disk := fs\<rparr>)" "\<And>s t fs. E (w\<lparr>w_tick := t, w_put_seq := s, w_disk := fs\<rparr>)"
  shows "wp (put_evidence_capped S A bytes cap) Q E w"
  using assms by (auto simp: wp_def put_evidence_capped_def Let_def split: prod.splits sum.splits)

lemmas frame_rules =
  wp_log_event_frame wp_force_sync_frame wp_release_frame wp_sql_frame wp_put_frame wp_put_capped_frame

section \<open>Packets\<close>

text \<open>
  Every probe went to a permitted address, and \<open>k\<close> more than those sent since the start are paid
  for, within the ceiling.
\<close>

definition accounted :: "'n scheduler \<Rightarrow> budgets \<Rightarrow> nat \<Rightarrow> nat \<Rightarrow> world \<Rightarrow> bool" where
  "accounted S b spent0 k w \<longleftrightarrow>
     (\<forall>ip \<in> set (w_probed w). is_permitted S ip) \<and>
     spent0 + length (w_probed w) + k \<le> unat (lg_packets_spent (w_ledger w)) \<and>
     lg_packets_spent (w_ledger w) \<le> maximum_packets b \<and> lg_budgets (w_ledger w) = b"

lemma accounted_frame [simp]:
  "accounted S b s k (w\<lparr>w_tick := t\<rparr>) = accounted S b s k w"
  "accounted S b s k (w\<lparr>w_gc := g\<rparr>) = accounted S b s k w"
  "accounted S b s k (w\<lparr>w_file := f\<rparr>) = accounted S b s k w"
  "accounted S b s k (w\<lparr>w_db := d\<rparr>) = accounted S b s k w"
  "accounted S b s k (w\<lparr>w_disk := fs\<rparr>) = accounted S b s k w"
  "accounted S b s k (w\<lparr>w_put_seq := q\<rparr>) = accounted S b s k w"
  "accounted S b s k (w\<lparr>w_client := c\<rparr>) = accounted S b s k w"
  "accounted S b s k (w\<lparr>w_summary := y\<rparr>) = accounted S b s k w"
  "accounted S b s k (w\<lparr>w_batch := us\<rparr>) = accounted S b s k w"
  "accounted S b s k (w\<lparr>w_last_progress := l\<rparr>) = accounted S b s k w"
  "accounted S b s k (w\<lparr>w_flight := fl\<rparr>) = accounted S b s k w"
  "accounted S b s k (w\<lparr>w_denial := dn\<rparr>) = accounted S b s k w"
  "accounted S b s k (w\<lparr>w_failure := fa\<rparr>) = accounted S b s k w"
  "accounted S b s k (w\<lparr>w_dispatched := ds\<rparr>) = accounted S b s k w"
  by (simp_all add: accounted_def)

lemma accounted_less: "accounted S b s k w \<Longrightarrow> j \<le> k \<Longrightarrow> accounted S b s j w"
  by (simp add: accounted_def)

lemma wp_spend:
  assumes "accounted S b s k w" "maximum_packets b \<noteq> - 1"
    and "\<And>w'. accounted S b s (k + unat n) w' \<Longrightarrow> w_client w' = w_client w \<Longrightarrow> Q True w'"
    and "\<And>w'. accounted S b s k w' \<Longrightarrow> Q False w'"
  shows "wp (try_spend n) Q E w"
proof (cases "try_spend_packets (w_ledger w) n")
  case (Pair l r)
  show ?thesis
  proof (cases r)
    case (Inl e)
    then have "l = w_ledger w" using Pair by (auto simp: try_spend_packets_def Let_def split: if_splits)
    then show ?thesis using Pair Inl assms(1,4) by (simp add: wp_def try_spend_def)
  next
    case (Inr u)
    have b: "lg_budgets (w_ledger w) = b" using assms(1) by (simp add: accounted_def)
    have l: "l = (w_ledger w)\<lparr>lg_packets_spent := sat_add (lg_packets_spent (w_ledger w)) n\<rparr>"
      "sat_add (lg_packets_spent (w_ledger w)) n \<le> maximum_packets b"
      using Pair Inr b by (auto simp: try_spend_packets_def Let_def split: if_splits)
    then have "sat_add (lg_packets_spent (w_ledger w)) n \<noteq> - 1"
      using assms(2) by (metis max_word_max order.antisym)
    then have "unat (sat_add (lg_packets_spent (w_ledger w)) n) = unat (lg_packets_spent (w_ledger w)) + unat n"
      by (auto simp: sat_add_def unat_word_ariths split: if_splits)
    then have "accounted S b s (k + unat n) (w\<lparr>w_ledger := l\<rparr>)"
      using assms(1) l by (simp add: accounted_def)
    then show ?thesis using Pair Inr assms(3) by (simp add: wp_def try_spend_def)
  qed
qed

lemma wp_send:
  assumes "accounted S b s (k + n) w" "is_permitted S ip"
    and "\<And>w'. accounted S b s k w' \<Longrightarrow> Q () w'"
  shows "wp (send_probes ip n) Q E w"
proof -
  have "accounted S b s k (w\<lparr>w_probed := w_probed w @ replicate n ip\<rparr>)"
    using assms(1,2) by (auto simp: accounted_def)
  then show ?thesis by (simp add: send_probes_def assms(3))
qed

lemma wp_exceeded [simp]:
  "wp (runtime_exceeded A) Q E w =
     Q (elapsed_exceeded (w_ledger w) (an_elapsed A (w_tick w))) (w\<lparr>w_tick := Suc (w_tick w)\<rparr>)"
  by (simp add: runtime_exceeded_def)

lemma wp_total_elapsed [simp]:
  "wp (total_elapsed_seconds A) Q E w =
     Q (sat_add (lg_seconds_already_elapsed (w_ledger w)) (an_elapsed A (w_tick w))) (w\<lparr>w_tick := Suc (w_tick w)\<rparr>)"
  by (simp add: total_elapsed_seconds_def)

abbreviation keeps :: "(world \<Rightarrow> bool) \<Rightarrow> 'a eng \<Rightarrow> bool" where
  "keeps I m \<equiv> \<forall>w. I w \<longrightarrow> wp m (\<lambda>_. I) I w"

lemmas account_rules = wp_spend [where k = 0] wp_send [where k = 0] frame_rules

lemma detect_accounted:
  assumes "maximum_packets b \<noteq> - 1" "is_permitted S (su_target u)"
  shows "accounted S b s 0 w \<Longrightarrow> wp (detect_loop S A u ps) (\<lambda>_. accounted S b s 0) (accounted S b s 0) w"
proof (induction ps arbitrary: w)
  case Nil
  then show ?case by simp
next
  case (Cons p ps)
  then show ?case
    using assms by (auto intro!: account_rules split: option.splits list.splits)
qed

lemma service_accounted:
  assumes "maximum_packets b \<noteq> - 1" "accounted S b s 0 w"
  shows "wp (detect_service S A u) (\<lambda>_. accounted S b s 0) (accounted S b s 0) w"
  using assms detect_accounted by (auto simp: detect_service_def is_permitted_def)

lemma emit_service_accounted:
  "accounted S b s 0 w \<Longrightarrow> wp (emit_service_observed S A u x) (\<lambda>_. accounted S b s 0) (accounted S b s 0) w"
  unfolding emit_service_observed_def
  by (auto intro!: account_rules split: option.splits evidence_level.splits)

lemma record_accounted:
  assumes "maximum_packets b \<noteq> - 1" "accounted S b s 0 w"
  shows "wp (record_unit S A u st l) (\<lambda>_. accounted S b s 0) (accounted S b s 0) w"
  unfolding record_unit_def
  using assms(2)
  by (auto intro!: account_rules wp_mono [OF emit_service_accounted] wp_mono [OF service_accounted [OF assms(1)]]
      split: option.splits)

lemma flush_accounted:
  "accounted S b s 0 w \<Longrightarrow> wp (flush_progress S A n) (\<lambda>_. accounted S b s 0) (accounted S b s 0) w"
  unfolding flush_progress_def by (auto intro!: account_rules)

lemma emit_host_accounted:
  "accounted S b s 0 w \<Longrightarrow> wp (emit_host_discovered S A ip r) (\<lambda>_. accounted S b s 0) (accounted S b s 0) w"
  unfolding emit_host_discovered_def by (auto intro!: account_rules split: sum.splits)

lemma join_accounted:
  assumes "maximum_packets b \<noteq> - 1" "accounted S b s 0 w"
  shows "wp (join_at S A i) (\<lambda>_. accounted S b s 0) (accounted S b s 0) w"
  unfolding join_at_def using assms by (auto intro!: record_accounted)

lemma try_join_accounted:
  assumes "maximum_packets b \<noteq> - 1"
  shows "accounted S b s 0 w \<Longrightarrow> wp (try_join_all S A n) (\<lambda>_. accounted S b s 0) (accounted S b s 0) w"
proof (induction n arbitrary: w)
  case (Suc n)
  then show ?case
    by (auto simp: let_tasks_run_def intro!: wp_mono [OF join_accounted [OF assms]])
qed simp

lemma join_all_accounted:
  assumes "maximum_packets b \<noteq> - 1"
  shows "accounted S b s 0 w \<Longrightarrow> wp (join_all S A n) (\<lambda>_. accounted S b s 0) (accounted S b s 0) w"
proof (induction n arbitrary: w)
  case (Suc n)
  then show ?case
    by (auto intro!: wp_mono [OF join_accounted [OF assms]])
qed simp

text \<open>What discovery reserves covers what it sends.\<close>

lemma discovery_packets:
  assumes "discover_host_combined dials discovery_config_default icmp = Inr r"
  shows "unat (dr_packets_spent r) \<le> 3 + (if icmp = None then 0 else 1)"
proof -
  have h: "unat (dr_packets_spent (discover_host dials discovery_config_default)) \<le> 3"
    using discover_ports_spent [of 0 "dc_probe_ports discovery_config_default" dials]
    by (simp add: discover_host_def discovery_config_default_def)
  then show ?thesis
    using assms
    by (auto simp: discover_host_combined_def Let_def unat_sat_add split: option.splits sum.splits host_state.splits)
qed

lemma worst_case_covers: "unat (worst_case_packets w) = 3 + (if w_client w = None then 0 else 1)"
  by (simp add: worst_case_packets_def discovery_config_default_def unat_sat_add)

lemma discover_accounted:
  assumes "accounted S b s (0 + unat n) w" "is_permitted S ip"
    and "unat n = 3 + (if w_client w = None then 0 else 1)"
  shows "wp (discover S A ip) (\<lambda>_. accounted S b s 0) (accounted S b s 0) w"
proof (cases "w_client w")
  case None
  then have "accounted S b s (0 + unat (dr_packets_spent r)) w"
    if "discover_host_combined d discovery_config_default None = Inr r" for d r
    using assms(1,3) discovery_packets [OF that] by (auto elim: accounted_less)
  then show ?thesis
    using None assms(1,2) by (auto simp: discover_def intro!: account_rules(2) elim: accounted_less split: sum.splits)
next
  case (Some c)
  then have "accounted S b s (0 + unat (dr_packets_spent r)) w"
    if "discover_host_combined d discovery_config_default (Some i) = Inr r" for d r i
    using assms(1,3) discovery_packets [OF that] by (auto elim: accounted_less)
  moreover have "accounted S b s (0 + 1) w" using assms(1,3) Some by (auto elim: accounted_less)
  ultimately show ?thesis
    using Some assms(2) by (auto simp: discover_def intro!: account_rules(2) split: sum.splits prod.splits)
qed

lemma discover_client:
  "wp (discover S A ip) (\<lambda>_ w'. (w_client w' = None) = (w_client w = None)) (\<lambda>_. True) w"
  by (auto simp: discover_def send_probes_def split: option.splits sum.splits prod.splits)

lemma emit_host_client:
  "wp (emit_host_discovered S A ip r) (\<lambda>_ w'. (w_client w' = None) = (w_client w = None)) (\<lambda>_. True) w"
  unfolding emit_host_discovered_def by (auto intro!: frame_rules split: sum.splits)

lemma discover_loop_accounted:
  assumes m: "maximum_packets b \<noteq> - 1" and n: "unat n = 3 + (if c then 0 else 1)"
  shows "accounted S b s 0 w \<Longrightarrow> (w_client w = None) = c \<Longrightarrow>
    wp (discover_loop S A n ts) (\<lambda>_. accounted S b s 0) (accounted S b s 0) w"
proof (induction ts arbitrary: w)
  case (Cons t ts)
  have step: "wp (discover S A t)
      (\<lambda>r w'. accounted S b s 0 w' \<and> (w_client w' = None) = c) (\<lambda>w'. accounted S b s 0 w' \<and> True) w'"
    if "accounted S b s (0 + unat n) w'" "w_client w' = w_client w" "is_permitted S t" for w'
    using wp_conj [OF discover_accounted [OF that(1,3)] discover_client] n that(2) Cons.prems(2) by simp
  have emit: "wp (emit_host_discovered S A t r)
      (\<lambda>_ w'. accounted S b s 0 w' \<and> (w_client w' = None) = c) (\<lambda>w'. accounted S b s 0 w' \<and> True) w'"
    if "accounted S b s 0 w'" "(w_client w' = None) = c" for w' r
    using wp_conj [OF emit_host_accounted [OF that(1)] emit_host_client] that(2) by simp
  show ?case
    using Cons.prems(1)
    by (auto simp: cancel_run_def exhaust_time_def exhaust_budget_def deny_def fail_packetd_def
        intro!: wp_spend [where k = 0, OF _ m] wp_mono [OF step] wp_mono [OF emit] Cons.IH split: sum.splits)
qed simp

lemma dispatch_accounted:
  assumes "maximum_packets b \<noteq> - 1" "accounted S b s (0 + 1) w" "is_permitted S (su_target u)"
  shows "wp (dispatch S A u) (\<lambda>_. accounted S b s 0) (accounted S b s 0) w"
  unfolding dispatch_def
  using assms(2,3)
  by (auto simp: fail_packetd_def intro!: account_rules(2) wp_mono [OF record_accounted [OF assms(1)]]
      split: option.splits sum.splits prod.splits)

lemma await_accounted:
  "accounted S b s 0 w \<Longrightarrow> wp (await_permit S A) (\<lambda>_. accounted S b s 0) (accounted S b s 0) w"
  by (auto simp: await_permit_def let_tasks_run_def)

declare drive.simps [simp del]

lemma drive_accounted:
  assumes m: "maximum_packets b \<noteq> - 1"
  shows "accounted S b s 0 w \<Longrightarrow> wp (drive S A n d us) (\<lambda>_. accounted S b s 0) (accounted S b s 0) w"
proof (induction us arbitrary: w)
  case Nil
  then show ?case by (subst drive.simps) (auto simp: cancel_run_def exhaust_time_def)
next
  case (Cons u us)
  then show ?case
    by (subst drive.simps)
      (auto simp: cancel_run_def exhaust_time_def exhaust_budget_def deny_def
        intro!: wp_mono [OF await_accounted] wp_spend [where k = 0, OF _ m]
          wp_mono [OF dispatch_accounted [OF m]] wp_mono [OF try_join_accounted [OF m]] wp_mono [OF flush_accounted])
qed

lemma run_body_accounted:
  assumes m: "maximum_packets b \<noteq> - 1" and "accounted S b s 0 w" "w_client w = None"
  shows "wp (run_body S A p i) (\<lambda>_. accounted S b s 0) (accounted S b s 0) w"
proof -
  have units: "wp (run_units S A p i) (\<lambda>_. accounted S b s 0) (accounted S b s 0) w" if "accounted S b s 0 w" for w
    using that unfolding run_units_def
    by (auto intro!: frame_rules wp_mono [OF drive_accounted [OF m]] wp_mono [OF join_all_accounted [OF m]]
        flush_accounted split: rust.splits)
  have block: "wp (dispatch_block S A p i) (\<lambda>_. accounted S b s 0) (accounted S b s 0) w"
    if "accounted S b s 0 w" "w_client w = None" for w
    using that unfolding dispatch_block_def choose_method_def
    by (auto intro!: frame_rules wp_mono [OF discover_loop_accounted [OF m worst_case_covers]] units
        split: option.splits sum.splits)
  have fin: "wp (conclude S A) (\<lambda>_. accounted S b s 0) (accounted S b s 0) w" if "accounted S b s 0 w" for w
    using that unfolding conclude_def by (auto intro!: frame_rules split: option.splits)
  show ?thesis
    using assms(2,3)
    unfolding run_body_def run_open_def close_run_def load_record_def already_terminated_def check_scope_def deny_def
      publish_terminal_status_def
    by (auto intro!: frame_rules wp_mono [OF block] wp_mono [OF fin] split: option.splits sum.splits rust.splits)
qed

section \<open>A sample run\<close>

text \<open>One host, one port, no detection and no faults: for the witnesses.\<close>

definition one_unit_plan :: scan_plan where
  "one_unit_plan = \<lparr>pl_targets = [V4 0x0A000001], pl_ports = [22], pl_hash = Digest (replicate 32 0)\<rparr>"

definition sample_budgets :: budgets where
  "sample_budgets = \<lparr>maximum_packets = 10, maximum_runtime_seconds = 60, maximum_packets_per_second = 10\<rparr>"

definition sample_manifest :: "net scope_manifest" where
  "sample_manifest = \<lparr>sm_id = 9, sm_description = [], sm_not_after = 100, sm_allowed = [Net4 0x0A000000 8],
     sm_denied = [], sm_ceiling = sample_budgets, sm_had_signature = False\<rparr>"

definition sample_scheduler :: "net scheduler" where
  "sample_scheduler =
     \<lparr>sd_net = prefixed_net, sd_parse_time = (\<lambda>s. Some 50), sd_encode = crockford_encode,
      sd_decode = crockford_decode, sd_log_env = sample_log_env, sd_encoder = json_literal,
      sd_hash = (\<lambda>b. Digest (replicate 32 (of_nat (length b)))),
      sd_line_env = \<lparr>le_write = (\<lambda>r. Inr []), le_parse = (\<lambda>s. Inl s), le_debug = (\<lambda>r. [])\<rparr>,
      sd_rules = [], sd_probes = [], sd_manifest = sample_manifest,
      sd_config = \<lparr>sc_concurrency = 4, sc_progress_every = 100, sc_packetd_binary = None\<rparr>,
      sd_scan_id = 5, sd_engine_version = ''v'',
      sd_detection = \<lparr>sd_enabled = False, sd_intensity = 0\<rparr>, sd_evidence_level = EvNone,
      sd_objective = InventoryExposedServices, sd_store = \<lparr>st_durable = True\<rparr>, sd_pid = 1\<rparr>"

definition calm :: env where
  "calm = \<lparr>an_cancelled = (\<lambda>t. False), an_elapsed = (\<lambda>t. 1), an_timestamp = (\<lambda>t. ''t''), an_instant = (\<lambda>t. 0),
     an_write = (\<lambda>t. NoFault), an_sync = (\<lambda>t. NoFault), an_unlock_fails = (\<lambda>t. False), an_sql = (\<lambda>t. None),
     an_put = (\<lambda>t. replicate 6 Done), an_dial = (\<lambda>t p. Connected), an_capture = (\<lambda>t. None),
     an_launch = (\<lambda>t. \<lparr>la_spawn_fails = Some [], la_pipes_missing = False, la_write_fails = None,
       la_reading = EndOfStream, la_exit_code = None, la_said = []\<rparr>),
     an_pipes = (\<lambda>t. \<lparr>pp_write_fails = None, pp_reading = EndOfStream\<rparr>), an_said = (\<lambda>t. []),
     an_finishes = (\<lambda>t i. True), an_pick = (\<lambda>t. 0), an_join_fails = (\<lambda>t. False)\<rparr>"

definition sample_run :: "(engine_error + run_summary) \<times> world" where
  "sample_run = run sample_scheduler calm one_unit_plan 0 (ledger_new sample_budgets) sample_group
     (empty_file\<lparr>lf_locked := True\<rparr>) sample_db empty_disk 0"

lemma sample_none_done: "done_units crockford_encode 5 sample_db = {}"
  by (simp add: done_units_def sample_db_def empty_db_def)

section \<open>Properties\<close>

text \<open>
  C3: Scope and budget on the emission path. Whatever the network, the clock, the disk and the other
  processes do, and however the run ends, every probe it starts (a connection attempt or a SYN request of a unit, the
  echo request and connection attempts of host discovery, the connection attempts of service detection) goes to an
  address the manifest allows, each is paid for in
  advance out of the ledger, and the ledger never passes its ceiling. The ledger counts probes, as the source says its
  budget does, not the segments of a probe on the wire. The ceiling is not the largest
  64-bit number, where the saturating sum of the ledger cannot be exceeded.
\<close>

theorem probes_are_authorized_and_paid_for:
  assumes "lg_packets_spent l \<le> maximum_packets (lg_budgets l)" "maximum_packets (lg_budgets l) \<noteq> - 1"
    and "run S A p i l g f d fs seq = (r, w)"
  shows "(\<forall>ip \<in> set (w_probed w). allows (sd_net S) (sd_manifest S) ip) \<and>
    unat (lg_packets_spent l) + length (w_probed w) \<le> unat (lg_packets_spent (w_ledger w)) \<and>
    lg_packets_spent (w_ledger w) \<le> maximum_packets (lg_budgets l)"
proof -
  have "accounted S (lg_budgets l) (unat (lg_packets_spent l)) 0 (start_state l g f d fs seq)"
    using assms(1) by (simp add: accounted_def start_state_def)
  moreover have "w_client (start_state l g f d fs seq) = None" by (simp add: start_state_def)
  ultimately have "accounted S (lg_budgets l) (unat (lg_packets_spent l)) 0 w"
    using wp_run [OF run_body_accounted [OF assms(2)] assms(3) [unfolded run_def]] by (auto split: sum.splits)
  then show ?thesis by (simp add: accounted_def is_permitted_def)
qed

theorem probes_are_authorized_and_paid_for_witness:
  "\<exists>r w. sample_run = (r, w) \<and>
    (\<forall>ip \<in> set (w_probed w). allows (sd_net sample_scheduler) (sd_manifest sample_scheduler) ip) \<and>
    unat (lg_packets_spent (ledger_new sample_budgets)) + length (w_probed w) \<le> unat (lg_packets_spent (w_ledger w)) \<and>
    lg_packets_spent (w_ledger w) \<le> 10"
proof -
  obtain r w where r: "sample_run = (r, w)" by (cases sample_run)
  have "lg_packets_spent (ledger_new sample_budgets) \<le> maximum_packets (lg_budgets (ledger_new sample_budgets))"
    "maximum_packets (lg_budgets (ledger_new sample_budgets)) \<noteq> - 1"
    by (simp_all add: ledger_new_def sample_budgets_def)
  note probes_are_authorized_and_paid_for [OF this r [unfolded sample_run_def]]
  then have "(\<forall>ip \<in> set (w_probed w). allows (sd_net sample_scheduler) (sd_manifest sample_scheduler) ip) \<and>
    unat (lg_packets_spent (ledger_new sample_budgets)) + length (w_probed w) \<le> unat (lg_packets_spent (w_ledger w)) \<and>
    lg_packets_spent (w_ledger w) \<le> 10"
    by (simp add: ledger_new_def sample_budgets_def)
  with r show ?thesis by blast
qed

end
