(* ===== verification/Log_Faults.thy ===== *)
theory Log_Faults
  imports Durable_Log
begin

text \<open>
  What the operations of \<open>crates/bathy-engine/src/durable_log.rs\<close> leave behind when the operating
  system fails them: the records that were there, perhaps one more, and a piece of a line; never less
  than was flushed. A crash then leaves a file that a reader opens.
\<close>

definition file_text :: "log_file \<Rightarrow> string" where
  "file_text f = (case lf_bytes f of None \<Rightarrow> [] | Some s \<Rightarrow> s)"

definition leaves :: "log_env \<Rightarrow> log_file \<Rightarrow> event list \<Rightarrow> bool" where
  "leaves env f es \<longleftrightarrow>
     (\<exists>t. lf_bytes f = Some (log_text env es @ t) \<and> newline \<notin> set t) \<and> \<not> lf_refused f \<and>
     lf_synced f \<le> length (file_text f) \<and> writable env es \<and> numbered 0 es \<and> length (log_text env es) < 2 ^ 64"

text \<open>
  A group-commit handle at work, over a file of which any part may be flushed (a log that was
  reopened need not be); its counter of pending events stays below the batch size.
\<close>

definition gc_live :: "log_env \<Rightarrow> group_commit_log \<Rightarrow> log_file \<Rightarrow> event list \<Rightarrow> bool" where
  "gc_live env g f es \<longleftrightarrow>
     writer_inv env (gc_log g) f es \<and> \<not> el_durable (gc_log g) \<and>
     unat (gc_pending g) < max 1 (unat (max_events (gc_config g)))"

lemma gc_inv_live: "gc_inv env g f es \<Longrightarrow> gc_live env g f es"
  by (simp add: gc_inv_def gc_live_def)

text \<open>The first \<open>j\<close> events are flushed.\<close>

definition flushed :: "log_env \<Rightarrow> log_file \<Rightarrow> event list \<Rightarrow> nat \<Rightarrow> bool" where
  "flushed env f es j \<longleftrightarrow> j \<le> length es \<and> length (log_text env (take j es)) \<le> lf_synced f"

lemma flushed_append: "flushed env f es j \<Longrightarrow> lf_synced f \<le> lf_synced f' \<Longrightarrow> flushed env f' (es @ xs) j"
  by (auto simp: flushed_def)

lemma writer_leaves: "writer_inv env log f es \<Longrightarrow> leaves env f es"
  by (auto simp: writer_inv_def holds_def leaves_def file_text_def intro!: exI [of _ "[]"])

context log_codec
begin

text \<open>An append under any fault, as long as the file stays below the width of an offset.\<close>

lemma log_append_grows:
  "log_append env fault body now version log f = (r, log', f') \<Longrightarrow> length (file_text f) \<le> length (file_text f')"
  by (auto simp: log_append_def Let_def write_all_def raw_sync_def file_text_def
      split: if_splits sum.splits prod.splits write_fault.splits option.splits)

lemma gc_append_grows:
  "gc_append env wa sf body ts version now g f = (r, g', f') \<Longrightarrow> length (file_text f) \<le> length (file_text f')"
  by (auto simp: gc_append_def Let_def sync_now_def log_sync_def raw_sync_def file_text_def [of "_\<lparr>lf_synced := _\<rparr>"]
      file_text_def [symmetric] dest!: log_append_grows split: if_splits sum.splits prod.splits)

lemma log_append_any:
  assumes inv: "writer_inv env log f es" and nd: "\<not> el_durable log"
    and run: "log_append env fault body now version log f = (r, log', f')"
    and small: "length (file_text f') < 2 ^ 64"
  shows "lf_synced f' = lf_synced f \<and> el_durable log' = el_durable log \<and>
    (case r of
       Inr e \<Rightarrow> writer_inv env log' f' (es @ [e]) \<and> ev_body e = body
     | Inl err \<Rightarrow> \<exists>xs. leaves env f' (es @ xs) \<and> (\<forall>x \<in> set xs. ev_body x = body))"
proof -
  define e where "e = next_event log body now version"
  have nr: "\<not> el_released log" and b: "lf_bytes f = Some (log_text env es)" using inv by (auto simp: writer_inv_def holds_def)
  have wr: "writable env es" "numbered 0 es" "\<not> lf_refused f" "length (log_text env es) < 2 ^ 64"
    and sy: "lf_synced f \<le> length (log_text env es)"
    using inv by (auto simp: writer_inv_def holds_def)
  show ?thesis
  proof (cases "env_write env e")
    case (Inl msg)
    then show ?thesis
      using run nr writer_leaves [OF inv] by (auto simp: log_append_def e_def Let_def intro!: exI [of _ "[]"])
  next
    case (Inr s)
    note rl = record_line [OF Inr]
    show ?thesis
    proof (cases "\<exists>k. fault = WriteFails k")
      case True
      then obtain k where k: "fault = WriteFails k" by blast
      then have r: "r = Inl LIo" "log' = log" "f' = f\<lparr>lf_bytes := Some (log_text env es @ take k (s @ [newline]))\<rparr>"
        using run nr Inr b by (auto simp: log_append_def e_def [symmetric] Let_def write_all_def)
      show ?thesis
      proof (cases "k \<le> length s")
        case True
        then have "newline \<notin> set (take k (s @ [newline]))" using rl(3) by (auto dest: in_set_takeD)
        then have "leaves env f' es" using r wr sy by (auto simp: leaves_def file_text_def)
        then show ?thesis using r by (auto intro!: exI [of _ "[]"])
      next
        case False
        then have "lf_bytes f' = Some (log_text env (es @ [e]))" using r rl(1) by simp
        moreover from this have "length (log_text env (es @ [e])) < 2 ^ 64" using small by (simp add: file_text_def)
        moreover from this have "ev_sequence e = of_nat (Suc (length es))"
          using next_seq_log [OF wr(1), of e] inv by (simp add: e_def next_event_def writer_inv_def)
        ultimately have "leaves env f' (es @ [e])"
          using r wr sy Inr by (auto simp: leaves_def numbered_append file_text_def intro!: exI [of _ "[]"])
        moreover have "ev_body e = body" by (simp add: e_def next_event_def)
        ultimately show ?thesis using r by (auto intro!: exI [of _ "[e]"])
      qed
    next
      case False
      then have "write_all fault = write_all NoFault" by (cases fault) (auto simp: write_all_def fun_eq_iff)
      then have "log_append env fault body now version log f = log_append env NoFault body now version log f"
        using nd by (simp only: log_append_def if_False)
      note run' = run [unfolded this]
      show ?thesis
      proof (cases "length (log_text env (es @ [e])) < 2 ^ 64")
        case True
        then show ?thesis
          using append_extends [OF inv e_def Inr True] run' nd by (auto simp: e_def next_event_def)
      next
        case False
        have "lf_bytes f' = Some (log_text env (es @ [e]))"
          using run' nr Inr b nd rl(1)
          by (auto simp: log_append_def e_def [symmetric] Let_def write_all_def split: prod.splits)
        then show ?thesis using small False by (simp add: file_text_def)
      qed
    qed
  qed
qed

text \<open>
  A group-commit append: on success the handle goes on with one more event, otherwise the file holds
  what \<open>leaves\<close> says; never less is flushed.
\<close>

lemma gc_append_any:
  assumes inv: "gc_live env g f es"
    and run: "gc_append env wa sf body ts version now g f = (r, g', f')"
    and small: "length (file_text f') < 2 ^ 64"
  shows "lf_synced f \<le> lf_synced f' \<and> gc_config g' = gc_config g \<and>
    (case r of
       Ret (Inr e) \<Rightarrow> gc_live env g' f' (es @ [e]) \<and> ev_body e = body
     | _ \<Rightarrow> \<exists>xs. leaves env f' (es @ xs) \<and> (\<forall>x \<in> set xs. ev_body x = body))"
proof -
  have wi: "writer_inv env (gc_log g) f es" and nd: "\<not> el_durable (gc_log g)" using inv by (simp_all add: gc_live_def)
  obtain r1 log1 f1 where a: "log_append env wa body ts version (gc_log g) f = (r1, log1, f1)"
    by (cases "log_append env wa body ts version (gc_log g) f") auto
  have "file_text f' = file_text f1"
    using run a by (auto simp: gc_append_def Let_def sync_now_def log_sync_def raw_sync_def file_text_def
        split: sum.splits if_splits)
  then have "length (file_text f1) < 2 ^ 64" using small by simp
  note la = log_append_any [OF wi nd a this]
  show ?thesis
  proof (cases r1)
    case (Inl err)
    then show ?thesis using run a la by (auto simp: gc_append_def Let_def)
  next
    case (Inr e)
    have w1: "writer_inv env log1 f1 (es @ [e])" "ev_body e = body" "lf_synced f1 = lf_synced f" "\<not> el_durable log1"
      using la Inr nd by auto
    have extra: "\<exists>xs. leaves env f1 (es @ xs) \<and> (\<forall>x \<in> set xs. ev_body x = body)"
      using writer_leaves [OF w1(1)] w1(2) by (intro exI [of _ "[e]"]) simp
    show ?thesis
    proof (cases "gc_pending g = - 1")
      case True
      then show ?thesis using run a Inr w1(3) extra by (auto simp: gc_append_def Let_def)
    next
      case False
      define g1 where "g1 = g\<lparr>gc_log := log1, gc_pending := gc_pending g + 1\<rparr>"
      show ?thesis
      proof (cases "is_terminal body \<or> gc_pending g1 \<ge> max_events (gc_config g1)
          \<or> now - gc_last_sync g1 \<ge> max_interval (gc_config g1)")
        case True
        show ?thesis
        proof (cases "sf = SyncFails")
          case True
          then show ?thesis
            using run a Inr w1(3) extra \<open>is_terminal body \<or> _\<close> False
            by (auto simp: gc_append_def Let_def g1_def sync_now_def log_sync_def raw_sync_def)
        next
          case ok: False
          have "sync_now sf now g1 f1 = sync_now NoFault now g1 f1"
            using ok by (simp add: sync_now_def log_sync_def raw_sync_def)
          moreover obtain r2 g2 f2 where s: "sync_now NoFault now g1 f1 = (r2, g2, f2)"
            by (cases "sync_now NoFault now g1 f1") auto
          moreover have "gc_log g1 = log1" "gc_config g1 = gc_config g" by (simp_all add: g1_def)
          with sync_now_ok [OF _ _ s, of env "es @ [e]"] w1(1,4)
          have s2: "r2 = Inr ()" "gc_live env g2 f2 (es @ [e])" "gc_config g2 = gc_config g"
            "lf_synced f2 = length (log_text env (es @ [e]))" by (auto intro: gc_inv_live)
          moreover have "lf_synced f \<le> length (log_text env (es @ [e]))"
            using wi by (auto simp: writer_inv_def holds_def)
          ultimately show ?thesis
            using run a Inr w1 True False by (auto simp: gc_append_def Let_def g1_def)
        qed
      next
        case quiet: False
        then have g': "r = Ret (Inr e)" "g' = g1" "f' = f1"
          using run a Inr False by (auto simp: gc_append_def Let_def g1_def)
        moreover have "unat (gc_pending g1) < unat (max_events (gc_config g1))"
          using quiet by (simp only: not_le word_less_nat_alt de_Morgan_disj)
        moreover have "gc_log g1 = log1" by (simp add: g1_def)
        ultimately have "gc_live env g1 f1 (es @ [e])"
          using w1 by (simp add: gc_live_def)
        then show ?thesis using g' w1 by (auto simp: g1_def)
      qed
    qed
  qed
qed

lemma force_sync_any:
  assumes inv: "gc_live env g f es" and run: "force_sync sf now g f = (r, g', f')"
  shows "lf_synced f \<le> lf_synced f' \<and> file_text f' = file_text f \<and>
    (case r of
       Inr _ \<Rightarrow> gc_live env g' f' es \<and> flushed env f' es (length es)
     | Inl _ \<Rightarrow> leaves env f' es)"
proof -
  have wi: "writer_inv env (gc_log g) f es" and nd: "\<not> el_durable (gc_log g)" using inv by (simp_all add: gc_live_def)
  show ?thesis
  proof (cases "sf = SyncFails")
    case True
    then show ?thesis
      using run writer_leaves [OF wi] by (auto simp: force_sync_def sync_now_def log_sync_def raw_sync_def)
  next
    case False
    then have "sync_now sf now g f = sync_now NoFault now g f"
      by (simp add: sync_now_def log_sync_def raw_sync_def)
    then have "sync_now NoFault now g f = (r, g', f')" using run by (simp add: force_sync_def)
    from sync_now_ok [OF wi nd this] this wi show ?thesis
      by (auto simp: flushed_def writer_inv_def holds_def file_text_def sync_now_def log_sync_def raw_sync_def
          intro: gc_inv_live)
  qed
qed

lemma release_any:
  assumes inv: "gc_live env g f es" and run: "gc_release_writer_lock sf unlock_fails now g f = (r, g', f')"
  shows "lf_synced f \<le> lf_synced f' \<and> file_text f' = file_text f \<and> leaves env f' es"
proof -
  have wi: "writer_inv env (gc_log g) f es" using inv by (simp add: gc_live_def)
  then have "lf_bytes f = Some (log_text env es)" "lf_synced f \<le> length (log_text env es)"
    by (auto simp: writer_inv_def holds_def)
  moreover have "lf_bytes f' = lf_bytes f" "lf_refused f' = lf_refused f" "lf_synced f' \<in> {lf_synced f, length (file_text f)}"
    using run
    by (auto simp: gc_release_writer_lock_def release_writer_lock_def sync_now_def log_sync_def raw_sync_def
        file_text_def Let_def split: if_splits option.splits)
  moreover have "leaves env f es" by (rule writer_leaves [OF wi])
  ultimately show ?thesis by (auto simp: leaves_def file_text_def)
qed

text \<open>Without faults, and below the largest offset, every operation succeeds.\<close>

lemma gc_append_calm:
  assumes inv: "gc_live env g f es" and w: "env_write env (next_event (gc_log g) body ts version) = Inr s"
    and room: "length (log_text env es) + Suc (length s) < 2 ^ 64"
  shows "\<exists>e g' f'. gc_append env NoFault NoFault body ts version now g f = (Ret (Inr e), g', f') \<and>
    gc_live env g' f' (es @ [e]) \<and> ev_body e = body \<and> length (log_text env (es @ [e])) = length (log_text env es) + Suc (length s)"
proof -
  define e where "e = next_event (gc_log g) body ts version"
  have wi: "writer_inv env (gc_log g) f es" "\<not> el_durable (gc_log g)" using inv by (simp_all add: gc_live_def)
  have len: "length (log_text env (es @ [e])) = length (log_text env es) + Suc (length s)"
    using record_line(1) [OF w] by (simp add: e_def)
  then obtain log1 f1 where a: "log_append env NoFault body ts version (gc_log g) f = (Inr e, log1, f1)"
    "writer_inv env log1 f1 (es @ [e])" "el_durable log1 = el_durable (gc_log g)"
    using append_extends [OF wi(1) e_def _ , of s] w room by (auto simp: e_def)
  obtain r g' f' where run: "gc_append env NoFault NoFault body ts version now g f = (r, g', f')"
    by (cases "gc_append env NoFault NoFault body ts version now g f") auto
  have "unat (gc_pending g) < unat (- 1 :: u64)"
    using inv unat_max_word [where 'a = 64] word_le_nat_alt [of "max_events (gc_config g)" "- 1"]
    by (auto simp: gc_live_def max_def split: if_splits)
  then have "gc_pending g \<noteq> - 1" by auto
  then have r: "r = Ret (Inr e)" "file_text f' = file_text f1"
    using run a(1) by (auto simp: gc_append_def Let_def sync_now_def log_sync_def raw_sync_def file_text_def split: if_splits)
  have "length (file_text f') < 2 ^ 64"
    using a(2) len room unfolding r(2) by (simp add: writer_inv_def holds_def file_text_def)
  from gc_append_any [OF inv run this] show ?thesis using run r(1) len by auto
qed

lemma force_sync_calm:
  assumes "gc_live env g f es"
  shows "\<exists>g' f'. force_sync NoFault now g f = (Inr (), g', f') \<and> gc_live env g' f' es \<and> flushed env f' es (length es)"
proof -
  obtain r g' f' where run: "force_sync NoFault now g f = (r, g', f')" by (cases "force_sync NoFault now g f") auto
  then have "r = Inr ()" by (auto simp: force_sync_def sync_now_def log_sync_def raw_sync_def)
  then show ?thesis using force_sync_any [OF assms run] run by auto
qed

lemma release_calm:
  assumes "gc_live env g f es" "flushed env f es (length es)"
  shows "\<exists>g' f'. gc_release_writer_lock NoFault False now g f = (Inr (), g', f') \<and> holds env f' es \<and>
    lf_synced f' = length (log_text env es) \<and> \<not> lf_locked f'"
proof -
  have "lf_synced f = length (log_text env es)"
    using assms by (auto simp: gc_live_def writer_inv_def holds_def flushed_def)
  then show ?thesis
    using assms
    by (auto simp: gc_release_writer_lock_def release_writer_lock_def sync_now_def log_sync_def raw_sync_def
        gc_live_def writer_inv_def holds_def Let_def)
qed

text \<open>Opening what was left: it is refused, or the handle goes on from all of it.\<close>

lemma gc_open_any:
  assumes l: "leaves env f es"
    and run: "gc_open env sid config now f = (Inr g, f')"
  shows "gc_live env g f' es \<and> lf_synced f' = lf_synced f \<and> file_text f' = file_text f"
proof -
  obtain t where t: "lf_bytes f = Some (log_text env es @ t)" "newline \<notin> set t" and ok: "\<not> lf_refused f"
    and es: "writable env es" "numbered 0 es" "length (log_text env es) < 2 ^ 64"
    and s: "lf_synced f \<le> length (file_text f)"
    using l by (auto simp: leaves_def)
  have unlocked: "\<not> lf_locked f"
    using run t ok by (auto simp: gc_open_def log_open_without_durability_barrier_def open_with_durability_def Let_def split: if_splits)
  have "t = []"
  proof (rule ccontr)
    assume "t \<noteq> []"
    from open_partial [OF t(1,2) this ok unlocked es(1,3), of sid False] show False
      using run by (auto simp: gc_open_def log_open_without_durability_barrier_def)
  qed
  then have "holds env f es" using t ok es s by (simp add: holds_def file_text_def)
  from open_holds [OF this unlocked, of sid False] run show ?thesis
    by (auto simp: gc_open_def log_open_without_durability_barrier_def gc_live_def file_text_def)
qed

text \<open>A crash keeps some first events, all the flushed ones among them; what it leaves can be read.\<close>

lemma leaves_crash:
  assumes "leaves env f es"
  shows "\<exists>k \<le> length es. leaves env (crash n f) (take k es) \<and> (\<forall>j. flushed env f es j \<longrightarrow> flushed env (crash n f) (take k es) j)"
proof -
  obtain t where t: "lf_bytes f = Some (log_text env es @ t)" "newline \<notin> set t" and ok: "\<not> lf_refused f"
    and es: "writable env es" "numbered 0 es" "length (log_text env es) < 2 ^ 64"
    and sy: "lf_synced f \<le> length (file_text f)"
    using assms by (auto simp: leaves_def)
  have sc: "lf_synced (crash n f) \<le> length (file_text (crash n f))"
    using sy t(1) by (simp add: crash_def file_text_def)
  define m where "m = max n (lf_synced f)"
  show ?thesis
  proof (cases "m \<le> length (log_text env es)")
    case False
    define t' where "t' = take (m - length (log_text env es)) t"
    have "lf_bytes (crash n f) = Some (log_text env es @ t')"
      using False t(1) by (simp add: crash_def m_def [symmetric] t'_def)
    moreover have "newline \<notin> set t'" using t(2) by (auto simp: t'_def dest: in_set_takeD)
    ultimately have "leaves env (crash n f) es" using es ok sc by (auto simp: leaves_def) (simp_all add: crash_def)
    then show ?thesis by (intro exI [of _ "length es"]) (auto simp: flushed_def crash_def)
  next
    case True
    define g where "g = f\<lparr>lf_bytes := Some (log_text env es)\<rparr>"
    have "lf_synced f \<le> length (log_text env es)" using True by (simp add: m_def)
    then have h: "holds env g es" using ok es by (simp add: holds_def g_def)
    have c: "crash n g = crash n f" using True t(1) by (simp add: crash_def g_def m_def)
    obtain k t' where k: "lf_bytes (crash n g) = Some (log_text env (take k es) @ t')" "newline \<notin> set t'" "k \<le> length es"
      "\<forall>j \<le> length es. length (log_text env (take j es)) \<le> lf_synced g \<longrightarrow> j \<le> k"
      using crash_leaves [OF h] by blast
    have "leaves env (crash n f) (take k es)"
      using k(1,2) holds_prefix [OF h, of k] ok sc unfolding c by (auto simp: leaves_def) (simp_all add: crash_def)
    then show ?thesis
      using k(3,4) by (intro exI [of _ k]) (auto simp: flushed_def crash_def g_def min_def)
  qed
qed

lemma leaves_reads:
  assumes "leaves env f es"
  shows "\<exists>r. reader_open env sid f = Inr r \<and> reader_read_from env r f 0 = Inr (map (reread settle) es)"
proof -
  obtain t where t: "lf_bytes f = Some (log_text env es @ t)" "newline \<notin> set t" "\<not> lf_refused f"
    and es: "writable env es" "numbered 0 es" "length (log_text env es) < 2 ^ 64"
    using assms by (auto simp: leaves_def)
  from reader_snapshot [OF t es t(1,3), of sid 0] show ?thesis by auto
qed

end

end
