(* ===== verification/Recovery.thy ===== *)
theory Recovery
  imports Engine_Safety Log_Faults
begin

text \<open>
  What survives a crash in the middle of a scan. The log, the task store and the evidence store are
  written by one run in an order that keeps them consistent under every fault: a unit the store
  records as done has its event in the flushed part of the log, and every digest an event cites is
  stored. A session is any sequence of runs, stops and crashes over the three.
\<close>

section \<open>Consistency\<close>

fun cited :: "event_body \<Rightarrow> digest list" where
  "cited (HostDiscovered target method evidence) = ne_vec evidence"
| "cited (PortStateObserved target endpoint state evidence) = (case evidence of None \<Rightarrow> [] | Some ds \<Rightarrow> ne_vec ds)"
| "cited (ServiceObserved target endpoint obs evidence probe rule) = ne_vec evidence"
| "cited _ = []"

text \<open>The event that reports unit \<open>i\<close> of the plan, and a log in which it stands.\<close>

definition port_event :: "scan_plan \<Rightarrow> u64 \<Rightarrow> event_body \<Rightarrow> bool" where
  "port_event p i b \<longleftrightarrow>
     (\<exists>u st. plan_unit p i = Ret (Some u) \<and> b = PortStateObserved (su_target u) (su_endpoint u) st None)"

definition witnessed :: "scan_plan \<Rightarrow> event list \<Rightarrow> u64 \<Rightarrow> bool" where
  "witnessed p es i \<longleftrightarrow> (\<exists>e \<in> set es. port_event p i (ev_body e))"

text \<open>
  The events \<open>es\<close> of a log file agree with the two stores: the units recorded as done are reported in
  the flushed part, and the evidence cited is stored.
\<close>

definition certified :: "log_env \<Rightarrow> scan_plan \<Rightarrow> log_file \<Rightarrow> event list \<Rightarrow> u64 set \<Rightarrow> bool" where
  "certified L p f es D \<longleftrightarrow> (\<exists>j. flushed L f es j \<and> (\<forall>i \<in> D. witnessed p (take j es) i))"

definition evidenced :: "digest set \<Rightarrow> disk \<Rightarrow> event list \<Rightarrow> bool" where
  "evidenced V fs es \<longleftrightarrow> (\<forall>e \<in> set es. \<forall>d \<in> set (cited (ev_body e)) - V. stored fs d)"

lemma witnessed_append: "witnessed p (es @ xs) i \<longleftrightarrow> witnessed p es i \<or> witnessed p xs i"
  by (auto simp: witnessed_def)

lemma witnessed_take: "witnessed p (take j es) i \<Longrightarrow> witnessed p es i"
  by (auto simp: witnessed_def dest: in_set_takeD)

lemma certified_append:
  "certified L p f es D \<Longrightarrow> lf_synced f \<le> lf_synced f' \<Longrightarrow> certified L p f' (es @ xs) D"
proof -
  assume c: "certified L p f es D" and s: "lf_synced f \<le> lf_synced f'"
  then obtain j where j: "flushed L f es j" "\<forall>i \<in> D. witnessed p (take j es) i" by (auto simp: certified_def)
  moreover from j(1) have "take j (es @ xs) = take j es" by (simp add: flushed_def)
  ultimately show ?thesis using flushed_append [OF j(1) s] by (metis certified_def)
qed

lemma evidenced_append: "evidenced V fs (es @ xs) \<longleftrightarrow> evidenced V fs es \<and> evidenced V fs xs"
  by (auto simp: evidenced_def)

lemma evidenced_mono: "evidenced V fs es \<Longrightarrow> (\<And>d. stored fs d \<Longrightarrow> stored fs' d) \<Longrightarrow> evidenced V fs' es"
  by (auto simp: evidenced_def)

abbreviation finished :: "'n scheduler \<Rightarrow> world \<Rightarrow> u64 set" where
  "finished S w \<equiv> done_units (sd_encode S) (sd_scan_id S) (w_db w)"

text \<open>
  \<open>sound\<close> holds wherever a run may end; \<open>healthy\<close> while it goes on, with the units \<open>N\<close> reported but not
  yet batched. Both speak of files below the largest offset.
\<close>

definition small :: "world \<Rightarrow> bool" where
  "small w \<longleftrightarrow> length (file_text (w_file w)) < 2 ^ 64"

definition sound :: "digest set \<Rightarrow> 'n scheduler \<Rightarrow> scan_plan \<Rightarrow> world \<Rightarrow> bool" where
  "sound V S p w \<longleftrightarrow> blobs_ok (sd_hash S) (w_disk w) \<and>
     (small w \<longrightarrow> (\<exists>es. leaves (sd_log_env S) (w_file w) es \<and>
        certified (sd_log_env S) p (w_file w) es (finished S w) \<and> evidenced V (w_disk w) es))"

definition plan_flights :: "scan_plan \<Rightarrow> flight list \<Rightarrow> bool" where
  "plan_flights p fs \<longleftrightarrow> (\<forall>f \<in> set fs. plan_unit p (su_index (fl_unit f)) = Ret (Some (fl_unit f)))"

definition healthy :: "digest set \<Rightarrow> 'n scheduler \<Rightarrow> scan_plan \<Rightarrow> u64 set \<Rightarrow> world \<Rightarrow> bool" where
  "healthy V S p N w \<longleftrightarrow> blobs_ok (sd_hash S) (w_disk w) \<and> plan_flights p (w_flight w) \<and>
     (small w \<longrightarrow> (\<exists>es. gc_live (sd_log_env S) (w_gc w) (w_file w) es \<and>
        certified (sd_log_env S) p (w_file w) es (finished S w) \<and> evidenced V (w_disk w) es \<and>
        (\<forall>i \<in> N \<union> set (w_batch w). witnessed p es i)))"

text \<open>Everything flushed: what the store may be told.\<close>

definition settled :: "digest set \<Rightarrow> 'n scheduler \<Rightarrow> scan_plan \<Rightarrow> u64 set \<Rightarrow> world \<Rightarrow> bool" where
  "settled V S p N w \<longleftrightarrow> healthy V S p N w \<and>
     (small w \<longrightarrow> (\<exists>es. gc_live (sd_log_env S) (w_gc w) (w_file w) es \<and> flushed (sd_log_env S) (w_file w) es (length es) \<and>
        evidenced V (w_disk w) es \<and> (\<forall>i \<in> N \<union> set (w_batch w) \<union> finished S w. witnessed p es i)))"

lemma healthy_frame [simp]:
  "healthy V S p N (w\<lparr>w_tick := t\<rparr>) = healthy V S p N w"
  "healthy V S p N (w\<lparr>w_ledger := l\<rparr>) = healthy V S p N w"
  "healthy V S p N (w\<lparr>w_put_seq := q\<rparr>) = healthy V S p N w"
  "healthy V S p N (w\<lparr>w_client := c\<rparr>) = healthy V S p N w"
  "healthy V S p N (w\<lparr>w_summary := y\<rparr>) = healthy V S p N w"
  "healthy V S p N (w\<lparr>w_last_progress := k\<rparr>) = healthy V S p N w"
  "healthy V S p N (w\<lparr>w_denial := dn\<rparr>) = healthy V S p N w"
  "healthy V S p N (w\<lparr>w_failure := fa\<rparr>) = healthy V S p N w"
  "healthy V S p N (w\<lparr>w_probed := ss\<rparr>) = healthy V S p N w"
  "healthy V S p N (w\<lparr>w_dispatched := ds\<rparr>) = healthy V S p N w"
  by (simp_all add: healthy_def small_def)

lemma healthy_batch:
  "healthy V S p (insert i N) w \<Longrightarrow> w_batch w = bs \<Longrightarrow> healthy V S p N (w\<lparr>w_batch := bs @ [i]\<rparr>)"
  by (auto simp: healthy_def small_def)

lemma healthy_unbatch: "healthy V S p N w \<Longrightarrow> healthy V S p N (w\<lparr>w_batch := []\<rparr>)"
  by (auto simp: healthy_def small_def)

lemma healthy_less: "healthy V S p N w \<Longrightarrow> M \<subseteq> N \<Longrightarrow> healthy V S p M w"
  unfolding healthy_def by blast

lemma healthy_flights:
  "healthy V S p N w \<Longrightarrow> plan_flights p fl \<Longrightarrow> healthy V S p N (w\<lparr>w_flight := fl\<rparr>)"
  "healthy V S p N w \<Longrightarrow> plan_flights p (w_flight w)"
  by (simp_all add: healthy_def small_def)

lemma sound_frame [simp]:
  "sound V S p (w\<lparr>w_tick := t\<rparr>) = sound V S p w"
  "sound V S p (w\<lparr>w_ledger := l\<rparr>) = sound V S p w"
  "sound V S p (w\<lparr>w_put_seq := q\<rparr>) = sound V S p w"
  "sound V S p (w\<lparr>w_client := c\<rparr>) = sound V S p w"
  "sound V S p (w\<lparr>w_summary := y\<rparr>) = sound V S p w"
  "sound V S p (w\<lparr>w_last_progress := k\<rparr>) = sound V S p w"
  "sound V S p (w\<lparr>w_denial := dn\<rparr>) = sound V S p w"
  "sound V S p (w\<lparr>w_failure := fa\<rparr>) = sound V S p w"
  "sound V S p (w\<lparr>w_probed := ss\<rparr>) = sound V S p w"
  "sound V S p (w\<lparr>w_dispatched := ds\<rparr>) = sound V S p w"
  "sound V S p (w\<lparr>w_batch := bs\<rparr>) = sound V S p w"
  "sound V S p (w\<lparr>w_flight := fl\<rparr>) = sound V S p w"
  by (simp_all add: sound_def small_def)

lemma force_sync_text: "force_sync sf now g f = (r, g', f') \<Longrightarrow> file_text f' = file_text f"
  by (auto simp: force_sync_def sync_now_def log_sync_def raw_sync_def file_text_def Let_def split: if_splits)

lemma update_units [simp]:
  "db_units (snd (set_status encode i st now d)) = db_units d"
  "db_units (snd (record_progress encode i l q t now d)) = db_units d"
  by (auto simp: set_status_def record_progress_def run_update_def update_scans_def split: sum.splits prod.splits)

lemma insert_units_set:
  "insert_units k us d = Inr d' \<Longrightarrow> set (db_units d') = set (db_units d) \<union> (\<lambda>u. (k, uint u)) ` set us"
proof (induction us arbitrary: d)
  case (Cons u us)
  then obtain i d1 where i: "to_sql u = Inr i" and d1: "insert_unit k i d = Inr d1"
    and r: "insert_units k us d1 = Inr d'" by (auto simp: res_bind_Inr_iff)
  have "i = uint u" using i by (simp add: to_sql_def split: if_splits)
  then show ?case using Cons.IH [OF r] d1 by (auto simp: insert_unit_def split: if_splits)
qed simp

lemma mark_units:
  "mark_units_done encode i us d = (r, d') \<Longrightarrow>
     done_units encode i d' = (case r of Inl _ \<Rightarrow> done_units encode i d | Inr _ \<Rightarrow> done_units encode i d \<union> set us)"
  by (auto simp: mark_units_done_def done_units_def image_iff word_uint_eq_iff [symmetric] dest!: insert_units_set split: sum.splits)

lemma wp_spend_frame: "(\<And>x l. Q x (w\<lparr>w_ledger := l\<rparr>)) \<Longrightarrow> wp (try_spend n) Q E w"
  by (auto simp: wp_def try_spend_def split: prod.splits sum.splits)

text \<open>The units a plan hands out, and their indices.\<close>

definition plan_units :: "scan_plan \<Rightarrow> scan_unit list \<Rightarrow> bool" where
  "plan_units p us \<longleftrightarrow> (\<forall>u \<in> set us. plan_unit p (su_index u) = Ret (Some u))"

lemma plan_unit_index:
  "plan_unit p i = Ret (Some u) \<Longrightarrow> su_index u = i"
  "plan_unit p i = Ret None \<Longrightarrow> plan_len p \<le> i"
  by (auto simp: plan_unit_def Let_def split: rust.splits if_splits)

lemma filter_map_indices:
  "filter_map_rust (plan_unit p) is = Ret us \<Longrightarrow> \<forall>i \<in> set is. i < plan_len p \<Longrightarrow>
     map su_index us = is \<and> plan_units p us"
proof (induction "is" arbitrary: us)
  case (Cons i "is")
  then obtain x where x: "plan_unit p i = Ret x" by (auto split: rust.splits)
  then obtain u where u: "plan_unit p i = Ret (Some u)" using Cons.prems(2) plan_unit_index(2) by (cases x) force+
  then show ?case
    using Cons plan_unit_index(1) [OF u] by (auto simp: plan_units_def split: rust.splits)
qed (simp add: plan_units_def)

lemma units_from_indices:
  "units_from p i = Ret us \<Longrightarrow> map su_index us = map of_nat [unat i..<unat (plan_len p)] \<and> plan_units p us"
  unfolding units_from_def
  using unat_bounded [of "plan_len p"]
  by (intro filter_map_indices) (auto simp: word_less_nat_alt unat_of_nat_small)

lemma finish_units: "map fl_unit (finish_some q fs) = map fl_unit fs" "map fl_unit (finish_first fs) = map fl_unit fs"
proof -
  show "map fl_unit (finish_some q fs) = map fl_unit fs"
    by (rule nth_equalityI) (auto simp: finish_some_def)
  show "map fl_unit (finish_first fs) = map fl_unit fs" by (induction fs) auto
qed

lemma ready_lt: "i \<in> set (ready fs) \<Longrightarrow> i < length fs"
  by (simp add: ready_def)

section \<open>The operations of a durable scheduler\<close>

text \<open>The scheduler's own stores: the log's codec keeps its laws, and evidence is flushed.\<close>

locale durable_scheduler =
  fixes S :: "'n scheduler" and settle :: "confidence \<Rightarrow> confidence" and p :: scan_plan and V :: "digest set"
  assumes codec: "log_codec (sd_log_env S) settle" and durable: "st_durable (sd_store S)"
begin

lemma healthy_sound: "healthy V S p N w \<Longrightarrow> sound V S p w"
  by (auto simp: healthy_def sound_def gc_live_def intro: writer_leaves)

lemma wp_log:
  assumes h: "healthy V S p N w" and c: "\<forall>d \<in> set (cited b). stored (w_disk w) d"
    and q: "\<And>w'. healthy V S p (N \<union> {i. port_event p i b}) w' \<Longrightarrow> Q () w'"
    and e: "\<And>w'. sound V S p w' \<Longrightarrow> E w'"
  shows "wp (log_event S A b) Q E w"
proof -
  let ?L = "sd_log_env S" and ?t = "w_tick w"
  obtain r g f where run: "gc_append ?L (an_write A ?t) (an_sync A ?t) b (an_timestamp A ?t) (sd_engine_version S)
      (an_instant A ?t) (w_gc w) (w_file w) = (r, g, f)"
    by (cases "gc_append ?L (an_write A ?t) (an_sync A ?t) b (an_timestamp A ?t) (sd_engine_version S)
      (an_instant A ?t) (w_gc w) (w_file w)") auto
  define w' where "w' = w\<lparr>w_tick := Suc ?t, w_gc := g, w_file := f\<rparr>"
  have ok: "blobs_ok (sd_hash S) (w_disk w)" "plan_flights p (w_flight w)" using h by (simp_all add: healthy_def)
  have goal: "(case r of Ret (Inr ev) \<Rightarrow> healthy V S p (N \<union> {i. port_event p i b}) w' | _ \<Rightarrow> sound V S p w')"
  proof (cases "small w'")
    case False
    then show ?thesis using ok by (auto simp: healthy_def sound_def w'_def split: rust.splits sum.splits)
  next
    case True
    then have sz: "length (file_text f) < 2 ^ 64" by (simp add: small_def w'_def)
    then have "small w" using log_codec.gc_append_grows [OF codec run] by (simp add: small_def)
    then obtain es where es: "gc_live ?L (w_gc w) (w_file w) es" "certified ?L p (w_file w) es (finished S w)"
      "evidenced V (w_disk w) es" "\<forall>i \<in> N \<union> set (w_batch w). witnessed p es i"
      using h by (auto simp: healthy_def)
    note any = log_codec.gc_append_any [OF codec es(1) run sz]
    have cert: "certified ?L p f (es @ xs) (finished S w')" for xs
      using certified_append [OF es(2)] any by (simp add: w'_def)
    have ev: "evidenced V (w_disk w') (es @ xs)" if "\<forall>x \<in> set xs. ev_body x = b" for xs
      using es(3) c that by (auto simp: evidenced_append evidenced_def w'_def)
    show ?thesis
    proof (cases "\<exists>x. r = Ret (Inr x)")
      case True
      then obtain x where r: "r = Ret (Inr x)" by blast
      then have "gc_live ?L g f (es @ [x])" "ev_body x = b" using any by auto
      moreover have "\<forall>i \<in> N \<union> {i. port_event p i b} \<union> set (w_batch w'). witnessed p (es @ [x]) i"
        using es(4) calculation(2) by (auto simp: witnessed_append) (auto simp: witnessed_def w'_def)
      ultimately have "healthy V S p (N \<union> {i. port_event p i b}) w'"
        using cert [of "[x]"] ev [of "[x]"] ok by (auto simp: healthy_def w'_def intro!: exI [of _ "es @ [x]"])
      then show ?thesis using r by simp
    next
      case False
      then obtain xs where "leaves ?L f (es @ xs)" "\<forall>x \<in> set xs. ev_body x = b"
        using any by (cases r rule: rust.exhaust) (auto split: sum.splits)
      then have "sound V S p w'"
        using cert [of xs] ev [of xs] ok by (auto simp: sound_def w'_def intro!: exI [of _ "es @ xs"])
      then show ?thesis using False by (auto split: rust.splits sum.splits)
    qed
  qed
  then show ?thesis
    using q e by (auto simp: wp_def log_event_def Let_def run w'_def split: rust.splits sum.splits)
qed

lemma wp_log_keep:
  assumes "healthy V S p N w" "\<forall>d \<in> set (cited b). stored (w_disk w) d"
    and "\<And>w'. healthy V S p N w' \<Longrightarrow> Q () w'" "\<And>w'. sound V S p w' \<Longrightarrow> E w'"
  shows "wp (log_event S A b) Q E w"
  using assms healthy_less [of V S p _ _ N] by (intro wp_log) blast+

lemma wp_sync:
  assumes h: "healthy V S p N w" and q: "\<And>w'. settled V S p N w' \<Longrightarrow> w_batch w' = w_batch w \<Longrightarrow> Q () w'"
    and e: "\<And>w'. sound V S p w' \<Longrightarrow> E w'"
  shows "wp (log_force_sync A) Q E w"
proof -
  let ?L = "sd_log_env S" and ?t = "w_tick w"
  obtain r g f where run: "force_sync (an_sync A ?t) (an_instant A ?t) (w_gc w) (w_file w) = (r, g, f)"
    by (cases "force_sync (an_sync A ?t) (an_instant A ?t) (w_gc w) (w_file w)") auto
  define w' where "w' = w\<lparr>w_tick := Suc ?t, w_gc := g, w_file := f\<rparr>"
  have ok: "blobs_ok (sd_hash S) (w_disk w)" "plan_flights p (w_flight w)" using h by (simp_all add: healthy_def)
  have "(case r of Inr _ \<Rightarrow> settled V S p N w' | Inl _ \<Rightarrow> sound V S p w')"
  proof (cases "small w \<and> small w'")
    case False
    then have "\<not> small w'"
      by (auto simp: small_def w'_def) (metis force_sync_text run)
    then show ?thesis using ok by (auto simp: settled_def healthy_def sound_def w'_def split: sum.splits)
  next
    case True
    then obtain es where es: "gc_live ?L (w_gc w) (w_file w) es" "certified ?L p (w_file w) es (finished S w)"
      "evidenced V (w_disk w) es" "\<forall>i \<in> N \<union> set (w_batch w). witnessed p es i"
      using h by (auto simp: healthy_def)
    note any = log_codec.force_sync_any [OF codec es(1) run]
    have cert: "certified ?L p f es (finished S w')"
      using certified_append [OF es(2), of f "[]"] any by (simp add: w'_def)
    have "\<forall>i \<in> finished S w. witnessed p es i" using es(2) by (auto simp: certified_def dest: witnessed_take)
    then show ?thesis
      using any cert es ok
      by (auto simp: settled_def healthy_def sound_def w'_def split: sum.splits intro!: exI [of _ es])
  qed
  then show ?thesis
    using q e by (auto simp: wp_def log_force_sync_def Let_def run w'_def split: sum.splits)
qed

lemma wp_mark:
  assumes h: "settled V S p N w" and us: "set us \<subseteq> set (w_batch w)"
    and q: "\<And>w'. healthy V S p N w' \<Longrightarrow> Q () w'" and e: "\<And>w'. sound V S p w' \<Longrightarrow> E w'"
  shows "wp (run_sql A (mark_units_done (sd_encode S) (sd_scan_id S) us)) Q E w"
proof (cases "an_sql A (w_tick w)")
  case (Some err)
  then show ?thesis using h e by (auto simp: wp_def run_sql_def Let_def settled_def dest: healthy_sound)
next
  case None
  obtain r d where run: "mark_units_done (sd_encode S) (sd_scan_id S) us (w_db w) = (r, d)"
    by (cases "mark_units_done (sd_encode S) (sd_scan_id S) us (w_db w)")
  define w' where "w' = w\<lparr>w_tick := Suc (w_tick w), w_db := d\<rparr>"
  have "healthy V S p N w'"
  proof (cases "small w")
    case False
    then show ?thesis using h by (simp add: settled_def healthy_def w'_def small_def)
  next
    case True
    then obtain es where es: "gc_live (sd_log_env S) (w_gc w) (w_file w) es" "flushed (sd_log_env S) (w_file w) es (length es)"
      "evidenced V (w_disk w) es" "\<forall>i \<in> N \<union> set (w_batch w) \<union> finished S w. witnessed p es i"
      using h by (auto simp: settled_def)
    have "\<forall>i \<in> finished S w'. witnessed p (take (length es) es) i"
      using es(4) us mark_units [OF run] by (auto simp: w'_def split: sum.splits)
    then have "certified (sd_log_env S) p (w_file w') es (finished S w')"
      using es(2) unfolding certified_def by (auto simp: w'_def)
    then show ?thesis
      using es h by (auto simp: settled_def healthy_def w'_def small_def intro!: exI [of _ es])
  qed
  then show ?thesis
    using q e None run by (auto simp: wp_def run_sql_def Let_def w'_def split: sum.splits dest: healthy_sound)
qed

lemma wp_sql:
  assumes h: "healthy V S p N w" and keep: "\<And>d. db_units (snd (m d)) = db_units d"
    and q: "\<And>x w'. healthy V S p N w' \<Longrightarrow> Q x w'" and e: "\<And>w'. sound V S p w' \<Longrightarrow> E w'"
  shows "wp (run_sql A m) Q E w"
proof -
  obtain r d where run: "m (w_db w) = (r, d)" by (cases "m (w_db w)")
  have "db_units d = db_units (w_db w)" using keep [of "w_db w"] run by simp
  then have "healthy V S p N (w\<lparr>w_tick := t, w_db := d\<rparr>)" for t
    using h by (simp add: healthy_def small_def done_units_def)
  moreover have "\<And>w'. healthy V S p N w' \<Longrightarrow> E w'" using e healthy_sound by blast
  ultimately show ?thesis
    using q h run by (auto simp: wp_def run_sql_def Let_def split: sum.splits option.splits)
qed

lemma healthy_disk:
  assumes "healthy V S p N w" "put hash pid seq st ans bytes (w_disk w) = (r, fs)" "hash = sd_hash S" "st = sd_store S"
  shows "healthy V S p N (w\<lparr>w_disk := fs\<rparr>)"
proof -
  have b: "blobs_ok hash (w_disk w)" using assms(1,3) by (simp add: healthy_def)
  note keeps = put_keeps [OF assms(2) durable [folded assms(4)] b]
  show ?thesis
    using assms(1) keeps(1) evidenced_mono [OF _ keeps(2)]
    unfolding healthy_def by (auto simp: small_def assms(3))
qed

lemma wp_put:
  assumes h: "healthy V S p N w"
    and q: "\<And>d w'. healthy V S p N w' \<Longrightarrow> stored (w_disk w') d \<Longrightarrow> Q d w'" and e: "\<And>w'. sound V S p w' \<Longrightarrow> E w'"
  shows "wp (put_evidence S A bytes) Q E w" "wp (put_evidence_capped S A bytes cap) Q E w"
proof -
  let ?put = "\<lambda>bs. put (sd_hash S) (sd_pid S) (w_put_seq w) (sd_store S) (an_put A (w_tick w)) bs (w_disk w)"
  have b: "blobs_ok (sd_hash S) (w_disk w)" using h by (simp add: healthy_def)
  have one: "healthy V S p N (w\<lparr>w_tick := t, w_put_seq := k, w_disk := fs\<rparr>) \<and> (\<forall>d. r = Inr d \<longrightarrow> stored fs d)"
    if "?put bs = (r, fs)" for bs r fs t k
    using healthy_disk [OF _ that refl refl, of N] h put_keeps(3) [OF that durable b]
    by (simp add: healthy_def small_def)
  have e': "\<And>w'. healthy V S p N w' \<Longrightarrow> E w'" using e healthy_sound by blast
  show "wp (put_evidence S A bytes) Q E w"
    using one [of bytes] q e'
    by (auto simp: wp_def put_evidence_def Let_def split: prod.splits sum.splits)
  show "wp (put_evidence_capped S A bytes cap) Q E w"
    using one q e'
    by (auto simp: wp_def put_evidence_capped_def put_capped_def Let_def split: prod.splits sum.splits)
qed

lemmas health_rules = wp_log_keep wp_put wp_sql

abbreviation preserved :: "u64 set \<Rightarrow> 'a eng \<Rightarrow> world \<Rightarrow> bool" where
  "preserved N m w \<equiv> wp m (\<lambda>_. healthy V S p N) (sound V S p) w"

lemma detect_healthy: "healthy V S p N w \<Longrightarrow> preserved N (detect_loop S A u ps) w"
proof (induction ps arbitrary: w)
  case (Cons q qs)
  then show ?case
    by (auto simp: send_probes_def healthy_sound intro!: wp_spend_frame split: option.splits list.splits)
qed (simp add: healthy_sound)

lemma service_healthy: "healthy V S p N w \<Longrightarrow> preserved N (detect_service S A u) w"
  by (simp add: detect_service_def detect_healthy)

lemma emit_service_healthy:
  assumes h: "healthy V S p N w"
  shows "preserved N (emit_service_observed S A u x) w"
proof -
  have "preserved N (eng_bind (put_evidence_capped S A (sf_evidence x) cap) (\<lambda>digest.
      log_event S A (ServiceObserved (su_target u) (su_endpoint u) (sf_observation x)
        (ne_new digest) (sf_probe_id x) (Some (sf_rule_id x))))) w" for cap
    unfolding wp_bind by (rule wp_put(2) [OF h], rule wp_log_keep) (simp_all add: ne_new_def)
  then show ?thesis
    using h by (cases "sd_evidence_level S") (simp_all add: emit_service_observed_def)
qed

text \<open>The service detection of an open endpoint, between its port event and its place in the batch.\<close>

abbreviation detection :: "env \<Rightarrow> scan_unit \<Rightarrow> port_state \<Rightarrow> unit eng" where
  "detection A u st \<equiv> eng_when (st = Open)
       (eng_then (set_summary (\<lambda>s. s\<lparr>rs_open_ports := rs_open_ports s + 1\<rparr>))
         (eng_when (sd_enabled (sd_detection S))
           (eng_bind (detect_service S A u) (\<lambda>found.
            case found of None \<Rightarrow> eng_ret () | Some finding \<Rightarrow> emit_service_observed S A u finding))))"

lemma detection_healthy: "healthy V S p N w \<Longrightarrow> preserved N (detection A u st) w"
  by (auto intro!: wp_mono [OF service_healthy] wp_mono [OF emit_service_healthy] split: option.splits)

lemma record_healthy:
  assumes h: "healthy V S p N w" and u: "plan_unit p (su_index u) = Ret (Some u)"
  shows "preserved N (record_unit S A u st l) w"
  unfolding record_unit_def wp_then
proof (rule wp_log [OF h])
  fix w' assume "healthy V S p (N \<union> {i. port_event p i (PortStateObserved (su_target u) (su_endpoint u) st None)}) w'"
  then have "healthy V S p (insert (su_index u) N) w'"
    using u by (elim healthy_less) (auto simp: port_event_def)
  then show "wp (detection A u st) (\<lambda>_. wp (eng_when l (set_summary (\<lambda>s. s\<lparr>rs_local_resource_failures := rs_local_resource_failures s + 1\<rparr>)))
      (\<lambda>_. wp (eng_mod (\<lambda>w. w\<lparr>w_batch := w_batch w @ [su_index u]\<rparr>))
        (\<lambda>_. preserved N (set_summary (\<lambda>s. s\<lparr>rs_units_completed := rs_units_completed s + 1\<rparr>))) (sound V S p)) (sound V S p))
      (sound V S p) w'"
    by (rule wp_mono [OF detection_healthy]) (auto intro: healthy_batch)
qed simp_all

lemma settled_healthy: "settled V S p N w \<Longrightarrow> healthy V S p N w"
  by (simp add: settled_def)

lemma flush_healthy:
  assumes h: "healthy V S p N w"
  shows "preserved N (flush_progress S A n) w"
proof -
  have rest: "preserved N (eng_then (run_sql A (mark_units_done (sd_encode S) (sd_scan_id S) (w_batch w)))
      (eng_bind (eng_get (\<lambda>w. (rs_units_completed (w_summary w), w_last_progress w, lg_packets_spent (w_ledger w))))
        (\<lambda>(units_completed, last_progress, packets_spent).
       eng_then (eng_when (sat_sub units_completed last_progress \<ge> max (sc_progress_every (sd_config S)) 1)
          (eng_then (log_event S A (Progress units_completed n packets_spent))
            (eng_mod (\<lambda>w. w\<lparr>w_last_progress := units_completed\<rparr>))))
      (eng_bind (eng_get log_last_sequence) (\<lambda>last_sequence.
       eng_bind (total_elapsed_seconds A) (\<lambda>elapsed.
       eng_bind (ask (an_timestamp A)) (\<lambda>now.
       eng_then (run_sql A (record_progress (sd_encode S) (sd_scan_id S) last_sequence packets_spent elapsed now))
         (eng_mod (\<lambda>w. w\<lparr>w_batch := []\<rparr>))))))))) w'"
    if "settled V S p N w'" "w_batch w' = w_batch w" for w'
    unfolding wp_then
  proof (rule wp_mark [OF that(1)])
    show "set (w_batch w) \<subseteq> set (w_batch w')" using that(2) by simp
  qed (auto intro!: wp_log_keep wp_sql healthy_unbatch)
  then show ?thesis
    unfolding flush_progress_def wp_bind
    using h by (auto simp: healthy_sound intro!: wp_sync)
qed

lemma emit_host_healthy:
  assumes h: "healthy V S p N w"
  shows "preserved N (emit_host_discovered S A ip r) w"
  using h unfolding emit_host_discovered_def
  by (auto simp: healthy_sound ne_new_def intro!: wp_put(1) wp_log_keep split: sum.splits)

lemma join_healthy:
  assumes h: "healthy V S p N w" and i: "i < length (w_flight w)"
  shows "preserved N (join_at S A i) w"
proof -
  have fl: "plan_flights p (w_flight w)" using h by (rule healthy_flights(2))
  then have "plan_flights p (remove_nth i (w_flight w))"
    by (auto simp: plan_flights_def remove_nth_def dest: in_set_takeD in_set_dropD)
  then have "healthy V S p N (w\<lparr>w_flight := remove_nth i (w_flight w)\<rparr>)" by (rule healthy_flights(1) [OF h])
  moreover have "plan_unit p (su_index (fl_unit (w_flight w ! i))) = Ret (Some (fl_unit (w_flight w ! i)))"
    using fl i by (simp add: plan_flights_def)
  ultimately show ?thesis
    using healthy_sound [OF h] by (simp add: join_at_def record_healthy)
qed

lemma finish_healthy:
  assumes "healthy V S p N w" "w_flight w = fs"
  shows "healthy V S p N (w\<lparr>w_flight := finish_some q fs\<rparr>)"
    "healthy V S p N (w\<lparr>w_flight := finish_first (finish_some q fs)\<rparr>)"
proof -
  have "plan_flights p gs = (\<forall>u \<in> set (map fl_unit gs). plan_unit p (su_index u) = Ret (Some u))" for gs
    by (auto simp: plan_flights_def)
  then have "plan_flights p (finish_some q fs)" "plan_flights p (finish_first (finish_some q fs))"
    using healthy_flights(2) [OF assms(1)] assms(2) by (simp_all only: finish_units)
  then show "healthy V S p N (w\<lparr>w_flight := finish_some q fs\<rparr>)"
    "healthy V S p N (w\<lparr>w_flight := finish_first (finish_some q fs)\<rparr>)"
    using healthy_flights(1) [OF assms(1)] by blast+
qed

lemma try_join_healthy: "healthy V S p N w \<Longrightarrow> preserved N (try_join_all S A n) w"
proof (induction n arbitrary: w)
  case (Suc n)
  have join: "preserved N (join_at S A (ready (w_flight w) ! (k mod length (ready (w_flight w))))) w"
    if "healthy V S p N w" "ready (w_flight w) \<noteq> []" for w k
    using that by (intro join_healthy ready_lt) auto
  define m where "m = try_join_all S A n"
  have go: "wp (join_at S A (ready fs ! (k mod length (ready fs)))) (\<lambda>_. preserved N m) (sound V S p) w"
    if "healthy V S p N w" "w_flight w = fs" "ready fs \<noteq> []" for w fs k
    using wp_mono [OF join [OF that(1), of k]] that(2,3) Suc.IH by (simp add: m_def)
  show ?case
    using Suc.prems by (auto simp: let_tasks_run_def finish_healthy m_def [symmetric] intro!: go)
qed (simp add: healthy_sound)

lemma join_all_healthy: "healthy V S p N w \<Longrightarrow> preserved N (join_all S A n) w"
proof (induction n arbitrary: w)
  case (Suc n)
  then show ?case
    by (auto simp: healthy_sound intro!: wp_mono [OF join_healthy])
qed (simp add: healthy_sound)

lemma discover_healthy: "healthy V S p N w \<Longrightarrow> preserved N (discover S A ip) w"
  by (auto simp: discover_def send_probes_def healthy_sound split: option.splits sum.splits prod.splits)

lemma discover_loop_healthy: "healthy V S p N w \<Longrightarrow> preserved N (discover_loop S A n ts) w"
proof (induction ts arbitrary: w)
  case (Cons t ts)
  then show ?case
    by (auto simp: cancel_run_def exhaust_time_def exhaust_budget_def deny_def fail_packetd_def
        intro!: wp_spend_frame wp_mono [OF discover_healthy] wp_mono [OF emit_host_healthy] split: sum.splits)
qed simp

lemma spawn_healthy:
  assumes "healthy V S p N w" "plan_unit p (su_index u) = Ret (Some u)" "w_flight w = fs"
  shows "healthy V S p N (w\<lparr>w_flight := fs @ [\<lparr>fl_unit = u, fl_state = st, fl_local = l, fl_finished = b\<rparr>]\<rparr>)"
  using healthy_flights [OF assms(1)] assms(2,3) by (auto simp: plan_flights_def)

lemma dispatch_healthy:
  assumes "healthy V S p N w" "plan_unit p (su_index u) = Ret (Some u)"
  shows "preserved N (dispatch S A u) w"
  unfolding dispatch_def
  using assms
  by (auto simp: send_probes_def fail_packetd_def intro!: wp_mono [OF record_healthy] spawn_healthy
      split: option.splits sum.splits prod.splits)

lemma await_healthy: "healthy V S p N w \<Longrightarrow> preserved N (await_permit S A) w"
  by (auto simp: await_permit_def let_tasks_run_def intro!: finish_healthy)

lemma drive_healthy: "healthy V S p N w \<Longrightarrow> plan_units p us \<Longrightarrow> preserved N (drive S A n d us) w"
proof (induction us arbitrary: w)
  case Nil
  then show ?case by (subst drive.simps) (auto simp: cancel_run_def exhaust_time_def)
next
  case (Cons u us)
  then have "plan_unit p (su_index u) = Ret (Some u)" "plan_units p us" by (simp_all add: plan_units_def)
  with Cons show ?case
    by (subst drive.simps)
      (auto simp: cancel_run_def exhaust_time_def exhaust_budget_def deny_def
        intro!: wp_mono [OF await_healthy] wp_spend_frame wp_mono [OF dispatch_healthy]
          wp_mono [OF try_join_healthy] wp_mono [OF flush_healthy])
qed

lemma units_healthy: "healthy V S p N w \<Longrightarrow> preserved N (run_units S A p i) w"
  unfolding run_units_def
  by (auto simp: healthy_sound intro!: wp_sql wp_mono [OF drive_healthy] wp_mono [OF join_all_healthy] flush_healthy
      dest: units_from_indices split: rust.splits)

lemma block_healthy: "healthy V S p N w \<Longrightarrow> preserved N (dispatch_block S A p i) w"
  unfolding dispatch_block_def choose_method_def
  by (auto intro!: wp_log_keep wp_mono [OF discover_loop_healthy] units_healthy split: option.splits sum.splits)

lemma conclude_healthy: "healthy V S p N w \<Longrightarrow> preserved N (conclude S A) w"
  unfolding conclude_def by (auto intro!: wp_log_keep split: option.splits)

lemma wp_release:
  assumes h: "healthy V S p N w" and q: "\<And>w'. sound V S p w' \<Longrightarrow> Q () w'" and e: "\<And>w'. sound V S p w' \<Longrightarrow> E w'"
  shows "wp (log_release A) Q E w"
proof -
  let ?t = "w_tick w"
  obtain r g f where run: "gc_release_writer_lock (an_sync A ?t) (an_unlock_fails A ?t) (an_instant A ?t) (w_gc w) (w_file w)
      = (r, g, f)"
    by (cases "gc_release_writer_lock (an_sync A ?t) (an_unlock_fails A ?t) (an_instant A ?t) (w_gc w) (w_file w)") auto
  define w' where "w' = w\<lparr>w_tick := Suc ?t, w_gc := g, w_file := f\<rparr>"
  have "sound V S p w'"
  proof (cases "small w'")
    case False
    then show ?thesis using h by (simp add: sound_def healthy_def w'_def)
  next
    case True
    have "file_text f = file_text (w_file w)"
      using run by (auto simp: gc_release_writer_lock_def release_writer_lock_def sync_now_def log_sync_def raw_sync_def
        file_text_def Let_def split: if_splits option.splits)
    then have "small w" using True by (simp add: small_def w'_def)
    then obtain es where es: "gc_live (sd_log_env S) (w_gc w) (w_file w) es"
      "certified (sd_log_env S) p (w_file w) es (finished S w)" "evidenced V (w_disk w) es"
      using h by (auto simp: healthy_def)
    note any = log_codec.release_any [OF codec es(1) run]
    have "certified (sd_log_env S) p f es (finished S w')"
      using certified_append [OF es(2), of f "[]"] any by (simp add: w'_def)
    then show ?thesis using any es h by (auto simp: sound_def healthy_def w'_def)
  qed
  then show ?thesis
    using q e by (auto simp: wp_def log_release_def Let_def run w'_def split: sum.splits)
qed

lemma wp_sql_sound:
  assumes h: "sound V S p w" and keep: "\<And>d. db_units (snd (m d)) = db_units d"
    and q: "\<And>x w'. sound V S p w' \<Longrightarrow> Q x w'" and e: "\<And>w'. sound V S p w' \<Longrightarrow> E w'"
  shows "wp (run_sql A m) Q E w"
proof -
  obtain r d where run: "m (w_db w) = (r, d)" by (cases "m (w_db w)")
  have "db_units d = db_units (w_db w)" using keep [of "w_db w"] run by simp
  then have "sound V S p (w\<lparr>w_tick := t, w_db := d\<rparr>)" for t
    using h by (simp add: sound_def small_def done_units_def)
  then show ?thesis
    using q e h run by (auto simp: wp_def run_sql_def Let_def split: sum.splits option.splits)
qed

lemma publish_sound: "healthy V S p N w \<Longrightarrow> wp (publish_terminal_status S A st) (\<lambda>_. sound V S p) (sound V S p) w"
  unfolding publish_terminal_status_def by (auto intro!: wp_release wp_sql_sound)

lemma sync_healthy: "healthy V S p N w \<Longrightarrow> preserved N (log_force_sync A) w"
  by (rule wp_sync) (auto simp: settled_def)

lemma load_healthy: "healthy V S p N w \<Longrightarrow> preserved N (load_record S A) w"
  unfolding load_record_def wp_bind
  by (rule wp_sql) (auto simp: healthy_sound split: sum.splits rust.splits)

lemma start_healthy:
  assumes "healthy V S p N w"
  shows "preserved N (already_terminated S) w" "preserved N (check_scope S A rec) w"
  using assms by (auto simp: already_terminated_def check_scope_def deny_def healthy_sound split: sum.splits)

lemma close_sound: "healthy V S p N w \<Longrightarrow> wp (close_run S A spent st) (\<lambda>_. sound V S p) (sound V S p) w"
  unfolding close_run_def by (auto intro!: wp_mono [OF sync_healthy] wp_sql wp_mono [OF publish_sound])

lemma open_sound: "healthy V S p N w \<Longrightarrow> wp (run_open S A p i rec) (\<lambda>_. sound V S p) (sound V S p) w"
  unfolding run_open_def
  by (auto intro!: wp_mono [OF start_healthy(2)] wp_mono [OF block_healthy] wp_mono [OF conclude_healthy] close_sound)

lemma run_body_sound: "healthy V S p N w \<Longrightarrow> wp (run_body S A p i) (\<lambda>_. sound V S p) (sound V S p) w"
  unfolding run_body_def
  by (auto simp: healthy_sound intro!: wp_mono [OF load_healthy] wp_mono [OF start_healthy(1)] open_sound
      split: option.splits)

end

end
