(* ===== verification/Exactly_Once.thy ===== *)
theory Exactly_Once
  imports Recovery
begin

text \<open>
  Which units a run probes and which it finishes: each unit at most once, none that was finished
  before, and all of them when nothing stopped the run.
\<close>

section \<open>Accounting for units\<close>

text \<open>The units that are finished, waiting to be stored, or in flight.\<close>

definition covered :: "'n scheduler \<Rightarrow> world \<Rightarrow> u64 set" where
  "covered S w = finished S w \<union> set (w_batch w) \<union> (\<lambda>f. su_index (fl_unit f)) ` set (w_flight w)"

text \<open>What a run has decided: the units it started, and why it stopped.\<close>

definition history :: "world \<Rightarrow> u64 list \<times> bool \<times> bool \<times> bool \<times> bool \<times> packetd_error option" where
  "history w = (w_dispatched w, rs_cancelled (w_summary w), rs_time_exhausted (w_summary w),
     rs_budget_exhausted (w_summary w), w_denial w \<noteq> None, w_failure w)"

definition stopped :: "world \<Rightarrow> bool" where
  "stopped w \<longleftrightarrow> rs_cancelled (w_summary w) \<or> rs_time_exhausted (w_summary w) \<or> rs_budget_exhausted (w_summary w) \<or>
     w_denial w \<noteq> None \<or> w_failure w \<noteq> None"

text \<open>
  \<open>once\<close> holds wherever a run may end, over the units \<open>D\<close> finished before it and the units \<open>R\<close> it was
  given; \<open>track\<close> while it goes on.
\<close>

definition once :: "'n scheduler \<Rightarrow> u64 set \<Rightarrow> u64 set \<Rightarrow> world \<Rightarrow> bool" where
  "once S D R w \<longleftrightarrow> finished S w \<subseteq> D \<union> set (w_dispatched w) \<and> D \<subseteq> finished S w \<and>
     distinct (w_dispatched w) \<and> set (w_dispatched w) \<inter> D = {} \<and> set (w_dispatched w) \<subseteq> R"

definition track :: "'n scheduler \<Rightarrow> u64 set \<Rightarrow> u64 set \<Rightarrow> world \<Rightarrow> bool" where
  "track S D R w \<longleftrightarrow> once S D R w \<and> covered S w \<subseteq> D \<union> set (w_dispatched w) \<and>
     (w_failure w = None \<longrightarrow> set (w_dispatched w) \<subseteq> covered S w)"

section \<open>What each operation does to the account\<close>

text \<open>Everything a unit's recording leaves alone.\<close>

definition still :: "world \<Rightarrow> world \<Rightarrow> bool" where
  "still w w' \<longleftrightarrow> w_db w' = w_db w \<and> w_batch w' = w_batch w \<and> w_flight w' = w_flight w \<and> history w' = history w"

lemma still_refl [simp]: "still w w"
  by (simp add: still_def)

lemma still_trans: "still u v \<Longrightarrow> still v w \<Longrightarrow> still u w"
  by (simp add: still_def)

lemma still_update [simp]:
  "still v (w\<lparr>w_tick := t\<rparr>) = still v w"
  "still v (w\<lparr>w_ledger := l\<rparr>) = still v w"
  "still v (w\<lparr>w_gc := g\<rparr>) = still v w"
  "still v (w\<lparr>w_file := f\<rparr>) = still v w"
  "still v (w\<lparr>w_disk := fs\<rparr>) = still v w"
  "still v (w\<lparr>w_put_seq := q\<rparr>) = still v w"
  "still v (w\<lparr>w_client := c\<rparr>) = still v w"
  "still v (w\<lparr>w_last_progress := k\<rparr>) = still v w"
  "still v (w\<lparr>w_probed := ss\<rparr>) = still v w"
  by (simp_all add: still_def history_def)

lemma still_summary [simp]:
  "rs_cancelled s = rs_cancelled (w_summary w) \<Longrightarrow> rs_time_exhausted s = rs_time_exhausted (w_summary w) \<Longrightarrow>
   rs_budget_exhausted s = rs_budget_exhausted (w_summary w) \<Longrightarrow> still v (w\<lparr>w_summary := s\<rparr>) = still v w"
  by (simp add: still_def history_def)

lemma detect_still: "still v w \<Longrightarrow> wp (detect_loop S A u ps) (\<lambda>_. still v) (still v) w"
proof (induction ps arbitrary: w)
  case (Cons q qs)
  then show ?case
    by (auto simp: send_probes_def intro!: wp_spend_frame split: option.splits list.splits)
qed simp

lemma service_still: "still v w \<Longrightarrow> wp (detect_service S A u) (\<lambda>_. still v) (still v) w"
  by (simp add: detect_service_def detect_still)

lemma emit_service_still: "still v w \<Longrightarrow> wp (emit_service_observed S A u x) (\<lambda>_. still v) (still v) w"
  unfolding emit_service_observed_def
  by (auto intro!: frame_rules split: option.splits evidence_level.splits)

lemma emit_host_still: "still v w \<Longrightarrow> wp (emit_host_discovered S A ip r) (\<lambda>_. still v) (still v) w"
  unfolding emit_host_discovered_def by (auto intro!: frame_rules split: sum.splits)

lemma discover_still: "still v w \<Longrightarrow> wp (discover S A ip) (\<lambda>_. still v) (still v) w"
  by (auto simp: discover_def send_probes_def split: option.splits sum.splits prod.splits)

text \<open>Recording puts the unit in the batch and does nothing else.\<close>

lemma still_batch:
  "still v w \<Longrightarrow> w_batch w = bs \<Longrightarrow> still (v\<lparr>w_batch := w_batch v @ [i]\<rparr>) (w\<lparr>w_batch := bs @ [i]\<rparr>)"
  by (simp add: still_def history_def)

lemma record_account:
  "wp (record_unit S A u st l) (\<lambda>_ w'. still (w\<lparr>w_batch := w_batch w @ [su_index u]\<rparr>) w') (still w) w"
  unfolding record_unit_def wp_then
proof (rule wp_log_event_frame, rule wp_mono [of "eng_when (st = Open) _" "\<lambda>_. still w" "still w"])
qed (auto intro!: wp_mono [OF service_still] emit_service_still still_batch split: option.splits)

text \<open>The account after an operation that starts no unit: kept when it goes on, held when it fails.\<close>

definition kept :: "'n scheduler \<Rightarrow> world \<Rightarrow> world \<Rightarrow> bool" where
  "kept S v w \<longleftrightarrow> covered S w = covered S v \<and> finished S v \<subseteq> finished S w \<and> history w = history v"

definition held :: "'n scheduler \<Rightarrow> world \<Rightarrow> world \<Rightarrow> bool" where
  "held S v w \<longleftrightarrow> finished S v \<subseteq> finished S w \<and> finished S w \<subseteq> covered S v \<and> history w = history v"

lemma kept_held: "kept S v w \<Longrightarrow> held S v w"
  by (auto simp: kept_def held_def covered_def)

lemma kept_trans: "kept S u v \<Longrightarrow> kept S v w \<Longrightarrow> kept S u w"
  by (auto simp: kept_def)

lemma kept_held_trans: "kept S u v \<Longrightarrow> held S v w \<Longrightarrow> held S u w"
  by (auto simp: kept_def held_def)

lemma kept_refl [simp]: "kept S v v"
  by (simp add: kept_def)

lemma still_kept: "still v w \<Longrightarrow> kept S v w"
  by (simp add: kept_def still_def covered_def)

lemma history_eq: "history w = history v \<Longrightarrow> w_dispatched w = w_dispatched v \<and> w_failure w = w_failure v"
  by (simp add: history_def)

lemma finished_covered: "finished S w \<subseteq> covered S w"
  by (auto simp: covered_def)

lemma track_kept:
  assumes "track S D R v" "kept S v w"
  shows "track S D R w"
  using assms history_eq [of w v] finished_covered [of S w] unfolding track_def once_def kept_def
  by (elim conjE) (simp, blast)

lemma track_held:
  assumes "track S D R v" "held S v w"
  shows "once S D R w"
  using assms history_eq [of w v] unfolding track_def once_def held_def
  by (elim conjE) (simp, blast)

lemma set_remove_nth: "i < length xs \<Longrightarrow> insert (xs ! i) (set (remove_nth i xs)) = set xs"
  by (metis id_take_nth_drop remove_nth_def set_append list.set(2) Un_insert_right)

lemma length_remove_nth: "i < length xs \<Longrightarrow> length (remove_nth i xs) = length xs - 1"
  by (auto simp: remove_nth_def)

lemma join_kept:
  assumes i: "i < length (w_flight w)"
  shows "wp (join_at S A i) (\<lambda>_ w'. kept S w w' \<and> length (w_flight w') = length (w_flight w) - 1) (held S w) w"
proof -
  define f where "f = w_flight w ! i"
  define w1 where "w1 = w\<lparr>w_flight := remove_nth i (w_flight w), w_tick := Suc (w_tick w)\<rparr>"
  have set1: "set (w_flight w) = insert f (set (w_flight w1))"
    using set_remove_nth [OF i] by (simp add: f_def w1_def)
  have same: "w_db w1 = w_db w" "w_batch w1 = w_batch w" "history w1 = history w"
    by (simp_all add: w1_def history_def)
  have rec: "kept S w w' \<and> length (w_flight w') = length (w_flight w) - 1"
    if "still (w1\<lparr>w_batch := w_batch w1 @ [su_index (fl_unit f)]\<rparr>) w'" for w'
    using that length_remove_nth [OF i] unfolding kept_def covered_def still_def set1 same
    by (auto simp: history_def w1_def)
  have out: "held S w w'" if "still w1 w'" for w'
    using that unfolding held_def covered_def still_def same by (auto simp: same)
  have "wp (record_unit S A (fl_unit f) (fl_state f) (fl_local f))
      (\<lambda>_ w'. kept S w w' \<and> length (w_flight w') = length (w_flight w) - 1) (held S w) w1"
    by (rule wp_mono [OF record_account], erule rec, erule out)
  moreover have "held S w w1" by (rule out) simp
  ultimately show ?thesis by (simp add: join_at_def f_def w1_def)
qed

lemma finish_indices [simp]:
  "(\<lambda>f. su_index (fl_unit f)) ` set (finish_some q fs) = (\<lambda>f. su_index (fl_unit f)) ` set fs"
  "(\<lambda>f. su_index (fl_unit f)) ` set (finish_first fs) = (\<lambda>f. su_index (fl_unit f)) ` set fs"
proof -
  have eq: "(\<lambda>f. su_index (fl_unit f)) ` set gs = su_index ` set (map fl_unit gs)" for gs by auto
  show "(\<lambda>f. su_index (fl_unit f)) ` set (finish_some q fs) = (\<lambda>f. su_index (fl_unit f)) ` set fs"
    "(\<lambda>f. su_index (fl_unit f)) ` set (finish_first fs) = (\<lambda>f. su_index (fl_unit f)) ` set fs"
    unfolding eq finish_units by (rule refl)+
qed

lemma tasks_run_kept:
  "w_flight w = fs \<Longrightarrow> kept S v (w\<lparr>w_flight := finish_some q fs\<rparr>) = kept S v w"
  "w_flight w = fs \<Longrightarrow> kept S v (w\<lparr>w_flight := finish_first (finish_some q fs)\<rparr>) = kept S v w"
  by (simp_all add: kept_def covered_def history_def)

lemma kept_update [simp]:
  "kept S v (w\<lparr>w_tick := t\<rparr>) = kept S v w"
  "kept S v (w\<lparr>w_ledger := l\<rparr>) = kept S v w"
  "kept S v (w\<lparr>w_gc := g\<rparr>) = kept S v w"
  "kept S v (w\<lparr>w_file := f\<rparr>) = kept S v w"
  "kept S v (w\<lparr>w_disk := fs\<rparr>) = kept S v w"
  "kept S v (w\<lparr>w_put_seq := q\<rparr>) = kept S v w"
  "kept S v (w\<lparr>w_client := c\<rparr>) = kept S v w"
  "kept S v (w\<lparr>w_last_progress := k\<rparr>) = kept S v w"
  "kept S v (w\<lparr>w_probed := ss\<rparr>) = kept S v w"
  by (simp_all add: kept_def covered_def history_def)

lemma try_join_kept: "kept S v w \<Longrightarrow> wp (try_join_all S A n) (\<lambda>_. kept S v) (held S v) w"
proof (induction n arbitrary: w)
  case (Suc n)
  define m where "m = try_join_all S A n"
  have go: "wp (join_at S A (ready fs ! (k mod length (ready fs)))) (\<lambda>_. wp m (\<lambda>_. kept S v) (held S v)) (held S v) w"
    if "kept S v w" "w_flight w = fs" "ready fs \<noteq> []" for w fs k
  proof (rule wp_mono [OF join_kept])
    have "ready fs ! (k mod length (ready fs)) \<in> set (ready fs)" using that(3) by simp
    then show "ready fs ! (k mod length (ready fs)) < length (w_flight w)" using ready_lt that(2) by blast
  next
    fix x w' assume "kept S w w' \<and> length (w_flight w') = length (w_flight w) - 1"
    then have "kept S v w'" using kept_trans [OF that(1)] by blast
    then show "wp m (\<lambda>_. kept S v) (held S v) w'" unfolding m_def by (rule Suc.IH)
  next
    fix w' assume "held S w w'"
    then show "held S v w'" by (rule kept_held_trans [OF that(1)])
  qed
  show ?case
    using Suc.prems by (auto simp: let_tasks_run_def tasks_run_kept m_def [symmetric] intro!: go)
qed simp

lemma join_all_kept:
  "kept S v w \<Longrightarrow> length (w_flight w) \<le> n \<Longrightarrow>
     wp (join_all S A n) (\<lambda>_ w'. kept S v w' \<and> w_flight w' = []) (held S v) w"
proof (induction n arbitrary: w)
  case (Suc n)
  define m where "m = join_all S A n"
  have go: "wp (join_at S A (k mod length fs)) (\<lambda>_. wp m (\<lambda>_ w'. kept S v w' \<and> w_flight w' = []) (held S v)) (held S v) w"
    if "kept S v w" "w_flight w = fs" "fs \<noteq> []" "length fs \<le> Suc n" for w fs k
  proof (rule wp_mono [OF join_kept])
    fix x w' assume w': "kept S w w' \<and> length (w_flight w') = length (w_flight w) - 1"
    then have "kept S v w'" using kept_trans [OF that(1)] by blast
    then show "wp m (\<lambda>_ w'. kept S v w' \<and> w_flight w' = []) (held S v) w'"
      unfolding m_def by (rule Suc.IH) (use w' that in simp)
  next
    fix w' assume "held S w w'"
    then show "held S v w'" by (rule kept_held_trans [OF that(1)])
  qed (use that in simp)
  show ?case
    using Suc.prems by (auto simp: m_def [symmetric] intro!: go)
qed simp

lemma await_kept: "kept S v w \<Longrightarrow> wp (await_permit S A) (\<lambda>_. kept S v) (held S v) w"
  by (auto simp: await_permit_def let_tasks_run_def tasks_run_kept)

lemma kept_db:
  assumes "kept S v w" "done_units (sd_encode S) (sd_scan_id S) d = finished S w \<union> X" "X \<subseteq> set (w_batch w)"
  shows "kept S v (w\<lparr>w_db := d\<rparr>)"
  using assms unfolding kept_def covered_def history_def by simp blast

lemma wp_mark_account:
  assumes "\<And>d t. done_units (sd_encode S) (sd_scan_id S) d = finished S w \<union> set us \<Longrightarrow> Q () (w\<lparr>w_tick := t, w_db := d\<rparr>)"
    and "\<And>d t. done_units (sd_encode S) (sd_scan_id S) d = finished S w \<Longrightarrow> E (w\<lparr>w_tick := t, w_db := d\<rparr>)"
    and "\<And>t. E (w\<lparr>w_tick := t\<rparr>)"
  shows "wp (run_sql A (mark_units_done (sd_encode S) (sd_scan_id S) us)) Q E w"
proof -
  obtain r d where run: "mark_units_done (sd_encode S) (sd_scan_id S) us (w_db w) = (r, d)"
    by (cases "mark_units_done (sd_encode S) (sd_scan_id S) us (w_db w)")
  show ?thesis
    using mark_units [OF run] assms
    by (auto simp: wp_def run_sql_def Let_def run split: sum.splits option.splits)
qed

lemma wp_sql_account:
  assumes "\<And>d. db_units (snd (m d)) = db_units d"
    and "\<And>x d t. done_units (sd_encode S) (sd_scan_id S) d = finished S w \<Longrightarrow> Q x (w\<lparr>w_tick := t, w_db := d\<rparr>)"
    and "\<And>d t. done_units (sd_encode S) (sd_scan_id S) d = finished S w \<Longrightarrow> E (w\<lparr>w_tick := t, w_db := d\<rparr>)"
    and "\<And>t. E (w\<lparr>w_tick := t\<rparr>)"
  shows "wp (run_sql A m) Q E w"
proof -
  obtain r d where run: "m (w_db w) = (r, d)" by (cases "m (w_db w)")
  then have "done_units (sd_encode S) (sd_scan_id S) d = finished S w"
    using assms(1) [of "w_db w"] by (simp add: done_units_def)
  then show ?thesis
    using assms(2-4) by (auto simp: wp_def run_sql_def Let_def run split: sum.splits option.splits)
qed

text \<open>In a flush, once the store knows the batch.\<close>

definition flushing :: "'n scheduler \<Rightarrow> world \<Rightarrow> flight list \<Rightarrow> world \<Rightarrow> bool" where
  "flushing S v fs w \<longleftrightarrow> kept S v w \<and> set (w_batch w) \<subseteq> finished S w \<and> w_flight w = fs"

lemma flushing_update [simp]:
  "flushing S v fs (w\<lparr>w_tick := t\<rparr>) = flushing S v fs w"
  "flushing S v fs (w\<lparr>w_gc := g\<rparr>) = flushing S v fs w"
  "flushing S v fs (w\<lparr>w_file := f\<rparr>) = flushing S v fs w"
  "flushing S v fs (w\<lparr>w_last_progress := k\<rparr>) = flushing S v fs w"
  by (simp_all add: flushing_def)

lemma flushing_held: "flushing S v fs w \<Longrightarrow> held S v w"
  by (simp add: flushing_def kept_held)

lemma flushing_db:
  assumes "flushing S v fs w" "done_units (sd_encode S) (sd_scan_id S) d = finished S w"
  shows "flushing S v fs (w\<lparr>w_tick := t, w_db := d\<rparr>)"
proof -
  have "flushing S v fs (w\<lparr>w_db := d\<rparr>)" using assms kept_db [of S v w d "{}"] by (simp add: flushing_def)
  moreover have "w\<lparr>w_tick := t, w_db := d\<rparr> = w\<lparr>w_db := d\<rparr>\<lparr>w_tick := t\<rparr>" by simp
  ultimately show ?thesis by (simp only: flushing_update)
qed

definition flushed_out :: "'n scheduler \<Rightarrow> world \<Rightarrow> flight list \<Rightarrow> world \<Rightarrow> bool" where
  "flushed_out S v fs w \<longleftrightarrow> kept S v w \<and> w_batch w = [] \<and> w_flight w = fs"

lemma flushing_clear:
  "flushing S v fs w \<Longrightarrow> flushed_out S v fs (w\<lparr>w_batch := []\<rparr>)"
  unfolding flushing_def flushed_out_def kept_def covered_def history_def by auto

lemma flush_record:
  assumes "flushing S v fs w"
  shows "wp (run_sql A (record_progress (sd_encode S) (sd_scan_id S) n p e now))
    (\<lambda>_. wp (eng_mod (\<lambda>w. w\<lparr>w_batch := []\<rparr>)) (\<lambda>_. flushed_out S v fs) E) (held S v) w"
proof (rule wp_sql_account [where S = S])
  fix d t assume "done_units (sd_encode S) (sd_scan_id S) d = finished S w"
  then have "flushing S v fs (w\<lparr>w_tick := t, w_db := d\<rparr>)" by (rule flushing_db [OF assms])
  then have "flushed_out S v fs (w\<lparr>w_tick := t, w_db := d\<rparr>\<lparr>w_batch := []\<rparr>)" "held S v (w\<lparr>w_tick := t, w_db := d\<rparr>)"
    by (rule flushing_clear, rule flushing_held)
  then show "wp (eng_mod (\<lambda>w. w\<lparr>w_batch := []\<rparr>)) (\<lambda>_. flushed_out S v fs) E (w\<lparr>w_tick := t, w_db := d\<rparr>)"
    "held S v (w\<lparr>w_tick := t, w_db := d\<rparr>)" by simp_all
next
  show "held S v (w\<lparr>w_tick := t\<rparr>)" for t using assms by (auto intro: flushing_held [of S v fs])
qed simp

lemma flush_kept:
  assumes k: "kept S v w"
  shows "wp (flush_progress S A n) (\<lambda>_. flushed_out S v (w_flight w)) (held S v) w"
proof -
  have rest: "wp (eng_bind (eng_get (\<lambda>w. (rs_units_completed (w_summary w), w_last_progress w, lg_packets_spent (w_ledger w))))
        (\<lambda>(units_completed, last_progress, packets_spent).
       eng_then (eng_when (sat_sub units_completed last_progress \<ge> max (sc_progress_every (sd_config S)) 1)
          (eng_then (log_event S A (Progress units_completed n packets_spent))
            (eng_mod (\<lambda>w. w\<lparr>w_last_progress := units_completed\<rparr>))))
      (eng_bind (eng_get log_last_sequence) (\<lambda>last_sequence.
       eng_bind (total_elapsed_seconds A) (\<lambda>elapsed.
       eng_bind (ask (an_timestamp A)) (\<lambda>now.
       eng_then (run_sql A (record_progress (sd_encode S) (sd_scan_id S) last_sequence packets_spent elapsed now))
         (eng_mod (\<lambda>w. w\<lparr>w_batch := []\<rparr>))))))))
      (\<lambda>_. flushed_out S v (w_flight w)) (held S v) w'"
    if "flushing S v (w_flight w) w'" for w'
    using that
    by (auto intro!: wp_log_event_frame flush_record flushing_held [of S v "w_flight w"])
  have mark: "wp (run_sql A (mark_units_done (sd_encode S) (sd_scan_id S) (w_batch w)))
      (\<lambda>_. flushing S v (w_flight w)) (held S v) w'"
    if w': "kept S v w'" "w_batch w' = w_batch w" "w_flight w' = w_flight w" for w'
  proof (rule wp_mark_account)
    fix d t assume d: "done_units (sd_encode S) (sd_scan_id S) d = finished S w' \<union> set (w_batch w)"
    then have "kept S v (w'\<lparr>w_db := d\<rparr>)" using w'(2) by (intro kept_db [OF w'(1)]) auto
    then show "flushing S v (w_flight w) (w'\<lparr>w_tick := t, w_db := d\<rparr>)" using d w'(2,3) 
      by (simp add: flushing_def kept_def covered_def history_def)
  next
    fix d t assume d: "done_units (sd_encode S) (sd_scan_id S) d = finished S w'"
    then have "kept S v (w'\<lparr>w_db := d\<rparr>)" by (intro kept_db [OF w'(1), where X = "{}"]) auto
    then have "kept S v (w'\<lparr>w_tick := t, w_db := d\<rparr>)" by (simp add: kept_def covered_def history_def)
    then show "held S v (w'\<lparr>w_tick := t, w_db := d\<rparr>)" by (rule kept_held)
  next
    fix t show "held S v (w'\<lparr>w_tick := t\<rparr>)" using w'(1) by (simp add: kept_held)
  qed
  show ?thesis
  proof (cases "w_batch w = []")
    case True
    then show ?thesis using k by (simp add: flush_progress_def flushed_out_def)
  next
    case False
    have sync: "wp (log_force_sync A) (\<lambda>_ w'. kept S v w' \<and> w_batch w' = w_batch w \<and> w_flight w' = w_flight w) (held S v) w"
      using k by (intro wp_force_sync_frame) (simp_all add: kept_held)
    show ?thesis
      unfolding flush_progress_def wp_bind [of "eng_get w_batch"] wp_simps(3) if_not_P [OF False] wp_then
    proof (rule wp_mono [OF sync], elim conjE, rule wp_mono [OF mark])
    qed (assumption | erule rest)+
  qed
qed

section \<open>The loops\<close>

lemma once_start:
  assumes "track S D R w" "i \<in> R" "i \<notin> D" "i \<notin> set (w_dispatched w)"
    and "w_dispatched w' = w_dispatched w @ [i]" "finished S w' = finished S w"
  shows "once S D R w'"
  using assms unfolding track_def once_def by auto

lemma track_start:
  assumes "track S D R w" "i \<in> R" "i \<notin> D" "i \<notin> set (w_dispatched w)"
    and "w_dispatched w' = w_dispatched w @ [i]" "finished S w' = finished S w"
    and "covered S w' = insert i (covered S w) \<and> w_failure w' = w_failure w \<or>
         covered S w' = covered S w \<and> w_failure w' \<noteq> None"
  shows "track S D R w'"
  using once_start [OF assms(1-6)] assms unfolding track_def by auto

lemma dispatch_track:
  assumes t: "track S D R w" and i: "su_index u \<in> R" "su_index u \<notin> D" "su_index u \<notin> set (w_dispatched w)"
  shows "wp (dispatch S A u)
    (\<lambda>b w'. track S D R w' \<and> w_dispatched w' = w_dispatched w @ [su_index u] \<and> (\<not> b \<longrightarrow> stopped w')) (once S D R) w"
proof -
  note start = track_start [OF t i] and ends = once_start [OF t i]
  have recorded: "track S D R w' \<and> w_dispatched w' = w_dispatched w @ [su_index u]"
    if "still (w1\<lparr>w_batch := w_batch w1 @ [su_index u]\<rparr>) w'" "w_dispatched w1 = w_dispatched w @ [su_index u]"
      "w_db w1 = w_db w" "w_batch w1 = w_batch w" "w_flight w1 = w_flight w" "w_failure w1 = w_failure w" for w1 w'
  proof -
    have "w_dispatched w' = w_dispatched w @ [su_index u]" "w_failure w' = w_failure w" "w_db w' = w_db w"
      "covered S w' = insert (su_index u) (covered S w)"
      using that by (auto simp: still_def history_def covered_def)
    then show ?thesis using start [of w'] by simp
  qed
  have recording: "once S D R w'"
    if "still w1 w'" "w_dispatched w1 = w_dispatched w @ [su_index u]" "w_db w1 = w_db w" for w1 w'
    using that by (intro ends) (auto simp: still_def history_def)
  have spawned: "track S D R w'"
    if "w_dispatched w' = w_dispatched w @ [su_index u]" "w_db w' = w_db w" "w_batch w' = w_batch w" "w_failure w' = w_failure w"
      "w_flight w' = w_flight w @ [f]" "fl_unit f = u" for w' f
    using that by (intro start) (auto simp: covered_def)
  have failed: "track S D R w'"
    if "w_dispatched w' = w_dispatched w @ [su_index u]" "w_db w' = w_db w" "w_batch w' = w_batch w" "w_failure w' \<noteq> None"
      "w_flight w' = w_flight w" for w'
    using that by (intro start) (auto simp: covered_def)
  show ?thesis
    unfolding dispatch_def
    by (auto simp: send_probes_def fail_packetd_def stopped_def intro: failed spawned
        intro!: wp_mono [OF record_account] dest: recorded recording split: option.splits sum.splits prod.splits)
qed

text \<open>Flags alone do not touch the account.\<close>

lemma track_update [simp]:
  "track S D R (w\<lparr>w_tick := t\<rparr>) = track S D R w"
  "track S D R (w\<lparr>w_ledger := l\<rparr>) = track S D R w"
  "track S D R (w\<lparr>w_summary := s\<rparr>) = track S D R w"
  "track S D R (w\<lparr>w_denial := dn\<rparr>) = track S D R w"
  by (simp_all add: track_def once_def covered_def)

lemma stopped_flags [simp]:
  "stopped (w\<lparr>w_summary := s\<lparr>rs_cancelled := True\<rparr>\<rparr>)"
  "stopped (w\<lparr>w_summary := s\<lparr>rs_time_exhausted := True\<rparr>\<rparr>)"
  "stopped (w\<lparr>w_summary := s\<lparr>rs_budget_exhausted := True\<rparr>\<rparr>)"
  "stopped (w\<lparr>w_denial := Some x\<rparr>)"
  "stopped (w\<lparr>w_failure := Some e\<rparr>)"
  by (simp_all add: stopped_def)

text \<open>The account with exactly the units \<open>ks\<close> started.\<close>

definition track_at :: "'n scheduler \<Rightarrow> u64 set \<Rightarrow> u64 set \<Rightarrow> u64 list \<Rightarrow> world \<Rightarrow> bool" where
  "track_at S D R ks w \<longleftrightarrow> track S D R w \<and> w_dispatched w = ks"

lemma track_at_update [simp]:
  "track_at S D R ks (w\<lparr>w_tick := t\<rparr>) = track_at S D R ks w"
  "track_at S D R ks (w\<lparr>w_ledger := l\<rparr>) = track_at S D R ks w"
  "track_at S D R ks (w\<lparr>w_summary := s\<rparr>) = track_at S D R ks w"
  "track_at S D R ks (w\<lparr>w_denial := dn\<rparr>) = track_at S D R ks w"
  by (simp_all add: track_at_def)

lemma kept_at: "track_at S D R ks w \<Longrightarrow> kept S w w' \<Longrightarrow> track_at S D R ks w'"
  using track_kept [of S D R w w'] history_eq [of w' w] by (simp add: track_at_def kept_def)

lemma held_at: "track_at S D R ks w \<Longrightarrow> held S w w' \<Longrightarrow> once S D R w'"
  using track_held [of S D R w w'] by (simp add: track_at_def)

lemma quiet_at:
  assumes "track_at S D R ks w"
  shows "wp (await_permit S A) (\<lambda>_. track_at S D R ks) (once S D R) w"
    "wp (try_join_all S A n) (\<lambda>_. track_at S D R ks) (once S D R) w"
    "wp (flush_progress S A k) (\<lambda>_. track_at S D R ks) (once S D R) w"
proof -
  note to = kept_at [OF assms] held_at [OF assms]
  show "wp (await_permit S A) (\<lambda>_. track_at S D R ks) (once S D R) w"
    by (rule wp_mono [OF await_kept [OF kept_refl]]) (erule to)+
  show "wp (try_join_all S A n) (\<lambda>_. track_at S D R ks) (once S D R) w"
    by (rule wp_mono [OF try_join_kept [OF kept_refl]]) (erule to)+
  show "wp (flush_progress S A k) (\<lambda>_. track_at S D R ks) (once S D R) w"
    by (rule wp_mono [OF flush_kept [OF kept_refl]]) (auto simp: flushed_out_def intro: to)
qed

lemma dispatch_at:
  assumes "track_at S D R ks w" "su_index u \<in> R" "su_index u \<notin> D" "su_index u \<notin> set ks"
  shows "wp (dispatch S A u) (\<lambda>b w'. track_at S D R (ks @ [su_index u]) w' \<and> (\<not> b \<longrightarrow> stopped w')) (once S D R) w"
  using assms by (auto simp: track_at_def intro!: wp_mono [OF dispatch_track])

text \<open>What the loop over the units establishes.\<close>

definition driven :: "'n scheduler \<Rightarrow> u64 set \<Rightarrow> u64 set \<Rightarrow> u64 set \<Rightarrow> u64 list \<Rightarrow> world \<Rightarrow> bool" where
  "driven S D R J ks w \<longleftrightarrow> track S D R w \<and> set ks \<subseteq> set (w_dispatched w) \<and> (stopped w \<or> J \<subseteq> D \<union> set (w_dispatched w))"

lemma driven_stopped: "track_at S D R ks w \<Longrightarrow> stopped w \<Longrightarrow> driven S D R J ks w"
  by (simp add: driven_def track_at_def)

lemma drive_track:
  "track_at S (set ds) R ks w \<Longrightarrow> distinct (map su_index us) \<Longrightarrow> su_index ` set us \<subseteq> R \<Longrightarrow>
    su_index ` set us \<inter> set ks = {} \<Longrightarrow>
    wp (drive S A n ds us) (\<lambda>_. driven S (set ds) R (su_index ` set us) ks) (once S (set ds) R) w"
proof (induction us arbitrary: w ks)
  case Nil
  then show ?case
    by (subst drive.simps) (auto simp: driven_def track_at_def cancel_run_def exhaust_time_def)
next
  case (Cons u us)
  define m where "m = drive S A n ds us"
  define J where "J = su_index ` set us"
  let ?i = "su_index u"
  have post: "driven S (set ds) R (insert ?i (su_index ` set us)) ks w'" if "driven S (set ds) R J ls w'" "set ks \<subseteq> set ls" "?i \<in> set ds \<union> set ls" for ls w'
    using that by (auto simp: driven_def J_def)
  have skip: "wp m (\<lambda>_. driven S (set ds) R (insert ?i (su_index ` set us)) ks) (once S (set ds) R) w'" if "track_at S (set ds) R ks w'" "?i \<in> set ds" for w'
    using that Cons.prems unfolding m_def by (intro wp_mono [OF Cons.IH [of ks]] post [unfolded J_def]) auto
  have next_unit: "wp m (\<lambda>_. driven S (set ds) R (insert ?i (su_index ` set us)) ks) (once S (set ds) R) w'" if "track_at S (set ds) R (ks @ [?i]) w'" for w'
    using that Cons.prems unfolding m_def by (intro wp_mono [OF Cons.IH [of "ks @ [?i]"]] post [unfolded J_def]) auto
  have stop: "driven S (set ds) R (insert ?i (su_index ` set us)) ks w'" if "track_at S (set ds) R ks w'" "stopped w'" for w'
    using that by (rule driven_stopped)
  have stop': "driven S (set ds) R (insert ?i (su_index ` set us)) ks w'" if "track_at S (set ds) R (ks @ [?i]) w'" "stopped w'" for w'
    using driven_stopped [OF that] by (simp add: driven_def)
  have i: "?i \<in> R" "?i \<notin> set ks" using Cons.prems by auto
  have start: "wp (dispatch S A u) (\<lambda>b w'. if b then track_at S (set ds) R (ks @ [?i]) w'
      else driven S (set ds) R (insert ?i (su_index ` set us)) ks w') (once S (set ds) R) w'"
    if "track_at S (set ds) R ks w'" "?i \<notin> set ds" for w'
    by (rule wp_mono [OF dispatch_at [OF that(1) i(1) that(2) i(2)]]) (auto intro: stop')
  show ?case
  proof (cases "?i \<in> set ds")
    case True
    then show ?thesis
      using Cons.prems(1)
      by (subst drive.simps)
        (auto simp: m_def [symmetric] cancel_run_def exhaust_time_def intro!: stop skip)
  next
    case False
    then show ?thesis
      using Cons.prems(1)
      by (subst drive.simps)
        (auto simp: m_def [symmetric] cancel_run_def exhaust_time_def exhaust_budget_def deny_def
          intro!: next_unit stop wp_mono [OF quiet_at(1)] wp_spend_frame wp_mono [OF start]
            wp_mono [OF quiet_at(2)] wp_mono [OF quiet_at(3)])
  qed
qed

section \<open>A whole run\<close>

text \<open>Before the loop over the units: nothing started.\<close>

definition idle :: "db \<Rightarrow> world \<Rightarrow> bool" where
  "idle d w \<longleftrightarrow> w_db w = d \<and> w_dispatched w = [] \<and> w_batch w = [] \<and> w_flight w = [] \<and> w_failure w = None"

lemma idle_update [simp]:
  "idle d (w\<lparr>w_tick := t\<rparr>) = idle d w"
  "idle d (w\<lparr>w_ledger := l\<rparr>) = idle d w"
  "idle d (w\<lparr>w_gc := g\<rparr>) = idle d w"
  "idle d (w\<lparr>w_file := f\<rparr>) = idle d w"
  "idle d (w\<lparr>w_disk := fs\<rparr>) = idle d w"
  "idle d (w\<lparr>w_put_seq := q\<rparr>) = idle d w"
  "idle d (w\<lparr>w_client := c\<rparr>) = idle d w"
  "idle d (w\<lparr>w_summary := s\<rparr>) = idle d w"
  "idle d (w\<lparr>w_denial := dn\<rparr>) = idle d w"
  "idle d (w\<lparr>w_probed := ss\<rparr>) = idle d w"
  by (simp_all add: idle_def)

lemma idle_still: "idle d v \<Longrightarrow> still v w \<Longrightarrow> idle d w"
  by (simp add: idle_def still_def history_def)

lemma idle_track: "idle d w \<Longrightarrow> track_at S (done_units (sd_encode S) (sd_scan_id S) d) R [] w"
  by (simp add: idle_def track_at_def track_def once_def covered_def)

text \<open>After it: nothing in flight, nothing unstored.\<close>

definition ended :: "'n scheduler \<Rightarrow> u64 set \<Rightarrow> u64 set \<Rightarrow> world \<Rightarrow> bool" where
  "ended S D R w \<longleftrightarrow> once S D R w \<and> (w_failure w = None \<longrightarrow> set (w_dispatched w) \<subseteq> finished S w) \<and>
     (stopped w \<or> R \<subseteq> finished S w)"

text \<open>A dispatch broken off before its first unit.\<close>

definition broken_off :: "db \<Rightarrow> world \<Rightarrow> bool" where
  "broken_off d w \<longleftrightarrow> stopped w \<and> w_db w = d \<and> w_dispatched w = []"

lemma idle_broken:
  "idle d w \<Longrightarrow> broken_off d (w\<lparr>w_summary := s\<lparr>rs_cancelled := True\<rparr>\<rparr>)"
  "idle d w \<Longrightarrow> broken_off d (w\<lparr>w_summary := s\<lparr>rs_time_exhausted := True\<rparr>\<rparr>)"
  "idle d w \<Longrightarrow> broken_off d (w\<lparr>w_summary := s\<lparr>rs_budget_exhausted := True\<rparr>\<rparr>)"
  "idle d w \<Longrightarrow> broken_off d (w\<lparr>w_denial := Some x\<rparr>)"
  "idle d w \<Longrightarrow> broken_off d (w\<lparr>w_failure := Some e\<rparr>)"
  by (simp_all add: broken_off_def idle_def)

lemma broken_ended: "broken_off d w \<Longrightarrow> ended S (done_units (sd_encode S) (sd_scan_id S) d) R w"
  by (simp add: broken_off_def ended_def once_def)

definition idle_unless :: "bool \<Rightarrow> db \<Rightarrow> world \<Rightarrow> bool" where
  "idle_unless b d w \<longleftrightarrow> (if b then broken_off d w else idle d w)"

lemma idle_unless_simps [simp]: "idle_unless True d w = broken_off d w" "idle_unless False d w = idle d w"
  by (simp_all add: idle_unless_def)

lemma driven_kept: "driven S D R J ks v \<Longrightarrow> kept S v w \<Longrightarrow> driven S D R J ks w"
  using track_kept [of S D R v w] by (auto simp: driven_def kept_def history_def stopped_def)

lemma driven_ended:
  assumes "driven S D R R ks w" "w_batch w = []" "w_flight w = []"
  shows "ended S D R w"
proof -
  have "covered S w = finished S w" using assms(2,3) by (simp add: covered_def)
  moreover have "\<not> stopped w \<Longrightarrow> w_failure w = None" by (simp add: stopped_def)
  ultimately show ?thesis using assms(1) unfolding driven_def ended_def track_def once_def by auto
qed

lemma wp_query:
  assumes "\<And>x t. q (w_db w) = Inr x \<Longrightarrow> Q x (w\<lparr>w_tick := t\<rparr>)" "\<And>t. E (w\<lparr>w_tick := t\<rparr>)"
  shows "wp (run_sql A (\<lambda>d. (q d, d))) Q E w"
proof -
  have "w\<lparr>w_tick := t, w_db := w_db w\<rparr> = w\<lparr>w_tick := t\<rparr>" for t by (cases w) simp
  then show ?thesis
    using assms by (auto simp: wp_def run_sql_def Let_def split: option.splits sum.splits)
qed

text \<open>The units a run is given.\<close>

definition given :: "scan_plan \<Rightarrow> u64 \<Rightarrow> u64 set" where
  "given p i = {k. i \<le> k \<and> k < plan_len p}"

lemma given_indices:
  assumes "units_from p i = Ret us"
  shows "distinct (map su_index us)" "su_index ` set us = given p i"
proof -
  let ?n = "unat (plan_len p)"
  have map: "map su_index us = map of_nat [unat i..<?n]" using units_from_indices [OF assms] by blast
  have small: "unat (of_nat k :: u64) = k" if "k < ?n" for k
    using that unat_bounded [of "plan_len p"] by (intro unat_of_nat_small) simp
  have "inj_on (of_nat :: nat \<Rightarrow> u64) (set [unat i..<?n])"
    by (rule inj_on_inverseI [where g = unat]) (simp add: small)
  then show "distinct (map su_index us)" by (simp add: map distinct_map)
  have "su_index ` set us = of_nat ` {unat i..<?n}" using map by (metis atLeastLessThan_upt list.set_map)
  also have "\<dots> = given p i"
  proof (rule set_eqI)
    fix k :: u64
    have "k \<in> of_nat ` {unat i..<?n} \<longleftrightarrow> unat k \<in> {unat i..<?n}"
      using small by (force intro: image_eqI [of _ _ "unat k"])
    then show "k \<in> of_nat ` {unat i..<?n} \<longleftrightarrow> k \<in> given p i"
      by (simp add: given_def word_le_nat_alt word_less_nat_alt)
  qed
  finally show "su_index ` set us = given p i" .
qed

lemma units_ended:
  fixes S :: "'n scheduler" and p :: scan_plan and i :: u64
  assumes ok: "db_ok decode d" and idle: "idle d w"
  defines "D \<equiv> done_units (sd_encode S) (sd_scan_id S) d" and "R \<equiv> given p i"
  shows "wp (run_units S A p i) (\<lambda>_. ended S D R) (once S D R) w"
proof -
  have track: "track_at S D R [] (w\<lparr>w_tick := t\<rparr>)" for t
    using idle_track [OF idle] by (simp add: D_def)
  then have once: "once S D R (w\<lparr>w_tick := t\<rparr>)" for t by (simp add: track_at_def track_def)
  have fin: "wp (flush_progress S A n) (\<lambda>_. ended S D R) (once S D R) w'" if "driven S D R R [] w'" "w_flight w' = []" for n w'
  proof (rule wp_mono [OF flush_kept [OF kept_refl]])
    show "ended S D R x" if "flushed_out S w' (w_flight w') x" for x
      using that \<open>w_flight w' = []\<close> driven_kept [OF \<open>driven S D R R [] w'\<close>]
      by (intro driven_ended [of S D R "[]"]) (auto simp: flushed_out_def)
    show "once S D R x" if "held S w' x" for x
      using that track_held \<open>driven S D R R [] w'\<close> by (auto simp: driven_def)
  qed
  have join: "wp (join_all S A (length (w_flight w'))) (\<lambda>_. wp (flush_progress S A n) (\<lambda>_. ended S D R) (once S D R)) (once S D R) w'"
    if "driven S D R R [] w'" for n w'
  proof (rule wp_mono [OF join_all_kept [OF kept_refl order_refl]])
    show "once S D R x" if "held S w' x" for x
      using that track_held \<open>driven S D R R [] w'\<close> by (auto simp: driven_def)
  qed (use driven_kept [OF that] fin in blast)
  have db: "w_db w = d" using idle by (simp add: idle_def)
  show ?thesis
    unfolding run_units_def wp_bind
  proof (rule wp_query)
    fix ds t assume "completed_units (sd_encode S) (sd_scan_id S) (w_db w) = Inr ds"
    then have ds: "set ds = D"
      using completed_units_exact [OF ok, of "sd_encode S" "sd_scan_id S"] by (auto simp: db D_def)
    have drive: "wp (drive S A n ds us) (\<lambda>_. driven S D R R []) (once S D R) (w\<lparr>w_tick := t\<rparr>)"
      if us: "units_from p i = Ret us" for n us
      using drive_track [of S ds R "[]" "w\<lparr>w_tick := t\<rparr>" us A n] track given_indices [OF us] by (simp add: ds R_def)
    show "wp (case units_from p i of Panic \<Rightarrow> eng_fail EPanic
        | Ret units \<Rightarrow> eng_then (drive S A (plan_len p) ds units)
           (eng_bind (eng_get (\<lambda>w. length (w_flight w)))
             (\<lambda>n. eng_then (join_all S A n) (flush_progress S A (plan_len p)))))
        (\<lambda>_. ended S D R) (once S D R) (w\<lparr>w_tick := t\<rparr>)"
    proof (cases "units_from p i")
      case Panic
      then show ?thesis using once by simp
    next
      case (Ret us)
      show ?thesis
        unfolding Ret rust.case wp_then [of "drive _ _ _ _ _"]
        by (rule wp_mono [OF drive [OF Ret]]) (simp_all add: join)
    qed
  qed (rule once)
qed

lemma idle_once: "idle d w \<Longrightarrow> once S (done_units (sd_encode S) (sd_scan_id S) d) R w"
  by (simp add: idle_def once_def)

lemma discover_idle:
  "idle d w \<Longrightarrow> wp (discover_loop S A n ts) (\<lambda>b. idle_unless b d) (once S (done_units (sd_encode S) (sd_scan_id S) d) R) w"
proof (induction ts arbitrary: w)
  case (Cons t ts)
  let ?E = "once S (done_units (sd_encode S) (sd_scan_id S) d) R"
  have found: "wp (discover S A t) (\<lambda>_. idle d) ?E w'" if "idle d w'" for w'
    by (rule wp_mono [OF discover_still [OF still_refl]]) (auto intro: idle_once idle_still [OF that])
  have emit: "wp (emit_host_discovered S A t r) (\<lambda>_. idle d) ?E w'" if "idle d w'" for w' r
    by (rule wp_mono [OF emit_host_still [OF still_refl]]) (auto intro: idle_once idle_still [OF that])
  show ?case
    using Cons.prems
    by (auto simp: cancel_run_def exhaust_time_def exhaust_budget_def deny_def fail_packetd_def
        intro!: wp_spend_frame wp_mono [OF found] wp_mono [OF emit] Cons.IH idle_broken split: sum.splits)
qed simp

lemma block_ended:
  fixes S :: "'n scheduler" and p :: scan_plan and i :: u64
  assumes ok: "db_ok decode d" and idle: "idle d w"
  defines "D \<equiv> done_units (sd_encode S) (sd_scan_id S) d" and "R \<equiv> given p i"
  shows "wp (dispatch_block S A p i) (\<lambda>_. ended S D R) (once S D R) w"
proof -
  have units: "wp (run_units S A p i) (\<lambda>_. ended S D R) (once S D R) w'" if "idle d w'" for w'
    using units_ended [OF ok that] by (simp add: D_def R_def)
  have rest: "wp (if b then eng_ret () else run_units S A p i) (\<lambda>_. ended S D R) (once S D R) w'" if "idle_unless b d w'" for b w'
    using that broken_ended [of d w' S R] units by (cases b) (auto simp: D_def)
  have disc: "wp (discover_loop S A n ts) (\<lambda>b. wp (if b then eng_ret () else run_units S A p i) (\<lambda>_. ended S D R) (once S D R))
      (once S D R) w'" if "idle d w'" for n ts w'
    unfolding D_def by (rule wp_mono [OF discover_idle [OF that]], erule rest [unfolded D_def])
  have once: "once S D R w'" if "idle d w'" for w' using idle_once [OF that] by (simp add: D_def)
  show ?thesis
    using idle unfolding dispatch_block_def choose_method_def
    by (auto intro!: wp_log_event_frame disc units once split: option.splits sum.splits simp del: if_split)
qed

lemma ended_update [simp]:
  "ended S D R (w\<lparr>w_tick := t\<rparr>) = ended S D R w"
  "ended S D R (w\<lparr>w_gc := g\<rparr>) = ended S D R w"
  "ended S D R (w\<lparr>w_file := f\<rparr>) = ended S D R w"
  by (simp_all add: ended_def once_def stopped_def)

lemma ended_once: "ended S D R w \<Longrightarrow> once S D R w"
  by (simp add: ended_def)

lemma ended_db:
  assumes "ended S D R w" "done_units (sd_encode S) (sd_scan_id S) d = finished S w"
  shows "ended S D R (w\<lparr>w_tick := t, w_db := d\<rparr>)"
  using assms by (simp add: ended_def once_def stopped_def)

definition flagged :: "run_summary \<Rightarrow> bool" where
  "flagged s \<longleftrightarrow> rs_cancelled s \<or> rs_time_exhausted s \<or> rs_budget_exhausted s \<or> rs_policy_denied s \<or> rs_packetd_unavailable s"

text \<open>At the end of a run the summary names whatever stopped it.\<close>

definition reported :: "'n scheduler \<Rightarrow> u64 set \<Rightarrow> u64 set \<Rightarrow> world \<Rightarrow> bool" where
  "reported S D R w \<longleftrightarrow> ended S D R w \<and> (stopped w \<longrightarrow> flagged (w_summary w))"

lemma reported_update [simp]:
  "reported S D R (w\<lparr>w_tick := t\<rparr>) = reported S D R w"
  "reported S D R (w\<lparr>w_gc := g\<rparr>) = reported S D R w"
  "reported S D R (w\<lparr>w_file := f\<rparr>) = reported S D R w"
  by (simp_all add: reported_def) (simp_all add: stopped_def)

lemma reported_once: "reported S D R w \<Longrightarrow> once S D R w"
  by (simp add: reported_def ended_once)

lemma reported_db:
  "reported S D R w \<Longrightarrow> done_units (sd_encode S) (sd_scan_id S) d = finished S w \<Longrightarrow>
     reported S D R (w\<lparr>w_tick := t, w_db := d\<rparr>)"
  using ended_db [of S D R w d t] by (simp add: reported_def stopped_def)

lemma conclude_reported:
  assumes "ended S D R w"
  shows "wp (conclude S A) (\<lambda>_. reported S D R) (once S D R) w"
  using assms unfolding conclude_def
  by (auto intro!: wp_log_event_frame
      simp: reported_def ended_def once_def stopped_def flagged_def split: option.splits)

lemma close_reported:
  assumes "reported S D R w"
  shows "wp (close_run S A spent st) (\<lambda>s w'. reported S D R w' \<and> s = w_summary w') (once S D R) w"
proof -
  have publish: "wp (publish_terminal_status S A st) (\<lambda>_. reported S D R) (once S D R) w'" if "reported S D R w'" for w'
    using that unfolding publish_terminal_status_def
    by (auto intro!: wp_release_frame wp_sql_account [where S = S] reported_db reported_once)
  show ?thesis
    using assms unfolding close_run_def
    by (auto intro!: wp_force_sync_frame wp_sql_account [where S = S] wp_mono [OF publish] reported_db reported_once)
qed

lemma open_reported:
  fixes S :: "'n scheduler" and p :: scan_plan and i :: u64
  assumes ok: "db_ok decode d" and idle: "idle d w"
  defines "D \<equiv> done_units (sd_encode S) (sd_scan_id S) d" and "R \<equiv> given p i"
  shows "wp (run_open S A p i rec) (\<lambda>s w'. reported S D R w' \<and> s = w_summary w') (once S D R) w"
proof -
  have fin: "wp (conclude S A) (\<lambda>st. wp (close_run S A spent st) (\<lambda>s w'. reported S D R w' \<and> s = w_summary w') (once S D R))
      (once S D R) w'" if "ended S D R w'" for spent w'
    by (rule wp_mono [OF conclude_reported [OF that]], rule close_reported)
  have spent: "ended S D R (w'\<lparr>w_summary := (w_summary w')\<lparr>rs_packets_spent := k\<rparr>\<rparr>)" if "ended S D R w'" for w' k
    using that by (simp add: ended_def once_def stopped_def)
  have go: "wp (eng_when (w_denial w' = None) (dispatch_block S A p i)) (\<lambda>_. ended S D R) (once S D R) w'" if "idle d w'" for w'
  proof (cases "w_denial w' = None")
    case True
    then show ?thesis using block_ended [OF ok that] by (simp add: D_def R_def)
  next
    case False
    then have "broken_off d w'" using that by (auto simp: broken_off_def stopped_def idle_def)
    then show ?thesis using False broken_ended [of d w' S R] by (auto simp: D_def)
  qed
  have scope: "wp (check_scope S A rec) (\<lambda>_. idle d) (once S D R) w"
    using idle by (auto simp: check_scope_def deny_def)
  show ?thesis
    unfolding run_open_def wp_then [of "check_scope _ _ _"]
    by (rule wp_mono [OF scope]) (simp del: wp_when, rule wp_mono [OF go], simp_all add: fin spent)
qed

lemma body_reported:
  fixes S :: "'n scheduler" and p :: scan_plan and i :: u64
  assumes ok: "db_ok decode d" and idle: "idle d w" and fresh: "rs_scan_mode (w_summary w) = None"
  defines "D \<equiv> done_units (sd_encode S) (sd_scan_id S) d" and "R \<equiv> given p i"
  shows "wp (run_body S A p i)
    (\<lambda>s w'. s = w_summary w' \<and> (reported S D R w' \<or> rs_scan_mode s = None \<and> idle d w')) (once S D R) w"
proof -
  let ?I = "\<lambda>w'. idle d w' \<and> rs_scan_mode (w_summary w') = None"
  have once: "once S D R w'" if "?I w'" for w' using that idle_once [of d w' S R] by (simp add: D_def)
  have load: "wp (load_record S A) (\<lambda>_. ?I) (once S D R) w"
    unfolding load_record_def wp_bind
    by (rule wp_query) (use idle fresh once in \<open>auto split: rust.splits sum.splits\<close>)
  have ends: "wp (already_terminated S) (\<lambda>_. ?I) (once S D R) w'" if "?I w'" for w'
    using that once by (auto simp: already_terminated_def split: sum.splits)
  have open_run: "wp (run_open S A p i rec)
      (\<lambda>s w'. s = w_summary w' \<and> (reported S D R w' \<or> rs_scan_mode s = None \<and> idle d w')) (once S D R) w'" if "?I w'" for w' rec
    using that unfolding D_def R_def by (intro wp_mono [OF open_reported [OF ok]]) auto
  show ?thesis
    unfolding run_body_def wp_bind [of "load_record _ _"]
    by (rule wp_mono [OF load])
      (auto simp: once intro!: wp_mono [OF ends] open_run split: option.splits)
qed

section \<open>Properties\<close>

text \<open>
  C2: Every unit once, and all of them. However a run ends, it probed only units it was given that
  were not finished before, each at most once; no finished unit is forgotten and none is recorded
  that was not probed. When it returns, every unit it probed is recorded, unless the daemon failed
  in the middle of one; and when it returns with no reason to have stopped, every unit is.
\<close>

theorem each_unit_once:
  assumes "db_ok (sd_decode S) d" "run S A p i l g f d fs seq = (r, w)"
  shows "distinct (w_dispatched w) \<and>
    set (w_dispatched w) \<subseteq> {k. i \<le> k \<and> k < plan_len p} - done_units (sd_encode S) (sd_scan_id S) d \<and>
    done_units (sd_encode S) (sd_scan_id S) d \<subseteq> done_units (sd_encode S) (sd_scan_id S) (w_db w) \<and>
    done_units (sd_encode S) (sd_scan_id S) (w_db w) \<subseteq> done_units (sd_encode S) (sd_scan_id S) d \<union> set (w_dispatched w) \<and>
    (case r of
       Inl e \<Rightarrow> True
     | Inr s \<Rightarrow>
         (w_failure w = None \<longrightarrow> set (w_dispatched w) \<subseteq> done_units (sd_encode S) (sd_scan_id S) (w_db w)) \<and>
         (rs_scan_mode s \<noteq> None \<and> \<not> flagged s \<longrightarrow>
            {k. i \<le> k \<and> k < plan_len p} \<subseteq> done_units (sd_encode S) (sd_scan_id S) (w_db w)))"
proof -
  let ?D = "done_units (sd_encode S) (sd_scan_id S) d" and ?R = "given p i"
  have "idle d (start_state l g f d fs seq)" "rs_scan_mode (w_summary (start_state l g f d fs seq)) = None"
    by (simp_all add: idle_def start_state_def run_summary_default_def)
  from wp_run [OF body_reported [OF assms(1) this] assms(2) [unfolded run_def]]
  have "once S ?D ?R w" and
    "case r of Inl e \<Rightarrow> True | Inr s \<Rightarrow> s = w_summary w \<and> (reported S ?D ?R w \<or> rs_scan_mode s = None \<and> idle d w)"
    by (auto simp: reported_once idle_once split: sum.splits)
  then show ?thesis
    by (auto simp: once_def reported_def ended_def given_def idle_def split: sum.splits)
qed

theorem each_unit_once_witness:
  "\<exists>r w. sample_run = (r, w) \<and> distinct (w_dispatched w) \<and> set (w_dispatched w) \<subseteq> {0} \<and>
    done_units crockford_encode 5 (w_db w) \<subseteq> set (w_dispatched w) \<and>
    (case r of Inl e \<Rightarrow> True | Inr s \<Rightarrow> rs_scan_mode s \<noteq> None \<and> \<not> flagged s \<longrightarrow> done_units crockford_encode 5 (w_db w) = {0})"
proof -
  obtain r w where r: "sample_run = (r, w)" by (cases sample_run)
  have S: "sd_decode sample_scheduler = crockford_decode" "sd_encode sample_scheduler = crockford_encode"
    "sd_scan_id sample_scheduler = 5"
    by (simp_all add: sample_scheduler_def)
  have one: "{k. 0 \<le> k \<and> k < plan_len one_unit_plan} = {0}"
    by (auto simp: one_unit_plan_def plan_len_def word_less_nat_alt unat_eq_0)
  note all = each_unit_once [OF _ r [unfolded sample_run_def], unfolded S, OF sample_ok(1), unfolded sample_none_done one]
  then have "distinct (w_dispatched w) \<and> set (w_dispatched w) \<subseteq> {0} \<and>
    done_units crockford_encode 5 (w_db w) \<subseteq> set (w_dispatched w) \<and>
    (case r of Inl e \<Rightarrow> True | Inr s \<Rightarrow> rs_scan_mode s \<noteq> None \<and> \<not> flagged s \<longrightarrow> done_units crockford_encode 5 (w_db w) = {0})"
    by (auto split: sum.splits)
  with r show ?thesis by blast
qed

end
