(* ===== verification/Completion.thy ===== *)
theory Completion
  imports Exactly_Once
begin

text \<open>
  A connect scan that nothing disturbs comes to its end: it probes every unit it was given, detects services
  on the open ones if it was asked to, leaves a complete
  and flushed log behind, and announces the scan as completed.
\<close>

section \<open>Statements that succeed\<close>

definition row_there :: "'n scheduler \<Rightarrow> db \<Rightarrow> bool" where
  "row_there S d \<longleftrightarrow> db_ok (sd_decode S) d \<and> id_display (sd_encode S) ''scan'' (sd_scan_id S) \<in> r_scan_id ` set (db_scans d)"

lemma insert_unit_succeeds:
  "k \<in> r_scan_id ` set (db_scans d) \<Longrightarrow> \<exists>d'. insert_unit k u d = Inr d' \<and> db_scans d' = db_scans d"
  by (cases "(k, u) \<in> set (db_units d)") (auto simp: insert_unit_def list_ex_iff)

lemma insert_units_succeed:
  "k \<in> r_scan_id ` set (db_scans d) \<Longrightarrow> \<forall>i \<in> set us. uint i < 2 ^ 63 \<Longrightarrow> \<exists>d'. insert_units k us d = Inr d'"
proof (induction us arbitrary: d)
  case (Cons u us)
  obtain d1 where d1: "insert_unit k (uint u) d = Inr d1" "db_scans d1 = db_scans d"
    using insert_unit_succeeds [OF Cons.prems(1)] by blast
  then obtain d' where "insert_units k us d1 = Inr d'" using Cons by fastforce
  then show ?case using d1 Cons.prems(2) by (simp add: to_sql_def)
qed simp

lemma mark_succeeds:
  assumes "row_there S d" "\<forall>i \<in> set us. uint i < 2 ^ 63"
  shows "\<exists>d'. mark_units_done (sd_encode S) (sd_scan_id S) us d = (Inr (), d') \<and> row_there S d'"
proof -
  obtain d' where d': "insert_units (id_display (sd_encode S) ''scan'' (sd_scan_id S)) us d = Inr d'"
    using insert_units_succeed [OF _ assms(2)] assms(1) by (auto simp: row_there_def)
  then have "row_there S d'"
    using assms(1) insert_units_ok [OF d'] insert_units_scans [OF d'] by (simp add: row_there_def)
  then show ?thesis using d' by (simp add: mark_units_done_def)
qed

lemma update_row_there:
  assumes "row_there S d" "\<And>r. identity_of (f r) = identity_of r" "\<And>r. row_ok (sd_decode S) r \<Longrightarrow> row_ok (sd_decode S) (f r)"
  shows "row_there S (snd (update_scans k f d))"
proof -
  have "r_scan_id ` set (db_scans (snd (update_scans k f d))) = r_scan_id ` set (db_scans d)"
    using update_scan_ids [of f k d] assms(2) by (metis list.set_map)
  then show ?thesis
    using update_ok [OF _ assms(2,3), where d = d and k = k] assms(1) by (simp add: row_there_def)
qed

lemma update_succeeds:
  assumes "row_there S d"
  shows "run_update i (update_scans (id_display (sd_encode S) ''scan'' (sd_scan_id S)) f d) d =
    (Inr (), snd (update_scans (id_display (sd_encode S) ''scan'' (sd_scan_id S)) f d))"
proof -
  have "filter (\<lambda>r. r_scan_id r = id_display (sd_encode S) ''scan'' (sd_scan_id S)) (db_scans d) \<noteq> []"
    using assms by (auto simp: row_there_def filter_empty_conv)
  then show ?thesis by (simp add: run_update_def update_scans_def)
qed

lemma progress_succeeds:
  assumes "row_there S d" "uint q < 2 ^ 63" "uint k < 2 ^ 63" "uint e < 2 ^ 63"
  shows "\<exists>d'. record_progress (sd_encode S) (sd_scan_id S) q k e now d = (Inr (), d') \<and> row_there S d'"
  using assms(2-) update_succeeds [OF assms(1)]
  by (auto simp: record_progress_def to_sql_def identity_of_def row_ok_iff intro!: update_row_there [OF assms(1)])

text \<open>The status is what the record then says.\<close>

definition has_status :: "'n scheduler \<Rightarrow> task_status \<Rightarrow> db \<Rightarrow> bool" where
  "has_status S st d \<longleftrightarrow>
     (\<exists>rec. store_get (sd_encode S) (sd_decode S) (sd_scan_id S) d = Ret (Inr (Some rec)) \<and> tr_status rec = st)"

lemma status_succeeds:
  assumes "row_there S d"
  shows "\<exists>d'. set_status (sd_encode S) (sd_scan_id S) st now d = (Inr (), d') \<and> has_status S st d'"
proof -
  let ?k = "id_display (sd_encode S) ''scan'' (sd_scan_id S)"
  define f :: "scan_row \<Rightarrow> scan_row" where "f = (\<lambda>r. r\<lparr>r_status := status_to_db st, r_updated_at := now\<rparr>)"
  define d' where "d' = snd (update_scans ?k f d)"
  have run: "set_status (sd_encode S) (sd_scan_id S) st now d = (Inr (), d')"
    using update_succeeds [OF assms] by (simp add: set_status_def d'_def f_def)
  have "row_there S d'"
    unfolding d'_def using assms
    by (rule update_row_there) (auto simp: f_def identity_of_def row_ok_iff status_round_trip)
  then obtain r where r: "r \<in> set (db_scans d')" "r_scan_id r = ?k" "row_ok (sd_decode S) r"
    "distinct (map r_scan_id (db_scans d'))"
    by (auto simp: row_there_def db_ok_def list_all_iff)
  then have "r_status r = status_to_db st" by (auto simp: d'_def update_scans_def f_def split: if_splits)
  then have "status_from_db (r_status r) = Ret st" by (simp add: status_round_trip)
  then obtain rec where "row_to_record (sd_decode S) r = Ret (Inr rec)" "tr_status rec = st"
    using r(3) unfolding row_ok_iff by (auto simp: row_to_record_def from_sql_def)
  moreover have "find (\<lambda>r. r_scan_id r = ?k) (db_scans d') = Some r"
    using r(4,1,2) by (rule find_key)
  ultimately show ?thesis using run by (auto simp: store_get_def has_status_def)
qed

section \<open>A run that nothing disturbs\<close>

text \<open>No fault, no cancellation, no task that panics.\<close>

definition quiet :: "env \<Rightarrow> bool" where
  "quiet A \<longleftrightarrow> (\<forall>t. \<not> an_cancelled A t \<and> an_write A t = NoFault \<and> an_sync A t = NoFault \<and>
     \<not> an_unlock_fails A t \<and> an_sql A t = None \<and> \<not> an_join_fails A t \<and> an_put A t = replicate 6 Done)"

definition in_time :: "env \<Rightarrow> ledger \<Rightarrow> bool" where
  "in_time A l \<longleftrightarrow> (\<forall>t. \<not> elapsed_exceeded l (an_elapsed A t) \<and>
     uint (sat_add (lg_seconds_already_elapsed l) (an_elapsed A t)) < 2 ^ 63)"

text \<open>A scan by the operating system's connections, whose objective has no discovery phase; services are detected or not.\<close>

definition connect_scan :: "'n scheduler \<Rightarrow> bool" where
  "connect_scan S \<longleftrightarrow> sc_packetd_binary (sd_config S) = None \<and> sd_objective S \<noteq> HostInventory"

text \<open>The connections service detection may open to one endpoint.\<close>

definition detection_probes :: "'n scheduler \<Rightarrow> nat" where
  "detection_probes S =
     (if sd_enabled (sd_detection S) then min (max 1 (unat (sd_intensity (sd_detection S)))) (length (sd_probes S)) else 0)"

text \<open>The probes of one unit: its own and those of its detection.\<close>

definition unit_probes :: "'n scheduler \<Rightarrow> nat" where
  "unit_probes S = Suc (detection_probes S)"

text \<open>What detection can find: the best interpretation of a capture of this run.\<close>

definition detected :: "'n scheduler \<Rightarrow> env \<Rightarrow> service_finding \<Rightarrow> bool" where
  "detected S A x \<longleftrightarrow> (\<exists>t capture best rest. an_capture A t = Some capture \<and> interpret_capture (sd_rules S) capture = best # rest \<and>
     sf_observation x = ip_observation best \<and> sf_probe_id x = pc_probe_id capture \<and> sf_rule_id x = ip_rule_id best)"

text \<open>The events of such a run; a record of one has fewer than \<open>B\<close> bytes.\<close>

fun plain_body :: "'n scheduler \<Rightarrow> env \<Rightarrow> scan_plan \<Rightarrow> event_body \<Rightarrow> bool" where
  "plain_body S A p (ScanStarted h t n m d) = (h = pl_hash p \<and> m = Some TcpConnect \<and> d = None)"
| "plain_body S A p (PortStateObserved ip ep st ev) = (ev = None)"
| "plain_body S A p (ServiceObserved ip ep obs ev probe rule) =
     (\<exists>x bytes. detected S A x \<and> obs = sf_observation x \<and> ev = ne_new (sd_hash S bytes) \<and> probe = sf_probe_id x \<and> rule = Some (sf_rule_id x))"
| "plain_body S A p (Progress a b c) = True"
| "plain_body S A p (ScanCompleted a b c) = True"
| "plain_body S A p b = False"

definition fits :: "'n scheduler \<Rightarrow> env \<Rightarrow> scan_plan \<Rightarrow> nat \<Rightarrow> bool" where
  "fits S A p B \<longleftrightarrow> (\<forall>log b t. plain_body S A p b \<longrightarrow>
     (\<exists>s. env_write (sd_log_env S) (next_event log b (an_timestamp A t) (sd_engine_version S)) = Inr s \<and> length s < B))"

locale undisturbed = log_codec "sd_log_env S" settle
  for S :: "'n scheduler" and settle :: "confidence \<Rightarrow> confidence" +
  fixes A :: env and p :: scan_plan and B :: nat and l :: ledger
  assumes quiet: "quiet A" and in_time: "in_time A l" and connect_scan: "connect_scan S" and fits: "fits S A p B"
    and ceiling: "uint (maximum_packets (lg_budgets l)) < 2 ^ 63"
    and unexpired: "\<not> is_expired (sd_parse_time S) (sd_manifest S) (an_timestamp A t)"
    and permitted: "plan_unit p i = Ret (Some u) \<Longrightarrow> allows (sd_net S) (sd_manifest S) (su_target u)"
begin

text \<open>
  The run can go on: nothing stopped it, the log has room for \<open>k\<close> more events beside the two of each
  task in flight, the ledger for \<open>n\<close> more probes beside those that detect the services of tasks in flight, and the store knows the scan.
\<close>

definition logged :: "(log_file \<Rightarrow> event list \<Rightarrow> bool) \<Rightarrow> nat \<Rightarrow> world \<Rightarrow> bool" where
  "logged P k w \<longleftrightarrow> (\<exists>es. gc_live (sd_log_env S) (w_gc w) (w_file w) es \<and> P (w_file w) es \<and>
     length (log_text (sd_log_env S) es) + B * (k + 2 * length (w_flight w)) < 2 ^ 63)"

definition paid :: "nat \<Rightarrow> world \<Rightarrow> bool" where
  "paid n w \<longleftrightarrow> (\<exists>x. w_ledger w = l\<lparr>lg_packets_spent := x\<rparr> \<and>
     unat x + (n + detection_probes S * length (w_flight w)) \<le> unat (maximum_packets (lg_budgets l)))"

definition queued :: "world \<Rightarrow> u64 set" where
  "queued w = set (w_batch w) \<union> su_index ` set (map fl_unit (w_flight w))"

definition going :: "nat \<Rightarrow> world \<Rightarrow> bool" where
  "going n w \<longleftrightarrow> \<not> stopped w \<and> w_client w = None \<and> row_there S (w_db w) \<and> paid n w \<and> (\<forall>i \<in> queued w. uint i < 2 ^ 63)"

definition able :: "nat \<Rightarrow> nat \<Rightarrow> world \<Rightarrow> bool" where
  "able k n w \<longleftrightarrow> going n w \<and> logged (\<lambda>f es. True) k w"

lemma env [simp]: "\<not> an_cancelled A t" "an_write A t = NoFault" "an_sync A t = NoFault" "\<not> an_unlock_fails A t"
  "an_sql A t = None" "\<not> an_join_fails A t" "an_put A t = replicate 6 Done"
  using quiet by (simp_all add: quiet_def)

lemma going_update [simp]:
  "going n (w\<lparr>w_tick := t\<rparr>) = going n w"
  "going n (w\<lparr>w_gc := g\<rparr>) = going n w"
  "going n (w\<lparr>w_file := f\<rparr>) = going n w"
  "going n (w\<lparr>w_last_progress := m\<rparr>) = going n w"
  "going n (w\<lparr>w_probed := ss\<rparr>) = going n w"
  "going n (w\<lparr>w_put_seq := q\<rparr>) = going n w"
  "going n (w\<lparr>w_disk := dk\<rparr>) = going n w"
  "going n (w\<lparr>w_dispatched := ds\<rparr>) = going n w"
  by (simp_all add: going_def paid_def queued_def stopped_def)

lemma going_summary [simp]:
  "rs_cancelled s = rs_cancelled (w_summary w) \<Longrightarrow> rs_time_exhausted s = rs_time_exhausted (w_summary w) \<Longrightarrow>
   rs_budget_exhausted s = rs_budget_exhausted (w_summary w) \<Longrightarrow> going n (w\<lparr>w_summary := s\<rparr>) = going n w"
  by (simp add: going_def paid_def queued_def stopped_def)

lemma logged_update [simp]:
  "logged P k (w\<lparr>w_tick := t\<rparr>) = logged P k w"
  "logged P k (w\<lparr>w_ledger := ll\<rparr>) = logged P k w"
  "logged P k (w\<lparr>w_db := d\<rparr>) = logged P k w"
  "logged P k (w\<lparr>w_summary := s\<rparr>) = logged P k w"
  "logged P k (w\<lparr>w_batch := bs\<rparr>) = logged P k w"
  "logged P k (w\<lparr>w_last_progress := m\<rparr>) = logged P k w"
  "logged P k (w\<lparr>w_probed := ss\<rparr>) = logged P k w"
  "logged P k (w\<lparr>w_put_seq := q\<rparr>) = logged P k w"
  "logged P k (w\<lparr>w_disk := dk\<rparr>) = logged P k w"
  "logged P k (w\<lparr>w_dispatched := ds\<rparr>) = logged P k w"
  by (simp_all add: logged_def)

lemma logged_less:
  assumes "logged P k w" "j \<le> k" "\<And>f es. P f es \<Longrightarrow> P' f es"
  shows "logged P' j w"
proof -
  obtain es where "gc_live (sd_log_env S) (w_gc w) (w_file w) es" "P (w_file w) es"
    and room: "length (log_text (sd_log_env S) es) + B * (k + 2 * length (w_flight w)) < 2 ^ 63"
    using assms(1) by (auto simp: logged_def)
  moreover have "B * (j + 2 * length (w_flight w)) \<le> B * (k + 2 * length (w_flight w))" using assms(2) by simp
  ultimately show ?thesis using assms(3) unfolding logged_def by (meson add_left_mono le_less_trans)
qed

lemma going_less: "going n w \<Longrightarrow> m \<le> n \<Longrightarrow> going m w"
  by (auto simp: going_def paid_def)

definition ends :: "event_body \<Rightarrow> log_file \<Rightarrow> event list \<Rightarrow> bool" where
  "ends b f es \<longleftrightarrow> es \<noteq> [] \<and> ev_body (List.last es) = b"

lemma logged_append:
  assumes "logged P (Suc k) w" "plain_body S A p b"
  shows "\<exists>t g f. log_event S A b w = (Inr (), w\<lparr>w_tick := t, w_gc := g, w_file := f\<rparr>) \<and>
    logged (ends b) k (w\<lparr>w_tick := t, w_gc := g, w_file := f\<rparr>)"
proof -
  let ?t = "w_tick w"
  obtain es where es: "gc_live (sd_log_env S) (w_gc w) (w_file w) es"
    and room: "length (log_text (sd_log_env S) es) + B * (Suc k + 2 * length (w_flight w)) < 2 ^ 63"
    using assms(1) by (auto simp: logged_def)
  obtain s where s: "env_write (sd_log_env S) (next_event (gc_log (w_gc w)) b (an_timestamp A ?t) (sd_engine_version S)) = Inr s"
    "length s < B"
    using fits assms(2) unfolding fits_def by blast
  have "length (log_text (sd_log_env S) es) + Suc (length s) < 2 ^ 64" using room s(2) by simp
  from gc_append_calm [OF es s(1) this] obtain e g f where
    a: "gc_append (sd_log_env S) NoFault NoFault b (an_timestamp A ?t) (sd_engine_version S) (an_instant A ?t) (w_gc w) (w_file w)
      = (Ret (Inr e), g, f)" "gc_live (sd_log_env S) g f (es @ [e])" "ev_body e = b"
      "length (log_text (sd_log_env S) (es @ [e])) = length (log_text (sd_log_env S) es) + Suc (length s)" by blast
  have "logged (ends b) k (w\<lparr>w_tick := Suc ?t, w_gc := g, w_file := f\<rparr>)"
    unfolding logged_def ends_def using a(2-) room s(2) by (intro exI [of _ "es @ [e]"]) simp
  then show ?thesis using a(1) by (auto simp: log_event_def Let_def)
qed

lemma wp_log_ends:
  assumes "able (Suc k) n w" "plain_body S A p b"
  shows "wp (log_event S A b) (\<lambda>_ w'. going n w' \<and> logged (ends b) k w') (\<lambda>_. False) w"
proof -
  have w: "going n w" "logged (\<lambda>f es. True) (Suc k) w" using assms(1) by (simp_all add: able_def)
  obtain t g f where "log_event S A b w = (Inr (), w\<lparr>w_tick := t, w_gc := g, w_file := f\<rparr>)"
    "logged (ends b) k (w\<lparr>w_tick := t, w_gc := g, w_file := f\<rparr>)"
    using logged_append [OF w(2) assms(2)] by blast
  then show ?thesis using w(1) by (simp add: wp_def)
qed

lemma wp_log_able:
  assumes "able (Suc k) n w" "plain_body S A p b"
  shows "wp (log_event S A b) (\<lambda>_. able k n) (\<lambda>_. False) w"
  using wp_log_ends [OF assms] by (rule wp_mono) (auto simp: able_def intro: logged_less)

lemma able_less: "able k n w \<Longrightarrow> j \<le> k \<Longrightarrow> m \<le> n \<Longrightarrow> able j m w"
  by (auto simp: able_def intro: going_less logged_less)

lemma able_update [simp]:
  "able k n (w\<lparr>w_tick := t\<rparr>) = able k n w"
  "able k n (w\<lparr>w_last_progress := m\<rparr>) = able k n w"
  "able k n (w\<lparr>w_probed := ss\<rparr>) = able k n w"
  "able k n (w\<lparr>w_put_seq := q\<rparr>) = able k n w"
  "able k n (w\<lparr>w_disk := dk\<rparr>) = able k n w"
  "able k n (w\<lparr>w_dispatched := ds\<rparr>) = able k n w"
  by (simp_all add: able_def)

lemma able_summary [simp]:
  "rs_cancelled s = rs_cancelled (w_summary w) \<Longrightarrow> rs_time_exhausted s = rs_time_exhausted (w_summary w) \<Longrightarrow>
   rs_budget_exhausted s = rs_budget_exhausted (w_summary w) \<Longrightarrow> able k n (w\<lparr>w_summary := s\<rparr>) = able k n w"
  by (simp add: able_def)

lemma going_batch: "going n w \<Longrightarrow> set bs \<subseteq> insert i (set (w_batch w)) \<Longrightarrow> uint i < 2 ^ 63 \<Longrightarrow> going n (w\<lparr>w_batch := bs\<rparr>)"
  by (auto simp: going_def paid_def queued_def stopped_def)

lemma wp_sync_ends:
  assumes "going n w" "logged P k w" "\<And>f f' es. P f es \<Longrightarrow> P f' es"
  shows "wp (log_force_sync A) (\<lambda>_ w'. going n w' \<and> w_summary w' = w_summary w \<and>
    logged (\<lambda>f es. P f es \<and> flushed (sd_log_env S) f es (length es)) k w') (\<lambda>_. False) w"
proof -
  obtain es where es: "gc_live (sd_log_env S) (w_gc w) (w_file w) es" "P (w_file w) es"
    and room: "length (log_text (sd_log_env S) es) + B * (k + 2 * length (w_flight w)) < 2 ^ 63"
    using assms(2) by (auto simp: logged_def)
  obtain g f where "force_sync NoFault (an_instant A (w_tick w)) (w_gc w) (w_file w) = (Inr (), g, f)"
    "gc_live (sd_log_env S) g f es" "flushed (sd_log_env S) f es (length es)"
    using force_sync_calm [OF es(1)] by blast
  then show ?thesis
    using assms(1) room assms(3) [OF es(2)] by (auto simp: wp_def log_force_sync_def Let_def logged_def)
qed

lemma sync_able: "able k n w \<Longrightarrow> wp (log_force_sync A) (\<lambda>_. able k n) (\<lambda>_. False) w"
  by (rule wp_mono [OF wp_sync_ends [of n w "\<lambda>f es. True" k]]) (auto simp: able_def intro: logged_less)

lemma wp_sql_ok:
  assumes "m (w_db w) = (Inr x, d)" "Q x (w\<lparr>w_tick := Suc (w_tick w), w_db := d\<rparr>)"
  shows "wp (run_sql A m) Q E w"
  using assms by (simp add: wp_def run_sql_def Let_def)

lemma going_db: "going n w \<Longrightarrow> row_there S d \<Longrightarrow> going n (w\<lparr>w_tick := t, w_db := d\<rparr>)"
  by (simp add: going_def paid_def queued_def stopped_def)

lemma able_db: "able k n w \<Longrightarrow> row_there S d \<Longrightarrow> able k n (w\<lparr>w_tick := t, w_db := d\<rparr>)"
  by (simp add: able_def going_def paid_def queued_def stopped_def logged_def)

lemma mark_able:
  assumes "able k n w"
  shows "wp (run_sql A (mark_units_done (sd_encode S) (sd_scan_id S) (w_batch w))) (\<lambda>_. able k n) (\<lambda>_. False) w"
proof -
  have "row_there S (w_db w)" "\<forall>i \<in> set (w_batch w). uint i < 2 ^ 63"
    using assms by (auto simp: able_def going_def queued_def)
  from mark_succeeds [OF this] obtain d where
    "mark_units_done (sd_encode S) (sd_scan_id S) (w_batch w) (w_db w) = (Inr (), d)" "row_there S d" by blast
  then show ?thesis using assms by (auto intro!: wp_sql_ok able_db)
qed

lemma last_number:
  assumes "gc_live (sd_log_env S) (w_gc w) (w_file w) es" "length (log_text (sd_log_env S) es) < 2 ^ 63"
  shows "log_last_sequence w = of_nat (length es)" "length es < 2 ^ 63"
proof -
  have "length xs \<le> length (log_text (sd_log_env S) xs)" for xs by (induction xs) auto
  then show len: "length es < 2 ^ 63" using assms(2) by (rule le_less_trans)
  have "writable (sd_log_env S) es" "el_index (gc_log (w_gc w)) = offsets 0 (map (record_text (sd_log_env S)) es)"
    using assms(1) by (auto simp: gc_live_def writer_inv_def holds_def)
  then have "length (el_index (gc_log (w_gc w))) = length es" using length_offsets by metis
  then show "log_last_sequence w = of_nat (length es)"
    using len by (simp add: log_last_sequence_def last_sequence_def last_seq_def)
qed

lemma sequence_small:
  assumes "able k n w"
  shows "uint (log_last_sequence w) < 2 ^ 63"
proof -
  obtain es where "gc_live (sd_log_env S) (w_gc w) (w_file w) es" "length (log_text (sd_log_env S) es) < 2 ^ 63"
    using assms by (auto simp: able_def logged_def)
  from last_number [OF this] show ?thesis by (simp add: uint_nat unat_of_nat)
qed

lemma able_ledger:
  assumes "able k n w"
  obtains x where "w_ledger w = l\<lparr>lg_packets_spent := x\<rparr>"
    "unat x + (n + detection_probes S * length (w_flight w)) \<le> unat (maximum_packets (lg_budgets l))"
  using assms by (auto simp: able_def going_def paid_def)

lemma spent_small:
  assumes "able k n w"
  shows "uint (lg_packets_spent (w_ledger w)) < 2 ^ 63"
proof -
  obtain x where x: "w_ledger w = l\<lparr>lg_packets_spent := x\<rparr>"
    "unat x + (n + detection_probes S * length (w_flight w)) \<le> unat (maximum_packets (lg_budgets l))"
    using assms by (rule able_ledger)
  then have "x \<le> maximum_packets (lg_budgets l)" by (simp add: word_le_nat_alt)
  then have "uint x \<le> uint (maximum_packets (lg_budgets l))" by (simp add: word_le_def)
  then show ?thesis using x(1) ceiling by simp
qed

lemma ledger_time:
  assumes "able k n w"
  shows "elapsed_exceeded (w_ledger w) (an_elapsed A t) = False"
    "uint (sat_add (lg_seconds_already_elapsed (w_ledger w)) (an_elapsed A t)) < 2 ^ 63"
proof -
  obtain x where "w_ledger w = l\<lparr>lg_packets_spent := x\<rparr>" using assms by (rule able_ledger)
  then show "elapsed_exceeded (w_ledger w) (an_elapsed A t) = False"
    "uint (sat_add (lg_seconds_already_elapsed (w_ledger w)) (an_elapsed A t)) < 2 ^ 63"
    using in_time unfolding in_time_def by (simp_all add: elapsed_exceeded_def)
qed

lemma progress_able:
  assumes "able k n w" "uint q < 2 ^ 63" "uint sp < 2 ^ 63" "uint e < 2 ^ 63"
  shows "wp (run_sql A (record_progress (sd_encode S) (sd_scan_id S) q sp e now)) (\<lambda>_. able k n) (\<lambda>_. False) w"
proof -
  have "row_there S (w_db w)" using assms by (simp add: able_def going_def)
  from progress_succeeds [OF this assms(2-), of now] show ?thesis using assms by (auto intro!: wp_sql_ok able_db)
qed

lemma clear_able: "able k n w \<Longrightarrow> able k n (w\<lparr>w_batch := []\<rparr>)"
  by (simp add: able_def going_def paid_def queued_def stopped_def logged_def)

lemma store_progress_able:
  assumes "able k n w" "uint sp < 2 ^ 63"
  shows "wp (eng_bind (eng_get log_last_sequence) (\<lambda>last_sequence.
       eng_bind (total_elapsed_seconds A) (\<lambda>elapsed.
       eng_bind (ask (an_timestamp A)) (\<lambda>now.
       eng_then (run_sql A (record_progress (sd_encode S) (sd_scan_id S) last_sequence sp elapsed now))
         (eng_mod (\<lambda>w. w\<lparr>w_batch := []\<rparr>)))))) (\<lambda>_. able k n) (\<lambda>_. False) w"
  using assms sequence_small [OF assms(1)] ledger_time [OF assms(1)]
  by (simp, intro wp_mono [OF progress_able [of k n]]) (simp_all add: clear_able)

lemma flush_able:
  assumes "able (Suc k) n w"
  shows "wp (flush_progress S A e) (\<lambda>_. able k n) (\<lambda>_. False) w"
proof -
  have tail: "wp (eng_then (eng_when b (eng_then (log_event S A (Progress u e sp)) (eng_mod (\<lambda>w. w\<lparr>w_last_progress := u\<rparr>)))) m)
      (\<lambda>_. able k n) (\<lambda>_. False) w'"
    if "able (Suc k) n w'" and m: "\<And>v. able k n v \<Longrightarrow> wp m (\<lambda>_. able k n) (\<lambda>_. False) v" for w' b u sp m
    using that(1) by (auto intro!: m wp_mono [OF wp_log_able [OF that(1)]] intro: able_less)
  have sync: "wp (log_force_sync A) (\<lambda>_ w'. able (Suc k) n w' \<and> w_batch w' = w_batch w) (\<lambda>_. False) w"
    using wp_conj [OF sync_able [OF assms] wp_force_sync_frame [of "\<lambda>_ w'. w_batch w' = w_batch w" w "\<lambda>_. True"]] by simp
  have mark: "wp (run_sql A (mark_units_done (sd_encode S) (sd_scan_id S) (w_batch w))) (\<lambda>_. able (Suc k) n) (\<lambda>_. False) w'"
    if "able (Suc k) n w' \<and> w_batch w' = w_batch w" for w'
    using mark_able [of "Suc k" n w'] that by simp
  have rest: "wp (eng_bind (eng_get (\<lambda>w. (rs_units_completed (w_summary w), w_last_progress w, lg_packets_spent (w_ledger w))))
        (\<lambda>(u, last_progress, sp).
       eng_then (eng_when (sat_sub u last_progress \<ge> max (sc_progress_every (sd_config S)) 1)
          (eng_then (log_event S A (Progress u e sp)) (eng_mod (\<lambda>w. w\<lparr>w_last_progress := u\<rparr>))))
      (eng_bind (eng_get log_last_sequence) (\<lambda>last_sequence.
       eng_bind (total_elapsed_seconds A) (\<lambda>elapsed.
       eng_bind (ask (an_timestamp A)) (\<lambda>now.
       eng_then (run_sql A (record_progress (sd_encode S) (sd_scan_id S) last_sequence sp elapsed now))
         (eng_mod (\<lambda>w. w\<lparr>w_batch := []\<rparr>)))))))) (\<lambda>_. able k n) (\<lambda>_. False) w'" if "able (Suc k) n w'" for w'
    unfolding wp_bind [of "eng_get _"] wp_simps prod.case
    by (rule tail [OF that], rule store_progress_able, assumption, rule spent_small [OF that])
  show ?thesis
  proof (cases "w_batch w = []")
    case True
    then show ?thesis using able_less [OF assms, of k n] by (simp add: flush_progress_def)
  next
    case False
    show ?thesis
      unfolding flush_progress_def wp_bind [of "eng_get w_batch"] wp_simps if_not_P [OF False] wp_then
      by (rule wp_mono [OF sync], rule wp_mono [OF mark], assumption, rule rest, assumption+)
  qed
qed

text \<open>Tasks: a unit in flight has room in the log for its event.\<close>

lemma able_flight:
  assumes "w_flight w = fs" "map fl_unit gs = map fl_unit fs"
  shows "able k n (w\<lparr>w_flight := gs\<rparr>) = able k n w"
  using assms map_eq_imp_length_eq [OF assms(2)]
  by (simp add: able_def going_def paid_def queued_def stopped_def logged_def del: list.set_map set_map)

lemma batch_able:
  "able k n w \<Longrightarrow> w_batch w = bs \<Longrightarrow> uint i < 2 ^ 63 \<Longrightarrow> able k n (w\<lparr>w_batch := bs @ [i]\<rparr>)"
  using going_batch [of n w "bs @ [i]" i] by (simp add: able_def)

lemma spend_able:
  assumes "able k (Suc n) w"
  shows "wp (try_spend 1) (\<lambda>go w'. go \<and> able k n w') (\<lambda>_. False) w"
proof -
  obtain x where x: "w_ledger w = l\<lparr>lg_packets_spent := x\<rparr>" "unat x + (Suc n + detection_probes S * length (w_flight w)) \<le> unat (maximum_packets (lg_budgets l))"
    using assms by (rule able_ledger)
  then have "unat x < unat (- 1 :: u64)" using unat_bounded [of "maximum_packets (lg_budgets l)"] by (simp add: unat_max_word)
  then have one: "unat (sat_add x 1) = Suc (unat x)" by (simp add: unat_sat_add unat_max_word)
  then have "\<not> maximum_packets (lg_budgets l) < sat_add x 1" using x(2) by (simp add: word_less_nat_alt)
  moreover have "able k n (w\<lparr>w_ledger := l\<lparr>lg_packets_spent := sat_add x 1\<rparr>\<rparr>)"
    using assms x one by (auto simp: able_def going_def paid_def queued_def stopped_def)
  ultimately show ?thesis by (simp add: wp_def try_spend_def try_spend_packets_def Let_def x(1))
qed

text \<open>Service detection finishes within its probes, with a finding of this run or none, and its finding is logged.\<close>

lemma detect_able:
  "able k (n + length ps) w \<Longrightarrow>
     wp (detect_loop S A u ps) (\<lambda>found w'. able k n w' \<and> (\<forall>x. found = Some x \<longrightarrow> detected S A x)) (\<lambda>_. False) w"
proof (induction ps arbitrary: w)
  case (Cons q qs)
  have spend: "wp (try_spend 1) (\<lambda>go w'. go \<and> able k (n + length qs) w') (\<lambda>_. False) w'" if "able k (n + length (q # qs)) w'" for w'
    using spend_able [of k "n + length qs" w'] that by simp
  have less: "able k (n + length qs) w' \<Longrightarrow> able k n w'" for w' by (erule able_less) simp_all
  have found: "detected S A \<lparr>sf_observation = ip_observation b, sf_evidence = pc_response c, sf_probe_id = pc_probe_id c, sf_rule_id = ip_rule_id b\<rparr>"
    if "an_capture A t = Some c" "interpret_capture (sd_rules S) c = b # bs" for t c b bs
    using that by (auto simp: detected_def)
  show ?case
    using Cons.prems
    by (auto simp: send_probes_def less intro: found intro!: wp_mono [OF spend] Cons.IH split: option.splits list.splits)
qed simp

lemma service_able:
  assumes "able k (n + detection_probes S) w" "sd_enabled (sd_detection S)"
  shows "wp (detect_service S A u) (\<lambda>found w'. able k n w' \<and> (\<forall>x. found = Some x \<longrightarrow> detected S A x)) (\<lambda>_. False) w"
proof -
  have "length (select_probes (ep_port (su_endpoint u)) (sd_intensity (sd_detection S)) (sd_probes S)) = detection_probes S"
    using assms(2) by (simp add: length_select_probes detection_probes_def)
  then show ?thesis
    using detect_able assms(1) able_less [OF assms(1), of k n] by (simp add: detect_service_def)
qed

lemma put_able:
  assumes "able k n w"
  shows "wp (put_evidence_capped S A bytes cap) (\<lambda>d w'. able k n w' \<and> (\<exists>bs. d = sd_hash S bs)) (\<lambda>_. False) w"
proof -
  have "\<exists>fs'. put (sd_hash S) pid q (sd_store S) (replicate 6 Done) bs fs = (Inr (sd_hash S bs), fs')" for pid q bs fs
    using put_run_done [of "sd_hash S" pid "sd_store S" bs q fs]
    by (cases "put_run (sd_hash S) pid (sd_store S) (replicate 6 Done) \<lparr>wr_bytes = bs, wr_seq = q, wr_stage = Begin\<rparr> fs")
      (auto simp: put_def put_result_def)
  then obtain fs' where "put (sd_hash S) (sd_pid S) (w_put_seq w) (sd_store S) (replicate 6 Done)
      (if length bytes > cap then take cap bytes else bytes) (w_disk w) = (Inr (sd_hash S (if length bytes > cap then take cap bytes else bytes)), fs')"
    by blast
  then show ?thesis using assms by (auto simp: wp_def put_evidence_capped_def put_capped_def Let_def)
qed

lemma emit_able:
  assumes "able (Suc k) n w" "detected S A x"
  shows "wp (emit_service_observed S A u x) (\<lambda>_. able k n) (\<lambda>_. False) w"
proof -
  have plain: "plain_body S A p (ServiceObserved ip ep (sf_observation x) (ne_new (sd_hash S bs)) (sf_probe_id x) (Some (sf_rule_id x)))" for ip ep bs
    using assms(2) by auto
  have "wp (eng_bind (put_evidence_capped S A (sf_evidence x) cap) (\<lambda>digest.
      log_event S A (ServiceObserved (su_target u) (su_endpoint u) (sf_observation x)
        (ne_new digest) (sf_probe_id x) (Some (sf_rule_id x))))) (\<lambda>_. able k n) (\<lambda>_. False) w" for cap
    unfolding wp_bind
    using plain by (intro wp_mono [OF put_able [OF assms(1)]]) (auto intro!: wp_log_able)
  moreover have "able k n w" using able_less [OF assms(1)] by simp
  ultimately show ?thesis by (simp add: emit_service_observed_def split: evidence_level.split)
qed

lemma record_able:
  assumes "able (Suc (Suc k)) (n + detection_probes S) w" "uint (su_index u) < 2 ^ 63"
  shows "wp (record_unit S A u st lf) (\<lambda>_. able k n) (\<lambda>_. False) w"
proof -
  have less: "able (Suc k) (n + detection_probes S) w' \<Longrightarrow> able k n w'" for w' by (erule able_less) simp_all
  have emit: "able (Suc k) n w' \<and> (\<forall>x. found = Some x \<longrightarrow> detected S A x) \<Longrightarrow>
      wp (case found of None \<Rightarrow> eng_ret () | Some x \<Rightarrow> emit_service_observed S A u x) (\<lambda>_. able k n) (\<lambda>_. False) w'" for found w'
    using able_less [of "Suc k" n w' k n] emit_able by (cases found) simp_all
  have detect: "wp (eng_when (st = Open)
       (eng_then (set_summary (\<lambda>s. s\<lparr>rs_open_ports := rs_open_ports s + 1\<rparr>))
         (eng_when (sd_enabled (sd_detection S))
           (eng_bind (detect_service S A u) (\<lambda>found.
            case found of
              None \<Rightarrow> eng_ret ()
            | Some finding \<Rightarrow> emit_service_observed S A u finding))))) (\<lambda>_. able k n) (\<lambda>_. False) w'"
    if "able (Suc k) (n + detection_probes S) w'" for w'
    using that less [OF that]
    by (cases "st = Open"; cases "sd_enabled (sd_detection S)") (simp_all add: wp_mono [OF service_able] emit less)
  show ?thesis
    unfolding record_unit_def wp_then [of "log_event _ _ _"] wp_then [of "eng_when (st = Open) _"]
    using batch_able [OF _ refl assms(2), of k n]
    by (intro wp_mono [OF wp_log_able [OF assms(1)]] wp_mono [OF detect]) simp_all
qed

lemma join_able:
  assumes "able k n w" "i < length (w_flight w)"
  shows "wp (join_at S A i) (\<lambda>_. able k n) (\<lambda>_. False) w"
proof -
  let ?fs = "w_flight w"
  have len: "length ?fs = Suc (length (remove_nth i ?fs))" using assms(2) length_remove_nth [of i ?fs] by simp
  have fs: "set ?fs = insert (?fs ! i) (set (remove_nth i ?fs))" using set_remove_nth [OF assms(2)] by simp
  have idx: "uint (su_index (fl_unit (?fs ! i))) < 2 ^ 63"
    using assms by (auto simp: able_def going_def queued_def)
  have "able (Suc (Suc k)) (n + detection_probes S) (w\<lparr>w_flight := remove_nth i ?fs\<rparr>)"
    using assms(1) unfolding able_def going_def paid_def queued_def stopped_def logged_def
    by (simp add: len fs add.assoc)
  then have "able (Suc (Suc k)) (n + detection_probes S) (w\<lparr>w_flight := remove_nth i ?fs, w_tick := Suc (w_tick w)\<rparr>)" by simp
  from record_able [OF this idx] show ?thesis by (simp add: join_at_def)
qed

lemma try_join_able: "able k n w \<Longrightarrow> wp (try_join_all S A m) (\<lambda>_. able k n) (\<lambda>_. False) w"
proof (induction m arbitrary: w)
  case (Suc m)
  have go: "wp (join_at S A (ready fs ! (j mod length (ready fs)))) (\<lambda>_. wp (try_join_all S A m) (\<lambda>_. able k n) (\<lambda>_. False)) (\<lambda>_. False) w"
    if "able k n w" "w_flight w = fs" "ready fs \<noteq> []" for w fs j
  proof (rule wp_mono [OF join_able [OF that(1)]])
    have "ready fs ! (j mod length (ready fs)) \<in> set (ready fs)" using that(3) by simp
    then show "ready fs ! (j mod length (ready fs)) < length (w_flight w)" using ready_lt that(2) by blast
  qed (simp_all add: Suc.IH)
  show ?case
    using Suc.prems by (auto simp: let_tasks_run_def able_flight finish_units intro!: go)
qed simp

lemma join_all_able: "able k n w \<Longrightarrow> wp (join_all S A m) (\<lambda>_. able k n) (\<lambda>_. False) w"
proof (induction m arbitrary: w)
  case (Suc m)
  then show ?case by (auto intro!: wp_mono [OF join_able])
qed simp

lemma await_able: "able k n w \<Longrightarrow> wp (await_permit S A) (\<lambda>go w'. go \<and> able k n w') (\<lambda>_. False) w"
  by (auto simp: await_permit_def let_tasks_run_def able_flight finish_units)

lemma dispatch_able:
  assumes "able (Suc (Suc k)) (n + detection_probes S) w" "uint (su_index u) < 2 ^ 63"
  shows "wp (dispatch S A u) (\<lambda>go w'. go \<and> able k n w') (\<lambda>_. False) w"
proof -
  have none: "w_client w = None" using assms(1) by (simp add: able_def going_def)
  have "able k n (v\<lparr>w_flight := fs @ [f]\<rparr>)" if "able (Suc (Suc k)) (n + detection_probes S) v" "w_flight v = fs" "fl_unit f = u" for v f fs
    using that assms(2) unfolding able_def going_def paid_def queued_def stopped_def logged_def by (simp add: add.assoc)
  then show ?thesis
    using assms(1) none by (auto simp: dispatch_def send_probes_def split: prod.split)
qed

lemma able_Suc: "able (Suc k) n w \<Longrightarrow> able k n w"
  by (simp add: able_less)

lemma drive_able:
  "able (3 * length us + k) (length us * unit_probes S) w \<Longrightarrow> plan_units p us \<Longrightarrow> \<forall>u \<in> set us. uint (su_index u) < 2 ^ 63 \<Longrightarrow>
     wp (drive S A e ds us) (\<lambda>_. able k 0) (\<lambda>_. False) w"
proof (induction us arbitrary: w)
  case Nil
  then show ?case by (subst drive.simps) (simp add: ledger_time)
next
  case (Cons u us)
  have u: "uint (su_index u) < 2 ^ 63" "is_permitted S (su_target u)"
    using Cons.prems(2,3) permitted [of "su_index u" u] by (auto simp: plan_units_def is_permitted_def)
  let ?k = "3 * length us + k" and ?n = "length us * unit_probes S"
  have rest: "wp (drive S A e ds us) (\<lambda>_. able k 0) (\<lambda>_. False) w'" if "able ?k ?n w'" for w'
    using Cons.IH [OF that] Cons.prems(2,3) by (simp add: plan_units_def)
  have go: "wp (dispatch S A u) (\<lambda>go w'. wp (if \<not> go then eng_ret () else
        eng_bind (eng_get (\<lambda>w. length (w_flight w))) (\<lambda>m. eng_then (try_join_all S A m)
          (eng_bind (eng_get (\<lambda>w. length (w_batch w))) (\<lambda>b.
           eng_then (eng_when (b \<ge> store_flush_batch) (flush_progress S A e)) (drive S A e ds us)))))
      (\<lambda>_. able k 0) (\<lambda>_. False) w') (\<lambda>_. False) w'" if "able (Suc (Suc (Suc ?k))) (?n + detection_probes S) w'" for w'
    using that
    by (intro wp_mono [OF dispatch_able [OF that u(1)]])
      (auto intro!: wp_mono [OF try_join_able] wp_mono [OF flush_able] rest intro: able_Suc)
  have room: "3 * length (u # us) + k = Suc (Suc (Suc ?k))" "length (u # us) * unit_probes S = Suc (?n + detection_probes S)"
    by (simp_all add: unit_probes_def)
  have w: "able (Suc (Suc (Suc ?k))) (Suc (?n + detection_probes S)) w" using Cons.prems(1) unfolding room .
  show ?case
    using w u(2)
    by (subst drive.simps)
      (auto simp: ledger_time intro!: rest wp_mono [OF await_able] wp_mono [OF spend_able] go intro: able_less)
qed

lemma units_able:
  assumes "able (3 * unat (plan_len p) + Suc k) (unat (plan_len p) * unit_probes S) w" "plan_wf p"
  shows "wp (run_units S A p i) (\<lambda>_. able k 0) (\<lambda>_. False) w"
proof -
  define us where "us = map (unit_at p) [unat i..<unat (plan_len p)]"
  have us: "units_from p i = Ret us"
    using units_from_eq [OF assms(2)] by (simp add: us_def unat_plan_len [OF assms(2)])
  then have pu: "plan_units p us" using units_from_indices by blast
  have idx: "\<forall>u \<in> set us. uint (su_index u) < 2 ^ 63"
  proof
    fix u assume "u \<in> set us"
    then obtain j where j: "j < unat (plan_len p)" "u = unit_at p j" by (auto simp: us_def)
    then have "j < 2 ^ 63" using plan_wf_bounds(3) [OF assms(2)] unat_plan_len [OF assms(2)] by simp
    then show "uint (su_index u) < 2 ^ 63" by (simp add: j(2) unit_at_def uint_nat unat_of_nat)
  qed
  have len: "length us \<le> unat (plan_len p)" by (simp add: us_def)
  obtain ds where ds: "completed_units (sd_encode S) (sd_scan_id S) (w_db w) = Inr ds"
    using assms(1) completed_units_exact by (auto simp: able_def going_def row_there_def) metis
  have fin: "wp (eng_bind (eng_get (\<lambda>w. length (w_flight w))) (\<lambda>n. eng_then (join_all S A n) (flush_progress S A (plan_len p))))
      (\<lambda>_. able k 0) (\<lambda>_. False) w'" if "able (Suc k) 0 w'" for w'
    using that by (auto intro!: wp_mono [OF join_all_able] flush_able)
  have "able (3 * length us + Suc k) (length us * unit_probes S) w" using able_less [OF assms(1)] len by simp
  then have "able (3 * length us + Suc k) (length us * unit_probes S) (w\<lparr>w_tick := Suc (w_tick w), w_db := w_db w\<rparr>)"
    by (rule able_db) (use assms(1) in \<open>simp add: able_def going_def\<close>)
  note drive = drive_able [OF this pu idx]
  show ?thesis
    unfolding run_units_def wp_bind [of "run_sql _ _"]
    by (rule wp_sql_ok [of _ w ds "w_db w"], simp add: ds, unfold us rust.case wp_then [of "drive _ _ _ _ _"], rule wp_mono [OF drive], erule fin, assumption)
qed

lemma block_able:
  assumes "able (3 * unat (plan_len p) + Suc (Suc k)) (unat (plan_len p) * unit_probes S) w" "plan_wf p"
  shows "wp (dispatch_block S A p i) (\<lambda>_. able k 0) (\<lambda>_. False) w"
proof -
  have cfg: "sc_packetd_binary (sd_config S) = None" "sd_objective S \<noteq> HostInventory"
    using connect_scan by (simp_all add: connect_scan_def)
  let ?k = "3 * unat (plan_len p) + Suc k" and ?n = "unat (plan_len p) * unit_probes S"
  have start: "wp (eng_when first (log_event S A (ScanStarted (pl_hash p) t n (Some TcpConnect) None)))
      (\<lambda>_. able ?k ?n) (\<lambda>_. False) w'" if "able (Suc ?k) ?n w'" for first t n w'
    using wp_log_able [OF that, of "ScanStarted (pl_hash p) t n (Some TcpConnect) None"] able_Suc [OF that] by simp
  have units: "wp (run_units S A p i) (\<lambda>_. able k 0) (\<lambda>_. False) w'" if "able ?k ?n w'" for w'
    using units_able [OF that assms(2)] .
  have objective: "(b \<and> sd_objective S = HostInventory) = False" for b using cfg(2) by simp
  have "able (Suc ?k) ?n w" using assms(1) by simp
  then have w: "able (Suc ?k) ?n (w\<lparr>w_summary := (w_summary w)\<lparr>rs_scan_mode := m, rs_packetd_fallback := d\<rparr>\<rparr>)" for m d
    by simp
  show ?thesis
    unfolding dispatch_block_def choose_method_def cfg(1) option.case objective if_False wp_bind wp_then wp_simps prod.case
    by (rule wp_mono [OF start [OF w]], erule units, assumption)
qed

text \<open>The end of the run.\<close>

abbreviation final_event :: "run_summary \<Rightarrow> event_body" where
  "final_event s \<equiv> ScanCompleted (rs_units_completed s) (rs_packets_spent s) (rs_open_ports s)"

definition closed :: "world \<Rightarrow> bool" where
  "closed w \<longleftrightarrow> \<not> stopped w \<and> has_status S TCompleted (w_db w) \<and>
     (\<exists>es. holds (sd_log_env S) (w_file w) es \<and> lf_synced (w_file w) = length (log_text (sd_log_env S) es) \<and>
        \<not> lf_locked (w_file w) \<and> ends (final_event (w_summary w)) (w_file w) es)"

definition concluded :: "world \<Rightarrow> bool" where
  "concluded w \<longleftrightarrow> going 0 w \<and> logged (ends (final_event (w_summary w))) 0 w"

lemma conclude_able:
  assumes "able (Suc 0) 0 w"
  shows "wp (conclude S A) (\<lambda>st w'. st = TCompleted \<and> concluded w') (\<lambda>_. False) w"
proof -
  let ?s = "w_summary w"
  let ?b = "final_event ?s"
  have "\<not> stopped w" using assms by (simp add: able_def going_def)
  then have go: "w_failure w = None" "w_denial w = None" "rs_budget_exhausted ?s = False" "rs_time_exhausted ?s = False"
    "rs_cancelled ?s = False"
    unfolding stopped_def by blast+
  have log: "wp (log_event S A ?b) (\<lambda>_ w'. (going 0 w' \<and> logged (ends ?b) 0 w') \<and> w_summary w' = ?s) (\<lambda>_. False) w"
  proof -
    have "wp (log_event S A ?b) (\<lambda>_ w'. w_summary w' = ?s) (\<lambda>_. True) w" by (rule wp_log_event_frame) simp_all
    moreover have "wp (log_event S A ?b) (\<lambda>_ w'. going 0 w' \<and> logged (ends ?b) 0 w') (\<lambda>_. False) w"
      by (rule wp_log_ends [OF assms]) simp
    ultimately show ?thesis using wp_conj by fastforce
  qed
  show ?thesis
    by (simp add: conclude_def go) (rule wp_mono [OF log], simp_all add: concluded_def)
qed

lemma release_closed:
  assumes "going 0 w" "logged (\<lambda>f es. ends (final_event (w_summary w)) f es \<and> flushed (sd_log_env S) f es (length es)) 0 w"
  shows "wp (publish_terminal_status S A TCompleted) (\<lambda>_. closed) (\<lambda>_. False) w"
proof -
  obtain es where es: "gc_live (sd_log_env S) (w_gc w) (w_file w) es" "ends (final_event (w_summary w)) (w_file w) es"
    "flushed (sd_log_env S) (w_file w) es (length es)"
    using assms(2) unfolding logged_def by blast
  obtain g f where rel: "gc_release_writer_lock NoFault False (an_instant A (w_tick w)) (w_gc w) (w_file w) = (Inr (), g, f)"
    "holds (sd_log_env S) f es" "lf_synced f = length (log_text (sd_log_env S) es)" "\<not> lf_locked f"
    using release_calm [OF es(1,3)] by blast
  obtain d where d: "set_status (sd_encode S) (sd_scan_id S) TCompleted now (w_db w) = (Inr (), d now)"
    "has_status S TCompleted (d now)" for now
    using status_succeeds [of S "w_db w"] assms(1) unfolding going_def by metis
  have "\<not> stopped w" using assms(1) by (simp add: going_def)
  then show ?thesis
    using rel es(2) d
    by (simp add: wp_def publish_terminal_status_def eng_then_def eng_bind_def log_release_def ask_def run_sql_def Let_def)
      (auto simp: closed_def ends_def stopped_def)
qed

lemma close_able:
  assumes "concluded w" "uint spent < 2 ^ 63"
  shows "wp (close_run S A spent TCompleted) (\<lambda>_. closed) (\<lambda>_. False) w"
proof -
  let ?s = "w_summary w"
  define safe where "safe w' \<longleftrightarrow> w_summary w' = ?s \<and> going 0 w' \<and>
    logged (\<lambda>f es. ends (final_event ?s) f es \<and> flushed (sd_log_env S) f es (length es)) 0 w'" for w'
  have sync: "wp (log_force_sync A) (\<lambda>_. safe) (\<lambda>_. False) w"
    using assms(1) unfolding concluded_def
    by (intro wp_mono [OF wp_sync_ends [of 0 w "ends (final_event ?s)" 0]]) (auto simp: safe_def ends_def)
  have progress: "wp (run_sql A (record_progress (sd_encode S) (sd_scan_id S) q spent e now)) (\<lambda>_. safe) (\<lambda>_. False) w'"
    if "safe w'" "uint q < 2 ^ 63" "uint e < 2 ^ 63" for q e now w'
  proof -
    have "row_there S (w_db w')" using that(1) by (simp add: safe_def going_def)
    from progress_succeeds [OF this that(2) assms(2) that(3), of now] obtain d where
      d: "record_progress (sd_encode S) (sd_scan_id S) q spent e now (w_db w') = (Inr (), d)" "row_there S d" by blast
    have "safe (w'\<lparr>w_tick := t, w_db := d\<rparr>)" for t
      using that(1) d(2) by (simp add: safe_def going_db)
    then show ?thesis using d(1) by (auto intro: wp_sql_ok)
  qed
  have publish: "wp (publish_terminal_status S A TCompleted) (\<lambda>_. closed) (\<lambda>_. False) w'" if "safe w'" for w'
    using that unfolding safe_def by (intro release_closed) simp_all
  have able: "able 0 0 w'" if "safe w'" for w' using that by (auto simp: safe_def able_def intro: logged_less)
  have tick: "safe (w'\<lparr>w_tick := t\<rparr>) = safe w'" for w' t by (simp add: safe_def)
  show ?thesis
    unfolding close_run_def wp_then wp_bind [of "eng_get log_last_sequence"] wp_simps
    by (rule wp_mono [OF sync])
      (auto simp: tick intro!: wp_mono [OF progress] wp_mono [OF publish] sequence_small [OF able] ledger_time [OF able])
qed

abbreviation ready_to_run :: "world \<Rightarrow> bool" where
  "ready_to_run \<equiv> able (3 * unat (plan_len p) + 3) (unat (plan_len p) * unit_probes S)"

lemma open_able:
  assumes "ready_to_run w" "plan_wf p" "tr_scope_id rec = sm_id (sd_manifest S)"
  shows "wp (run_open S A p i rec) (\<lambda>_. closed) (\<lambda>_. False) w"
proof -
  have conclude: "wp (eng_bind (eng_get (\<lambda>w. lg_packets_spent (w_ledger w))) (\<lambda>spent.
     eng_then (set_summary (\<lambda>s. s\<lparr>rs_packets_spent := spent\<rparr>))
    (eng_bind (conclude S A) (close_run S A spent)))) (\<lambda>_. closed) (\<lambda>_. False) w'" if "able (Suc 0) 0 w'" for w'
    using that
    by (auto intro!: wp_mono [OF conclude_able] close_able spent_small)
  have "able (3 * unat (plan_len p) + Suc (Suc (Suc 0))) (unat (plan_len p) * unit_probes S) (w\<lparr>w_tick := t\<rparr>)" for t
    using assms(1) by (simp add: numeral_3_eq_3)
  note block = block_able [OF this assms(2)]
  have "w_denial w = None" using assms(1) unfolding able_def going_def stopped_def by blast
  then have permitted: "(w_denial (w\<lparr>w_tick := t\<rparr>) = None) = True" for t by simp
  have check: "wp (check_scope S A rec) (\<lambda>_ w'. \<exists>t. w' = w\<lparr>w_tick := t\<rparr>) (\<lambda>_. False) w"
    by (auto simp: check_scope_def assms(3) unexpired)
  have go: "wp (eng_bind (eng_get (\<lambda>w. w_denial w = None)) (\<lambda>permitted.
     eng_then (eng_when permitted (dispatch_block S A p i))
    (eng_bind (eng_get (\<lambda>w. lg_packets_spent (w_ledger w))) (\<lambda>spent.
     eng_then (set_summary (\<lambda>s. s\<lparr>rs_packets_spent := spent\<rparr>))
    (eng_bind (conclude S A) (close_run S A spent)))))) (\<lambda>_. closed) (\<lambda>_. False) (w\<lparr>w_tick := t\<rparr>)" for t
    unfolding wp_bind [of "eng_get _"] wp_simps permitted eng_when.simps wp_then [of "dispatch_block _ _ _ _"]
    by (rule wp_mono [OF block]) (use conclude in \<open>simp_all only: wp_bind wp_simps\<close>)
  show ?thesis
    unfolding run_open_def wp_then [of "check_scope _ _ _"]
    by (rule wp_mono [OF check]) (use go in blast)+
qed

text \<open>A log whose last event did not end the scan, and a record that fits the plan.\<close>

lemma resumable:
  assumes "able k n w" "gc_live (sd_log_env S) (w_gc w) (w_file w) es" "length (log_text (sd_log_env S) es) < 2 ^ 63"
    and "es = [] \<or> \<not> is_terminal (ev_body (List.last es))"
  shows "already_terminated S w = (Inr False, w)"
proof (cases es rule: rev_cases)
  case Nil
  then show ?thesis using last_number [OF assms(2,3)] by (simp add: already_terminated_def eng_bind_def eng_get_def eng_ret_def)
next
  case (snoc xs e)
  have nr: "log_last_sequence w = of_nat (Suc (length xs))" "Suc (length xs) < 2 ^ 63"
    using last_number [OF assms(2,3)] by (simp_all add: snoc)
  have "Suc (length xs) < 2 ^ 64" using nr(2) by simp
  then have "unat (of_nat (Suc (length xs)) :: u64) = Suc (length xs)" by (intro unat_of_nat_small) simp
  then have "unat (log_last_sequence w) = Suc (length xs)" by (simp only: nr(1))
  then have nz: "log_last_sequence w \<noteq> 0" and cursor: "unat (log_last_sequence w - 1) = length xs"
    by (auto simp: unat_sub_if' word_le_nat_alt)
  have "writer_inv (sd_log_env S) (gc_log (w_gc w)) (w_file w) es" using assms(2) by (simp add: gc_live_def)
  from reads [OF this, of "log_last_sequence w - 1"]
  have "log_read_from (sd_log_env S) (gc_log (w_gc w)) (w_file w) (log_last_sequence w - 1) = Inr [reread settle e]"
    unfolding cursor by (simp add: snoc)
  moreover have "is_terminal (ev_body (reread settle e)) = is_terminal (ev_body e)"
    by (cases "ev_body e") (simp_all add: reread_def)
  ultimately show ?thesis
    using nz assms(4) by (simp add: already_terminated_def eng_bind_def eng_get_def eng_ret_def snoc)
qed

lemma body_able:
  assumes "ready_to_run w" "plan_wf p"
    and "store_get (sd_encode S) (sd_decode S) (sd_scan_id S) (w_db w) = Ret (Inr (Some rec))"
    and "tr_plan_hash rec = pl_hash p" "tr_scope_id rec = sm_id (sd_manifest S)"
    and "gc_live (sd_log_env S) (w_gc w) (w_file w) es" "length (log_text (sd_log_env S) es) < 2 ^ 63"
    and "es = [] \<or> \<not> is_terminal (ev_body (List.last es))"
    and "idle d w" "db_ok (sd_decode S) d"
  shows "wp (run_body S A p i) (\<lambda>s w'. s = w_summary w' \<and> closed w' \<and> given p i \<subseteq> finished S w') (\<lambda>_. False) w"
proof -
  let ?D = "done_units (sd_encode S) (sd_scan_id S) d"
  define w1 where "w1 = w\<lparr>w_tick := Suc (w_tick w)\<rparr>"
  have w1: "ready_to_run w1" "idle d w1" using assms(1,9) by (simp_all add: w1_def)
  have open_scan: "already_terminated S w1 = (Inr False, w1)"
    using resumable [OF w1(1) _ assms(7,8)] assms(6) by (simp add: w1_def)
  have same: "w1\<lparr>w_db := w_db w\<rparr> = w1" by (simp add: w1_def)
  have "run_body S A p i w = run_open S A p i rec w1"
    using assms(3,4) open_scan same
    by (simp add: run_body_def load_record_def eng_bind_def run_sql_def eng_ret_def Let_def w1_def [symmetric])
  then have eq: "wp (run_body S A p i) Q E w = wp (run_open S A p i rec) Q E w1" for Q E by (simp add: wp_def)
  from wp_conj [OF open_reported [OF assms(10) w1(2)] open_able [OF w1(1) assms(2,5)]]
  show ?thesis
    unfolding eq
    by (rule wp_mono) (auto simp: reported_def ended_def closed_def)
qed

end

section \<open>The sample run is undisturbed\<close>

lemma show_nat_short: "n < 10 ^ k \<Longrightarrow> length (show_nat n) \<le> max 1 k"
proof (induction k arbitrary: n)
  case 0
  then show ?case by (simp add: show_nat_def digits_rev_base)
next
  case (Suc k)
  show ?case
  proof (cases "n < 10")
    case True
    then show ?thesis by (simp add: show_nat_def digits_rev_base)
  next
    case False
    have "n div 10 < 10 ^ k" using Suc.prems by (simp add: less_mult_imp_div_less mult.commute)
    then have "length (show_nat (n div 10)) \<le> max 1 k" by (rule Suc.IH)
    moreover have "0 < k" using False Suc.prems by (cases k) auto
    ultimately show ?thesis using False by (simp add: show_nat_def digits_rev_step)
  qed
qed

definition short :: "nat \<Rightarrow> nat list \<Rightarrow> bool" where
  "short k ns \<longleftrightarrow> (\<forall>n \<in> set ns. n < 10 ^ 39) \<and> length ns \<le> k"

lemma tokens_short: "short k ns \<Longrightarrow> length (tokens_text ns) \<le> Suc (40 * k)"
proof -
  have "\<forall>n \<in> set ns. n < 10 ^ 39 \<Longrightarrow> length (tokens_text ns) \<le> Suc (40 * length ns)"
  proof (induction ns)
    case (Cons n ns)
    then have "length (show_nat n) \<le> 39" using show_nat_short [of n 39] by simp
    then show ?case using Cons by simp
  qed simp
  then show "short k ns \<Longrightarrow> length (tokens_text ns) \<le> Suc (40 * k)" by (auto simp: short_def)
qed

lemma unat_short: "LENGTH('a::len) \<le> 128 \<Longrightarrow> unat (x :: 'a word) < 10 ^ 39"
proof -
  assume "LENGTH('a) \<le> 128"
  then have "(2::nat) ^ LENGTH('a) \<le> 2 ^ 128" by (rule power_increasing) simp
  then have "unat x < 2 ^ 128" using unat_bounded [of x] by (rule less_le_trans [rotated])
  then show ?thesis by simp
qed

lemma short_word: "LENGTH('a::len) \<le> 128 \<Longrightarrow> short 1 (codec.put word_codec (x :: 'a word))"
  using unat_short [of x] by (simp add: short_def word_codec_def via_def nat_codec_def)

lemma short_via: "short k (codec.put c (f x)) \<Longrightarrow> short k (codec.put (via f g c) x)"
  by (simp add: via_def)

lemma short_pair: "short i (codec.put c a) \<Longrightarrow> short j (codec.put d b) \<Longrightarrow> short (i + j) (codec.put (pair_codec c d) (a, b))"
  by (auto simp: short_def pair_codec_def)

lemma short_sum:
  "short i (codec.put c a) \<Longrightarrow> short (Suc i) (codec.put (sum_codec c d) (Inl a))"
  "short i (codec.put d b) \<Longrightarrow> short (Suc i) (codec.put (sum_codec c d) (Inr b))"
  by (auto simp: short_def sum_codec_def)

lemma short_enum: "index_of x xs = Some k \<Longrightarrow> k < 4 \<Longrightarrow> short 1 (codec.put (enum_codec xs) x)"
  by (simp add: short_def enum_codec_def via_def nat_codec_def)

lemma short_none: "short 2 (codec.put (option_codec c) None)"
  by (simp add: short_def option_codec_def via_def sum_codec_def nat_codec_def)

lemma short_some: "short k (codec.put c x) \<Longrightarrow> short (Suc k) (codec.put (option_codec c) (Some x))"
  unfolding option_codec_def by (intro short_via) (simp add: short_sum)

lemmas codec_defs = via_def sum_codec_def pair_codec_def word_codec_def nat_codec_def enum_codec_def short_def

lemma short_ip: "short 2 (codec.put ip_codec ip)"
  by (cases ip) (simp_all add: ip_codec_def codec_defs unat_short [simplified])

lemma short_endpoint: "short 2 (codec.put endpoint_codec ep)"
  by (cases ep; cases "ep_transport ep") (simp_all add: endpoint_codec_def codec_defs unat_short [simplified])

lemma short_state: "short 1 (codec.put (enum_codec [Open, Closed, Filtered, Indeterminate]) st)"
  by (cases st) (simp_all add: codec_defs)

lemma short_triple: "short 3 (codec.put triple_codec (a, b, c))"
  using short_pair [OF short_word short_pair [OF short_word short_word], of a b c]
  by (simp add: triple_codec_def numeral_3_eq_3)

lemma short_body:
  assumes "plain_body sample_scheduler calm one_unit_plan b"
  shows "short 60 (codec.put body_codec b)"
proof -
  have no_service: "\<not> detected sample_scheduler calm x" for x by (simp add: detected_def calm_def)
  have more: "short i ns \<Longrightarrow> i \<le> 60 \<Longrightarrow> short 60 ns" for i ns by (simp add: short_def)
  have digest: "short 40 (codec.put digest_codec (pl_hash one_unit_plan))"
    by (simp add: one_unit_plan_def digest_codec_def list_codec_def codec_defs)
  have mode: "short 2 (codec.put (option_codec (enum_codec [TcpConnect, TcpSyn])) (Some TcpConnect))"
    by (simp add: option_codec_def codec_defs)
  have started: "short (Suc (40 + (1 + (1 + (2 + 2))))) (codec.put body_codec (ScanStarted (pl_hash one_unit_plan) x y (Some TcpConnect) None))" for x y
    unfolding body_codec_def
    by (rule short_via, simp only: body_to_sum.simps, rule short_sum(1), rule short_pair [OF digest],
      rule short_pair [OF short_word], simp, rule short_pair [OF short_word], simp, rule short_pair [OF mode short_none])
  have port: "short (Suc (Suc (Suc (2 + (2 + (1 + 2)))))) (codec.put body_codec (PortStateObserved ip ep st None))" for ip ep st
    unfolding body_codec_def
    by (rule short_via, simp only: body_to_sum.simps, rule short_sum(2), rule short_sum(2), rule short_sum(1),
      rule short_pair [OF short_ip], rule short_pair [OF short_endpoint], rule short_pair [OF short_state short_none])
  have progress: "short (Suc (Suc (Suc (Suc (Suc 3))))) (codec.put body_codec (Progress x y z))" for x y z
    unfolding body_codec_def
    by (rule short_via, simp only: body_to_sum.simps, (rule short_sum(2))+, rule short_sum(1), rule short_triple)
  have completed: "short (Suc (Suc (Suc (Suc (Suc (Suc (Suc 3))))))) (codec.put body_codec (ScanCompleted x y z))" for x y z
    unfolding body_codec_def
    by (rule short_via, simp only: body_to_sum.simps, (rule short_sum(2))+, rule short_sum(1), rule short_triple)
  show ?thesis
    using assms no_service more [OF started] more [OF port] more [OF progress] more [OF completed] by (cases b) simp_all
qed

lemma sample_fits: "fits sample_scheduler calm one_unit_plan 4000"
proof -
  have "\<exists>s. env_write sample_log_env (next_event log b ''t'' ''v'') = Inr s \<and> length s < 4000"
    if "plain_body sample_scheduler calm one_unit_plan b" for log b
  proof -
    have str: "short 2 (codec.put string_codec [CHR ''t''])" "short 2 (codec.put string_codec [CHR ''v''])"
      by (simp_all add: string_codec_def list_codec_def codec_defs)
    have "short (1 + (1 + (2 + (2 + 60)))) (codec.put event_value_codec (next_event log b ''t'' ''v''))"
      unfolding event_value_codec_def next_event_def
      by (intro short_via) (simp only: event.simps, intro short_pair short_word str short_body that; simp)
    from tokens_short [OF this] show ?thesis
      by (simp add: sample_log_env_def write_tokens_def)
  qed
  then show ?thesis by (simp add: fits_def sample_scheduler_def calm_def)
qed

lemma sample_allows: "allows prefixed_net sample_manifest (V4 0x0A000001)"
proof -
  have "net_contains prefixed_net (Net4 0x0A000000 8) (V4 0x0A000001)" by (simp add: prefixed_net_def)
  moreover have "is_ordinary_unicast (V4 0x0A000001)" by code_simp
  ultimately show ?thesis by (simp add: allows_def sample_manifest_def)
qed

lemma sample_plan_wf: "plan_wf one_unit_plan"
  by (simp add: plan_wf_def one_unit_plan_def bs_wf_def v4_only_def)

interpretation sample_undisturbed: undisturbed sample_scheduler id calm one_unit_plan 4000 "ledger_new sample_budgets"
proof (unfold undisturbed_def undisturbed_axioms_def, intro conjI allI impI)
  show "log_codec (sd_log_env sample_scheduler) id" by (simp add: sample_scheduler_def sample_codec)
  show "quiet calm" by (simp add: quiet_def calm_def)
  show "in_time calm (ledger_new sample_budgets)"
    by (simp add: in_time_def calm_def ledger_new_def elapsed_exceeded_def sat_add_def sample_budgets_def)
  show "connect_scan sample_scheduler" by (simp add: connect_scan_def sample_scheduler_def)
  show "fits sample_scheduler calm one_unit_plan 4000" by (rule sample_fits)
  show "uint (maximum_packets (lg_budgets (ledger_new sample_budgets))) < 2 ^ 63"
    by (simp add: ledger_new_def sample_budgets_def)
  show "\<not> is_expired (sd_parse_time sample_scheduler) (sd_manifest sample_scheduler) (an_timestamp calm t)" for t
    by (simp add: is_expired_def sample_scheduler_def sample_manifest_def)
  fix i u assume u: "plan_unit one_unit_plan i = Ret (Some u)"
  have "su_target u = V4 0x0A000001"
    using u unfolding plan_unit_eq [OF sample_plan_wf] by (auto simp: one_unit_plan_def unit_at_def split: if_splits)
  then show "allows (sd_net sample_scheduler) (sd_manifest sample_scheduler) (su_target u)"
    using sample_allows by (simp add: sample_scheduler_def)
qed

text \<open>What a run starts from, and what the undisturbed run leaves.\<close>

lemma start_able:
  assumes "gc_live (sd_log_env S) g f es" "row_there S d"
    and "length (log_text (sd_log_env S) es) + B * (3 * unat (plan_len p) + 3) < 2 ^ 63"
    and "unat (lg_packets_spent l) + unat (plan_len p) * unit_probes S \<le> unat (maximum_packets (lg_budgets l))"
    and u: "undisturbed S settle A p B l"
  shows "undisturbed.able S B l (3 * unat (plan_len p) + 3) (unat (plan_len p) * unit_probes S) (start_state l g f d fs seq)"
proof -
  have "\<exists>x. l = l\<lparr>lg_packets_spent := x\<rparr> \<and> unat x + unat (plan_len p) * unit_probes S \<le> unat (maximum_packets (lg_budgets l))"
    using assms(4) by (intro exI [of _ "lg_packets_spent l"]) simp
  then show ?thesis
    using assms(1-3)
    by (auto simp: undisturbed.able_def [OF u] undisturbed.going_def [OF u] undisturbed.logged_def [OF u]
        undisturbed.paid_def [OF u] undisturbed.queued_def [OF u] start_state_def stopped_def run_summary_default_def)
qed

lemma found_row:
  "store_get (sd_encode S) (sd_decode S) (sd_scan_id S) d = Ret (Inr (Some rec)) \<Longrightarrow> db_ok (sd_decode S) d \<Longrightarrow> row_there S d"
  by (auto simp: store_get_def row_there_def find_Some_iff image_iff split: option.splits) (metis nth_mem)

lemma scan_completes:
  assumes "undisturbed S settle A p B l" "plan_wf p" "db_ok (sd_decode S) d"
    and "store_get (sd_encode S) (sd_decode S) (sd_scan_id S) d = Ret (Inr (Some rec))"
    and "tr_plan_hash rec = pl_hash p" "tr_scope_id rec = sm_id (sd_manifest S)"
    and "gc_live (sd_log_env S) g f es" "es = [] \<or> \<not> is_terminal (ev_body (List.last es))"
    and "length (log_text (sd_log_env S) es) + B * (3 * unat (plan_len p) + 3) < 2 ^ 63"
    and "unat (lg_packets_spent l) + unat (plan_len p) * unit_probes S \<le> unat (maximum_packets (lg_budgets l))"
    and "run S A p i l g f d fs seq = (r, w)"
  shows "\<exists>s es'. r = Inr s \<and> {k. i \<le> k \<and> k < plan_len p} \<subseteq> done_units (sd_encode S) (sd_scan_id S) (w_db w) \<and>
    has_status S TCompleted (w_db w) \<and>
    holds (sd_log_env S) (w_file w) es' \<and> lf_synced (w_file w) = length (log_text (sd_log_env S) es') \<and>
    \<not> lf_locked (w_file w) \<and> es' \<noteq> [] \<and>
    ev_body (List.last es') = ScanCompleted (rs_units_completed s) (rs_packets_spent s) (rs_open_ports s)"
proof -
  note u = assms(1)
  let ?w = "start_state l g f d fs seq"
  have w: "w_gc ?w = g" "w_file ?w = f" "w_db ?w = d" "idle d ?w"
    by (simp_all add: start_state_def idle_def stopped_def run_summary_default_def)
  have room: "length (log_text (sd_log_env S) es) < 2 ^ 63" using assms(9) by simp
  note able = start_able [OF assms(7) found_row [OF assms(4,3)] assms(9,10) u, of fs seq]
  from wp_run [OF undisturbed.body_able [OF u able assms(2) _ assms(5,6) _ room assms(8) w(4) assms(3)]
      assms(11) [unfolded run_def]] assms(4,7)
  have "case r of Inl e \<Rightarrow> False
    | Inr s \<Rightarrow> s = w_summary w \<and> undisturbed.closed S w \<and> given p i \<subseteq> finished S w"
    by (simp add: w)
  then show ?thesis
    by (auto simp: undisturbed.closed_def [OF u] undisturbed.ends_def [OF u] given_def split: sum.splits)
qed

lemma sample_live: "gc_live sample_log_env sample_group (empty_file\<lparr>lf_locked := True\<rparr>) []"
  using fresh_inv
  by (simp add: gc_live_def sample_group_def writer_inv_def holds_def group_commit_config_default_def)

lemma sample_record:
  "\<exists>rec. store_get crockford_encode crockford_decode 5 sample_db = Ret (Inr (Some rec)) \<and>
     tr_plan_hash rec = pl_hash one_unit_plan \<and> tr_scope_id rec = sm_id sample_manifest"
proof -
  obtain row where row: "new_row crockford_encode sample_start 5 ''t'' = Inr row"
    and d: "sample_db = empty_db\<lparr>db_scans := [row]\<rparr>" using sample_row by blast
  have ids: "id_from_str crockford_decode q (id_display crockford_encode q i) = Inr i" for q i
    by (simp add: ulid.id_from_str_exact)
  have "digest_from_str (digest_display (sq_plan_hash sample_start)) = Inr (sq_plan_hash sample_start)"
    using sample_wf by (simp add: digest_from_str_iff)
  then show ?thesis
    using row
    by (auto simp: d empty_db_def store_get_def new_row_def row_to_record_def ids res_bind_Inr_iff to_sql_def from_sql_def
        status_round_trip sample_start_def one_unit_plan_def sample_manifest_def simp del: status_to_db.simps)
qed

lemma sample_fields:
  "sd_encode sample_scheduler = crockford_encode" "sd_decode sample_scheduler = crockford_decode"
  "sd_scan_id sample_scheduler = 5" "sd_manifest sample_scheduler = sample_manifest" "sd_log_env sample_scheduler = sample_log_env"
  by (simp_all add: sample_scheduler_def)

lemma sample_probes: "unit_probes sample_scheduler = 1"
  by (simp add: unit_probes_def detection_probes_def sample_scheduler_def)

lemma sample_plan_len: "unat (plan_len one_unit_plan) = 1" "0 < plan_len one_unit_plan"
  by (simp_all add: plan_len_def one_unit_plan_def)

text \<open>The sample run, over any handle of an empty log.\<close>

definition sample_outcome :: "(engine_error + run_summary) \<Rightarrow> world \<Rightarrow> bool" where
  "sample_outcome r w \<longleftrightarrow> (\<exists>s es. r = Inr s \<and> 0 \<in> done_units crockford_encode 5 (w_db w) \<and>
    has_status sample_scheduler TCompleted (w_db w) \<and> holds sample_log_env (w_file w) es \<and> \<not> lf_locked (w_file w) \<and>
    es \<noteq> [] \<and> ev_body (List.last es) = ScanCompleted (rs_units_completed s) (rs_packets_spent s) (rs_open_ports s))"

lemma sample_completes:
  assumes "gc_live sample_log_env g f []"
    and run: "run sample_scheduler calm one_unit_plan 0 (ledger_new sample_budgets) g f sample_db fs 0 = (r, w)"
  shows "sample_outcome r w"
proof -
  obtain rec where rec: "store_get crockford_encode crockford_decode 5 sample_db = Ret (Inr (Some rec))"
    "tr_plan_hash rec = pl_hash one_unit_plan" "tr_scope_id rec = sm_id sample_manifest"
    using sample_record by blast
  show ?thesis
    using scan_completes [OF sample_undisturbed.undisturbed_axioms sample_plan_wf _ _ rec(2), unfolded sample_fields sample_plan_len,
        OF sample_ok(1) rec(1,3) assms(1) _ _ _ run] sample_plan_len(2)
    by (auto simp: sample_outcome_def ledger_new_def sample_budgets_def sample_probes)
qed

section \<open>Properties\<close>

text \<open>
  C5: An undisturbed scan completes. A connect scan, with or without service detection, whose objective has no
  discovery phase, with no fault, no cancellation, every target permitted, time to spare, a probe of the budget for each unit and for each
  probe of its detection, and room in the log for three events of each unit,
  returns without an error, whatever the
  answers of the network and the schedule of its tasks; every unit it was given is recorded as done,
  the task's status is completed, and the log is whole, flushed, closed with the final event and
  unlocked.
\<close>

theorem undisturbed_scan_completes:
  assumes "undisturbed S settle A p B l" "plan_wf p" "db_ok (sd_decode S) d"
    and "store_get (sd_encode S) (sd_decode S) (sd_scan_id S) d = Ret (Inr (Some rec))"
    and "tr_plan_hash rec = pl_hash p" "tr_scope_id rec = sm_id (sd_manifest S)"
    and "gc_live (sd_log_env S) g f es" "es = [] \<or> \<not> is_terminal (ev_body (List.last es))"
    and "length (log_text (sd_log_env S) es) + B * (3 * unat (plan_len p) + 3) < 2 ^ 63"
    and "unat (lg_packets_spent l) + unat (plan_len p) * unit_probes S \<le> unat (maximum_packets (lg_budgets l))"
    and "run S A p i l g f d fs seq = (r, w)"
  shows "\<exists>s es'. r = Inr s \<and> {k. i \<le> k \<and> k < plan_len p} \<subseteq> done_units (sd_encode S) (sd_scan_id S) (w_db w) \<and>
    has_status S TCompleted (w_db w) \<and>
    holds (sd_log_env S) (w_file w) es' \<and> lf_synced (w_file w) = length (log_text (sd_log_env S) es') \<and>
    \<not> lf_locked (w_file w) \<and> es' \<noteq> [] \<and>
    ev_body (List.last es') = ScanCompleted (rs_units_completed s) (rs_packets_spent s) (rs_open_ports s)"
  using assms by (rule scan_completes)

theorem undisturbed_scan_completes_witness:
  "\<exists>r w. sample_run = (r, w) \<and> sample_outcome r w"
proof -
  obtain r w where r: "sample_run = (r, w)" by (cases sample_run)
  obtain rec where rec: "store_get crockford_encode crockford_decode 5 sample_db = Ret (Inr (Some rec))"
    "tr_plan_hash rec = pl_hash one_unit_plan" "tr_scope_id rec = sm_id sample_manifest"
    using sample_record by blast
  have "sample_outcome r w"
    using undisturbed_scan_completes [OF sample_undisturbed.undisturbed_axioms sample_plan_wf _ _ rec(2),
        unfolded sample_fields sample_plan_len, OF sample_ok(1) rec(1,3) sample_live _ _ _ r [unfolded sample_run_def]]
      sample_plan_len(2)
    by (auto simp: sample_outcome_def ledger_new_def sample_budgets_def sample_probes)
  then show ?thesis using r by blast
qed

end
