(* ===== verification/Session.thy ===== *)
theory Session
  imports Completion
begin

text \<open>
  Sessions: a scan over any number of runs, by schedulers built anew each time over the same log,
  task store and evidence store, with stops, crashes and the work of other scans in between.
\<close>

section \<open>The states a scan can be left in\<close>

definition same_stores :: "'n scheduler \<Rightarrow> 'n scheduler \<Rightarrow> bool" where
  "same_stores S S' \<longleftrightarrow> sd_log_env S' = sd_log_env S \<and> sd_encode S' = sd_encode S \<and> sd_scan_id S' = sd_scan_id S \<and>
     sd_hash S' = sd_hash S \<and> sd_store S' = sd_store S"

text \<open>A disk that a crash left with the directories \<open>D\<close> and the files \<open>r\<close>.\<close>

definition disk_of :: "(string list \<Rightarrow> bool) \<Rightarrow> (path \<Rightarrow> string option) \<Rightarrow> disk" where
  "disk_of D r = \<lparr>fs_now = (\<lambda>q. map_option (\<lambda>c. (c, True)) (r q)), fs_safe = r, fs_dirs = D, fs_dirs_safe = D\<rparr>"

text \<open>
  The digests a crash may take from a disk although a \<open>put\<close> has returned them: those in a fan-out directory whose own
  entry, or a parent's, is not on the disk yet. A session carries the digests \<open>V\<close> exposed so at its crashes, and
  whether the log file's own directory entry, which the code never flushes either, is on the disk: a crash before that
  may take the whole log, and is not one of the steps.
\<close>

definition exposed :: "disk \<Rightarrow> digest set" where
  "exposed fs = {dg. stored fs dg \<and> \<not> lasting fs (blob_dir dg)}"

inductive session :: "'n scheduler \<Rightarrow> scan_plan \<Rightarrow> bool \<Rightarrow> digest set \<Rightarrow> log_file \<Rightarrow> db \<Rightarrow> disk \<Rightarrow> bool" for S p where
  session_new: "done_units (sd_encode S) (sd_scan_id S) d = {} \<Longrightarrow> blobs_ok (sd_hash S) fs \<Longrightarrow>
     session S p False {} empty_file d fs"
| session_run: "session S p linked V f d fs \<Longrightarrow> same_stores S S' \<Longrightarrow>
     gc_open (sd_log_env S') (sd_scan_id S') config now f = (Inr g, f') \<Longrightarrow>
     run S' A p i l g f' d fs seq = (r, w) \<Longrightarrow> small w \<Longrightarrow>
     session S p linked V (w_file w) (w_db w) (w_disk w)"
| session_exit: "session S p linked V f d fs \<Longrightarrow> session S p linked V (f\<lparr>lf_locked := False\<rparr>) d fs"
| session_linked: "session S p linked V f d fs \<Longrightarrow> session S p True V f d fs"
| session_crash: "session S p True V f d fs \<Longrightarrow> crash_leaves fs D r \<Longrightarrow>
     session S p True (V \<union> exposed fs) (crash n f) d (disk_of D r)"
| session_others: "session S p linked V f d fs \<Longrightarrow>
     done_units (sd_encode S) (sd_scan_id S) d' = done_units (sd_encode S) (sd_scan_id S) d \<Longrightarrow>
     blobs_ok (sd_hash S) fs' \<Longrightarrow> (\<forall>dg. stored fs dg \<longrightarrow> stored fs' dg) \<Longrightarrow> session S p linked V f d' fs'"

inductive_cases session_cases: "session S p linked V f d fs"

definition session_ok :: "'n scheduler \<Rightarrow> scan_plan \<Rightarrow> digest set \<Rightarrow> log_file \<Rightarrow> db \<Rightarrow> disk \<Rightarrow> bool" where
  "session_ok S p V f d fs \<longleftrightarrow> blobs_ok (sd_hash S) fs \<and>
     (\<exists>es. leaves (sd_log_env S) f es \<and>
        certified (sd_log_env S) p f es (done_units (sd_encode S) (sd_scan_id S) d) \<and> evidenced V fs es)"

lemma survives_stored:
  assumes "blobs_ok hash fs" "crash_leaves fs D r"
  shows "blobs_ok hash (disk_of D r)" "stored fs d \<Longrightarrow> d \<notin> exposed fs \<Longrightarrow> stored (disk_of D r) d"
proof -
  have r: "survives D fs (blob_path d) (r (blob_path d))" for d
    using assms(2) unfolding crash_leaves_def by blast
  then have "r (blob_path d) = Some c \<Longrightarrow> hash c = d" for d c using survives_blob [OF assms(1)] by blast
  then show "blobs_ok hash (disk_of D r)" by (auto simp: blobs_ok_def disk_of_def)
  assume "stored fs d" "d \<notin> exposed fs"
  moreover from this have "D (blob_dir d)" using assms(2) by (auto simp: exposed_def crash_leaves_def)
  ultimately have "r (blob_path d) \<noteq> None" using survives_there [OF assms(1) r] by blast
  then show "stored (disk_of D r) d" by (auto simp: stored_def disk_of_def)
qed

lemma certified_crash:
  assumes "certified L p f es D" "\<forall>j. flushed L f es j \<longrightarrow> flushed L f' (take k es) j"
  shows "certified L p f' (take k es) D"
proof -
  obtain j where j: "flushed L f es j" "\<forall>i \<in> D. witnessed p (take j es) i" using assms(1) by (auto simp: certified_def)
  then have "flushed L f' (take k es) j" using assms(2) by blast
  then show ?thesis using j(2) by (auto simp: certified_def flushed_def min_def intro!: exI [of _ j])
qed

lemma leaves_unlock: "leaves L (f\<lparr>lf_locked := b\<rparr>) es = leaves L f es"
  by (simp add: leaves_def file_text_def)

lemma certified_unlock: "certified L p (f\<lparr>lf_locked := b\<rparr>) es D = certified L p f es D"
  by (simp add: certified_def flushed_def)

lemma session_invariant:
  assumes "session S p linked V f d fs" "log_codec (sd_log_env S) settle" "st_durable (sd_store S)"
  shows "session_ok S p V f d fs"
  using assms(1)
proof (induction rule: session.induct)
  case (session_new d fs)
  have "leaves (sd_log_env S) empty_file []" "certified (sd_log_env S) p empty_file [] {}"
    by (auto simp: leaves_def empty_file_def file_text_def writable_def certified_def flushed_def)
  then show ?case using session_new by (auto simp: session_ok_def evidenced_def intro!: exI [of _ "[]"])
next
  case (session_run linked V f d fs S' config now g f' A i l seq r w)
  then obtain es where es: "leaves (sd_log_env S) f es" "evidenced V fs es" "blobs_ok (sd_hash S) fs"
    "certified (sd_log_env S) p f es (done_units (sd_encode S) (sd_scan_id S) d)" by (auto simp: session_ok_def)
  have same: "sd_log_env S' = sd_log_env S" "sd_encode S' = sd_encode S" "sd_scan_id S' = sd_scan_id S"
    "sd_hash S' = sd_hash S" "sd_store S' = sd_store S"
    using session_run.hyps by (simp_all add: same_stores_def)
  then have loc: "durable_scheduler S' settle" using assms(2,3) by (simp add: durable_scheduler_def)
  have "gc_open (sd_log_env S) (sd_scan_id S) config now f = (Inr g, f')" using session_run.hyps same by simp
  note live = log_codec.gc_open_any [OF assms(2) es(1) this]
  have "certified (sd_log_env S) p f' es (done_units (sd_encode S) (sd_scan_id S) d)"
    using certified_append [OF es(4), of f' "[]"] live by simp
  then have "healthy V S' p {} (start_state l g f' d fs seq)"
    using live es same by (auto simp: healthy_def start_state_def plan_flights_def)
  from wp_run [OF durable_scheduler.run_body_sound [OF loc this] session_run.hyps(4) [unfolded run_def]]
  have "sound V S' p w" by (auto split: sum.splits)
  then show ?case
    using session_run.hyps(5) same by (auto simp: sound_def session_ok_def)
next
  case (session_exit linked V f d fs)
  then show ?case by (simp add: session_ok_def leaves_unlock certified_unlock)
next
  case (session_linked linked V f d fs)
  then show ?case by simp
next
  case (session_crash V f d fs D r n)
  then obtain es where es: "leaves (sd_log_env S) f es" "evidenced V fs es" "blobs_ok (sd_hash S) fs"
    "certified (sd_log_env S) p f es (done_units (sd_encode S) (sd_scan_id S) d)" by (auto simp: session_ok_def)
  obtain k where "leaves (sd_log_env S) (crash n f) (take k es)"
    "\<forall>j. flushed (sd_log_env S) f es j \<longrightarrow> flushed (sd_log_env S) (crash n f) (take k es) j"
    using log_codec.leaves_crash [OF assms(2) es(1)] by blast
  moreover have "evidenced (V \<union> exposed fs) (disk_of D r) (take k es)"
    using es(2) survives_stored(2) [OF es(3) session_crash.hyps(2)] by (auto simp: evidenced_def dest: in_set_takeD)
  ultimately show ?case
    using survives_stored(1) [OF es(3) session_crash.hyps(2)] certified_crash [OF es(4)]
    unfolding session_ok_def by blast
next
  case (session_others linked V f d fs d' fs')
  then show ?case by (auto simp: session_ok_def intro: evidenced_mono)
qed

text \<open>What is read at the path of a digest is its blob or nothing; a stored digest that was not exposed is there.\<close>

lemma stored_survives:
  assumes "blobs_ok hash (disk_of D r)" "stored (disk_of D r) d"
  shows "\<exists>bytes. get_bytes hash False d (r (blob_path d)) = Inr bytes \<and> hash bytes = d"
proof -
  obtain c where "r (blob_path d) = Some c" "hash c = d"
    using assms by (auto simp: stored_def disk_of_def blobs_ok_def)
  then show ?thesis by (auto simp: get_bytes_def)
qed

lemma never_corrupt:
  "blobs_ok hash (disk_of D r) \<Longrightarrow>
     (\<exists>bytes. get_bytes hash False d (r (blob_path d)) = Inr bytes \<and> hash bytes = d) \<or> get_bytes hash False d (r (blob_path d)) = Inl (ENotFound d)"
  by (cases "r (blob_path d)") (auto simp: get_bytes_def disk_of_def blobs_ok_def)

lemma port_event_reread: "port_event p i (ev_body (reread settle e)) = port_event p i (ev_body e)"
  by (cases "ev_body e") (auto simp: port_event_def reread_def)

lemma cited_reread: "cited (ev_body (reread settle e)) = cited (ev_body e)"
  by (cases "ev_body e") (auto simp: reread_def)

interpretation sample: durable_scheduler sample_scheduler id one_unit_plan "{}"
  by (simp add: durable_scheduler_def sample_scheduler_def sample_codec)

lemma blobs_ok_dirs: "blobs_ok hash (fs\<lparr>fs_dirs := x\<rparr>) = blobs_ok hash fs"
  by (simp add: blobs_ok_def)

text \<open>The sample run is a session.\<close>

lemma sample_session:
  "\<exists>f d fs. session sample_scheduler one_unit_plan True {} f d fs \<and> 0 \<in> done_units crockford_encode 5 d \<and> dirs_ok fs"
proof -
  let ?fs = "empty_disk" and ?S = sample_scheduler
  have start: "session ?S one_unit_plan False {} empty_file sample_db ?fs"
    using sample_none_done by (intro session_new) (simp_all add: blobs_ok_def sample_fields empty_disk_def)
  have "holds sample_log_env empty_file []" "\<not> lf_locked empty_file"
    by (simp_all add: holds_def empty_file_def)
  from sample_log.open_holds [OF this, of 5 False] obtain g where
    g: "gc_open sample_log_env 5 group_commit_config_default 0 empty_file = (Inr g, empty_file\<lparr>lf_locked := True\<rparr>)"
    "gc_live sample_log_env g (empty_file\<lparr>lf_locked := True\<rparr>) []"
    by (auto simp: gc_open_def log_open_without_durability_barrier_def gc_live_def group_commit_config_default_def)
  obtain r w where run: "run ?S calm one_unit_plan 0 (ledger_new sample_budgets) g (empty_file\<lparr>lf_locked := True\<rparr>) sample_db ?fs 0 = (r, w)"
    by fastforce
  then have out: "sample_outcome r w" using g(2) by (intro sample_completes)
  then have "small w" by (auto simp: sample_outcome_def holds_def small_def file_text_def)
  with session_run [OF start _ _ run] g(1) have ran: "session ?S one_unit_plan False {} (w_file w) (w_db w) (w_disk w)"
    by (simp add: same_stores_def sample_fields)
  let ?fs' = "(w_disk w)\<lparr>fs_dirs := (\<lambda>_. True)\<rparr>"
  have "blobs_ok (sd_hash ?S) (w_disk w)"
    using session_invariant [OF ran] sample.durable_scheduler_axioms by (auto simp: session_ok_def durable_scheduler_def)
  then have "session ?S one_unit_plan False {} (w_file w) (w_db w) ?fs'"
    by (intro session_others [OF ran]) (simp_all add: blobs_ok_dirs stored_def)
  then have "session ?S one_unit_plan True {} (w_file w) (w_db w) ?fs'" by (rule session_linked)
  moreover have "dirs_ok ?fs'" by (simp add: dirs_ok_def)
  ultimately show ?thesis using out by (auto simp: sample_outcome_def)
qed

section \<open>Properties\<close>

text \<open>
  C1: No finding is lost. Over any sequence of runs of a scan, each by a scheduler built anew with
  whatever configuration, manifest, network and faults, stopped at any point, with crashes and other
  scans in between: cut the machine off anywhere once the log file's own directory entry is on the disk, and a reader opens the log and finds in it the
  port event of every unit the task store records as done. Every piece of evidence an event of
  that log cites is retrievable, byte for byte under its digest, or missing, never damaged; and it is missing only if at this crash
  or an earlier one its fan-out directory's entry, which the store never flushes, had not reached the disk.
\<close>

theorem no_finding_is_lost:
  assumes "log_codec (sd_log_env S) settle" "st_durable (sd_store S)" "session S p True V f d fs"
    and "crash_leaves fs D r"
  shows "\<exists>rd es. reader_open (sd_log_env S) (sd_scan_id S) (crash n f) = Inr rd \<and>
    reader_read_from (sd_log_env S) rd (crash n f) 0 = Inr es \<and>
    (\<forall>i \<in> done_units (sd_encode S) (sd_scan_id S) d. \<exists>e \<in> set es. port_event p i (ev_body e)) \<and>
    (\<forall>e \<in> set es. \<forall>dg \<in> set (cited (ev_body e)).
       (\<exists>bytes. get_bytes (sd_hash S) False dg (r (blob_path dg)) = Inr bytes \<and> sd_hash S bytes = dg) \<or>
       get_bytes (sd_hash S) False dg (r (blob_path dg)) = Inl (ENotFound dg) \<and> dg \<in> V \<union> exposed fs)"
proof -
  let ?f = "crash n f" and ?V = "V \<union> exposed fs"
  have "session S p True ?V ?f d (disk_of D r)" using assms(3,4) by (rule session_crash)
  from session_invariant [OF this assms(1,2)] obtain es where es: "leaves (sd_log_env S) ?f es"
    "certified (sd_log_env S) p ?f es (done_units (sd_encode S) (sd_scan_id S) d)" "evidenced ?V (disk_of D r) es"
    and ok: "blobs_ok (sd_hash S) (disk_of D r)"
    by (auto simp: session_ok_def)
  obtain rd where rd: "reader_open (sd_log_env S) (sd_scan_id S) ?f = Inr rd"
    "reader_read_from (sd_log_env S) rd ?f 0 = Inr (map (reread settle) es)"
    using log_codec.leaves_reads [OF assms(1) es(1)] by blast
  have "\<forall>i \<in> done_units (sd_encode S) (sd_scan_id S) d. \<exists>e \<in> set (map (reread settle) es). port_event p i (ev_body e)"
    using es(2) by (auto simp: certified_def witnessed_def port_event_reread bex_simps dest!: in_set_takeD bspec)
  moreover have "(\<exists>bytes. get_bytes (sd_hash S) False dg (r (blob_path dg)) = Inr bytes \<and> sd_hash S bytes = dg) \<or>
      get_bytes (sd_hash S) False dg (r (blob_path dg)) = Inl (ENotFound dg) \<and> dg \<in> ?V"
    if "e \<in> set (map (reread settle) es)" "dg \<in> set (cited (ev_body e))" for e dg
  proof (cases "dg \<in> ?V")
    case True
    then show ?thesis using never_corrupt [OF ok] by blast
  next
    case False
    then have "stored (disk_of D r) dg" using es(3) that by (auto simp: evidenced_def cited_reread)
    then show ?thesis using stored_survives [OF ok] by blast
  qed
  ultimately show ?thesis using rd by blast
qed

theorem no_finding_is_lost_witness:
  "\<exists>f d rd es. 0 \<in> done_units crockford_encode 5 d \<and>
    reader_open sample_log_env 5 (crash 0 f) = Inr rd \<and> reader_read_from sample_log_env rd (crash 0 f) 0 = Inr es \<and>
    (\<exists>e \<in> set es. port_event one_unit_plan 0 (ev_body e))"
proof -
  obtain f d fs where s: "session sample_scheduler one_unit_plan True {} f d fs" "0 \<in> done_units crockford_encode 5 d" "dirs_ok fs"
    using sample_session by blast
  from no_finding_is_lost [OF _ _ s(1) harshest_crash [OF s(3)], of id 0] sample.durable_scheduler_axioms
  show ?thesis using s(2) unfolding durable_scheduler_def sample_fields by blast
qed

end
