(* ===== verification/Packets.thy ===== *)
theory Packets
  imports Packetd_Client Net_Addr
begin

text \<open>
  Bytes on and off the wire, \<open>crates/bathy-packetd/src/syn.rs\<close> and \<open>icmp.rs\<close>: the internet checksum,
  the SYN, RST and echo-request packets the daemon builds, and the matchers that attribute an inbound
  packet to a probe.
\<close>

unbundle bit_operations_syntax

section \<open>Reading and writing fields\<close>

definition slice_at :: "nat \<Rightarrow> 'a list \<Rightarrow> 'a option" where
  "slice_at i xs = (if i < length xs then Some (xs ! i) else None)"

definition slice_range :: "nat \<Rightarrow> nat \<Rightarrow> 'a list \<Rightarrow> 'a list option" where
  "slice_range a b xs = (if a \<le> b \<and> b \<le> length xs then Some (take (b - a) (drop a xs)) else None)"

definition slice_from :: "nat \<Rightarrow> 'a list \<Rightarrow> 'a list option" where
  "slice_from a xs = (if a \<le> length xs then Some (drop a xs) else None)"

definition to_be2 :: "u16 \<Rightarrow> u8 list" where
  "to_be2 w = [ucast (drop_bit 8 w), ucast w]"

definition from_be2 :: "u8 \<Rightarrow> u8 \<Rightarrow> u16" where
  "from_be2 a b = push_bit 8 (ucast a) OR ucast b"

definition be16 :: "u8 list \<Rightarrow> nat \<Rightarrow> u16 option" where
  "be16 bs i = (case slice_range i (i + 2) bs of Some [a, b] \<Rightarrow> Some (from_be2 a b) | _ \<Rightarrow> None)"

text \<open>Four bytes compared as an address; \<open>copy_from_slice\<close> into a field that is there.\<close>

definition ipv4_at :: "u8 list \<Rightarrow> nat \<Rightarrow> u8 list option" where
  "ipv4_at bs i = slice_range i (i + 4) bs"

definition put_field :: "nat \<Rightarrow> 'a list \<Rightarrow> 'a list \<Rightarrow> 'a list" where
  "put_field i f xs = (if i + length f \<le> length xs then take i xs @ f @ drop (i + length f) xs else xs)"

definition payload :: "u8 list \<Rightarrow> u8 list option" where
  "payload packet = Option.bind (slice_at 0 packet) (\<lambda>b. slice_from (unat (b AND 0x0f) * 4) packet)"

section \<open>The internet checksum\<close>

fun be_words :: "u8 list \<Rightarrow> u16 list" where
  "be_words [] = []"
| "be_words [a] = [from_be2 a 0]"
| "be_words (a # b # bs) = from_be2 a b # be_words bs"

lemma unat_low16: "unat (s AND 0xffff :: u32) = unat s mod 65536"
proof -
  have "s AND 0xffff = take_bit 16 s" by (simp add: take_bit_eq_mask mask_eq_exp_minus_1)
  then show ?thesis by (simp add: take_bit_eq_mod unat_mod)
qed

lemma unat_carry: "unat ((s AND 0xffff) + drop_bit 16 s) = unat (s :: u32) mod 65536 + unat s div 65536"
proof -
  have "unat s < 2 ^ 32" using unat_bounded [of s] by simp
  then have "unat s div 65536 < 65536" by (simp add: less_mult_imp_div_less)
  then have "unat s mod 65536 + unat s div 65536 < 2 ^ 32"
    using mod_less_divisor [of 65536 "unat s"] by simp
  then show ?thesis
    by (simp add: unat_word_ariths unat_low16 unat_drop_bit_eq drop_bit_eq_div)
qed

lemma carry_less: "0xffff < s \<Longrightarrow> unat ((s AND 0xffff) + drop_bit 16 s) < unat (s :: u32)"
proof -
  assume "0xffff < s"
  then have "65536 \<le> unat s" by (simp add: word_less_nat_alt)
  then have "unat s mod 65536 + unat s div 65536 < unat s"
    using div_mult_mod_eq [of "unat s" 65536] by linarith
  then show ?thesis by (simp add: unat_carry)
qed

function fold_carry :: "u32 \<Rightarrow> u32" where
  "fold_carry s = (if 0xffff < s then fold_carry ((s AND 0xffff) + drop_bit 16 s) else s)"
  by pat_completeness auto
termination
  by (relation "measure unat") (simp_all add: carry_less)

declare fold_carry.simps [simp del]

definition checksum :: "u8 list \<Rightarrow> u16" where
  "checksum bs = NOT (ucast (fold_carry (foldl (\<lambda>acc w. acc + ucast w) 0 (be_words bs)) AND 0xffff))"

section \<open>The packets\<close>

definition probe_marker :: u16 where "probe_marker = 0xba71"
definition proto_icmp :: u8 where "proto_icmp = 1"
definition proto_tcp :: u8 where "proto_tcp = 6"
definition flag_syn :: u8 where "flag_syn = 0x02"
definition flag_rst :: u8 where "flag_rst = 0x04"
definition flag_ack :: u8 where "flag_ack = 0x10"
definition ttl :: u8 where "ttl = 64"

definition ip_header :: "u32 \<Rightarrow> u32 \<Rightarrow> u8 \<Rightarrow> u16 \<Rightarrow> u8 list" where
  "ip_header src dst protocol payload_len =
     (let ip = [0x45, 0] @ to_be2 (sat_add payload_len 20) @ to_be2 probe_marker @ [0x40, 0, ttl, protocol, 0, 0]
             @ octets src @ octets dst
      in put_field 10 (to_be2 (checksum ip)) ip)"

definition pseudo_header :: "u32 \<Rightarrow> u32 \<Rightarrow> u8 list" where
  "pseudo_header src dst = octets src @ octets dst @ [0, proto_tcp, 0, 20]"

definition segment :: "u32 \<Rightarrow> u32 \<Rightarrow> u16 \<Rightarrow> u16 \<Rightarrow> u32 \<Rightarrow> u8 \<Rightarrow> u8 list" where
  "segment src dst sport dport seq flags =
     (let tcp = to_be2 sport @ to_be2 dport @ octets seq @ [0, 0, 0, 0, 0x50, flags, 0x04, 0x00, 0, 0, 0, 0];
          tcp_sum = checksum (pseudo_header src dst @ tcp)
      in ip_header src dst proto_tcp 20 @ put_field 16 (to_be2 tcp_sum) tcp)"

definition icmp_echo_request :: u8 where "icmp_echo_request = 8"
definition icmp_echo_reply :: u8 where "icmp_echo_reply = 0"
definition icmp_unreachable :: u8 where "icmp_unreachable = 3"
definition icmp_header_len :: u16 where "icmp_header_len = 8"

definition echo_request :: "u32 \<Rightarrow> u32 \<Rightarrow> u16 \<Rightarrow> u16 \<Rightarrow> u8 list" where
  "echo_request src dst ident seq =
     (let icmp = [icmp_echo_request, 0, 0, 0] @ to_be2 ident @ to_be2 seq
      in ip_header src dst proto_icmp icmp_header_len @ put_field 2 (to_be2 (checksum icmp)) icmp)"

section \<open>Replies\<close>

datatype reply = SynAck | Rst | IcmpUnreachable | NoReply

fun classify_reply :: "reply \<Rightarrow> port_state" where
  "classify_reply SynAck = Open"
| "classify_reply Rst = Closed"
| "classify_reply IcmpUnreachable = Filtered"
| "classify_reply NoReply = Filtered"

definition guard :: "bool \<Rightarrow> unit option" where
  "guard b = (if b then Some () else None)"

text \<open>What an inbound packet says of the SYN probe \<open>(dst, port, sport)\<close>.\<close>

definition match_reply :: "u8 list \<Rightarrow> u32 \<Rightarrow> u16 \<Rightarrow> u16 \<Rightarrow> reply option" where
  "match_reply packet dst port sport = do {
     source \<leftarrow> ipv4_at packet 12;
     protocol \<leftarrow> slice_at 9 packet;
     if protocol = proto_tcp then do {
       tcp \<leftarrow> payload packet;
       guard (source = octets dst);
       p \<leftarrow> be16 tcp 0; guard (p = port);
       s \<leftarrow> be16 tcp 2; guard (s = sport);
       flags \<leftarrow> slice_at 13 tcp;
       if flags AND flag_syn \<noteq> 0 \<and> flags AND flag_ack \<noteq> 0 then Some SynAck
       else if flags AND flag_rst \<noteq> 0 then Some Rst
       else None }
     else if protocol = proto_icmp then do {
       icmp \<leftarrow> payload packet;
       kind \<leftarrow> slice_at 0 icmp; guard (kind = icmp_unreachable);
       quoted \<leftarrow> slice_from 8 icmp;
       quoted_dst \<leftarrow> ipv4_at quoted 16;
       seg \<leftarrow> payload quoted;
       inner \<leftarrow> slice_at 9 quoted; guard (inner = proto_tcp);
       guard (quoted_dst = octets dst);
       s \<leftarrow> be16 seg 0; guard (s = sport);
       p \<leftarrow> be16 seg 2; guard (p = port);
       Some IcmpUnreachable }
     else None }"

datatype icmp_reply = EchoReply | DestinationUnreachable | NoEcho

fun classify_icmp :: "icmp_reply \<Rightarrow> host_state" where
  "classify_icmp EchoReply = Up"
| "classify_icmp DestinationUnreachable = Down"
| "classify_icmp NoEcho = Unknown"

text \<open>And of the echo request \<open>(dst, ident, seq)\<close>.\<close>

definition match_echo :: "u8 list \<Rightarrow> u32 \<Rightarrow> u16 \<Rightarrow> u16 \<Rightarrow> icmp_reply option" where
  "match_echo packet dst ident seq = do {
     protocol \<leftarrow> slice_at 9 packet; guard (protocol = proto_icmp);
     source \<leftarrow> ipv4_at packet 12;
     icmp \<leftarrow> payload packet;
     kind \<leftarrow> slice_at 0 icmp;
     if kind = icmp_echo_reply then do {
       guard (source = octets dst);
       i \<leftarrow> be16 icmp 4; guard (i = ident);
       s \<leftarrow> be16 icmp 6; guard (s = seq);
       Some EchoReply }
     else if kind = icmp_unreachable then do {
       quoted \<leftarrow> slice_from 8 icmp;
       inner \<leftarrow> slice_at 9 quoted; guard (inner = proto_icmp);
       quoted_dst \<leftarrow> ipv4_at quoted 16;
       echo \<leftarrow> payload quoted;
       outer \<leftarrow> slice_at 0 echo; guard (outer = icmp_echo_request);
       guard (quoted_dst = octets dst);
       i \<leftarrow> be16 echo 4; guard (i = ident);
       s \<leftarrow> be16 echo 6; guard (s = seq);
       Some DestinationUnreachable }
     else None }"

section \<open>What the checksum computes\<close>

definition word_sum :: "u8 list \<Rightarrow> nat" where
  "word_sum bs = sum_list (map unat (be_words bs))"

text \<open>The one's complement representative of a sum: 0 only for 0, else between 1 and 65535.\<close>

definition ones_sum :: "nat \<Rightarrow> nat" where
  "ones_sum n = (if n = 0 then 0 else (n - 1) mod 65535 + 1)"

lemma fold_carry_sum: "unat (fold_carry s) = ones_sum (unat s)"
proof (induction s rule: fold_carry.induct)
  case (1 s)
  show ?case
  proof (cases "0xffff < s")
    case True
    let ?t = "(s AND 0xffff) + drop_bit 16 s" and ?n = "unat s"
    have big: "65536 \<le> ?n" using True by (simp add: word_less_nat_alt)
    have t: "unat ?t = ?n mod 65536 + ?n div 65536" by (rule unat_carry)
    have q: "0 < ?n div 65536" using big by (simp add: div_greater_zero_iff)
    then have nz: "unat ?t \<noteq> 0" by (simp add: t)
    have "?n = ?n div 65536 * 65535 + unat ?t"
      using div_mult_mod_eq [of ?n 65536] unfolding t by linarith
    then have "?n - 1 = (unat ?t - 1) + ?n div 65536 * 65535" using nz by linarith
    then have "(?n - 1) mod 65535 = (unat ?t - 1) mod 65535" by (metis mod_mult_self1)
    then show ?thesis
      using 1 [OF True] True big nz by (subst fold_carry.simps) (simp add: ones_sum_def)
  next
    case False
    then have "unat s \<le> 65535" by (simp add: word_less_nat_alt not_less)
    then have "unat s \<noteq> 0 \<Longrightarrow> (unat s - 1) mod 65535 = unat s - 1" by simp
    then show ?thesis using False by (subst fold_carry.simps) (auto simp: ones_sum_def)
  qed
qed

lemma unat_from_be2: "unat (from_be2 a b) = unat a * 256 + unat b"
proof -
  let ?a = "ucast a :: u16" and ?b = "ucast b :: u16"
  have "push_bit 8 ?a AND ?b = 0"
    by (rule bit_word_eqI) (auto simp: bit_simps dest: bit_imp_le_length)
  then have "from_be2 a b = push_bit 8 ?a + ?b"
    unfolding from_be2_def by (simp add: disjunctive_add_eq_or)
  moreover have "unat a < 256" "unat b < 256" using unat_bounded [of a] unat_bounded [of b] by simp_all
  ultimately show ?thesis
    by (simp add: push_bit_eq_mult unat_word_ariths unat_ucast_widen)
qed

lemma be2_round: "to_be2 w = [a, b] \<Longrightarrow> from_be2 a b = w"
  unfolding to_be2_def from_be2_def by (rule bit_word_eqI) (auto simp: bit_simps)

lemma be_words_append: "even (length xs) \<Longrightarrow> be_words (xs @ ys) = be_words xs @ be_words ys"
  by (induction xs rule: be_words.induct) auto

lemma word_sum_simps [simp]:
  "word_sum [] = 0"
  "even (length xs) \<Longrightarrow> word_sum (xs @ ys) = word_sum xs + word_sum ys"
  "word_sum (to_be2 w) = unat w"
  using be2_round [of w] by (simp_all add: word_sum_def be_words_append to_be2_def)

lemma word_sum_bound: "word_sum bs \<le> 65535 * length bs"
proof (induction bs rule: be_words.induct)
  case (3 a b bs)
  then show ?case using unat_bounded [of "from_be2 a b"] by (simp add: word_sum_def)
next
  case (2 a)
  then show ?case using unat_bounded [of "from_be2 a 0"] by (simp add: word_sum_def)
qed simp

lemma ones_sum_bound: "ones_sum n \<le> 65535"
  using mod_less_divisor [of 65535 "n - 1"] by (simp add: ones_sum_def del: mod_less_divisor)

lemma unat_not16: "unat (NOT w) = 65535 - unat (w :: u16)"
proof -
  have "NOT w = - 1 - w" by (simp add: not_eq_complement)
  moreover have "unat (- 1 - w) = unat (- 1 :: u16) - unat w" by (rule unat_sub) simp
  ultimately show ?thesis using unat_max_word [where 'a = 16] by simp
qed

lemma checksum_value:
  assumes "length bs \<le> 2 ^ 16"
  shows "unat (checksum bs) = 65535 - ones_sum (word_sum bs)"
proof -
  have "foldl (\<lambda>acc w. acc + ucast w) s ws = s + of_nat (sum_list (map unat ws))" for s :: u32 and ws :: "u16 list"
    by (induction ws arbitrary: s) (simp_all add: unsigned_ucast_eq)
  then have fold: "foldl (\<lambda>acc w. acc + ucast w) 0 (be_words bs) = (of_nat (word_sum bs) :: u32)"
    by (simp add: word_sum_def)
  have "word_sum bs \<le> 65535 * 65536" using word_sum_bound [of bs] assms by simp
  then have "unat (of_nat (word_sum bs) :: u32) = word_sum bs" by (intro unat_of_nat_small) simp
  then have c: "unat (fold_carry (of_nat (word_sum bs))) = ones_sum (word_sum bs)" by (simp add: fold_carry_sum)
  let ?c = "ucast (fold_carry (of_nat (word_sum bs)) AND 0xffff) :: u16"
  have "unat ?c = ones_sum (word_sum bs)"
    using ones_sum_bound [of "word_sum bs"] by (simp add: unsigned_ucast_eq take_bit_eq_mod unat_low16 c)
  moreover have "unat (NOT ?c) = 65535 - unat ?c" by (rule unat_not16)
  ultimately show ?thesis unfolding checksum_def fold by simp
qed

text \<open>A message whose checksum field was zero, with its checksum put there, sums to zero.\<close>

lemma length_put_field [simp]: "length (put_field i f xs) = length xs"
  by (simp add: put_field_def)

lemma length_to_be2 [simp]: "length (to_be2 w) = 2"
  by (simp add: to_be2_def)

lemma ones_sum_complement:
  assumes "n \<noteq> 0"
  shows "ones_sum (n + (65535 - ones_sum n)) = 65535"
proof -
  define r q where "r = (n - 1) mod 65535" and "q = (n - 1) div 65535"
  have "n - 1 = q * 65535 + r" by (simp add: r_def q_def)
  then have n: "n = q * 65535 + r + 1" using assms by linarith
  have "r < 65535" by (simp add: r_def)
  then obtain d where d: "65534 = r + d" using le_Suc_ex [of r 65534] by auto
  have ones: "ones_sum n = r + 1" using assms by (simp add: ones_sum_def r_def)
  then have "65535 - ones_sum n = d" using d by simp
  moreover have "n + d = (q + 1) * 65535" using n d by simp
  ultimately have "n + (65535 - ones_sum n) = (q + 1) * 65535" by simp
  moreover have "((q + 1) * 65535 - 1) mod 65535 = 65534"
  proof -
    have "(q + 1) * 65535 - 1 = 65534 + q * 65535" by simp
    then show ?thesis by simp
  qed
  ultimately show ?thesis by (simp add: ones_sum_def)
qed

lemma checksum_verifies:
  assumes "even (length xs)" "length xs + length ys + 2 \<le> 2 ^ 16" "word_sum (xs @ [0, 0] @ ys) \<noteq> 0"
  shows "checksum (xs @ to_be2 (checksum (xs @ [0, 0] @ ys)) @ ys) = 0"
proof -
  let ?m = "xs @ [0, 0] @ ys"
  let ?c = "checksum ?m" and ?s = "word_sum ?m"
  have zero: "word_sum ([0, 0] @ ys) = word_sum ys" by (simp add: word_sum_def from_be2_def)
  have c: "unat ?c = 65535 - ones_sum ?s" using assms(2) by (intro checksum_value) simp
  have "word_sum (xs @ to_be2 ?c @ ys) = word_sum xs + (unat ?c + word_sum ys)"
    using assms(1) by (simp del: append_assoc add: append_assoc [symmetric])
  also have "\<dots> = ?s + (65535 - ones_sum ?s)" unfolding c using assms(1) zero by simp
  finally have "unat (checksum (xs @ to_be2 ?c @ ys)) = 0"
    using checksum_value [of "xs @ to_be2 ?c @ ys"] assms(2) ones_sum_complement [OF assms(3)] by simp
  then show ?thesis by (simp add: unat_eq_0)
qed

lemma length_octets [simp]: "length (octets a) = 4"
  by (simp add: octets_def)

lemma word_sum_first: "a \<noteq> 0 \<Longrightarrow> word_sum (a # b # bs) \<noteq> 0"
  by (simp add: word_sum_def unat_from_be2 unat_eq_0)

section \<open>The shape of the packets\<close>

definition ip_fields :: "u8 \<Rightarrow> u16 \<Rightarrow> u8 list" where
  "ip_fields protocol payload_len =
     [0x45, 0] @ to_be2 (sat_add payload_len 20) @ to_be2 probe_marker @ [0x40, 0, ttl, protocol]"

lemma ip_header_shape:
  "ip_header src dst protocol n =
     ip_fields protocol n @ to_be2 (checksum (ip_fields protocol n @ [0, 0] @ octets src @ octets dst)) @ octets src @ octets dst"
  by (simp add: ip_header_def ip_fields_def put_field_def Let_def to_be2_def)

lemma length_ip_header [simp]: "length (ip_header src dst protocol n) = 20"
  by (simp add: ip_header_shape ip_fields_def)

definition tcp_fields :: "u16 \<Rightarrow> u16 \<Rightarrow> u32 \<Rightarrow> u8 \<Rightarrow> u8 list" where
  "tcp_fields sport dport seq flags = to_be2 sport @ to_be2 dport @ octets seq @ [0, 0, 0, 0, 0x50, flags, 0x04, 0x00]"

lemma segment_shape:
  "segment src dst sport dport seq flags = ip_header src dst proto_tcp 20 @ tcp_fields sport dport seq flags @
     to_be2 (checksum ((pseudo_header src dst @ tcp_fields sport dport seq flags) @ [0, 0] @ [0, 0])) @ [0, 0]"
  by (simp add: segment_def tcp_fields_def put_field_def Let_def to_be2_def octets_def)

lemma echo_shape:
  "echo_request src dst ident seq = ip_header src dst proto_icmp icmp_header_len @
     [icmp_echo_request, 0] @ to_be2 (checksum ([icmp_echo_request, 0] @ [0, 0] @ to_be2 ident @ to_be2 seq)) @
     to_be2 ident @ to_be2 seq"
  by (simp add: echo_request_def put_field_def Let_def to_be2_def)

lemma header_verifies: "checksum (ip_header src dst protocol n) = 0"
  unfolding ip_header_shape
  by (rule checksum_verifies) (simp_all add: ip_fields_def word_sum_first)

lemma segment_verifies:
  "checksum (pseudo_header src dst @ drop 20 (segment src dst sport dport seq flags)) = 0"
proof -
  let ?xs = "pseudo_header src dst @ tcp_fields sport dport seq flags"
  have "word_sum (?xs @ [0, 0] @ [0, 0]) \<noteq> 0"
    by (simp add: pseudo_header_def tcp_fields_def word_sum_def be_words_append unat_from_be2 to_be2_def octets_def proto_tcp_def)
  then have "checksum (?xs @ to_be2 (checksum (?xs @ [0, 0] @ [0, 0])) @ [0, 0]) = 0"
    by (intro checksum_verifies) (simp_all add: pseudo_header_def tcp_fields_def)
  then show ?thesis by (simp add: segment_shape)
qed

lemma echo_verifies: "checksum (drop 20 (echo_request src dst ident seq)) = 0"
proof -
  have "checksum ([icmp_echo_request, 0] @ to_be2 (checksum ([icmp_echo_request, 0] @ [0, 0] @ to_be2 ident @ to_be2 seq)) @
      to_be2 ident @ to_be2 seq) = 0"
    by (rule checksum_verifies) (simp_all add: icmp_echo_request_def word_sum_first)
  then show ?thesis by (simp add: echo_shape)
qed

section \<open>Which probe a packet answers\<close>

lemma from_be2_inj: "from_be2 a b = from_be2 c d \<longleftrightarrow> a = c \<and> b = d"
proof
  assume "from_be2 a b = from_be2 c d"
  then have eq: "unat a * 256 + unat b = unat c * 256 + unat d" by (metis unat_from_be2)
  have "unat (from_be2 x y) div 256 = unat x" "unat (from_be2 x y) mod 256 = unat y" for x y
    using unat_bounded [of y] by (simp_all add: unat_from_be2)
  then have "unat a = unat c" "unat b = unat d" using eq unat_from_be2 by metis+
  then show "a = c \<and> b = d" by (simp add: word_unat_eq_iff)
qed simp

lemma octets_inj: "octets a = octets b \<longleftrightarrow> a = b"
proof
  assume eq: "octets a = octets b"
  have byte: "bit a n = bit b n" if "(ucast (drop_bit k a) :: u8) = ucast (drop_bit k b)" "k \<le> n" "n < k + 8" for k n
  proof -
    have "bit (ucast (drop_bit k a) :: u8) (n - k) = bit (ucast (drop_bit k b) :: u8) (n - k)" by (simp add: that(1))
    then show ?thesis using that(2,3) by (simp add: bit_simps less_diff_conv2)
  qed
  have "(ucast (drop_bit 0 a) :: u8) = ucast (drop_bit 0 b)" "(ucast (drop_bit 8 a) :: u8) = ucast (drop_bit 8 b)"
    "(ucast (drop_bit 16 a) :: u8) = ucast (drop_bit 16 b)" "(ucast (drop_bit 24 a) :: u8) = ucast (drop_bit 24 b)"
    using eq by (simp_all add: octets_def)
  then have "bit a n = bit b n" if "n < 32" for n
    using byte [of 0 n] byte [of 8 n] byte [of 16 n] byte [of 24 n] that by linarith
  then show "a = b" by (intro bit_word_eqI) simp
qed simp

lemma guard_bind [simp]: "Option.bind (guard b) f = (if b then f () else None)"
  by (simp add: guard_def)

text \<open>Everything a matcher requires, read off.\<close>

lemma match_reply_Some:
  assumes "match_reply packet dst port sport = Some r"
  shows "(slice_at 9 packet = Some proto_tcp \<and> ipv4_at packet 12 = Some (octets dst) \<and>
      (\<exists>tcp flags. payload packet = Some tcp \<and> be16 tcp 0 = Some port \<and> be16 tcp 2 = Some sport \<and> slice_at 13 tcp = Some flags \<and>
         r = (if flags AND flag_syn \<noteq> 0 \<and> flags AND flag_ack \<noteq> 0 then SynAck else Rst))) \<or>
    (slice_at 9 packet = Some proto_icmp \<and> r = IcmpUnreachable \<and>
      (\<exists>icmp quoted seg. payload packet = Some icmp \<and> slice_at 0 icmp = Some icmp_unreachable \<and> slice_from 8 icmp = Some quoted \<and>
         slice_at 9 quoted = Some proto_tcp \<and> ipv4_at quoted 16 = Some (octets dst) \<and> payload quoted = Some seg \<and>
         be16 seg 0 = Some sport \<and> be16 seg 2 = Some port))"
  using assms unfolding match_reply_def by (auto simp: bind_eq_Some_conv split: if_splits)

lemma match_echo_Some:
  assumes "match_echo packet dst ident seq = Some r"
  shows "slice_at 9 packet = Some proto_icmp \<and> (\<exists>icmp. payload packet = Some icmp \<and>
    (r = EchoReply \<and> slice_at 0 icmp = Some icmp_echo_reply \<and> ipv4_at packet 12 = Some (octets dst) \<and>
       be16 icmp 4 = Some ident \<and> be16 icmp 6 = Some seq \<or>
     r = DestinationUnreachable \<and> slice_at 0 icmp = Some icmp_unreachable \<and>
      (\<exists>quoted echo. slice_from 8 icmp = Some quoted \<and> slice_at 9 quoted = Some proto_icmp \<and>
         ipv4_at quoted 16 = Some (octets dst) \<and> payload quoted = Some echo \<and>
         be16 echo 4 = Some ident \<and> be16 echo 6 = Some seq)))"
  using assms unfolding match_echo_def by (auto simp: bind_eq_Some_conv split: if_splits)

lemmas packet_constants = proto_tcp_def proto_icmp_def icmp_unreachable_def icmp_echo_reply_def icmp_echo_request_def

lemma match_reply_once:
  assumes "match_reply packet dst port sport = Some r" "match_reply packet dst' port' sport' = Some r'"
  shows "dst' = dst \<and> port' = port \<and> sport' = sport \<and> r' = r"
  using match_reply_Some [OF assms(1)] match_reply_Some [OF assms(2)]
  apply (elim disjE conjE exE)
  apply (simp only: octets_inj option.inject)
  apply (simp only: octets_inj option.inject packet_constants, simp)
  apply (simp only: octets_inj option.inject packet_constants, simp)
  apply (simp only: octets_inj option.inject)
  done

lemma match_echo_once:
  assumes "match_echo packet dst ident seq = Some r" "match_echo packet dst' ident' seq' = Some r'"
  shows "dst' = dst \<and> ident' = ident \<and> seq' = seq \<and> r' = r"
  using match_echo_Some [OF assms(1)] match_echo_Some [OF assms(2)]
  apply (elim disjE conjE exE)
  apply (simp only: octets_inj option.inject)
  apply (simp only: octets_inj option.inject packet_constants, simp)
  apply (simp only: octets_inj option.inject packet_constants, simp)
  apply (simp only: octets_inj option.inject)
  done

lemma matchers_apart:
  assumes "match_reply packet dst port sport = Some r"
  shows "match_echo packet dst' ident seq = None"
proof (rule ccontr)
  assume "match_echo packet dst' ident seq \<noteq> None"
  then obtain r' where "match_echo packet dst' ident seq = Some r'" by blast
  from match_reply_Some [OF assms] match_echo_Some [OF this] show False
    by (elim disjE conjE exE; simp only: option.inject packet_constants; simp)
qed

section \<open>Answers to the daemon's own packets\<close>

lemma ip_header_fields:
  "ip_header src dst protocol n ! 0 = 0x45" "ip_header src dst protocol n ! 9 = protocol"
  "take 4 (drop 12 (ip_header src dst protocol n)) = octets src" "take 4 (drop 16 (ip_header src dst protocol n)) = octets dst"
  by (simp_all add: ip_header_def put_field_def octets_def to_be2_def Let_def)

lemma header_reads [simp]:
  "slice_at 9 (ip_header src dst protocol n @ body) = Some protocol"
  "ipv4_at (ip_header src dst protocol n @ body) 12 = Some (octets src)"
  "ipv4_at (ip_header src dst protocol n @ body) 16 = Some (octets dst)"
  "payload (ip_header src dst protocol n @ body) = Some body"
  using ip_header_fields [of src dst protocol n]
  by (simp_all add: slice_at_def ipv4_at_def slice_range_def payload_def slice_from_def nth_append)

lemma be16_at: "length xs = i \<Longrightarrow> bs = xs @ to_be2 w @ ys \<Longrightarrow> be16 bs i = Some w"
  using be2_round [of w] by (auto simp: be16_def slice_range_def to_be2_def)

lemma tcp_reads:
  fixes seq :: u32
  assumes "tcp = to_be2 sport @ to_be2 dport @ octets seq @ [0, 0, 0, 0, 0x50, flags, 0x04, 0x00, a, b, 0, 0]"
  shows "be16 tcp 0 = Some sport" "be16 tcp 2 = Some dport" "slice_at 13 tcp = Some flags"
  unfolding assms
  by (rule be16_at [of "[]"], simp, simp, rule be16_at [of "to_be2 sport"], simp_all add: to_be2_def octets_def slice_at_def)

lemma segment_body:
  "\<exists>tcp. segment src dst sport dport seq flags = ip_header src dst proto_tcp 20 @ tcp \<and>
     be16 tcp 0 = Some sport \<and> be16 tcp 2 = Some dport \<and> slice_at 13 tcp = Some flags"
proof -
  let ?tcp = "to_be2 sport @ to_be2 dport @ octets seq @ [0, 0, 0, 0, 0x50, flags, 0x04, 0x00, 0, 0, 0, 0]"
  obtain a b where ab: "to_be2 (checksum (pseudo_header src dst @ ?tcp)) = [a, b]" by (simp add: to_be2_def)
  let ?out = "to_be2 sport @ to_be2 dport @ octets seq @ [0, 0, 0, 0, 0x50, flags, 0x04, 0x00, a, b, 0, 0]"
  have "segment src dst sport dport seq flags = ip_header src dst proto_tcp 20 @ ?out"
    unfolding segment_def Let_def ab by (simp add: put_field_def to_be2_def octets_def)
  then show ?thesis using tcp_reads [of ?out, OF refl] by blast
qed

lemma echo_body:
  "\<exists>icmp. echo_request src dst ident seq = ip_header src dst proto_icmp icmp_header_len @ icmp \<and>
     slice_at 0 icmp = Some icmp_echo_request \<and> be16 icmp 4 = Some ident \<and> be16 icmp 6 = Some seq"
proof -
  let ?icmp = "[icmp_echo_request, 0, 0, 0] @ to_be2 ident @ to_be2 seq"
  obtain a b where ab: "to_be2 (checksum ?icmp) = [a, b]" by (simp add: to_be2_def)
  let ?out = "[icmp_echo_request, 0, a, b] @ to_be2 ident @ to_be2 seq"
  have "echo_request src dst ident seq = ip_header src dst proto_icmp icmp_header_len @ ?out"
    unfolding echo_request_def Let_def ab by (simp add: put_field_def to_be2_def)
  moreover have "be16 ?out 4 = Some ident" "be16 ?out 6 = Some seq"
    by (rule be16_at [of "[icmp_echo_request, 0, a, b]"], simp, simp,
      rule be16_at [of "[icmp_echo_request, 0, a, b] @ to_be2 ident"], simp_all add: to_be2_def)
  ultimately show ?thesis by (auto simp: slice_at_def)
qed

text \<open>A segment the other way, and an error that quotes the datagram it is about.\<close>

lemma mirrored_segment:
  "match_reply (segment dst src port sport seq flags) dst port sport =
    (if flags AND flag_syn \<noteq> 0 \<and> flags AND flag_ack \<noteq> 0 then Some SynAck
     else if flags AND flag_rst \<noteq> 0 then Some Rst else None)"
  using segment_body [of dst src port sport seq flags] by (auto simp: match_reply_def proto_tcp_def)

definition unreachable :: "u32 \<Rightarrow> u32 \<Rightarrow> u8 \<Rightarrow> u16 \<Rightarrow> u8 list \<Rightarrow> u8 list" where
  "unreachable router src code n quoted = ip_header router src proto_icmp n @ [icmp_unreachable, code, 0, 0, 0, 0, 0, 0] @ quoted"

lemma quoted_segment:
  "match_reply (unreachable router src code n (segment src dst sport port seq flags)) dst port sport = Some IcmpUnreachable"
  using segment_body [of src dst sport port seq flags]
  by (auto simp: match_reply_def unreachable_def slice_at_def [of 0] slice_from_def [of 8] proto_tcp_def proto_icmp_def)

lemma quoted_echo:
  "match_echo (unreachable router src code n (echo_request src dst ident seq)) dst ident seq = Some DestinationUnreachable"
  using echo_body [of src dst ident seq]
  by (auto simp: match_echo_def unreachable_def slice_at_def [of 0] slice_from_def [of 8] icmp_unreachable_def icmp_echo_reply_def)

definition echo_reply :: "u32 \<Rightarrow> u32 \<Rightarrow> u8 \<Rightarrow> u8 \<Rightarrow> u16 \<Rightarrow> u16 \<Rightarrow> u8 list" where
  "echo_reply src dst a b ident seq = ip_header src dst proto_icmp icmp_header_len @ [icmp_echo_reply, 0, a, b] @ to_be2 ident @ to_be2 seq"

lemma mirrored_echo: "match_echo (echo_reply dst src a b ident seq) dst ident seq = Some EchoReply"
proof -
  let ?icmp = "[icmp_echo_reply, 0, a, b] @ to_be2 ident @ to_be2 seq"
  have "be16 ?icmp 4 = Some ident" "be16 ?icmp 6 = Some seq"
    by (rule be16_at [of "[icmp_echo_reply, 0, a, b]"], simp, simp,
      rule be16_at [of "[icmp_echo_reply, 0, a, b] @ to_be2 ident"], simp_all add: to_be2_def)
  then show ?thesis by (simp add: match_echo_def echo_reply_def slice_at_def [of 0])
qed

section \<open>The carry loop\<close>

definition carry :: "u32 \<Rightarrow> u32" where
  "carry s = (s AND 0xffff) + drop_bit 16 s"

lemma carry_small: "\<not> 0xffff < s \<Longrightarrow> carry s = s"
proof -
  assume "\<not> 0xffff < s"
  then have "unat s < 65536" by (simp add: word_less_nat_alt)
  then show "carry s = s" by (simp add: carry_def word_unat_eq_iff unat_carry)
qed

lemma carry_twice: "\<not> 0xffff < carry (carry s)"
proof -
  have "unat s div 65536 < 65536" using unat_bounded [of s] by (simp add: less_mult_imp_div_less)
  then have one: "unat (carry s) \<le> 131070" using mod_less_divisor [of 65536 "unat s"]
    unfolding carry_def unat_carry by linarith
  have "unat (carry (carry s)) = unat (carry s) mod 65536 + unat (carry s) div 65536"
    unfolding carry_def [of "carry s"] by (rule unat_carry)
  moreover have "\<dots> \<le> 65535"
  proof (cases "unat (carry s) < 65536")
    case False
    then obtain k where k: "unat (carry s) = 65536 + k" using le_Suc_ex not_less by metis
    then have "k \<le> 65534" using one by simp
    then show ?thesis by (simp add: k)
  qed simp
  ultimately show ?thesis by (simp add: word_less_nat_alt)
qed

section \<open>Properties\<close>

text \<open>
  The checksum is the one's complement of the one's complement sum of the big-endian words of its
  input, over any input of at most 65,536 bytes: the 32-bit accumulator of the loop never wraps there.
\<close>

theorem checksum_is_rfc1071:
  assumes "length bs \<le> 2 ^ 16"
  shows "unat (checksum bs) = 65535 - ones_sum (word_sum bs)"
  using assms by (rule checksum_value)

theorem checksum_is_rfc1071_witness: "unat (checksum [0x45, 0, 0xff]) = 65535 - ones_sum (word_sum [0x45, 0, 0xff])"
  by (rule checksum_is_rfc1071) simp

text \<open>
  The carry loop ends, whatever it starts from: two rounds at most bring any 32-bit accumulator into
  16 bits, and the loop's value is the one after them.
\<close>

theorem carry_loop_ends: "fold_carry s = carry (carry s) \<and> unat (fold_carry s) \<le> 65535"
proof -
  have "fold_carry s = (if 0xffff < s then fold_carry (carry s) else s)" for s
    unfolding carry_def by (rule fold_carry.simps)
  then have "fold_carry s = carry (carry s)" using carry_small carry_twice by metis
  then show ?thesis using carry_twice [of s] by (simp add: word_less_nat_alt)
qed

text \<open>
  Every packet the daemon builds carries checksums its receiver accepts: the header of a packet, the
  TCP segment under its pseudo-header and the ICMP message each sum to zero as they stand.
\<close>

theorem emitted_packets_verify:
  "checksum (take 20 (segment src dst sport dport seq flags)) = 0 \<and>
   checksum (pseudo_header src dst @ drop 20 (segment src dst sport dport seq flags)) = 0 \<and>
   checksum (take 20 (echo_request src dst ident n)) = 0 \<and>
   checksum (drop 20 (echo_request src dst ident n)) = 0"
proof -
  have "take 20 (segment src dst sport dport seq flags) = ip_header src dst proto_tcp 20"
    using segment_body [of src dst sport dport seq flags] by auto
  moreover have "take 20 (echo_request src dst ident n) = ip_header src dst proto_icmp icmp_header_len"
    using echo_body [of src dst ident n] by auto
  ultimately show ?thesis by (simp add: header_verifies segment_verifies echo_verifies)
qed

text \<open>
  C34: a packet is attributed to at most one probe. Whatever bytes arrive, if they answer the SYN probe of
  one target, port and source port they answer no other SYN probe; if they answer the echo request of one target,
  identifier and sequence number they answer no other echo request; in either case what they say is one
  thing; and no packet answers a SYN probe and an echo request.
\<close>

theorem a_packet_answers_one_probe:
  shows "(match_reply packet dst port sport = Some r \<and> match_reply packet dst' port' sport' = Some r' \<longrightarrow>
      dst' = dst \<and> port' = port \<and> sport' = sport \<and> r' = r) \<and>
    (match_echo packet dst ident seq = Some e \<and> match_echo packet dst' ident' seq' = Some e' \<longrightarrow>
      dst' = dst \<and> ident' = ident \<and> seq' = seq \<and> e' = e) \<and>
    (match_reply packet dst port sport = None \<or> match_echo packet dst' ident' seq' = None)"
proof (intro conjI impI)
  assume "match_reply packet dst port sport = Some r \<and> match_reply packet dst' port' sport' = Some r'"
  then show "dst' = dst" "port' = port" "sport' = sport" "r' = r" using match_reply_once by blast+
next
  assume "match_echo packet dst ident seq = Some e \<and> match_echo packet dst' ident' seq' = Some e'"
  then show "dst' = dst" "ident' = ident" "seq' = seq" "e' = e" using match_echo_once by blast+
next
  show "match_reply packet dst port sport = None \<or> match_echo packet dst' ident' seq' = None"
    using matchers_apart by (cases "match_reply packet dst port sport") auto
qed

theorem a_packet_answers_one_probe_witness:
  "match_reply (segment 0x0a000002 0x0a000001 443 20001 7 0x12) 0x0a000002 80 20001 \<noteq> Some SynAck \<and>
   match_echo (segment 0x0a000002 0x0a000001 443 20001 7 0x12) 0x0a000002 1 1 = None \<and>
   match_echo (echo_reply 0x0a000002 0x0a000001 0 0 7 3) 0x0a000002 7 4 \<noteq> Some EchoReply"
proof -
  let ?s = "segment 0x0a000002 0x0a000001 443 20001 7 0x12" and ?e = "echo_reply 0x0a000002 0x0a000001 0 0 7 3"
  have s: "match_reply ?s 0x0a000002 443 20001 = Some SynAck"
    by (simp add: mirrored_segment flag_syn_def flag_ack_def)
  have e: "match_echo ?e 0x0a000002 7 3 = Some EchoReply" by (simp add: mirrored_echo)
  show ?thesis
    using s e
      a_packet_answers_one_probe [where packet = ?s and dst = "0x0a000002" and port = 443 and sport = 20001 and r = SynAck
        and dst' = "0x0a000002" and port' = 80 and sport' = 20001 and r' = SynAck and ident' = 1 and seq' = 1]
      a_packet_answers_one_probe [where packet = ?e and dst = "0x0a000002" and dst' = "0x0a000002" and ident = 7 and seq = 3
        and e = EchoReply and ident' = 7 and seq' = 4 and e' = EchoReply]
    by auto
qed

text \<open>
  The answers to the daemon's own packets are recognised: the segment a host sends back is read by
  its flags (SYN with ACK, else RST, else not an answer), an ICMP unreachable quoting a probe is read as
  that probe's, and an echo reply as its echo request's.
\<close>

theorem answers_are_recognised:
  "match_reply (segment dst src port sport seq flags) dst port sport =
     (if flags AND flag_syn \<noteq> 0 \<and> flags AND flag_ack \<noteq> 0 then Some SynAck
      else if flags AND flag_rst \<noteq> 0 then Some Rst else None) \<and>
   match_reply (unreachable router src code n (segment src dst sport port s f)) dst port sport = Some IcmpUnreachable \<and>
   match_echo (echo_reply dst src a b ident m) dst ident m = Some EchoReply \<and>
   match_echo (unreachable router src code n (echo_request src dst ident m)) dst ident m = Some DestinationUnreachable"
  by (simp add: mirrored_segment quoted_segment mirrored_echo quoted_echo)

end
