(* ===== verification/Prober.thy ===== *)
theory Prober
  imports Packets Scope
begin

text \<open>
  The prober of the privileged daemon, \<open>Prober\<close> of \<open>crates/bathy-packetd/src/syn.rs\<close> and \<open>icmp.rs\<close>:
  its own decision about the session's scope, made without the policy crate's code, the ceiling, the
  pacing, and the two kinds of probe. The locale \<open>ipv4_blocks\<close> is what the daemon and the policy
  crate both rely on of the \<open>ipnet\<close> crate.
\<close>

unbundle bit_operations_syntax

section \<open>The scope of a session\<close>

record 'n session_scope =
  ss_allowed :: "'n list"
  ss_denied :: "'n list"
  ss_packets_per_second :: u32
  ss_max_packets :: u64

datatype refusal = OutOfSessionScope | SessionBudgetExhausted

definition is_reserved :: "u32 \<Rightarrow> bool" where
  "is_reserved a \<longleftrightarrow> octet0 a = 0 \<or> octet0 a = 127 \<or> 224 \<le> octet0 a \<or> octet0 a = 169 \<and> octet1 a = 254"

definition checked_shl :: "u32 \<Rightarrow> nat \<Rightarrow> u32 option" where
  "checked_shl w k = (if k < 32 then Some (push_bit k w) else None)"

text \<open>\<open>base\<close> is \<open>Ipv4Net::addr\<close>, the address a network was written with.\<close>

definition covers :: "'n ipnet \<Rightarrow> ('n \<Rightarrow> u32) \<Rightarrow> 'n \<Rightarrow> u32 \<Rightarrow> bool" where
  "covers N base n a =
     (if net_is_v6 N n then False
      else let mask = (case checked_shl (- 1) (32 - net_prefix_len N n) of Some m \<Rightarrow> m | None \<Rightarrow> 0)
           in a AND mask = base n AND mask)"

fun check_session_scope ::
  "'n ipnet \<Rightarrow> ('n \<Rightarrow> u32) \<Rightarrow> 'n session_scope \<Rightarrow> ip_addr \<Rightarrow> refusal + u32"
where
  "check_session_scope N base scope (V6 b) = Inl OutOfSessionScope"
| "check_session_scope N base scope (V4 a) =
     (let denied = list_ex (\<lambda>n. covers N base n a) (ss_denied scope);
          allowed = list_ex (\<lambda>n. covers N base n a) (ss_allowed scope)
      in if is_reserved a \<or> denied \<or> \<not> allowed then Inl OutOfSessionScope else Inr a)"

section \<open>The prober\<close>

text \<open>
  Instants are nanoseconds. \<open>pb_handed\<close> is what \<open>Wire::emit\<close> has been given, oldest first: the
  packet, its target and an instant read before the call.
\<close>

record prober =
  pb_emitted :: u64
  pb_probes :: u64
  pb_counter :: u32
  pb_next_send :: "nat option"
  pb_now :: nat
  pb_handed :: "(u8 list \<times> u32 \<times> nat) list"

text \<open>
  The wire during one probe. \<open>source_for\<close> is its route lookup. A \<open>sending\<close> is whether \<open>emit\<close> accepts
  the packet and how much time passes up to each of the two clock readings of \<open>send\<close>. \<open>polls\<close> is what
  each \<open>poll\<close> reads until the deadline passes: nothing, or a packet.
\<close>

type_synonym sending = "bool \<times> nat \<times> nat"

record wire =
  w_source_for :: "u32 \<Rightarrow> u32 option"
  w_probe :: sending
  w_reset :: sending
  w_polls :: "u8 list option list"

definition prober_new :: "u32 \<Rightarrow> nat \<Rightarrow> prober" where
  "prober_new pid now = \<lparr>pb_emitted = 0, pb_probes = 0, pb_counter = pid, pb_next_send = None, pb_now = now, pb_handed = []\<rparr>"

definition admit ::
  "'n ipnet \<Rightarrow> ('n \<Rightarrow> u32) \<Rightarrow> 'n session_scope \<Rightarrow> ip_addr \<Rightarrow> prober \<Rightarrow> (refusal + u32 \<times> u32) \<times> prober"
where
  "admit N base scope target p =
     (case check_session_scope N base scope target of
        Inl e \<Rightarrow> (Inl e, p)
      | Inr a \<Rightarrow>
          if pb_probes p \<ge> ss_max_packets scope then (Inl SessionBudgetExhausted, p)
          else let p' = p\<lparr>pb_probes := sat_add (pb_probes p) 1, pb_counter := pb_counter p + 1\<rparr>
               in (Inr (a, pb_counter p'), p'))"

definition source_port_base :: u16 where "source_port_base = 20000"
definition source_port_span :: u32 where "source_port_span = 10000"

definition discriminator :: "u32 \<Rightarrow> u16" where
  "discriminator counter = sat_add source_port_base (ucast (counter mod source_port_span))"

definition gap :: "u32 \<Rightarrow> nat" where
  "gap pps = (if pps = 0 then 0 else 1000000000 div unat pps)"

definition send :: "sending \<Rightarrow> u8 list \<Rightarrow> u32 \<Rightarrow> u32 \<Rightarrow> prober \<Rightarrow> bool \<times> prober" where
  "send w packet target pps p =
     (let (accepted, d1, d2) = w;
          t1 = pb_now p + d1;
          woken = (case pb_next_send p of Some at \<Rightarrow> t1 + (at - t1) | None \<Rightarrow> t1);
          t2 = woken + d2
      in (accepted,
          p\<lparr>pb_next_send := Some (t2 + gap pps), pb_now := t2, pb_handed := pb_handed p @ [(packet, target, t2)],
            pb_emitted := (if accepted then sat_add (pb_emitted p) 1 else pb_emitted p)\<rparr>))"

fun await_matching :: "(u8 list \<Rightarrow> 'r option) \<Rightarrow> u8 list option list \<Rightarrow> 'r option" where
  "await_matching matcher [] = None"
| "await_matching matcher (None # polls) = await_matching matcher polls"
| "await_matching matcher (Some packet # polls) =
     (case matcher packet of Some answer \<Rightarrow> Some answer | None \<Rightarrow> await_matching matcher polls)"

definition await_reply :: "wire \<Rightarrow> u32 \<Rightarrow> u16 \<Rightarrow> u16 \<Rightarrow> reply" where
  "await_reply w a port sport =
     (case await_matching (\<lambda>packet. match_reply packet a port sport) (w_polls w) of Some r \<Rightarrow> r | None \<Rightarrow> NoReply)"

definition syn_probe ::
  "'n ipnet \<Rightarrow> ('n \<Rightarrow> u32) \<Rightarrow> wire \<Rightarrow> 'n session_scope \<Rightarrow> ip_addr \<Rightarrow> u16 \<Rightarrow> prober \<Rightarrow> (refusal + port_state) \<times> prober"
where
  "syn_probe N base w scope target port p =
     (case admit N base scope target p of
        (Inl e, p) \<Rightarrow> (Inl e, p)
      | (Inr (a, counter), p) \<Rightarrow>
          let sport = discriminator counter;
              seq = counter * 2654435761
          in case w_source_for w a of
               None \<Rightarrow> (Inr Indeterminate, p)
             | Some src \<Rightarrow>
                 let pps = ss_packets_per_second scope
                 in case send (w_probe w) (segment src a sport port seq flag_syn) a pps p of
                      (False, p) \<Rightarrow> (Inr Indeterminate, p)
                    | (True, p) \<Rightarrow>
                        let reply = await_reply w a port sport;
                            p = (if reply = SynAck
                                 then snd (send (w_reset w) (segment src a sport port (seq + 1) flag_rst) a pps p)
                                 else p)
                        in (Inr (classify_reply reply), p))"

definition icmp_probe ::
  "'n ipnet \<Rightarrow> ('n \<Rightarrow> u32) \<Rightarrow> wire \<Rightarrow> 'n session_scope \<Rightarrow> ip_addr \<Rightarrow> prober \<Rightarrow> (refusal + host_state) \<times> prober"
where
  "icmp_probe N base w scope target p =
     (case admit N base scope target p of
        (Inl e, p) \<Rightarrow> (Inl e, p)
      | (Inr (a, counter), p) \<Rightarrow>
          let ident = discriminator counter;
              n = ucast (counter AND 0xffff)
          in case w_source_for w a of
               None \<Rightarrow> (Inr Unknown, p)
             | Some src \<Rightarrow>
                 (case send (w_probe w) (echo_request src a ident n) a (ss_packets_per_second scope) p of
                    (False, p) \<Rightarrow> (Inr Unknown, p)
                  | (True, p) \<Rightarrow>
                      let reply = (case await_matching (\<lambda>packet. match_echo packet a ident n) (w_polls w) of
                            Some r \<Rightarrow> r | None \<Rightarrow> NoEcho)
                      in (Inr (classify_icmp reply), p)))"

section \<open>One answer from two implementations\<close>

text \<open>\<open>Ipv4Net::contains\<close>: the block of addresses the network's own address lies in.\<close>

locale ipv4_blocks = ipnet_laws +
  fixes base :: "'a \<Rightarrow> u32"
  assumes contains_block: "valid n \<Longrightarrow> \<not> net_is_v6 N n \<Longrightarrow> net_contains N n (V4 a) \<longleftrightarrow>
    (let size = 2 ^ (32 - net_prefix_len N n); first = unat (base n) div size * size
     in first \<le> unat a \<and> unat a < first + size)"
begin

lemma contains_same_block:
  assumes "valid n" "\<not> net_is_v6 N n"
  shows "net_contains N n (V4 a) \<longleftrightarrow>
    unat a div 2 ^ (32 - net_prefix_len N n) = unat (base n) div 2 ^ (32 - net_prefix_len N n)"
proof -
  have "q * size \<le> x \<and> x < q * size + size \<longleftrightarrow> x div size = q" if "0 < size" for q x size :: nat
    using that by (metis add.commute div_mult_mod_eq div_nat_eqI le_add1 mod_less_divisor mult.commute mult_Suc_right nat_add_left_cancel_less)
  then show ?thesis unfolding contains_block [OF assms] Let_def by simp
qed

end

fun prefixed_base :: "net \<Rightarrow> u32" where
  "prefixed_base (Net4 a p) = a"
| "prefixed_base (Net6 a p) = 0"

interpretation blocks: ipv4_blocks prefixed_net net_valid prefixed_base
proof
  fix n and a :: u32
  assume "net_valid n" "\<not> net_is_v6 prefixed_net n"
  then obtain b p where n: "n = Net4 b p" by (cases n) (auto simp: prefixed_net_def)
  have "x div size = q \<longleftrightarrow> q * size \<le> x \<and> x < q * size + size" if "0 < size" for q x size :: nat
    using that by (metis add.commute div_mult_mod_eq div_nat_eqI le_add1 mod_less_divisor mult.commute mult_Suc_right nat_add_left_cancel_less)
  then show "net_contains prefixed_net n (V4 a) \<longleftrightarrow>
      (let size = 2 ^ (32 - net_prefix_len prefixed_net n); first = unat (prefixed_base n) div size * size
       in first \<le> unat a \<and> unat a < first + size)"
    by (simp add: n prefixed_net_def Let_def)
qed

lemma masked_div:
  assumes "k < 32"
  shows "a AND push_bit k (- 1) = b AND push_bit k (- 1) \<longleftrightarrow> unat a div 2 ^ k = unat (b :: u32) div 2 ^ k"
proof -
  have mask: "a AND push_bit k (- 1) = push_bit k (drop_bit k a)" for a :: u32
    by (rule bit_word_eqI) (auto simp: bit_simps)
  have "push_bit k (drop_bit k a) = push_bit k (drop_bit k b) \<longleftrightarrow> drop_bit k a = drop_bit k b"
  proof
    assume "push_bit k (drop_bit k a) = push_bit k (drop_bit k b)"
    then have "drop_bit k (push_bit k (drop_bit k a)) = drop_bit k (push_bit k (drop_bit k b))" by simp
    moreover have "drop_bit k (push_bit k (drop_bit k a)) = drop_bit k a" for a :: u32
      by (rule bit_word_eqI) (auto simp: bit_simps dest: bit_imp_le_length)
    ultimately show "drop_bit k a = drop_bit k b" by simp
  qed simp
  moreover have "unat (drop_bit k a) = unat a div 2 ^ k" for a :: u32
    by (simp only: unat_drop_bit_eq) (simp add: drop_bit_eq_div)
  ultimately show ?thesis unfolding mask by (metis unsigned_word_eqI)
qed

lemma reserved_iff: "is_reserved a \<longleftrightarrow> \<not> is_ordinary_unicast (V4 a)"
proof -
  have "v4_is_broadcast a \<Longrightarrow> 224 \<le> octet0 a" "v4_is_unspecified a \<Longrightarrow> octet0 a = 0"
    by (simp_all add: v4_is_broadcast_def v4_is_unspecified_def octet0_def)
  moreover have "224 \<le> octet0 a \<longleftrightarrow> 224 \<le> octet0 a \<and> octet0 a \<le> 239 \<or> 240 \<le> octet0 a"
    by (auto simp: word_le_nat_alt)
  ultimately show ?thesis
    unfolding is_reserved_def is_ordinary_unicast.simps octets_0 v4_is_loopback_def v4_is_multicast_def v4_is_link_local_def
    by blast
qed

context ipv4_blocks begin

lemma covers_iff:
  assumes "valid n"
  shows "covers N base n a \<longleftrightarrow> net_contains N n (V4 a)"
proof (cases "net_is_v6 N n")
  case True
  then show ?thesis using contains_family [of n "V4 a"] by (auto simp: covers_def)
next
  case False
  show ?thesis
  proof (cases "net_prefix_len N n = 0")
    case True
    then show ?thesis using False contains_same_block [OF assms False] unat_bounded [of a] unat_bounded [of "base n"]
      by (simp add: covers_def checked_shl_def)
  next
    case no: False
    then show ?thesis unfolding contains_same_block [OF assms False]
      using masked_div [of "32 - net_prefix_len N n" a "base n"] False
      by (simp add: covers_def checked_shl_def Let_def)
  qed
qed

lemma check_session_scope_iff:
  assumes "\<forall>n \<in> set (ss_allowed scope) \<union> set (ss_denied scope). valid n"
    and "sm_allowed m = ss_allowed scope" "sm_denied m = ss_denied scope"
  shows "check_session_scope N base scope ip = Inr a \<longleftrightarrow> ip = V4 a \<and> allows N m ip"
  using assms by (cases ip) (auto simp: allows_def list_ex_iff covers_iff reserved_iff simp del: is_ordinary_unicast.simps)

end

section \<open>What the prober keeps\<close>

text \<open>A packet handed to the wire is addressed to an authorized target.\<close>

definition authorized :: "'n ipnet \<Rightarrow> ('n \<Rightarrow> u32) \<Rightarrow> 'n session_scope \<Rightarrow> u8 list \<times> u32 \<times> nat \<Rightarrow> bool" where
  "authorized N base scope h =
     (check_session_scope N base scope (V4 (fst (snd h))) = Inr (fst (snd h)) \<and>
      ipv4_at (fst h) 16 = Some (octets (fst (snd h))))"

definition handed_at :: "u8 list \<times> u32 \<times> nat \<Rightarrow> nat" where
  "handed_at h = snd (snd h)"

definition paced :: "nat \<Rightarrow> prober \<Rightarrow> bool" where
  "paced g p \<longleftrightarrow> sorted_wrt (\<lambda>x y. handed_at x + g \<le> handed_at y) (pb_handed p) \<and>
     (\<forall>x \<in> set (pb_handed p). \<exists>at. pb_next_send p = Some at \<and> handed_at x + g \<le> at)"

definition prober_inv :: "'n ipnet \<Rightarrow> ('n \<Rightarrow> u32) \<Rightarrow> 'n session_scope \<Rightarrow> prober \<Rightarrow> bool" where
  "prober_inv N base scope p \<longleftrightarrow>
     (\<forall>h \<in> set (pb_handed p). authorized N base scope h) \<and> paced (gap (ss_packets_per_second scope)) p \<and>
     unat (pb_emitted p) \<le> length (pb_handed p)"

definition prober_ok :: "'n ipnet \<Rightarrow> ('n \<Rightarrow> u32) \<Rightarrow> 'n session_scope \<Rightarrow> prober \<Rightarrow> bool" where
  "prober_ok N base scope p \<longleftrightarrow> prober_inv N base scope p \<and>
     length (pb_handed p) \<le> 2 * unat (pb_probes p) \<and> pb_probes p \<le> ss_max_packets scope"

lemma prober_ok_new: "prober_ok N base scope (prober_new pid now)"
  by (simp add: prober_ok_def prober_inv_def paced_def prober_new_def)

lemma check_session_scope_V4: "check_session_scope N base scope target = Inr a \<Longrightarrow>
    target = V4 a \<and> check_session_scope N base scope (V4 a) = Inr a"
  by (cases target) (auto simp: Let_def split: if_splits)

declare check_session_scope.simps [simp del]

lemma send_paced:
  assumes "paced (gap pps) p"
  shows "paced (gap pps) (snd (send w packet target pps p))"
proof -
  obtain accepted d1 d2 where w: "w = (accepted, d1, d2)" by (cases w)
  define t1 where "t1 = pb_now p + d1"
  define t2 where "t2 = (case pb_next_send p of Some at \<Rightarrow> t1 + (at - t1) | None \<Rightarrow> t1) + d2"
  have later: "at \<le> t2" if "pb_next_send p = Some at" for at using that by (simp add: t2_def)
  have early: "handed_at x + gap pps \<le> t2" if "x \<in> set (pb_handed p)" for x
    using assms that later unfolding paced_def by (metis le_trans)
  have sorted: "sorted_wrt (\<lambda>x y. handed_at x + gap pps \<le> handed_at y) (pb_handed p)"
    using assms by (simp add: paced_def)
  have q: "snd (send w packet target pps p) =
      p\<lparr>pb_next_send := Some (t2 + gap pps), pb_now := t2, pb_handed := pb_handed p @ [(packet, target, t2)],
        pb_emitted := (if accepted then sat_add (pb_emitted p) 1 else pb_emitted p)\<rparr>"
    unfolding w send_def Let_def prod.case t1_def t2_def by simp
  have at: "handed_at (packet, target, t2) = t2" by (simp add: handed_at_def)
  have "handed_at x + gap pps \<le> t2 + gap pps" if "x \<in> set (pb_handed p)" for x using early [OF that] by simp
  then show ?thesis unfolding q paced_def using early sorted by (simp add: sorted_wrt_append at)
qed

lemma send_shape:
  "\<exists>t. pb_handed (snd (send w packet target pps p)) = pb_handed p @ [(packet, target, t)] \<and>
     pb_probes (snd (send w packet target pps p)) = pb_probes p \<and> pb_counter (snd (send w packet target pps p)) = pb_counter p \<and>
     pb_emitted (snd (send w packet target pps p)) = (if fst (send w packet target pps p) then sat_add (pb_emitted p) 1 else pb_emitted p)"
  by (cases w) (auto simp: send_def Let_def)

lemma send_inv:
  assumes "prober_inv N base scope p" "check_session_scope N base scope (V4 a) = Inr a" "ipv4_at packet 16 = Some (octets a)"
    and q: "q = snd (send w packet a (ss_packets_per_second scope) p)"
  shows "prober_inv N base scope q \<and> length (pb_handed q) = Suc (length (pb_handed p)) \<and> pb_probes q = pb_probes p"
proof -
  have "unat (sat_add (pb_emitted p) 1) \<le> Suc (unat (pb_emitted p))" by (simp add: unat_sat_add)
  then show ?thesis
    using assms(1-3) send_shape [of w packet a "ss_packets_per_second scope" p] send_paced [of "ss_packets_per_second scope" p w packet a]
    unfolding q prober_inv_def by (auto simp: authorized_def [of _ _ _ "(packet, a, t)" for t])
qed

lemma segment_destination: "ipv4_at (segment src dst sport dport seq flags) 16 = Some (octets dst)"
  using segment_body [of src dst sport dport seq flags] by auto

lemma echo_destination: "ipv4_at (echo_request src dst ident n) 16 = Some (octets dst)"
  using echo_body [of src dst ident n] by auto

text \<open>Admission, branch by branch.\<close>

lemma admit_cases:
  obtains (refused) e where "admit N base scope target p = (Inl e, p)"
  | (admitted) a q where "admit N base scope target p = (Inr (a, pb_counter q), q)" "target = V4 a"
      "check_session_scope N base scope (V4 a) = Inr a" "pb_probes p < ss_max_packets scope"
      "q = p\<lparr>pb_probes := sat_add (pb_probes p) 1, pb_counter := pb_counter p + 1\<rparr>"
proof (cases "check_session_scope N base scope target")
  case (Inl e)
  then show ?thesis using refused by (simp add: admit_def)
next
  case (Inr a)
  note scope = check_session_scope_V4 [OF Inr]
  show ?thesis
  proof (cases "ss_max_packets scope \<le> pb_probes p")
    case True
    then show ?thesis using refused Inr by (simp add: admit_def)
  next
    case False
    let ?q = "p\<lparr>pb_probes := sat_add (pb_probes p) 1, pb_counter := pb_counter p + 1\<rparr>"
    have "admit N base scope target p = (Inr (a, pb_counter ?q), ?q)" using False Inr by (simp add: admit_def Let_def)
    then show ?thesis using admitted scope False by simp
  qed
qed

lemma probes_step:
  assumes "pb_probes p < ss_max_packets scope"
  shows "unat (sat_add (pb_probes p) 1) = Suc (unat (pb_probes p))" "sat_add (pb_probes p) 1 \<le> ss_max_packets scope"
proof -
  have "unat (pb_probes p) < unat (ss_max_packets scope)" using assms by (simp add: word_less_nat_alt)
  then show one: "unat (sat_add (pb_probes p) 1) = Suc (unat (pb_probes p))"
    using unat_bounded [of "ss_max_packets scope"] by (simp add: unat_sat_add)
  then show "sat_add (pb_probes p) 1 \<le> ss_max_packets scope"
    using assms by (simp add: word_less_nat_alt word_le_nat_alt)
qed

lemma admit_room:
  assumes "prober_ok N base scope p" "pb_probes p < ss_max_packets scope"
    and "q = p\<lparr>pb_probes := sat_add (pb_probes p) 1, pb_counter := pb_counter p + 1\<rparr>"
  shows "prober_inv N base scope q" "Suc (Suc (length (pb_handed q))) \<le> 2 * unat (pb_probes q)" "pb_probes q \<le> ss_max_packets scope"
  using assms probes_step [OF assms(2)] by (auto simp: prober_ok_def prober_inv_def paced_def)

lemma prober_okI:
  "\<lbrakk>prober_inv N base scope p; length (pb_handed p) \<le> 2 * unat (pb_probes p); pb_probes p \<le> ss_max_packets scope\<rbrakk>
   \<Longrightarrow> prober_ok N base scope p"
  by (simp add: prober_ok_def)

lemma syn_probe_ok:
  assumes "prober_ok N base scope p"
  shows "prober_ok N base scope (snd (syn_probe N base w scope target port p))"
proof (rule admit_cases [of N base scope target p])
  fix e assume "admit N base scope target p = (Inl e, p)"
  then show ?thesis using assms by (simp add: syn_probe_def)
next
  fix a q
  assume adm: "admit N base scope target p = (Inr (a, pb_counter q), q)" "check_session_scope N base scope (V4 a) = Inr a"
    "pb_probes p < ss_max_packets scope" "q = p\<lparr>pb_probes := sat_add (pb_probes p) 1, pb_counter := pb_counter p + 1\<rparr>"
  note room = admit_room [OF assms adm(3,4)]
  show ?thesis
  proof (cases "w_source_for w a")
    case None
    then show ?thesis using room by (simp add: syn_probe_def adm(1) prober_ok_def)
  next
    case (Some src)
    define sport seq where "sport = discriminator (pb_counter q)" and "seq = pb_counter q * 2654435761"
    define syn where "syn = send (w_probe w) (segment src a sport port seq flag_syn) a (ss_packets_per_second scope) q"
    have s: "prober_inv N base scope (snd syn)" "length (pb_handed (snd syn)) = Suc (length (pb_handed q))" "pb_probes (snd syn) = pb_probes q"
      using send_inv [OF room(1) adm(2) segment_destination refl] unfolding syn_def by blast+
    define rst where "rst = snd (send (w_reset w) (segment src a sport port (seq + 1) flag_rst) a (ss_packets_per_second scope) (snd syn))"
    have r: "prober_inv N base scope rst" "length (pb_handed rst) = Suc (length (pb_handed (snd syn)))" "pb_probes rst = pb_probes (snd syn)"
      using send_inv [OF s(1) adm(2) segment_destination refl] unfolding rst_def by blast+
    have "snd (syn_probe N base w scope target port p) \<in> {snd syn, rst}"
    proof (cases syn)
      case (Pair sent r)
      then have "send (w_probe w) (segment src a (discriminator (pb_counter q)) port (pb_counter q * 2654435761) flag_syn) a
          (ss_packets_per_second scope) q = (sent, r)"
        by (simp add: syn_def sport_def seq_def)
      then show ?thesis
        by (simp add: syn_probe_def adm(1) Some Let_def rst_def Pair sport_def seq_def split: bool.split)
    qed
    then show ?thesis using s r room(2,3) by (auto intro!: prober_okI)
  qed
qed

lemma icmp_probe_ok:
  assumes "prober_ok N base scope p"
  shows "prober_ok N base scope (snd (icmp_probe N base w scope target p))"
proof (rule admit_cases [of N base scope target p])
  fix e assume "admit N base scope target p = (Inl e, p)"
  then show ?thesis using assms by (simp add: icmp_probe_def)
next
  fix a q
  assume adm: "admit N base scope target p = (Inr (a, pb_counter q), q)" "check_session_scope N base scope (V4 a) = Inr a"
    "pb_probes p < ss_max_packets scope" "q = p\<lparr>pb_probes := sat_add (pb_probes p) 1, pb_counter := pb_counter p + 1\<rparr>"
  note room = admit_room [OF assms adm(3,4)]
  show ?thesis
  proof (cases "w_source_for w a")
    case None
    then show ?thesis using room by (simp add: icmp_probe_def adm(1) prober_ok_def)
  next
    case (Some src)
    define ident n where "ident = discriminator (pb_counter q)" and "n = (ucast (pb_counter q AND 0xffff) :: u16)"
    define echo where "echo = send (w_probe w) (echo_request src a ident n) a (ss_packets_per_second scope) q"
    have s: "prober_inv N base scope (snd echo)" "length (pb_handed (snd echo)) = Suc (length (pb_handed q))" "pb_probes (snd echo) = pb_probes q"
      using send_inv [OF room(1) adm(2) echo_destination refl] unfolding echo_def by blast+
    have "snd (icmp_probe N base w scope target p) = snd echo"
      by (cases echo) (auto simp: icmp_probe_def adm(1) Some Let_def split: bool.splits simp flip: ident_def n_def echo_def)
    then show ?thesis using s room(2,3) by (auto intro!: prober_okI)
  qed
qed

section \<open>Per-probe identities\<close>

lemma unat_discriminator: "unat (discriminator c) = 20000 + unat c mod 10000"
proof -
  have "unat c mod 10000 < 10000" by simp
  then have "unat (ucast (c mod 10000) :: u16) = unat c mod 10000"
    by (simp add: unsigned_ucast_eq take_bit_nat_eq_self unat_mod)
  then show ?thesis
    using \<open>unat c mod 10000 < 10000\<close> by (simp add: discriminator_def source_port_base_def source_port_span_def unat_sat_add)
qed

lemma discriminator_eq: "discriminator c = discriminator d \<longleftrightarrow> unat c mod 10000 = unat d mod 10000"
  by (simp add: word_unat_eq_iff unat_discriminator)

text \<open>
  The identities of the probes of one session. Two probes fewer than 10,000 apart carry different
  source ports or identifiers while the counter does not wrap, and 10,000 probes later each returns:
  over a longer session the discriminator is not unique to a probe.
\<close>

theorem discriminators_return:
  assumes "unat c + k < 2 ^ 32" "0 < k"
  shows "(k < 10000 \<longrightarrow> discriminator (c + of_nat k) \<noteq> discriminator c) \<and>
    (k = 10000 \<longrightarrow> discriminator (c + of_nat k) = discriminator c)"
proof -
  have "unat (of_nat k :: u32) = k" using assms(1) by (intro unat_of_nat_small) simp
  then have sum: "unat (c + of_nat k) = unat c + k" using assms(1) by (simp add: unat_word_ariths)
  have "(unat c + k) mod 10000 \<noteq> unat c mod 10000" if "k < 10000"
  proof
    assume "(unat c + k) mod 10000 = unat c mod 10000"
    then have "10000 dvd k" by (metis add_diff_cancel_left' mod_eq_dvd_iff_nat le_add1)
    then show False using assms(2) that by (auto dest: dvd_imp_le)
  qed
  then show ?thesis unfolding discriminator_eq sum by simp
qed

theorem discriminators_return_witness:
  "discriminator (4711 + of_nat 3) \<noteq> discriminator 4711 \<and> discriminator (4711 + of_nat 10000) = discriminator 4711"
  using discriminators_return [of 4711 3] discriminators_return [of 4711 10000] by simp

section \<open>Two authorities\<close>

definition init_scope :: "'n scope_manifest \<Rightarrow> 'n session_scope" where
  "init_scope m = \<lparr>ss_allowed = sm_allowed m, ss_denied = sm_denied m,
     ss_packets_per_second = maximum_packets_per_second (sm_ceiling m), ss_max_packets = maximum_packets (sm_ceiling m)\<rparr>"

lemma check_session_scope_Inl: "check_session_scope N base scope ip = Inl e \<Longrightarrow> e = OutOfSessionScope"
  by (cases ip) (auto simp: check_session_scope.simps Let_def split: if_splits)

text \<open>
  C6: the daemon and the policy crate agree. Initialised with what the engine sends of a manifest
  whose networks are networks, the daemon's own check authorizes exactly the addresses the manifest
  allows, although it shares neither the network matching nor the rules for reserved addresses, and it
  refuses every other address as out of the session's scope.
\<close>

theorem two_authorities_agree:
  assumes "ipv4_blocks N valid base" "\<forall>n \<in> set (sm_allowed m) \<union> set (sm_denied m). valid n"
  shows "(case check_session_scope N base (init_scope m) ip of
      Inr a \<Rightarrow> ip = V4 a \<and> allows N m ip | Inl e \<Rightarrow> e = OutOfSessionScope \<and> \<not> allows N m ip)"
proof -
  have *: "check_session_scope N base (init_scope m) ip = Inr a \<longleftrightarrow> ip = V4 a \<and> allows N m ip" for a
    using assms(2) by (intro ipv4_blocks.check_session_scope_iff [OF assms(1)]) (simp_all add: init_scope_def)
  show ?thesis
  proof (cases "check_session_scope N base (init_scope m) ip")
    case (Inl e)
    moreover have "\<not> allows N m ip"
    proof
      assume "allows N m ip"
      then obtain a where "ip = V4 a" by (cases ip) (auto simp: allows_def)
      then have "check_session_scope N base (init_scope m) ip = Inr a" using * \<open>allows N m ip\<close> by blast
      then show False using Inl by simp
    qed
    ultimately show ?thesis using check_session_scope_Inl by simp
  next
    case (Inr a)
    then have "ip = V4 a \<and> allows N m ip" using * [of a] by blast
    then show ?thesis unfolding Inr by auto
  qed
qed

theorem two_authorities_agree_witness:
  "\<exists>m. (case check_session_scope prefixed_net prefixed_base (init_scope m) (V4 0x0a000501) of
      Inr a \<Rightarrow> V4 0x0a000501 = V4 a \<and> allows prefixed_net m (V4 0x0a000501)
    | Inl e \<Rightarrow> e = OutOfSessionScope \<and> \<not> allows prefixed_net m (V4 0x0a000501)) \<and>
    allows prefixed_net m (V4 0x0a000501) \<and> \<not> allows prefixed_net m (V4 0x0a000701)"
proof -
  let ?m = "\<lparr>sm_id = 1, sm_description = [], sm_not_after = 0, sm_allowed = [Net4 0x0a000000 16], sm_denied = [Net4 0x0a000700 24],
      sm_ceiling = \<lparr>maximum_packets = 100, maximum_runtime_seconds = 60, maximum_packets_per_second = 10\<rparr>, sm_had_signature = False\<rparr>"
  have "allows prefixed_net ?m (V4 0x0a000501)" "\<not> allows prefixed_net ?m (V4 0x0a000701)"
    by (simp_all add: allows_iff prefixed_net_def ordinary_unicast_range del: is_ordinary_unicast.simps)
  moreover have "ipv4_blocks prefixed_net net_valid prefixed_base" by (rule blocks.ipv4_blocks_axioms)
  ultimately show ?thesis
    by (intro exI [of _ ?m] conjI two_authorities_agree [of prefixed_net net_valid]) auto
qed

end
