(* ===== verification/Privilege.thy ===== *)
theory Privilege
  imports Net_Addr
begin

text \<open>
  The measurement of privilege, \<open>crates/bathy-packetd/src/privilege.rs\<close>: \<open>/proc/self/status\<close> read
  into the masks the daemon checks before every byte of input. What cannot be read counts as held.
\<close>

section \<open>The status document\<close>

text \<open>\<open>str::lines\<close>: pieces ended by a line feed, a carriage return before it dropped, and no last
  empty piece.\<close>

definition strip_cr :: "string \<Rightarrow> string" where
  "strip_cr l = (if l \<noteq> [] \<and> List.last l = CHR 0x0D then butlast l else l)"

fun str_lines :: "string \<Rightarrow> string \<Rightarrow> string list" where
  "str_lines acc [] = (if acc = [] then [] else [rev acc])"
| "str_lines acc (c # cs) =
     (if c = CHR 0x0A then strip_cr (rev acc) # str_lines [] cs else str_lines (c # acc) cs)"

text \<open>\<open>u64::from_str_radix(_, 16)\<close>: an optional plus sign, at least one digit, and no overflow.\<close>

fun hex_digits :: "nat \<Rightarrow> string \<Rightarrow> nat option" where
  "hex_digits acc [] = Some acc"
| "hex_digits acc (c # cs) =
     (case to_digit 16 c of None \<Rightarrow> None | Some d \<Rightarrow> hex_digits (acc * 16 + d) cs)"

definition parse_hex :: "string \<Rightarrow> u64 option" where
  "parse_hex s =
     (let t = (case s of c # cs \<Rightarrow> (if c = CHR ''+'' then cs else s) | [] \<Rightarrow> [])
      in if t = [] then None
         else case hex_digits 0 t of Some n \<Rightarrow> (if n < 2 ^ 64 then Some (of_nat n) else None) | None \<Rightarrow> None)"

section \<open>The state\<close>

record privilege_state =
  effective :: u64
  permitted :: u64
  inheritable :: u64
  ambient :: u64
  bounding :: u64
  no_new_privs :: bool

definition unknown_privileges :: privilege_state where
  "unknown_privileges = \<lparr>effective = - 1, permitted = - 1, inheritable = - 1, ambient = - 1, bounding = - 1, no_new_privs = False\<rparr>"

definition state_dropped :: "privilege_state \<Rightarrow> bool" where
  "state_dropped s \<longleftrightarrow> effective s = 0 \<and> permitted s = 0 \<and> inheritable s = 0 \<and> ambient s = 0"

definition is_unprivileged :: "privilege_state \<Rightarrow> bool" where
  "is_unprivileged s \<longleftrightarrow> state_dropped s \<and> no_new_privs s"

definition cap_mask :: "string \<Rightarrow> u64" where
  "cap_mask v = (case parse_hex v of Some n \<Rightarrow> n | None \<Rightarrow> - 1)"

definition status_line :: "string \<Rightarrow> privilege_state \<Rightarrow> privilege_state" where
  "status_line line s =
     (case split_once CHR '':'' line of
        None \<Rightarrow> s
      | Some (key, value) \<Rightarrow>
          let value = trim value in
          if key = ''CapEff'' then s\<lparr>effective := cap_mask value\<rparr>
          else if key = ''CapPrm'' then s\<lparr>permitted := cap_mask value\<rparr>
          else if key = ''CapInh'' then s\<lparr>inheritable := cap_mask value\<rparr>
          else if key = ''CapAmb'' then s\<lparr>ambient := cap_mask value\<rparr>
          else if key = ''CapBnd'' then s\<lparr>bounding := cap_mask value\<rparr>
          else if key = ''NoNewPrivs'' then s\<lparr>no_new_privs := (value = ''1'')\<rparr>
          else s)"

definition parse_status :: "string \<Rightarrow> privilege_state" where
  "parse_status text = foldl (\<lambda>s line. status_line line s) unknown_privileges (str_lines [] text)"

text \<open>\<open>measure().is_ok_and(..)\<close>, of the document if it could be read.\<close>

definition capabilities_are_dropped :: "string option \<Rightarrow> bool" where
  "capabilities_are_dropped status = (case status of Some text \<Rightarrow> is_unprivileged (parse_status text) | None \<Rightarrow> False)"

section \<open>What a measurement rests on\<close>

text \<open>A field reads as zero only if the last line of its key says so.\<close>

definition field_values :: "string \<Rightarrow> string list \<Rightarrow> string list" where
  "field_values key ls = concat (map (\<lambda>l.
     case split_once CHR '':'' l of Some (k, v) \<Rightarrow> if k = key then [trim v] else [] | None \<Rightarrow> []) ls)"

definition says :: "string list \<Rightarrow> string \<Rightarrow> string \<Rightarrow> bool" where
  "says ls key value \<longleftrightarrow> (let vs = field_values key ls in vs \<noteq> [] \<and> List.last vs = value)"

lemma says_snoc:
  "says (ls @ [l]) key value \<longleftrightarrow>
     (case split_once CHR '':'' l of Some (k, v) \<Rightarrow> if k = key then trim v = value else says ls key value | None \<Rightarrow> says ls key value)"
  by (simp add: says_def field_values_def split: option.split prod.split)

lemma fold_snoc_status:
  "foldl (\<lambda>s line. status_line line s) s0 (ls @ [l]) = status_line l (foldl (\<lambda>s line. status_line line s) s0 ls)"
  by simp

lemma field_says:
  assumes "\<And>l s. f (status_line l s) =
      (case split_once CHR '':'' l of Some (k, v) \<Rightarrow> if k = key then g (trim v) else f s | None \<Rightarrow> f s)"
    and "f (foldl (\<lambda>s line. status_line line s) s0 ls) \<noteq> f s0"
  shows "\<exists>v. says ls key v \<and> f (foldl (\<lambda>s line. status_line line s) s0 ls) = g v"
  using assms(2)
proof (induction ls rule: rev_induct)
  case (snoc l ls)
  show ?case
  proof (cases "split_once CHR '':'' l")
    case None
    then show ?thesis using snoc by (simp add: assms(1) says_snoc)
  next
    case (Some kv)
    then show ?thesis using snoc by (cases kv) (auto simp: assms(1) says_snoc split: if_splits)
  qed
qed simp

lemma status_line_fields:
  "effective (status_line l s) = (case split_once CHR '':'' l of Some (k, v) \<Rightarrow> if k = ''CapEff'' then cap_mask (trim v) else effective s | None \<Rightarrow> effective s)"
  "permitted (status_line l s) = (case split_once CHR '':'' l of Some (k, v) \<Rightarrow> if k = ''CapPrm'' then cap_mask (trim v) else permitted s | None \<Rightarrow> permitted s)"
  "inheritable (status_line l s) = (case split_once CHR '':'' l of Some (k, v) \<Rightarrow> if k = ''CapInh'' then cap_mask (trim v) else inheritable s | None \<Rightarrow> inheritable s)"
  "ambient (status_line l s) = (case split_once CHR '':'' l of Some (k, v) \<Rightarrow> if k = ''CapAmb'' then cap_mask (trim v) else ambient s | None \<Rightarrow> ambient s)"
  "no_new_privs (status_line l s) = (case split_once CHR '':'' l of Some (k, v) \<Rightarrow> if k = ''NoNewPrivs'' then trim v = ''1'' else no_new_privs s | None \<Rightarrow> no_new_privs s)"
  by (auto simp: status_line_def Let_def split: option.split)

lemma mask_zero: "cap_mask v = 0 \<Longrightarrow> parse_hex v = Some 0"
  by (auto simp: cap_mask_def split: option.splits)

definition field_is_zero :: "string list \<Rightarrow> string \<Rightarrow> bool" where
  "field_is_zero ls key \<longleftrightarrow> (\<exists>v. says ls key v \<and> parse_hex v = Some 0)"

lemmas says_fields = field_says [of effective, OF status_line_fields(1)] field_says [of permitted, OF status_line_fields(2)]
  field_says [of inheritable, OF status_line_fields(3)] field_says [of ambient, OF status_line_fields(4)]
  field_says [of no_new_privs, OF status_line_fields(5)]

text \<open>
  The measurement fails closed. The daemon takes itself to be unprivileged only if the status
  document could be read and the last line for each of the four capability sets is a hexadecimal zero
  and the last line of \<open>NoNewPrivs\<close> is 1: a document that is missing, cut short before one of the five
  lines, or has a mask that does not parse, counts as every capability held.
\<close>

theorem measurement_fails_closed:
  assumes "capabilities_are_dropped status"
  shows "\<exists>text. status = Some text \<and>
    (let ls = str_lines [] text in
     field_is_zero ls ''CapEff'' \<and> field_is_zero ls ''CapPrm'' \<and> field_is_zero ls ''CapInh'' \<and> field_is_zero ls ''CapAmb'' \<and>
     says ls ''NoNewPrivs'' ''1'')"
proof -
  obtain doc where doc: "status = Some doc" and un: "is_unprivileged (parse_status doc)"
    using assms by (auto simp: capabilities_are_dropped_def split: option.splits)
  let ?s = "foldl (\<lambda>s line. status_line line s) unknown_privileges (str_lines [] doc)"
  have z: "effective ?s = 0" "permitted ?s = 0" "inheritable ?s = 0" "ambient ?s = 0" "no_new_privs ?s"
    using un by (simp_all add: is_unprivileged_def state_dropped_def parse_status_def)
  have "effective ?s \<noteq> effective unknown_privileges" "permitted ?s \<noteq> permitted unknown_privileges"
    "inheritable ?s \<noteq> inheritable unknown_privileges" "ambient ?s \<noteq> ambient unknown_privileges"
    "no_new_privs ?s \<noteq> no_new_privs unknown_privileges"
    unfolding z(1-4) using z(5) by (simp_all add: unknown_privileges_def)
  note found = says_fields(1) [OF this(1)] says_fields(2) [OF this(2)] says_fields(3) [OF this(3)]
    says_fields(4) [OF this(4)] says_fields(5) [OF this(5)]
  have "field_is_zero (str_lines [] doc) ''CapEff''" "field_is_zero (str_lines [] doc) ''CapPrm''"
    "field_is_zero (str_lines [] doc) ''CapInh''" "field_is_zero (str_lines [] doc) ''CapAmb''"
    using found(1-4) unfolding z(1-4) field_is_zero_def by (metis mask_zero)+
  moreover have "says (str_lines [] doc) ''NoNewPrivs'' ''1''" using found(5) z(5) by auto
  ultimately show ?thesis using doc by (simp add: Let_def)
qed

lemma white_space_chars: "utf8_white_space = [[CHR 0x09],[CHR 0x0A],[CHR 0x0B],[CHR 0x0C],[CHR 0x0D],[CHR 0x20],[CHR 0xC2, CHR 0x85],[CHR 0xC2, CHR 0xA0],
  [CHR 0xE1, CHR 0x9A, CHR 0x80],  [CHR 0xE2, CHR 0x80, CHR 0x80], [CHR 0xE2, CHR 0x80, CHR 0x81], [CHR 0xE2, CHR 0x80, CHR 0x82], [CHR 0xE2, CHR 0x80, CHR 0x83], [CHR 0xE2, CHR 0x80, CHR 0x84],
  [CHR 0xE2, CHR 0x80, CHR 0x85], [CHR 0xE2, CHR 0x80, CHR 0x86], [CHR 0xE2, CHR 0x80, CHR 0x87], [CHR 0xE2, CHR 0x80, CHR 0x88], [CHR 0xE2, CHR 0x80, CHR 0x89],
  [CHR 0xE2, CHR 0x80, CHR 0x8A], [CHR 0xE2, CHR 0x80, CHR 0xA8], [CHR 0xE2, CHR 0x80, CHR 0xA9], [CHR 0xE2, CHR 0x80, CHR 0xAF], [CHR 0xE2, CHR 0x81, CHR 0x9F], [CHR 0xE3, CHR 0x80, CHR 0x80]]"
  by (simp add: utf8_white_space_def char_of_def bit_0)
lemma sample_trims: "trim '' 0'' = ''0''" "trim '' 1'' = ''1''" "trim '' 1ff'' = ''1ff''" "trim '' packetd'' = ''packetd''"
  by (simp_all add: trim_def trim_start_def trim_end_def white_space_chars)
lemma sample_masks: "cap_mask ''0'' = 0" "to_digit 16 CHR ''0'' = Some 0"
  by (simp_all add: cap_mask_def parse_hex_def to_digit_def Let_def)

definition sample_status :: string where
  "sample_status = concat (map (\<lambda>l. l @ [CHR 0x0A])
     [''Name: packetd'', ''CapInh: 0'', ''CapPrm: 0'', ''CapEff: 0'', ''CapBnd: 1ff'', ''CapAmb: 0'', ''NoNewPrivs: 1''])"

lemma sample_lines:
  "str_lines [] sample_status =
    [''Name: packetd'', ''CapInh: 0'', ''CapPrm: 0'', ''CapEff: 0'', ''CapBnd: 1ff'', ''CapAmb: 0'', ''NoNewPrivs: 1'']"
  by (simp add: sample_status_def strip_cr_def)

lemma sample_dropped: "capabilities_are_dropped (Some sample_status)"
  by (simp add: capabilities_are_dropped_def parse_status_def sample_lines status_line_def Let_def sample_trims
    sample_masks is_unprivileged_def state_dropped_def)

theorem measurement_fails_closed_witness: "field_is_zero (str_lines [] sample_status) ''CapEff''"
  using measurement_fails_closed [OF sample_dropped] by (simp add: Let_def)

end
