(* ===== verification/Daemon.thy ===== *)
theory Daemon
  imports Prober Privilege Event_Codec
begin

text \<open>
  The privileged daemon, \<open>crates/bathy-packetd\<close>: the line reader and the session of \<open>protocol.rs\<close>, the
  guard of \<open>privilege.rs\<close> in front of its input, and the loop of \<open>main.rs\<close>. A session is told its scope
  once; everything unexpected ends it.
\<close>

section \<open>The reader\<close>

definition max_line_bytes :: nat where "max_line_bytes = 8192"

text \<open>What the buffered standard input gives when it is filled: bytes (none at the end), or an error.\<close>

datatype fill = Bytes string | Interrupted | Broken string

datatype line_error = TooLong | Unterminated nat | NotUtf8 | LineIo string

fun show_line_error :: "line_error \<Rightarrow> string" where
  "show_line_error TooLong = ''line exceeds the '' @ show_nat max_line_bytes @ ''-byte cap''"
| "show_line_error (Unterminated n) = ''input ended mid-line after '' @ show_nat n @ '' byte(s) with no newline''"
| "show_line_error NotUtf8 = ''line is not valid UTF-8''"
| "show_line_error (LineIo e) = ''reading from the engine: '' @ e"

definition ordering_violation :: string where
  "ordering_violation =
     ''packetd attempted to read input while still holding a capability; refusing. This is a '' @
     ''build defect: raw sockets are opened, then every capability is dropped, and only then '' @
     ''is any attacker-influenced byte read.''"

text \<open>
  \<open>G k\<close> is the status document at the \<open>k\<close>-th fill, which \<open>UnprivilegedInput\<close> measures before it lets the
  fill happen. The result is the line, the number of fills so far and what is left of the input.
\<close>

fun read_line ::
  "(nat \<Rightarrow> string option) \<Rightarrow> nat \<Rightarrow> string \<Rightarrow> fill list \<Rightarrow> (line_error + string option) \<times> nat \<times> fill list"
where
  "read_line G k buf [] =
     (if \<not> capabilities_are_dropped (G k) then (Inl (LineIo ordering_violation), Suc k, [])
      else (if buf = [] then Inr None else Inl (Unterminated (length buf)), Suc k, []))"
| "read_line G k buf (f # fills) =
     (if \<not> capabilities_are_dropped (G k) then (Inl (LineIo ordering_violation), Suc k, f # fills)
      else case f of
        Interrupted \<Rightarrow> read_line G (Suc k) buf fills
      | Broken e \<Rightarrow> (Inl (LineIo e), Suc k, fills)
      | Bytes available \<Rightarrow>
          if available = [] then (if buf = [] then Inr None else Inl (Unterminated (length buf)), Suc k, fills)
          else
            let chunk = takeWhile (\<lambda>c. c \<noteq> CHR 0x0A) available
            in if length buf + length chunk > max_line_bytes then (Inl TooLong, Suc k, f # fills)
               else if length chunk < length available then
                 let rest = drop (Suc (length chunk)) available
                 in (if utf8_valid (buf @ chunk) then Inr (Some (buf @ chunk)) else Inl NotUtf8,
                     Suc k, if rest = [] then fills else Bytes rest # fills)
               else read_line G (Suc k) (buf @ chunk) fills)"

section \<open>The session\<close>

datatype 'n session_state = AwaitingInit | Running "'n session_scope" | Ended bool

record 'n daemon =
  dm_state :: "'n session_state"
  dm_dropped :: bool
  dm_prober :: prober

text \<open>The \<open>ipnet\<close> crate and \<open>serde_json::from_str::<Request>\<close>.\<close>

record 'n helper =
  he_net :: "'n ipnet"
  he_base :: "'n \<Rightarrow> u32"
  he_parse :: "string \<Rightarrow> string + 'n request"

definition daemon_new :: "bool \<Rightarrow> u32 \<Rightarrow> nat \<Rightarrow> 'n daemon" where
  "daemon_new dropped pid now = \<lparr>dm_state = AwaitingInit, dm_dropped = dropped, dm_prober = prober_new pid now\<rparr>"

fun is_terminated :: "'n session_state \<Rightarrow> bool" where
  "is_terminated (Ended fatal) = True"
| "is_terminated _ = False"

fun ended_fatally :: "'n session_state \<Rightarrow> bool" where
  "ended_fatally (Ended fatal) = fatal"
| "ended_fatally _ = False"

fun session_scope_of :: "'n session_state \<Rightarrow> 'n session_scope option" where
  "session_scope_of (Running scope) = Some scope"
| "session_scope_of _ = None"

fun refusal_name :: "refusal \<Rightarrow> string" where
  "refusal_name OutOfSessionScope = ''out_of_session_scope''"
| "refusal_name SessionBudgetExhausted = ''session_budget_exhausted''"

fun request_name :: "'n request \<Rightarrow> string" where
  "request_name (Init a d pps n) = ''init''"
| "request_name (ProbeRequest i t p) = ''probe''"
| "request_name (IcmpProbe i t) = ''icmp_probe''"
| "request_name Shutdown = ''shutdown''"

definition after_the_end :: string where
  "after_the_end = ''session already terminated; packetd does not resynchronize''"

definition terminate :: "string \<Rightarrow> 'n daemon \<Rightarrow> response \<times> 'n daemon" where
  "terminate detail d = (Fatal detail, d\<lparr>dm_state := Ended True\<rparr>)"

datatype work = SynWork u16 | IcmpWork

fun work_name :: "work \<Rightarrow> string" where
  "work_name (SynWork p) = ''probe''"
| "work_name IcmpWork = ''icmp_probe''"

definition handle_work :: "'n helper \<Rightarrow> wire \<Rightarrow> u64 \<Rightarrow> ip_addr \<Rightarrow> work \<Rightarrow> 'n daemon \<Rightarrow> response \<times> 'n daemon" where
  "handle_work H w i target work d =
     (case dm_state d of
        Running scope \<Rightarrow>
          (case work of
             SynWork port \<Rightarrow>
               (case syn_probe (he_net H) (he_base H) w scope target port (dm_prober d) of
                  (Inr state, p) \<Rightarrow> (Result i state, d\<lparr>dm_prober := p\<rparr>)
                | (Inl reason, p) \<Rightarrow> (RefusedProbe i (refusal_name reason), d\<lparr>dm_prober := p\<rparr>))
           | IcmpWork \<Rightarrow>
               (case icmp_probe (he_net H) (he_base H) w scope target (dm_prober d) of
                  (Inr state, p) \<Rightarrow> (HostResult i state, d\<lparr>dm_prober := p\<rparr>)
                | (Inl reason, p) \<Rightarrow> (RefusedProbe i (refusal_name reason), d\<lparr>dm_prober := p\<rparr>)))
      | _ \<Rightarrow> terminate (work_name work @ '' '' @ show_word i @
               '' arrived outside a running session; packetd refuses all work before it has been told its scope'') d)"

definition dispatch_request :: "'n helper \<Rightarrow> wire \<Rightarrow> 'n request \<Rightarrow> 'n daemon \<Rightarrow> response option \<times> 'n daemon" where
  "dispatch_request H w request d =
     (case (dm_state d, request) of
        (AwaitingInit, Init allowed denied pps n) \<Rightarrow>
          if allowed = [] then
            apfst Some (terminate (''init carries an empty allowlist; an empty allow set is not '' @
              ''permission to scan anything'') d)
          else (Some (Ready (dm_dropped d)),
                d\<lparr>dm_state := Running \<lparr>ss_allowed = allowed, ss_denied = denied, ss_packets_per_second = pps, ss_max_packets = n\<rparr>\<rparr>)
      | (AwaitingInit, other) \<Rightarrow>
          apfst Some (terminate (request_name other @ '' arrived before init; packetd refuses all work before it has been '' @
            ''told its scope'') d)
      | (Running _, Init _ _ _ _) \<Rightarrow>
          apfst Some (terminate (''a second init would widen session scope after startup; scope is fixed '' @
            ''for the process lifetime'') d)
      | (Running _, ProbeRequest i target port) \<Rightarrow> apfst Some (handle_work H w i target (SynWork port) d)
      | (Running _, IcmpProbe i target) \<Rightarrow> apfst Some (handle_work H w i target IcmpWork d)
      | (Running _, Shutdown) \<Rightarrow> (None, d\<lparr>dm_state := Ended False\<rparr>)
      | (Ended _, _) \<Rightarrow> apfst Some (terminate after_the_end d))"

definition handle_line :: "'n helper \<Rightarrow> wire \<Rightarrow> string \<Rightarrow> 'n daemon \<Rightarrow> response option \<times> 'n daemon" where
  "handle_line H w line d =
     (if is_terminated (dm_state d) then apfst Some (terminate after_the_end d)
      else if length line > max_line_bytes then
        apfst Some (terminate (''line of '' @ show_nat (length line) @ '' bytes exceeds the '' @ show_nat max_line_bytes @ ''-byte cap'') d)
      else case he_parse H line of
        Inl e \<Rightarrow> apfst Some (terminate (''malformed request: '' @ e) d)
      | Inr request \<Rightarrow> dispatch_request H w request d)"

section \<open>The loop\<close>

definition input_size :: "fill list \<Rightarrow> nat" where
  "input_size fills = sum_list (map (\<lambda>f. case f of Bytes s \<Rightarrow> Suc (length s) | _ \<Rightarrow> 1) fills)"

lemma input_size_simps [simp]:
  "input_size [] = 0"
  "input_size (Bytes s # fills) = Suc (length s + input_size fills)"
  "input_size (Interrupted # fills) = Suc (input_size fills)"
  "input_size (Broken e # fills) = Suc (input_size fills)"
  by (simp_all add: input_size_def)

lemma read_line_progress: "read_line G k buf fills = (Inr (Some line), k', rest) \<Longrightarrow> input_size rest < input_size fills"
proof (induction G k buf fills rule: read_line.induct)
  case (1 G k buf)
  then show ?case by (auto split: if_splits)
next
  case (2 G k buf f fills)
  show ?case
  proof (cases f)
    case (Bytes s)
    let ?chunk = "takeWhile (\<lambda>c. c \<noteq> CHR 0x0A) s"
    have drop: "length (drop (Suc (length ?chunk)) s) < length s" if "length ?chunk < length s" using that by simp
    show ?thesis
    proof (cases "length ?chunk < length s")
      case True
      then show ?thesis using 2(3) Bytes drop by (auto simp: Let_def split: if_splits)
    next
      case False
      then have "s \<noteq> [] \<Longrightarrow> read_line G (Suc k) (buf @ ?chunk) fills = (Inr (Some line), k', rest)"
        using 2(3) Bytes by (auto simp: Let_def split: if_splits)
      moreover have "s \<noteq> []" "capabilities_are_dropped (G k)" "\<not> length buf + length ?chunk > max_line_bytes"
        using 2(3) Bytes False by (auto simp: Let_def split: if_splits)
      ultimately show ?thesis using 2(1) [OF _ Bytes _ refl _ False] Bytes by auto
    qed
  next
    case Interrupted
    then show ?thesis using 2(2) 2(3) by (auto split: if_splits)
  next
    case (Broken e)
    then show ?thesis using 2(3) by (auto split: if_splits)
  qed
qed

text \<open>
  A process: the measurements, the wire at each line, and whether each response written reaches the
  engine. The result is the exit status, the session and the responses handed to the pipe.
\<close>

record 'n process =
  pr_helper :: "'n helper"
  pr_status :: "nat \<Rightarrow> string option"
  pr_wire :: "nat \<Rightarrow> wire"
  pr_written :: "nat \<Rightarrow> bool"

definition exit_status :: "'n daemon \<Rightarrow> u8" where
  "exit_status d = (if ended_fatally (dm_state d) then 1 else 0)"

function run_session ::
  "'n process \<Rightarrow> nat \<Rightarrow> nat \<Rightarrow> fill list \<Rightarrow> 'n daemon \<Rightarrow> response list \<Rightarrow> u8 \<times> 'n daemon \<times> response list"
where
  "run_session E k i fills d out =
     (case read_line (pr_status E) k [] fills of
        (Inl e, _, _) \<Rightarrow> (1, d, out @ [Fatal (show_line_error e)])
      | (Inr None, _, _) \<Rightarrow> (exit_status d, d, out)
      | (Inr (Some line), k', rest) \<Rightarrow>
          (case handle_line (pr_helper E) (pr_wire E i) line d of
             (Some response, d') \<Rightarrow>
               if \<not> pr_written E (length out) then (1, d', out @ [response])
               else if is_terminated (dm_state d') then (exit_status d', d', out @ [response])
               else run_session E k' (Suc i) rest d' (out @ [response])
           | (None, d') \<Rightarrow>
               if is_terminated (dm_state d') then (exit_status d', d', out)
               else run_session E k' (Suc i) rest d' out))"
  by pat_completeness auto
termination
  by (relation "measure (\<lambda>(E, k, i, fills, d, out). input_size fills)") (auto dest!: read_line_progress [OF sym])

declare run_session.simps [simp del]

section \<open>What a line does to a session\<close>

text \<open>The scope a first line gives, if it gives one.\<close>

definition line_scope :: "'n helper \<Rightarrow> string \<Rightarrow> 'n session_scope option" where
  "line_scope H line =
     (if length line > max_line_bytes then None
      else case he_parse H line of
        Inr (Init allowed denied pps n) \<Rightarrow>
          (if allowed = [] then None
           else Some \<lparr>ss_allowed = allowed, ss_denied = denied, ss_packets_per_second = pps, ss_max_packets = n\<rparr>)
      | _ \<Rightarrow> None)"

lemmas line_defs = handle_line_def dispatch_request_def handle_work_def terminate_def apfst_def map_prod_def

lemma handle_line_first:
  assumes "dm_state d = AwaitingInit"
  shows "snd (handle_line H w line d) =
    d\<lparr>dm_state := (case line_scope H line of Some scope \<Rightarrow> Running scope | None \<Rightarrow> Ended True)\<rparr>"
  using assms by (auto simp: line_defs line_scope_def split: sum.split request.split)

lemma handle_line_ended:
  assumes "is_terminated (dm_state d)"
  shows "handle_line H w line d = (Some (Fatal after_the_end), d\<lparr>dm_state := Ended True\<rparr>)"
  using assms by (simp add: line_defs)

definition daemon_ok :: "'n helper \<Rightarrow> 'n session_scope \<Rightarrow> 'n daemon \<Rightarrow> bool" where
  "daemon_ok H scope d \<longleftrightarrow> (dm_state d = Running scope \<or> is_terminated (dm_state d)) \<and>
     prober_ok (he_net H) (he_base H) scope (dm_prober d)"

lemma handle_work_ok:
  assumes "dm_state d = Running scope" "prober_ok (he_net H) (he_base H) scope (dm_prober d)"
  shows "daemon_ok H scope (snd (handle_work H w i target work d))"
proof (cases work)
  case (SynWork port)
  obtain r p where r: "syn_probe (he_net H) (he_base H) w scope target port (dm_prober d) = (r, p)" by fastforce
  then have "prober_ok (he_net H) (he_base H) scope p" using syn_probe_ok [OF assms(2)] by (metis snd_conv)
  then show ?thesis using SynWork assms(1) r by (cases r) (simp_all add: handle_work_def daemon_ok_def)
next
  case IcmpWork
  obtain r p where r: "icmp_probe (he_net H) (he_base H) w scope target (dm_prober d) = (r, p)" by fastforce
  then have "prober_ok (he_net H) (he_base H) scope p" using icmp_probe_ok [OF assms(2)] by (metis snd_conv)
  then show ?thesis using IcmpWork assms(1) r by (cases r) (simp_all add: handle_work_def daemon_ok_def)
qed

lemma handle_line_ok:
  assumes "daemon_ok H scope d"
  shows "daemon_ok H scope (snd (handle_line H w line d))"
proof (cases "is_terminated (dm_state d)")
  case True
  then show ?thesis using assms by (simp add: handle_line_ended daemon_ok_def)
next
  case False
  then have running: "dm_state d = Running scope" and p: "prober_ok (he_net H) (he_base H) scope (dm_prober d)"
    using assms by (auto simp: daemon_ok_def)
  have ended: "daemon_ok H scope (d\<lparr>dm_state := Ended f\<rparr>)" for f using p by (simp add: daemon_ok_def)
  show ?thesis
  proof (cases "he_parse H line")
    case (Inl e)
    then show ?thesis using ended running by (simp add: handle_line_def terminate_def)
  next
    case (Inr request)
    show ?thesis
      using ended handle_work_ok [OF running p] running Inr
      by (cases request) (simp_all add: handle_line_def dispatch_request_def terminate_def)
  qed
qed

text \<open>The loop as one equation and one rule of induction.\<close>

definition response_list :: "response option \<Rightarrow> response list" where
  "response_list r = (case r of None \<Rightarrow> [] | Some r \<Rightarrow> [r])"

lemma run_session_line:
  assumes "read_line (pr_status E) k [] fills = (Inr (Some line), k', rest)"
    and "handle_line (pr_helper E) (pr_wire E i) line d = (resp, d')"
  shows "run_session E k i fills d out =
    (let out' = out @ response_list resp
     in if resp \<noteq> None \<and> \<not> pr_written E (length out) then (1, d', out')
        else if is_terminated (dm_state d') then (exit_status d', d', out')
        else run_session E k' (Suc i) rest d' out')"
  using assms by (subst run_session.simps) (simp add: response_list_def split: option.split)

lemma run_session_stop:
  "read_line (pr_status E) k [] fills = (Inl e, k', rest) \<Longrightarrow>
     run_session E k i fills d out = (1, d, out @ [Fatal (show_line_error e)])"
  "read_line (pr_status E) k [] fills = (Inr None, k', rest) \<Longrightarrow> run_session E k i fills d out = (exit_status d, d, out)"
  by (subst run_session.simps; simp)+

lemma run_session_cases:
  obtains (failed) e k' rest where "read_line (pr_status E) k [] fills = (Inl e, k', rest)"
  | (closed) k' rest where "read_line (pr_status E) k [] fills = (Inr None, k', rest)"
  | (line) line k' rest resp d' where "read_line (pr_status E) k [] fills = (Inr (Some line), k', rest)"
      "handle_line (pr_helper E) (pr_wire E i) line d = (resp, d')"
proof -
  obtain r k' rest where r: "read_line (pr_status E) k [] fills = (r, k', rest)" using prod_cases3 by blast
  show ?thesis
  proof (cases r)
    case (Inl e)
    then show ?thesis using failed r by simp
  next
    case (Inr l)
    obtain resp d' where "handle_line (pr_helper E) (pr_wire E i) (the l) d = (resp, d')" by fastforce
    then show ?thesis using closed line r Inr by (cases l) auto
  qed
qed

lemma run_session_induct [case_names step]:
  assumes step: "\<And>k i fills d out.
    (\<And>line k' rest resp d'. \<lbrakk>read_line (pr_status E) k [] fills = (Inr (Some line), k', rest);
        handle_line (pr_helper E) (pr_wire E i) line d = (resp, d')\<rbrakk> \<Longrightarrow> P k' (Suc i) rest d' (out @ response_list resp))
    \<Longrightarrow> P k i fills d out"
  shows "P k i fills d out"
proof (induction "input_size fills" arbitrary: k i fills d out rule: less_induct)
  case less
  show ?case by (rule step) (blast dest: read_line_progress intro: less)
qed

lemma run_session_ok:
  "daemon_ok (pr_helper E) scope d \<Longrightarrow> daemon_ok (pr_helper E) scope (fst (snd (run_session E k i fills d out)))"
proof (induction k i fills d out rule: run_session_induct [where E = E])
  case (step k i fills d out)
  show ?case
  proof (rule run_session_cases [where E = E and k = k and fills = fills and i = i and d = d])
    fix line k' rest resp d'
    assume l: "read_line (pr_status E) k [] fills = (Inr (Some line), k', rest)"
      "handle_line (pr_helper E) (pr_wire E i) line d = (resp, d')"
    have "daemon_ok (pr_helper E) scope d'" using handle_line_ok [OF step(2)] l(2) by (metis snd_conv)
    then show ?thesis using step(1) [OF l] by (auto simp: run_session_line [OF l] Let_def)
  qed (use step(2) in \<open>simp_all add: run_session_stop\<close>)
qed

end
