(* ===== verification/Daemon_Safety.thy ===== *)
theory Daemon_Safety
  imports Daemon
begin

text \<open>
  What the daemon promises the machine it runs on and the engine that talks to it: nothing leaves it
  outside the scope of its first line, over its ceiling or over its rate; the framing of its input; the
  end of its loop, and what one line does to a session.
\<close>

section \<open>The scope of the first line\<close>

definition first_line :: "'n process \<Rightarrow> fill list \<Rightarrow> string option" where
  "first_line E fills = (case fst (read_line (pr_status E) 0 [] fills) of Inr (Some line) \<Rightarrow> Some line | _ \<Rightarrow> None)"

definition granted :: "'n process \<Rightarrow> fill list \<Rightarrow> 'n session_scope option" where
  "granted E fills = Option.bind (first_line E fills) (line_scope (pr_helper E))"

definition session_prober :: "'n process \<Rightarrow> bool \<Rightarrow> u32 \<Rightarrow> nat \<Rightarrow> fill list \<Rightarrow> prober" where
  "session_prober E dropped pid now fills = dm_prober (fst (snd (run_session E 0 0 fills (daemon_new dropped pid now) [])))"

lemma session_prober_ok:
  "case granted E fills of
     None \<Rightarrow> pb_handed (session_prober E dropped pid now fills) = []
   | Some scope \<Rightarrow> prober_ok (he_net (pr_helper E)) (he_base (pr_helper E)) scope (session_prober E dropped pid now fills)"
proof -
  let ?d = "daemon_new dropped pid now :: 'a daemon"
  have new: "dm_state ?d = AwaitingInit" "dm_prober ?d = prober_new pid now" "pb_handed (dm_prober ?d) = []" "pb_handed (prober_new pid now) = []"
    by (simp_all add: daemon_new_def prober_new_def)
  show ?thesis
  proof (cases rule: run_session_cases [where E = E and k = 0 and fills = fills and i = 0 and d = ?d])
    case (failed e k' rest)
    then show ?thesis by (simp add: granted_def first_line_def session_prober_def run_session_stop new)
  next
    case (closed k' rest)
    then show ?thesis by (simp add: granted_def first_line_def session_prober_def run_session_stop new)
  next
    case (line line k' rest resp d')
    have d': "d' = ?d\<lparr>dm_state := (case line_scope (pr_helper E) line of Some scope \<Rightarrow> Running scope | None \<Rightarrow> Ended True)\<rparr>"
      using handle_line_first [OF new(1), of "pr_helper E" "pr_wire E 0" line] line(2) by simp
    have g: "granted E fills = line_scope (pr_helper E) line" by (simp add: granted_def first_line_def line(1))
    show ?thesis
    proof (cases "line_scope (pr_helper E) line")
      case None
      then show ?thesis using new(3)
        by (simp add: g session_prober_def run_session_line [OF line] Let_def d')
    next
      case (Some scope)
      then have ok: "daemon_ok (pr_helper E) scope d'" by (simp add: daemon_ok_def d' new(2) prober_ok_new)
      have "prober_ok (he_net (pr_helper E)) (he_base (pr_helper E)) scope
          (dm_prober (fst (snd (run_session E k' (Suc 0) rest d' out))))" for out
        using run_session_ok [OF ok] unfolding daemon_ok_def by blast
      moreover have "prober_ok (he_net (pr_helper E)) (he_base (pr_helper E)) scope (dm_prober d')"
        using ok unfolding daemon_ok_def by blast
      ultimately show ?thesis using Some by (auto simp: g session_prober_def run_session_line [OF line] Let_def)
    qed
  qed
qed

text \<open>A process to apply the properties to: an \<open>init\<close> for 10.0.0.0/16, then two probes.\<close>

definition sample_scope :: "net session_scope" where
  "sample_scope = \<lparr>ss_allowed = [Net4 0x0a000000 16], ss_denied = [], ss_packets_per_second = 10, ss_max_packets = 5\<rparr>"

definition sample_wire :: wire where
  "sample_wire = \<lparr>w_source_for = (\<lambda>_. Some 0x0a000002), w_probe = (True, 1, 1), w_reset = (True, 1, 1), w_polls = []\<rparr>"

definition sample_process :: "net process" where
  "sample_process = \<lparr>pr_helper = \<lparr>he_net = prefixed_net, he_base = prefixed_base,
       he_parse = (\<lambda>line. if line = ''i'' then Inr (Init [Net4 0x0a000000 16] [] 10 5)
                         else if line = ''p'' then Inr (ProbeRequest 1 (V4 0x0a000001) 80) else Inl ''syntax'')\<rparr>,
     pr_status = (\<lambda>_. Some sample_status),
     pr_wire = (\<lambda>_. sample_wire),
     pr_written = (\<lambda>_. True)\<rparr>"

definition sample_input :: "fill list" where
  "sample_input = [Bytes [CHR ''i'', CHR 0x0A, CHR ''p''], Interrupted, Bytes [CHR 0x0A, CHR ''p'', CHR 0x0A]]"

lemma sample_utf8: "utf8_valid ''i''" "utf8_valid ''p''"
  by (simp_all add: utf8_valid_def)

lemma sample_granted: "granted sample_process sample_input = Some sample_scope"
  by (simp add: granted_def first_line_def sample_process_def sample_input_def sample_dropped sample_utf8 max_line_bytes_def
    line_scope_def sample_scope_def Let_def)

lemma sample_in_scope: "check_session_scope prefixed_net prefixed_base sample_scope (V4 0x0a000001) = Inr 0x0a000001"
  by (simp add: check_session_scope.simps sample_scope_def covers_def prefixed_net_def checked_shl_def is_reserved_def octet0_def
    octet1_def Let_def mask_eq_exp_minus_1)

lemma sample_probe:
  assumes "pb_probes p < 5"
  obtains q where "syn_probe prefixed_net prefixed_base sample_wire sample_scope (V4 0x0a000001) 80 p = (Inr Filtered, q)"
    "length (pb_handed q) = Suc (length (pb_handed p))" "pb_probes q = sat_add (pb_probes p) 1"
  using assms by (simp add: syn_probe_def admit_def sample_in_scope sample_wire_def sample_scope_def [THEN arg_cong, of ss_max_packets]
      send_def Let_def await_reply_def not_le [symmetric])

abbreviation sample_daemon :: "prober \<Rightarrow> net daemon" where
  "sample_daemon p \<equiv> \<lparr>dm_state = Running sample_scope, dm_dropped = True, dm_prober = p\<rparr>"

lemma sample_init:
  "handle_line (pr_helper sample_process) (pr_wire sample_process n) ''i'' (daemon_new True 1 0) =
     (Some (Ready True), sample_daemon (prober_new 1 0))"
  by (simp add: line_defs sample_process_def daemon_new_def max_line_bytes_def sample_scope_def)

lemma sample_line:
  assumes "syn_probe prefixed_net prefixed_base sample_wire sample_scope (V4 0x0a000001) 80 p = (Inr Filtered, q)"
  shows "handle_line (pr_helper sample_process) (pr_wire sample_process n) ''p'' (sample_daemon p) =
    (Some (Result 1 Filtered), sample_daemon q)"
  using assms by (simp add: line_defs sample_process_def max_line_bytes_def)

lemma sample_reads:
  "read_line (pr_status sample_process) 0 [] sample_input =
     (Inr (Some ''i''), Suc 0, [Bytes ''p'', Interrupted, Bytes [CHR 0x0A, CHR ''p'', CHR 0x0A]])"
  "read_line (pr_status sample_process) (Suc 0) [] [Bytes ''p'', Interrupted, Bytes [CHR 0x0A, CHR ''p'', CHR 0x0A]] =
     (Inr (Some ''p''), 4, [Bytes [CHR ''p'', CHR 0x0A]])"
  "read_line (pr_status sample_process) 4 [] [Bytes [CHR ''p'', CHR 0x0A]] = (Inr (Some ''p''), 5, [])"
  "read_line (pr_status sample_process) 5 [] [] = (Inr None, 6, [])"
  by (simp_all add: sample_process_def sample_input_def sample_dropped sample_utf8 max_line_bytes_def Let_def)

lemma sample_handed: "length (pb_handed (session_prober sample_process True 1 0 sample_input)) = 2"
proof -
  have p: "pb_probes (prober_new 1 0) = 0" "pb_handed (prober_new 1 0) = []" by (simp_all add: prober_new_def)
  then have "pb_probes (prober_new 1 0) < 5" by simp
  from sample_probe [OF this] obtain q where q: "syn_probe prefixed_net prefixed_base sample_wire sample_scope (V4 0x0a000001) 80 (prober_new 1 0) = (Inr Filtered, q)"
    "length (pb_handed q) = 1" "pb_probes q = 1" by (auto simp: p sat_add_def)
  then have "pb_probes q < 5" by simp
  from sample_probe [OF this] obtain r where r: "syn_probe prefixed_net prefixed_base sample_wire sample_scope (V4 0x0a000001) 80 q = (Inr Filtered, r)"
    "length (pb_handed r) = 2" using q(2) by (metis One_nat_def Suc_1)
  have "pr_written sample_process n" for n by (simp add: sample_process_def)
  then have "fst (snd (run_session sample_process 0 0 sample_input (daemon_new True 1 0) [])) = sample_daemon r"
    by (simp add: run_session_line [OF sample_reads(1) sample_init] run_session_line [OF sample_reads(2) sample_line [OF q(1)]]
      run_session_line [OF sample_reads(3) sample_line [OF r(1)]] run_session_stop(2) [OF sample_reads(4)] Let_def)
  then show ?thesis using r(2) by (simp add: session_prober_def)
qed

text \<open>
  C4: whatever bytes arrive, a process hands its wire nothing at all unless its first line is an
  \<open>init\<close> with a non-empty allowlist; then every packet it ever hands over, probe or reset, is addressed
  to a target that scope authorizes, and they are at most twice the scope's packet ceiling.
\<close>

theorem daemon_stays_in_scope:
  "(granted E fills = None \<longrightarrow> pb_handed (session_prober E dropped pid now fills) = []) \<and>
   (\<forall>scope. granted E fills = Some scope \<longrightarrow>
      (\<forall>(packet, target, at) \<in> set (pb_handed (session_prober E dropped pid now fills)).
         check_session_scope (he_net (pr_helper E)) (he_base (pr_helper E)) scope (V4 target) = Inr target \<and>
         ipv4_at packet 16 = Some (octets target)) \<and>
      length (pb_handed (session_prober E dropped pid now fills)) \<le> 2 * unat (ss_max_packets scope))"
  using session_prober_ok [where E = E and fills = fills and dropped = dropped and pid = pid and now = now]
  by (auto simp: prober_ok_def prober_inv_def authorized_def word_le_nat_alt dest!: bspec)

lemma paced_distance:
  assumes "sorted_wrt (\<lambda>x y. handed_at x + g \<le> handed_at y) hs" "i + n < length hs"
  shows "handed_at (hs ! i) + n * g \<le> handed_at (hs ! (i + n))"
  using assms(2)
proof (induction n)
  case (Suc n)
  have "handed_at (hs ! (i + n)) + g \<le> handed_at (hs ! (i + Suc n))"
    using sorted_wrt_nth_less [OF assms(1), of "i + n" "i + Suc n"] Suc.prems by simp
  then show ?case using Suc by simp
qed simp

theorem daemon_stays_in_scope_witness:
  "length (pb_handed (session_prober sample_process True 1 0 sample_input)) \<le> 2 * unat (ss_max_packets sample_scope)"
  using daemon_stays_in_scope [of sample_process sample_input True 1 0] sample_granted by blast

text \<open>
  The rate. Between the \<open>i\<close>-th and the \<open>j\<close>-th packet handed to the wire at least \<open>j - i\<close> times the
  gap of the session's packets per second has passed.
\<close>

theorem daemon_keeps_the_rate:
  assumes "granted E fills = Some scope" "i + n < length (pb_handed (session_prober E dropped pid now fills))"
  shows "handed_at (pb_handed (session_prober E dropped pid now fills) ! i) + n * gap (ss_packets_per_second scope)
    \<le> handed_at (pb_handed (session_prober E dropped pid now fills) ! (i + n))"
proof -
  have "paced (gap (ss_packets_per_second scope)) (session_prober E dropped pid now fills)"
    using session_prober_ok [where E = E and fills = fills and dropped = dropped and pid = pid and now = now] assms(1) by (simp add: prober_ok_def prober_inv_def)
  then show ?thesis using paced_distance assms(2) unfolding paced_def by blast
qed

theorem daemon_keeps_the_rate_witness:
  "handed_at (pb_handed (session_prober sample_process True 1 0 sample_input) ! 0) + 1 * gap 10
     \<le> handed_at (pb_handed (session_prober sample_process True 1 0 sample_input) ! (0 + 1))"
  using daemon_keeps_the_rate [OF sample_granted, of 0 1 True 1 0] sample_handed by (simp add: sample_scope_def)

section \<open>The session as a state machine\<close>

lemma handle_work_running:
  assumes "dm_state d = Running scope"
  shows "(\<exists>p r. handle_work H w i target work d = (r, d\<lparr>dm_prober := p\<rparr>) \<and> (\<forall>x. r \<noteq> Fatal x))"
  using assms by (cases work) (auto simp: handle_work_def split: prod.split sum.split)

text \<open>The request a line is read as, if it is short enough and one.\<close>

definition line_request :: "'n helper \<Rightarrow> string \<Rightarrow> 'n request option" where
  "line_request H line =
     (if length line > max_line_bytes then None else case he_parse H line of Inr request \<Rightarrow> Some request | Inl _ \<Rightarrow> None)"

fun is_init :: "'n request \<Rightarrow> bool" where
  "is_init (Init a d pps n) = True"
| "is_init _ = False"

text \<open>What may be said of a request while the session goes on.\<close>

fun answers_to :: "'n request \<Rightarrow> bool \<Rightarrow> response \<Rightarrow> bool" where
  "answers_to (Init a d pps n) dropped r = (r = Ready dropped)"
| "answers_to (ProbeRequest i target port) dropped r =
     ((\<exists>state. r = Result i state) \<or> (\<exists>reason. r = RefusedProbe i (refusal_name reason)))"
| "answers_to (IcmpProbe i target) dropped r =
     ((\<exists>state. r = HostResult i state) \<or> (\<exists>reason. r = RefusedProbe i (refusal_name reason)))"
| "answers_to Shutdown dropped r = False"

lemma handle_work_answers:
  assumes "dm_state d = Running scope"
  shows "case handle_work H w i target (SynWork port) d of (r, d') \<Rightarrow>
      answers_to (ProbeRequest i target port) b r \<and> dm_state d' = Running scope \<and> dm_dropped d' = dm_dropped d"
    "case handle_work H w i target IcmpWork d of (r, d') \<Rightarrow>
      answers_to (IcmpProbe i target) b r \<and> dm_state d' = Running scope \<and> dm_dropped d' = dm_dropped d"
  using assms by (auto simp: handle_work_def split: prod.split sum.split)

lemma step_ended:
  assumes "is_terminated (dm_state d) \<or> line_request H line = None"
  shows "\<exists>detail. handle_line H w line d = (Some (Fatal detail), d\<lparr>dm_state := Ended True\<rparr>)"
  using assms by (auto simp: handle_line_def line_request_def terminate_def split: sum.splits if_splits)

lemma step_waiting:
  assumes "dm_state d = AwaitingInit" "line_request H line = Some request"
  shows "if line_scope H line = None
    then \<exists>detail. handle_line H w line d = (Some (Fatal detail), d\<lparr>dm_state := Ended True\<rparr>)
    else is_init request \<and> handle_line H w line d = (Some (Ready (dm_dropped d)), d\<lparr>dm_state := Running (the (line_scope H line))\<rparr>)"
  using assms
  by (cases request) (auto simp: line_defs line_request_def line_scope_def split: sum.splits if_splits)

lemma step_running:
  assumes "dm_state d = Running scope" "line_request H line = Some request"
  shows "if request = Shutdown then handle_line H w line d = (None, d\<lparr>dm_state := Ended False\<rparr>)
    else if is_init request then \<exists>detail. handle_line H w line d = (Some (Fatal detail), d\<lparr>dm_state := Ended True\<rparr>)
    else \<exists>r d'. handle_line H w line d = (Some r, d') \<and> answers_to request (dm_dropped d) r \<and> dm_state d' = Running scope \<and>
      dm_dropped d' = dm_dropped d"
proof -
  have line: "handle_line H w line d = dispatch_request H w request d"
    using assms by (auto simp: handle_line_def line_request_def split: sum.splits if_splits)
  show ?thesis
  proof (cases request)
    case (ProbeRequest i target port)
    obtain r d' where w: "handle_work H w i target (SynWork port) d = (r, d')" by fastforce
    have "answers_to request (dm_dropped d) r \<and> dm_state d' = Running scope \<and> dm_dropped d' = dm_dropped d"
      using handle_work_answers(1) [OF assms(1), where H = H and w = w and i = i and target = target and port = port] w ProbeRequest
      by (simp only: prod.case)
    moreover have "handle_line H w line d = (Some r, d')"
      by (simp add: line dispatch_request_def assms(1) ProbeRequest w)
    ultimately show ?thesis using ProbeRequest by auto
  next
    case (IcmpProbe i target)
    obtain r d' where w: "handle_work H w i target IcmpWork d = (r, d')" by fastforce
    have "answers_to request (dm_dropped d) r \<and> dm_state d' = Running scope \<and> dm_dropped d' = dm_dropped d"
      using handle_work_answers(2) [OF assms(1), where H = H and w = w and i = i and target = target] w IcmpProbe
      by (simp only: prod.case)
    moreover have "handle_line H w line d = (Some r, d')"
      by (simp add: line dispatch_request_def assms(1) IcmpProbe w)
    ultimately show ?thesis using IcmpProbe by auto
  qed (simp_all add: line dispatch_request_def terminate_def assms(1))
qed

text \<open>
  C13: one line, whatever it is. The session ends on it exactly when it had ended before, when the line is too long
  or no request, when the session was waiting and the line is not an \<open>init\<close> that grants a scope, and when
  it was running and the line is a second \<open>init\<close> or \<open>shutdown\<close>. A shutdown ends it in peace and without an
  answer; every other end is fatal and answered so; no end sends a packet. Where the session goes on, the
  \<open>init\<close> is answered with the daemon's privileges and its scope is in force from then on, and a probe is
  answered under its own number, by what was found or a refusal, with the scope as it was.
\<close>

theorem session_step:
  "let (response, d') = handle_line H w line d; request = line_request H line;
       running = (\<exists>scope. dm_state d = Running scope); shut = (running \<and> request = Some Shutdown) in
     (is_terminated (dm_state d') \<longleftrightarrow> is_terminated (dm_state d) \<or> request = None \<or>
        dm_state d = AwaitingInit \<and> line_scope H line = None \<or>
        running \<and> (request = Some Shutdown \<or> (\<exists>r. request = Some r \<and> is_init r))) \<and>
     (is_terminated (dm_state d') \<longrightarrow> dm_prober d' = dm_prober d \<and> dm_state d' = Ended (\<not> shut) \<and>
        (if shut then response = None else \<exists>detail. response = Some (Fatal detail))) \<and>
     (\<not> is_terminated (dm_state d') \<longrightarrow>
        (\<exists>q r. request = Some q \<and> response = Some r \<and> answers_to q (dm_dropped d) r) \<and> dm_dropped d' = dm_dropped d \<and>
        (if running then dm_state d' = dm_state d
         else (\<exists>scope. line_scope H line = Some scope \<and> dm_state d' = Running scope) \<and> dm_prober d' = dm_prober d))"
proof (cases "is_terminated (dm_state d) \<or> line_request H line = None")
  case True
  then obtain detail where "handle_line H w line d = (Some (Fatal detail), d\<lparr>dm_state := Ended True\<rparr>)"
    using step_ended by blast
  then show ?thesis using True by (cases "dm_state d") (auto simp: Let_def)
next
  case False
  then obtain request where q: "line_request H line = Some request" by blast
  show ?thesis
  proof (cases "dm_state d")
    case AwaitingInit
    show ?thesis
    proof (cases "line_scope H line")
      case None
      then obtain detail where "handle_line H w line d = (Some (Fatal detail), d\<lparr>dm_state := Ended True\<rparr>)"
        using step_waiting [OF AwaitingInit q] by auto
      then show ?thesis by (simp add: Let_def AwaitingInit None)
    next
      case (Some scope)
      then have "is_init request" "handle_line H w line d = (Some (Ready (dm_dropped d)), d\<lparr>dm_state := Running scope\<rparr>)"
        using step_waiting [OF AwaitingInit q] by auto
      then show ?thesis by (cases request) (simp_all add: Let_def AwaitingInit Some q)
    qed
  next
    case (Running scope)
    show ?thesis
    proof (cases "request = Shutdown \<or> is_init request")
      case True
      then show ?thesis using step_running [OF Running q, of w] q Running by (auto simp: Let_def split: if_splits)
    next
      case go: False
      then obtain r d' where "handle_line H w line d = (Some r, d')" "answers_to request (dm_dropped d) r"
        "dm_state d' = Running scope" "dm_dropped d' = dm_dropped d"
        using step_running [OF Running q, of w] by auto
      then show ?thesis using q Running go by (auto simp: Let_def)
    qed
  next
    case (Ended f)
    then show ?thesis using False by simp
  qed
qed

theorem session_step_witness:
  "dm_state (snd (handle_line (pr_helper sample_process) (pr_wire sample_process 0) ''garbage'' (daemon_new True 1 0))) = Ended True"
proof -
  have "line_request (pr_helper sample_process) ''garbage'' = None"
    by (simp add: line_request_def sample_process_def)
  then show ?thesis
    using session_step [of "pr_helper sample_process" "pr_wire sample_process 0" "''garbage''" "daemon_new True 1 0"]
    by (auto simp: Let_def split: prod.splits)
qed

section \<open>The end of the loop\<close>

definition newlines :: "fill list \<Rightarrow> nat" where
  "newlines fills = sum_list (map (\<lambda>f. case f of Bytes s \<Rightarrow> count_list s (CHR 0x0A) | _ \<Rightarrow> 0) fills)"

lemma newlines_simps [simp]:
  "newlines [] = 0"
  "newlines (Bytes s # fills) = count_list s (CHR 0x0A) + newlines fills"
  "newlines (Interrupted # fills) = newlines fills"
  "newlines (Broken e # fills) = newlines fills"
  by (simp_all add: newlines_def)

lemma count_newline:
  "length (takeWhile (\<lambda>c. c \<noteq> x) s) < length s \<Longrightarrow>
     count_list s x = Suc (count_list (drop (Suc (length (takeWhile (\<lambda>c. c \<noteq> x) s))) s) x)"
  by (induction s) (auto split: if_splits)

lemma count_no_newline:
  "\<not> length (takeWhile (\<lambda>c. c \<noteq> x) s) < length s \<Longrightarrow> count_list s x = 0 \<and> takeWhile (\<lambda>c. c \<noteq> x) s = s"
  by (induction s) (auto split: if_splits)

lemma read_line_newlines:
  "read_line G k buf fills = (Inr (Some line), k', rest) \<Longrightarrow> Suc (newlines rest) = newlines fills"
proof (induction G k buf fills rule: read_line.induct)
  case (1 G k buf)
  then show ?case by (auto split: if_splits)
next
  case (2 G k buf f fills)
  show ?case
  proof (cases f)
    case (Bytes s)
    let ?chunk = "takeWhile (\<lambda>c. c \<noteq> CHR 0x0A) s"
    have nonempty: "s \<noteq> []" "capabilities_are_dropped (G k)" "\<not> length buf + length ?chunk > max_line_bytes"
      using 2(3) Bytes by (auto simp: Let_def split: if_splits)
    show ?thesis
    proof (cases "length ?chunk < length s")
      case True
      then have "rest = (if drop (Suc (length ?chunk)) s = [] then fills else Bytes (drop (Suc (length ?chunk)) s) # fills)"
        using 2(3) Bytes nonempty by (auto simp: Let_def split: if_splits)
      then show ?thesis using count_newline [OF True] Bytes by (cases "drop (Suc (length ?chunk)) s = []") simp_all
    next
      case False
      then have "read_line G (Suc k) (buf @ ?chunk) fills = (Inr (Some line), k', rest)"
        using 2(3) Bytes nonempty by (simp add: Let_def)
      then show ?thesis using 2(1) [OF _ Bytes _ refl _ False] nonempty count_no_newline [OF False] Bytes by simp
    qed
  next
    case Interrupted
    then show ?thesis using 2(2) 2(3) by (auto split: if_splits)
  next
    case (Broken e)
    then show ?thesis using 2(3) by (auto split: if_splits)
  qed
qed

lemma length_response_list: "length (response_list r) \<le> 1"
  by (simp add: response_list_def split: option.split)

text \<open>
  C33: the loop ends on every input, having handed over at most one response per line feed of the input
  and one more for the fault that ends it; its exit status is 0 or 1, and 0 only if no fatal ended the
  session.
\<close>

theorem run_session_ends:
  "(let (status, d', out') = run_session E k i fills d out in
     length out' \<le> length out + newlines fills + 1 \<and> status \<in> {0, 1} \<and> (status = 0 \<longrightarrow> \<not> ended_fatally (dm_state d')))"
proof (induction k i fills d out rule: run_session_induct [where E = E])
  case (step k i fills d out)
  show ?case
  proof (cases rule: run_session_cases [where E = E and k = k and fills = fills and i = i and d = d])
    case (line line k' rest resp d')
    note n = read_line_newlines [OF line(1)] and l = length_response_list [of resp]
    have "length (out @ response_list resp) \<le> length out + newlines fills" using n l by simp
    moreover have "length (out @ response_list resp) + newlines rest + 1 \<le> length out + newlines fills + 1" using n l by simp
    ultimately show ?thesis
      using step [OF line] unfolding run_session_line [OF line] Let_def
      by (auto simp: exit_status_def split: prod.split)
  qed (simp_all add: run_session_stop exit_status_def Let_def)
qed

theorem run_session_ends_witness:
  "(let (status, d', out') = run_session sample_process 0 0 sample_input (daemon_new True 1 0) [] in
     length out' \<le> 4 \<and> (status = 0 \<longrightarrow> \<not> ended_fatally (dm_state d')))"
  using run_session_ends [of sample_process 0 0 sample_input "daemon_new True 1 0" "[]"]
  by (auto simp: Let_def sample_input_def split: prod.splits)

section \<open>Framing\<close>

definition bytes_of :: "fill list \<Rightarrow> string" where
  "bytes_of fills = concat (map (\<lambda>f. case f of Bytes s \<Rightarrow> s | _ \<Rightarrow> []) fills)"

lemma bytes_of_simps [simp]:
  "bytes_of [] = []"
  "bytes_of (Bytes s # fills) = s @ bytes_of fills"
  "bytes_of (Interrupted # fills) = bytes_of fills"
  "bytes_of (Broken e # fills) = bytes_of fills"
  by (simp_all add: bytes_of_def)

fun healthy :: "fill \<Rightarrow> bool" where
  "healthy (Bytes s) = (s \<noteq> [])"
| "healthy Interrupted = True"
| "healthy (Broken e) = False"

definition framed :: "string \<Rightarrow> line_error + string option" where
  "framed s =
     (let line = takeWhile (\<lambda>c. c \<noteq> CHR 0x0A) s
      in if length line > max_line_bytes then Inl TooLong
         else if length line < length s then (if utf8_valid line then Inr (Some line) else Inl NotUtf8)
         else if s = [] then Inr None else Inl (Unterminated (length s)))"

lemma read_line_framed:
  assumes "\<And>j. capabilities_are_dropped (G j)" "list_all healthy fills" "CHR 0x0A \<notin> set buf" "length buf \<le> max_line_bytes"
  shows "fst (read_line G k buf fills) = framed (buf @ bytes_of fills) \<and>
    ((\<exists>l. framed (buf @ bytes_of fills) = Inr (Some l)) \<longrightarrow>
       list_all healthy (snd (snd (read_line G k buf fills))) \<and>
       bytes_of (snd (snd (read_line G k buf fills))) =
         drop (Suc (length (takeWhile (\<lambda>c. c \<noteq> CHR 0x0A) (buf @ bytes_of fills)))) (buf @ bytes_of fills))"
  using assms(2-4)
proof (induction fills arbitrary: k buf)
  case Nil
  then have t: "takeWhile (\<lambda>c. c \<noteq> CHR 0x0A) buf = buf" by (auto simp: takeWhile_eq_all_conv)
  show ?case using Nil assms(1) by (simp add: framed_def Let_def t)
next
  case (Cons f fills)
  have buf: "takeWhile (\<lambda>c. c \<noteq> CHR 0x0A) (buf @ x) = buf @ takeWhile (\<lambda>c. c \<noteq> CHR 0x0A) x" for x
    by (rule takeWhile_append2) (use Cons.prems(2) in auto)
  show ?case
  proof (cases f)
    case (Bytes s)
    let ?chunk = "takeWhile (\<lambda>c. c \<noteq> CHR 0x0A) s"
    have s: "s \<noteq> []" using Cons.prems(1) Bytes by simp
    show ?thesis
    proof (cases "length ?chunk < length s")
      case True
      have nl: "CHR 0x0A \<in> set s"
      proof (rule ccontr)
        assume "CHR 0x0A \<notin> set s"
        then have eq: "?chunk = s" by (auto simp: takeWhile_eq_all_conv)
        show False using True unfolding eq by simp
      qed
      have t: "takeWhile (\<lambda>c. c \<noteq> CHR 0x0A) (s @ x) = ?chunk" for x by (rule takeWhile_append1 [OF nl]) simp
      let ?rest = "drop (Suc (length ?chunk)) s"
      have r: "drop (Suc (length buf + length ?chunk)) (buf @ s @ bytes_of fills) = ?rest @ bytes_of fills"
        using True by simp
      have h: "list_all healthy (if ?rest = [] then fills else Bytes ?rest # fills)" "bytes_of (if ?rest = [] then fills else Bytes ?rest # fills) = ?rest @ bytes_of fills"
        using Cons.prems(1) by auto
      show ?thesis using True s assms(1) h
        by (simp add: Bytes framed_def buf t Let_def r del: drop_append drop_eq_Nil)
    next
      case False
      then have eq: "?chunk = s" by (rule count_no_newline [THEN conjunct2])
      then have no: "CHR 0x0A \<notin> set s" by (auto simp: takeWhile_eq_all_conv)
      have t: "takeWhile (\<lambda>c. c \<noteq> CHR 0x0A) (s @ x) = s @ takeWhile (\<lambda>c. c \<noteq> CHR 0x0A) x" for x
        by (rule takeWhile_append2) (use no in auto)
      show ?thesis
      proof (cases "length buf + length s > max_line_bytes")
        case True
        then show ?thesis using s assms(1) by (simp add: Bytes framed_def buf t Let_def eq)
      next
        case False
        have "read_line G k buf (f # fills) = read_line G (Suc k) (buf @ s) fills"
          using False s assms(1) by (simp add: Bytes Let_def eq)
        then show ?thesis using Cons.IH [of "buf @ s" "Suc k"] Cons.prems no False by (simp add: Bytes)
      qed
    qed
  next
    case Interrupted
    then show ?thesis using Cons.IH [OF _ Cons.prems(2,3), of "Suc k"] Cons.prems(1) assms(1) by simp
  next
    case (Broken e)
    then show ?thesis using Cons.prems(1) by simp
  qed
qed

text \<open>
  The framing does not depend on how the bytes arrive. Read by an unprivileged process without read
  errors, a line is what stands before the first line feed of all the bytes there are, in whatever chunks
  and with whatever interruptions they come; it is refused exactly when it is longer than the cap, not
  ended, or not UTF-8; and after a line the bytes left are those after its line feed.
\<close>

theorem read_line_exactly:
  assumes "\<forall>j. capabilities_are_dropped (G j)" "list_all healthy fills"
  shows "fst (read_line G k [] fills) = framed (bytes_of fills) \<and>
    (\<forall>line. framed (bytes_of fills) = Inr (Some line) \<longrightarrow>
       bytes_of (snd (snd (read_line G k [] fills))) = drop (Suc (length line)) (bytes_of fills))"
proof -
  have "framed s = Inr (Some line) \<Longrightarrow> line = takeWhile (\<lambda>c. c \<noteq> CHR 0x0A) s" for s line
    by (auto simp: framed_def Let_def split: if_splits)
  then show ?thesis using read_line_framed [of G fills "[]" k] assms by auto
qed

theorem read_line_exactly_witness:
  "fst (read_line (\<lambda>_. Some sample_status) 0 [] sample_input) = Inr (Some ''i'')"
proof -
  have "list_all healthy sample_input" by (simp add: sample_input_def)
  then have "fst (read_line (\<lambda>_. Some sample_status) 0 [] sample_input) = framed (bytes_of sample_input)"
    using read_line_exactly [of "\<lambda>_. Some sample_status" sample_input 0] sample_dropped by blast
  then show ?thesis by (simp add: framed_def sample_input_def max_line_bytes_def sample_utf8)
qed

section \<open>No input while privileged\<close>

lemma read_line_gated:
  "read_line G k buf fills = (Inr (Some line), k', rest) \<Longrightarrow> k < k' \<and> (\<forall>j. k \<le> j \<and> j < k' \<longrightarrow> capabilities_are_dropped (G j))"
proof (induction G k buf fills rule: read_line.induct)
  case (1 G k buf)
  then show ?case by (auto split: if_splits)
next
  case (2 G k buf f fills)
  have d: "capabilities_are_dropped (G k)" using 2(3) by (auto split: if_splits)
  have next_fill: "k < k' \<and> (\<forall>j. k \<le> j \<and> j < k' \<longrightarrow> capabilities_are_dropped (G j))"
    if "Suc k < k' \<and> (\<forall>j. Suc k \<le> j \<and> j < k' \<longrightarrow> capabilities_are_dropped (G j))"
    using that d by (metis Suc_leI Suc_lessD le_neq_implies_less)
  show ?case
  proof (cases f)
    case (Bytes s)
    let ?chunk = "takeWhile (\<lambda>c. c \<noteq> CHR 0x0A) s"
    have nonempty: "s \<noteq> []" "\<not> length buf + length ?chunk > max_line_bytes"
      using 2(3) Bytes by (auto simp: Let_def split: if_splits)
    show ?thesis
    proof (cases "length ?chunk < length s")
      case True
      then have "k' = Suc k" using 2(3) Bytes nonempty d by (auto simp: Let_def split: if_splits)
      then show ?thesis using d by (auto simp: less_Suc_eq)
    next
      case False
      then have "read_line G (Suc k) (buf @ ?chunk) fills = (Inr (Some line), k', rest)"
        using 2(3) Bytes nonempty d by (simp add: Let_def)
      then show ?thesis using 2(1) [OF _ Bytes _ refl _ False] nonempty d next_fill by simp
    qed
  next
    case Interrupted
    then show ?thesis using 2(2) 2(3) d next_fill by simp
  next
    case (Broken e)
    then show ?thesis using 2(3) d by simp
  qed
qed

text \<open>
  C12: no line is read while a capability is held. Every fill that contributes to a line is preceded by a
  measurement that found the process unprivileged, and a process that is still privileged when it starts
  to read hands nothing to its wire, whatever is in its input, and exits with 1.
\<close>

theorem no_input_while_privileged:
  "(\<forall>line. fst (read_line G k [] fills) = Inr (Some line) \<longrightarrow>
      (\<forall>j. k \<le> j \<and> j < fst (snd (read_line G k [] fills)) \<longrightarrow> capabilities_are_dropped (G j))) \<and>
   (\<not> capabilities_are_dropped (pr_status E 0) \<longrightarrow>
      run_session E 0 0 fills (daemon_new dropped pid now) [] =
        (1, daemon_new dropped pid now, [Fatal (show_line_error (LineIo ordering_violation))]))"
proof (intro conjI allI impI)
  fix line j
  assume l: "fst (read_line G k [] fills) = Inr (Some line)" and j: "k \<le> j \<and> j < fst (snd (read_line G k [] fills))"
  then have "read_line G k [] fills = (Inr (Some line), fst (snd (read_line G k [] fills)), snd (snd (read_line G k [] fills)))"
    by (metis prod.collapse)
  from read_line_gated [OF this] show "capabilities_are_dropped (G j)" using j by blast
next
  assume held: "\<not> capabilities_are_dropped (pr_status E 0)"
  then have "read_line (pr_status E) 0 [] fills = (Inl (LineIo ordering_violation), Suc 0, fills)" by (cases fills) simp_all
  from run_session_stop(1) [OF this] show "run_session E 0 0 fills (daemon_new dropped pid now) [] =
        (1, daemon_new dropped pid now, [Fatal (show_line_error (LineIo ordering_violation))])"
    by simp
qed

theorem no_input_while_privileged_witness:
  "fst (run_session (sample_process\<lparr>pr_status := (\<lambda>_. None)\<rparr>) 0 0 sample_input (daemon_new True 1 0) []) = 1"
  using no_input_while_privileged [where E = "sample_process\<lparr>pr_status := (\<lambda>_. None)\<rparr>" and fills = sample_input
    and dropped = True and pid = 1 and now = 0]
  by (simp add: capabilities_are_dropped_def)

end
