(* ===== verification/Seam.thy ===== *)
theory Seam
  imports Daemon_Safety
begin

text \<open>
  The seam between the two programs, with both of them in it: \<open>PacketdClient\<close> of
  \<open>crates/bathy-engine/src/packetd.rs\<close> and the session loop of \<open>crates/bathy-packetd/src/main.rs\<close>. The
  client writes an \<open>init\<close> from the manifest and one line for each probe it is asked; the daemon reads the
  bytes, however they are cut on the way, and writes one response for each; the client reads the
  responses. The texts of requests and responses are serde's: the locale \<open>line_protocol\<close> states what both
  sides rely on, and is interpreted on a text of every request and every response.
\<close>

section \<open>What the client is asked\<close>

datatype ask = AskPort ip_addr u16 | AskHost ip_addr

fun ask_request :: "ask \<Rightarrow> u64 \<Rightarrow> 'n request" where
  "ask_request (AskPort target port) i = ProbeRequest i target port"
| "ask_request (AskHost target) i = IcmpProbe i target"

fun client_ask :: "'n line_env \<Rightarrow> ask \<Rightarrow> pipes \<Rightarrow> client \<Rightarrow> (packetd_error + probe_answer) \<times> client" where
  "client_ask L (AskPort target port) p c = apfst (map_sum id PortAnswer) (client_probe L target port p [] c)"
| "client_ask L (AskHost target) p c = apfst (map_sum id HostAnswer) (client_icmp_probe L target p [] c)"

text \<open>One probe after another, each with the next line of the daemon.\<close>

fun client_asks :: "'n line_env \<Rightarrow> ask list \<Rightarrow> string list \<Rightarrow> client \<Rightarrow> (packetd_error + probe_answer) list \<times> client" where
  "client_asks L (a # as) (line # lines) c =
     (let (answer, c') = client_ask L a \<lparr>pp_write_fails = None, pp_reading = ReadLine line\<rparr> c
      in apfst ((#) answer) (client_asks L as lines c'))"
| "client_asks L _ _ c = ([], c)"

text \<open>The requests the client writes for them, under the ids it gives them, and their bytes.\<close>

fun asked :: "u64 \<Rightarrow> ask list \<Rightarrow> 'n request list" where
  "asked i [] = []"
| "asked i (a # as) = ask_request a i # asked (i + 1) as"

definition written :: "'n line_env \<Rightarrow> 'n request \<Rightarrow> string" where
  "written L r = (case to_line L r of Inr s \<Rightarrow> s | Inl e \<Rightarrow> [])"

text \<open>
  What the probes find, of the prober alone: each probe in turn, on the wire as it is then, in the
  session's scope.
\<close>

fun ask_endpoint :: "ask \<Rightarrow> string" where
  "ask_endpoint (AskPort target port) = show_ip target @ '':'' @ show_word port"
| "ask_endpoint (AskHost target) = show_ip target"

fun find :: "'n helper \<Rightarrow> wire \<Rightarrow> 'n session_scope \<Rightarrow> ask \<Rightarrow> prober \<Rightarrow> (refusal + probe_answer) \<times> prober" where
  "find H w scope (AskPort target port) p = apfst (map_sum id PortAnswer) (syn_probe (he_net H) (he_base H) w scope target port p)"
| "find H w scope (AskHost target) p = apfst (map_sum id HostAnswer) (icmp_probe (he_net H) (he_base H) w scope target p)"

fun finds ::
  "'n helper \<Rightarrow> (nat \<Rightarrow> wire) \<Rightarrow> 'n session_scope \<Rightarrow> nat \<Rightarrow> u64 \<Rightarrow> ask list \<Rightarrow> prober \<Rightarrow> (packetd_error + probe_answer) list \<times> prober"
where
  "finds H W scope k i [] p = ([], p)"
| "finds H W scope k i (a # as) p =
     (let (found, p') = find H (W k) scope a p
      in apfst ((#) (map_sum (\<lambda>reason. Refusal i (ask_endpoint a) (refusal_name reason)) id found))
           (finds H W scope (Suc k) (i + 1) as p'))"

section \<open>The interface\<close>

text \<open>
  A written request is one line of UTF-8 and is read as the request it was; a response is read as the
  response it was.
\<close>

locale line_protocol =
  fixes L :: "'n line_env" and H :: "'n helper" and respond :: "response \<Rightarrow> string"
  assumes request_line: "le_write L r = Inr s \<Longrightarrow> CHR 0x0A \<notin> set s \<and> utf8_valid s \<and> he_parse H s = Inr r"
    and response_line: "le_parse L (respond a) = Inr a"

lemma read_next:
  assumes "\<forall>j. capabilities_are_dropped (G j)" "list_all healthy fills" "bytes_of fills = (line @ [CHR 0x0A]) @ bytes"
    and "CHR 0x0A \<notin> set line" "utf8_valid line" "length line \<le> max_line_bytes"
  obtains k' rest where "read_line G k [] fills = (Inr (Some line), k', rest)" "list_all healthy rest" "bytes_of rest = bytes"
proof -
  have t: "takeWhile (\<lambda>c. c \<noteq> CHR 0x0A) (bytes_of fills) = line"
    unfolding assms(3) using assms(4) by (auto simp: takeWhile_append takeWhile_eq_all_conv)
  then have f: "framed (bytes_of fills) = Inr (Some line)"
    using assms(3,5,6) by (simp add: framed_def Let_def)
  obtain r k' rest where r: "read_line G k [] fills = (r, k', rest)" using prod_cases3 by blast
  have "r = Inr (Some line)" "list_all healthy rest" "bytes_of rest = bytes"
    using read_line_framed [of G fills "[]" k] assms(1,2) f r t by (auto simp: assms(3) max_line_bytes_def)
  then show ?thesis using that r by blast
qed

lemma read_end:
  assumes "\<forall>j. capabilities_are_dropped (G j)" "list_all healthy fills" "bytes_of fills = []"
  obtains k' rest where "read_line G k [] fills = (Inr None, k', rest)"
proof -
  have "fst (read_line G k [] fills) = Inr None"
    using read_line_framed [of G fills "[]" k] assms by (simp add: framed_def max_line_bytes_def)
  then show ?thesis using that by (metis prod.collapse)
qed

context line_protocol
begin

lemma written_line: "le_write L r = Inr s \<Longrightarrow> written L r = s @ [CHR 0x0A]"
  by (simp add: written_def to_line_def)

text \<open>One request through both programs.\<close>

lemma exchanged:
  assumes "le_write L (job_request j) = Inr s"
  shows "job_request j = ProbeRequest i target port \<Longrightarrow>
      exchange L j \<lparr>pp_write_fails = None, pp_reading = ReadLine (respond (Result i state))\<rparr> = Inr (PortAnswer state)"
    "job_request j = IcmpProbe i target \<Longrightarrow>
      exchange L j \<lparr>pp_write_fails = None, pp_reading = ReadLine (respond (HostResult i host))\<rparr> = Inr (HostAnswer host)"
    "request_id (job_request j) = i \<Longrightarrow>
      exchange L j \<lparr>pp_write_fails = None, pp_reading = ReadLine (respond (RefusedProbe n reason))\<rparr> = Inl (Refusal i (job_endpoint j) reason)"
  using assms by (simp_all add: exchange_def to_line_def read_response_def response_line)

lemma one_ask:
  assumes "dm_state d = Running scope" "le_write L (ask_request a i) = Inr s" "length s \<le> max_line_bytes"
    and "find H w scope a (dm_prober d) = (found, q)"
  obtains response where "handle_line H w s d = (Some response, d\<lparr>dm_prober := q\<rparr>)"
    "client_ask L a \<lparr>pp_write_fails = None, pp_reading = ReadLine (respond response)\<rparr> \<lparr>cl_next_id = i, cl_serving = True\<rparr> =
       (map_sum (\<lambda>reason. Refusal i (ask_endpoint a) (refusal_name reason)) id found, \<lparr>cl_next_id = i + 1, cl_serving = True\<rparr>)"
proof (cases a)
  case (AskPort target port)
  obtain r where r: "syn_probe (he_net H) (he_base H) w scope target port (dm_prober d) = (r, q)" "found = map_sum id PortAnswer r"
    using assms(4) AskPort by (cases "syn_probe (he_net H) (he_base H) w scope target port (dm_prober d)") simp
  have parse: "he_parse H s = Inr (ProbeRequest i target port)" using request_line [OF assms(2)] AskPort by simp
  show ?thesis
  proof (rule that)
    show "handle_line H w s d =
        (Some (case r of Inl reason \<Rightarrow> RefusedProbe i (refusal_name reason) | Inr state \<Rightarrow> Result i state), d\<lparr>dm_prober := q\<rparr>)"
      by (cases r) (use assms(1,3) r parse in \<open>simp_all add: line_defs\<close>)
    show "client_ask L a \<lparr>pp_write_fails = None, pp_reading =
          ReadLine (respond (case r of Inl reason \<Rightarrow> RefusedProbe i (refusal_name reason) | Inr state \<Rightarrow> Result i state))\<rparr>
        \<lparr>cl_next_id = i, cl_serving = True\<rparr> =
      (map_sum (\<lambda>reason. Refusal i (ask_endpoint a) (refusal_name reason)) id found, \<lparr>cl_next_id = i + 1, cl_serving = True\<rparr>)"
      by (cases r) (use assms(2) AskPort r in \<open>simp_all add: client_probe_def client_exchange_def serve_job_def exchanged\<close>)
  qed
next
  case (AskHost target)
  obtain r where r: "icmp_probe (he_net H) (he_base H) w scope target (dm_prober d) = (r, q)" "found = map_sum id HostAnswer r"
    using assms(4) AskHost by (cases "icmp_probe (he_net H) (he_base H) w scope target (dm_prober d)") simp
  have parse: "he_parse H s = Inr (IcmpProbe i target)" using request_line [OF assms(2)] AskHost by simp
  show ?thesis
  proof (rule that)
    show "handle_line H w s d =
        (Some (case r of Inl reason \<Rightarrow> RefusedProbe i (refusal_name reason) | Inr state \<Rightarrow> HostResult i state), d\<lparr>dm_prober := q\<rparr>)"
      by (cases r) (use assms(1,3) r parse in \<open>simp_all add: line_defs\<close>)
    show "client_ask L a \<lparr>pp_write_fails = None, pp_reading =
          ReadLine (respond (case r of Inl reason \<Rightarrow> RefusedProbe i (refusal_name reason) | Inr state \<Rightarrow> HostResult i state))\<rparr>
        \<lparr>cl_next_id = i, cl_serving = True\<rparr> =
      (map_sum (\<lambda>reason. Refusal i (ask_endpoint a) (refusal_name reason)) id found, \<lparr>cl_next_id = i + 1, cl_serving = True\<rparr>)"
      by (cases r) (use assms(2) AskHost r in \<open>simp_all add: client_icmp_probe_def client_exchange_def serve_job_def exchanged\<close>)
  qed
qed

text \<open>The rest of a session, from any state in which it runs.\<close>

lemma conversation:
  assumes env: "\<forall>j. capabilities_are_dropped (pr_status E j)" "\<forall>n. pr_written E n" "pr_helper E = H"
    and "dm_state d = Running scope" "list_all healthy fills" "bytes_of fills = concat (map (written L) (asked i as))"
    and "\<forall>r \<in> set (asked i as). \<exists>s. le_write L r = Inr s \<and> length s \<le> max_line_bytes"
    and "finds H (pr_wire E) scope n i as (dm_prober d) = (answers, q)"
  shows "\<exists>responses. run_session E k n fills d out = (0, d\<lparr>dm_prober := q\<rparr>, out @ responses) \<and>
    client_asks L as (map respond responses) \<lparr>cl_next_id = i, cl_serving = True\<rparr> =
      (answers, \<lparr>cl_next_id = i + of_nat (length as), cl_serving = True\<rparr>)"
  using assms(4-8)
proof (induction as arbitrary: k n i fills d out answers)
  case Nil
  obtain k' rest where "read_line (pr_status E) k [] fills = (Inr None, k', rest)"
    using read_end [OF env(1) Nil(2)] Nil(3) by auto
  then have "run_session E k n fills d out = (0, d\<lparr>dm_prober := q\<rparr>, out @ [])"
    using Nil by (simp add: run_session_stop exit_status_def)
  then show ?case using Nil(5) by (intro exI [of _ "[]"]) simp
next
  case (Cons a as)
  obtain s where s: "le_write L (ask_request a i) = Inr s" "length s \<le> max_line_bytes" using Cons.prems(4) by auto
  have later: "\<forall>r \<in> set (asked (i + 1) as). \<exists>s. le_write L r = Inr s \<and> length s \<le> max_line_bytes" using Cons.prems(4) by simp
  have line: "CHR 0x0A \<notin> set s" "utf8_valid s" using request_line [OF s(1)] by simp_all
  have bytes: "bytes_of fills = (s @ [CHR 0x0A]) @ concat (map (written L) (asked (i + 1) as))"
    using Cons.prems(3) by (simp add: written_line [OF s(1)])
  obtain k' rest where read: "read_line (pr_status E) k [] fills = (Inr (Some s), k', rest)" "list_all healthy rest"
    "bytes_of rest = concat (map (written L) (asked (i + 1) as))"
    using read_next [OF env(1) Cons.prems(2) bytes line s(2)] by blast
  obtain found p where f: "find H (pr_wire E n) scope a (dm_prober d) = (found, p)" by fastforce
  obtain others where others: "finds H (pr_wire E) scope (Suc n) (i + 1) as p = (others, q)"
    "answers = map_sum (\<lambda>reason. Refusal i (ask_endpoint a) (refusal_name reason)) id found # others"
    using Cons.prems(5) f by (cases "finds H (pr_wire E) scope (Suc n) (i + 1) as p") auto
  obtain response where r: "handle_line H (pr_wire E n) s d = (Some response, d\<lparr>dm_prober := p\<rparr>)"
    "client_ask L a \<lparr>pp_write_fails = None, pp_reading = ReadLine (respond response)\<rparr> \<lparr>cl_next_id = i, cl_serving = True\<rparr> =
       (map_sum (\<lambda>reason. Refusal i (ask_endpoint a) (refusal_name reason)) id found, \<lparr>cl_next_id = i + 1, cl_serving = True\<rparr>)"
    using one_ask [OF Cons.prems(1) s f] by blast
  have run: "run_session E k n fills d out = run_session E k' (Suc n) rest (d\<lparr>dm_prober := p\<rparr>) (out @ [response])"
    using run_session_line [OF read(1)] r(1) env Cons.prems(1) by (simp add: response_list_def Let_def)
  obtain responses where
    "run_session E k' (Suc n) rest (d\<lparr>dm_prober := p\<rparr>) (out @ [response]) = (0, d\<lparr>dm_prober := q\<rparr>, (out @ [response]) @ responses)"
    "client_asks L as (map respond responses) \<lparr>cl_next_id = i + 1, cl_serving = True\<rparr> =
      (others, \<lparr>cl_next_id = i + 1 + of_nat (length as), cl_serving = True\<rparr>)"
    using Cons.IH [where d = "d\<lparr>dm_prober := p\<rparr>" and out = "out @ [response]", OF _ read(2,3) later, of "Suc n" others k'] Cons.prems(1) others(1)
    by auto
  then show ?case
    using run r(2) others(2) by (intro exI [of _ "response # responses"]) (simp add: add.assoc)
qed

lemma opened:
  assumes env: "\<forall>j. capabilities_are_dropped (pr_status E j)" "\<forall>n. pr_written E n" "pr_helper E = H"
    and "sm_allowed m \<noteq> []" "list_all healthy fills" "bytes_of fills = written L (init_request m) @ bytes"
    and "le_write L (init_request m) = Inr s" "length s \<le> max_line_bytes"
    and "session = \<lparr>ss_allowed = sm_allowed m, ss_denied = sm_denied m,
      ss_packets_per_second = maximum_packets_per_second (sm_ceiling m), ss_max_packets = maximum_packets (sm_ceiling m)\<rparr>"
  obtains k' rest where "list_all healthy rest" "bytes_of rest = bytes"
    "run_session E 0 0 fills (daemon_new dropped pid now) [] =
       run_session E k' 1 rest ((daemon_new dropped pid now)\<lparr>dm_state := Running session\<rparr>) [Ready dropped]"
proof -
  have line: "CHR 0x0A \<notin> set s" "utf8_valid s" "he_parse H s = Inr (init_request m)" using request_line [OF assms(7)] by simp_all
  have "bytes_of fills = (s @ [CHR 0x0A]) @ bytes" using assms(6) by (simp add: written_line [OF assms(7)])
  then obtain k' rest where read: "read_line (pr_status E) 0 [] fills = (Inr (Some s), k', rest)" "list_all healthy rest" "bytes_of rest = bytes"
    using read_next [OF env(1) assms(5) _ line(1,2) assms(8)] by blast
  have "handle_line H (pr_wire E 0) s (daemon_new dropped pid now) =
      (Some (Ready dropped), (daemon_new dropped pid now)\<lparr>dm_state := Running session\<rparr>)"
    using assms(4,8,9) line(3) by (simp add: line_defs daemon_new_def init_request_def)
  then have "run_session E 0 0 fills (daemon_new dropped pid now) [] =
       run_session E k' 1 rest ((daemon_new dropped pid now)\<lparr>dm_state := Running session\<rparr>) [Ready dropped]"
    using run_session_line [OF read(1)] env by (simp add: response_list_def Let_def)
  then show ?thesis using that read by blast
qed

lemma started:
  assumes "le_write L (init_request m) = Inr s"
  shows "client_start L binary m \<lparr>la_spawn_fails = None, la_pipes_missing = False, la_write_fails = None,
       la_reading = ReadLine (respond (Ready True)), la_exit_code = code, la_said = said\<rparr> = Inr \<lparr>cl_next_id = 1, cl_serving = True\<rparr>"
  using assms by (simp add: client_start_def handshake_def to_line_def read_response_def response_line)

lemma whole_conversation:
  assumes env: "\<forall>j. capabilities_are_dropped (pr_status E j)" "\<forall>n. pr_written E n" "pr_helper E = H"
    and "sm_allowed m \<noteq> []" "list_all healthy fills" "requests = init_request m # asked 1 as"
    and "bytes_of fills = concat (map (written L) requests)"
    and "\<forall>r \<in> set requests. \<exists>s. le_write L r = Inr s \<and> length s \<le> max_line_bytes"
    and "session = \<lparr>ss_allowed = sm_allowed m, ss_denied = sm_denied m,
      ss_packets_per_second = maximum_packets_per_second (sm_ceiling m), ss_max_packets = maximum_packets (sm_ceiling m)\<rparr>"
    and "finds H (pr_wire E) session 1 1 as (prober_new pid now) = (answers, q)"
  shows "\<exists>ready responses.
    run_session E 0 0 fills (daemon_new True pid now) [] =
      (0, \<lparr>dm_state = Running session, dm_dropped = True, dm_prober = q\<rparr>, ready # responses) \<and>
    client_start L binary m \<lparr>la_spawn_fails = None, la_pipes_missing = False, la_write_fails = None,
       la_reading = ReadLine (respond ready), la_exit_code = code, la_said = said\<rparr> = Inr \<lparr>cl_next_id = 1, cl_serving = True\<rparr> \<and>
    client_asks L as (map respond responses) \<lparr>cl_next_id = 1, cl_serving = True\<rparr> =
      (answers, \<lparr>cl_next_id = 1 + of_nat (length as), cl_serving = True\<rparr>)"
proof -
  have new: "(daemon_new True pid now)\<lparr>dm_state := s\<rparr> = \<lparr>dm_state = s, dm_dropped = True, dm_prober = prober_new pid now\<rparr>" for s :: "'a session_state"
    by (simp add: daemon_new_def)
  obtain s where s: "le_write L (init_request m) = Inr s" "length s \<le> max_line_bytes" using assms(6,8) by auto
  have "bytes_of fills = written L (init_request m) @ concat (map (written L) (asked 1 as))" using assms(6,7) by simp
  from opened [OF env assms(4,5) this s assms(9), of True pid now] obtain k' rest where rest: "list_all healthy rest"
    "bytes_of rest = concat (map (written L) (asked 1 as))"
    "run_session E 0 0 fills (daemon_new True pid now) [] =
       run_session E k' 1 rest \<lparr>dm_state = Running session, dm_dropped = True, dm_prober = prober_new pid now\<rparr> [Ready True]"
    unfolding new by blast
  have sizes: "\<forall>r \<in> set (asked 1 as). \<exists>s. le_write L r = Inr s \<and> length s \<le> max_line_bytes" using assms(6,8) by simp
  obtain responses where "run_session E k' 1 rest \<lparr>dm_state = Running session, dm_dropped = True, dm_prober = prober_new pid now\<rparr> [Ready True] =
      (0, \<lparr>dm_state = Running session, dm_dropped = True, dm_prober = q\<rparr>, [Ready True] @ responses)"
    "client_asks L as (map respond responses) \<lparr>cl_next_id = 1, cl_serving = True\<rparr> =
      (answers, \<lparr>cl_next_id = 1 + of_nat (length as), cl_serving = True\<rparr>)"
    using conversation [OF env _ rest(1,2) sizes, where scope = session and n = 1 and k = k' and out = "[Ready True]" and answers = answers and q = q
      and d = "\<lparr>dm_state = Running session, dm_dropped = True, dm_prober = prober_new pid now\<rparr>"] assms(10) by auto
  then show ?thesis
    using rest(3) started [OF s(1)] by (intro exI [of _ "Ready True"] exI [of _ responses]) simp
qed

end

section \<open>A text of every request and every response\<close>

definition net_codec :: "net codec" where
  "net_codec = via (\<lambda>n. case n of Net4 a p \<Rightarrow> Inl (a, p) | Net6 a p \<Rightarrow> Inr (a, p))
     (\<lambda>x. case x of Inl (a, p) \<Rightarrow> Net4 a p | Inr (a, p) \<Rightarrow> Net6 a p)
     (sum_codec (pair_codec word_codec nat_codec) (pair_codec word_codec nat_codec))"

definition request_codec :: "net request codec" where
  "request_codec = via
     (\<lambda>r. case r of Init a d pps n \<Rightarrow> Inl (a, d, pps, n) | ProbeRequest i t p \<Rightarrow> Inr (Inl (i, t, p))
        | IcmpProbe i t \<Rightarrow> Inr (Inr (Inl (i, t))) | Shutdown \<Rightarrow> Inr (Inr (Inr 0)))
     (\<lambda>x. case x of Inl (a, d, pps, n) \<Rightarrow> Init a d pps n | Inr (Inl (i, t, p)) \<Rightarrow> ProbeRequest i t p
        | Inr (Inr (Inl (i, t))) \<Rightarrow> IcmpProbe i t | Inr (Inr (Inr _)) \<Rightarrow> Shutdown)
     (sum_codec (pair_codec (list_codec net_codec) (pair_codec (list_codec net_codec) (pair_codec word_codec word_codec)))
     (sum_codec (pair_codec word_codec (pair_codec ip_codec word_codec))
     (sum_codec (pair_codec word_codec ip_codec) nat_codec)))"

definition response_codec :: "response codec" where
  "response_codec = via
     (\<lambda>r. case r of Ready b \<Rightarrow> Inl b | Result i s \<Rightarrow> Inr (Inl (i, s)) | HostResult i s \<Rightarrow> Inr (Inr (Inl (i, s)))
        | RefusedProbe i s \<Rightarrow> Inr (Inr (Inr (Inl (i, s)))) | Fatal s \<Rightarrow> Inr (Inr (Inr (Inr s))))
     (\<lambda>x. case x of Inl b \<Rightarrow> Ready b | Inr (Inl (i, s)) \<Rightarrow> Result i s | Inr (Inr (Inl (i, s))) \<Rightarrow> HostResult i s
        | Inr (Inr (Inr (Inl (i, s)))) \<Rightarrow> RefusedProbe i s | Inr (Inr (Inr (Inr s))) \<Rightarrow> Fatal s)
     (sum_codec (enum_codec [False, True])
     (sum_codec (pair_codec word_codec (enum_codec [Open, Closed, Filtered, Indeterminate]))
     (sum_codec (pair_codec word_codec (enum_codec [Up, Down, Unknown]))
     (sum_codec (pair_codec word_codec string_codec) string_codec))))"

lemma lawful_net: "lawful net_codec"
  unfolding net_codec_def by (intro lawful_intros lawful_nat) (simp split: net.split)

lemma lawful_request: "lawful request_codec"
  unfolding request_codec_def by (intro lawful_intros lawful_nat lawful_net lawful_ip) (simp split: request.split)

lemma lawful_response: "lawful response_codec"
  unfolding response_codec_def
  by (intro lawful_intros) (auto intro: port_state.exhaust host_state.exhaust split: response.split)

definition read_text :: "'a codec \<Rightarrow> string \<Rightarrow> string + 'a" where
  "read_text c s =
     (case text_tokens (Suc (length s)) s of
        None \<Rightarrow> Inl ''not a record''
      | Some ns \<Rightarrow> (case get c ns of Some (x, []) \<Rightarrow> Inr x | _ \<Rightarrow> Inl ''not a record''))"

lemma read_text: "lawful c \<Longrightarrow> read_text c (tokens_text (put c x)) = Inr x"
  using lawfulD [of c x "[]"] text_tokens_text [of "put c x" "Suc (length (tokens_text (put c x)))"]
  by (simp add: read_text_def length_tokens less_SucI)

definition token_lines :: "net line_env" where
  "token_lines = \<lparr>le_write = (\<lambda>r. Inr (tokens_text (put request_codec r))), le_parse = read_text response_codec, le_debug = (\<lambda>_. [])\<rparr>"

definition token_helper :: "net helper" where
  "token_helper = \<lparr>he_net = prefixed_net, he_base = prefixed_base, he_parse = read_text request_codec\<rparr>"

definition token_respond :: "response \<Rightarrow> string" where
  "token_respond r = tokens_text (put response_codec r)"

interpretation token_protocol: line_protocol token_lines token_helper token_respond
proof
  show "CHR 0x0A \<notin> set s \<and> utf8_valid s \<and> he_parse token_helper s = Inr r" if "le_write token_lines r = Inr s" for r s
  proof -
    have s: "s = tokens_text (put request_codec r)" using that by (simp add: token_lines_def)
    have ascii: "c \<in> set s \<Longrightarrow> token_char c" for c unfolding s by (rule tokens_chars)
    have "CHR 0x0A \<notin> set s" using ascii not_tokens(1) by blast
    moreover have "utf8_valid s" using ascii token_ascii by (blast intro: utf8_ascii)
    ultimately show ?thesis by (simp add: token_helper_def s read_text [OF lawful_request])
  qed
  show "le_parse token_lines (token_respond a) = Inr a" for a
    by (simp add: token_lines_def token_respond_def read_text [OF lawful_response])
qed

section \<open>In step\<close>


text \<open>A conversation: one port the scope allows, one host it does not.\<close>

definition seam_manifest :: "net scope_manifest" where
  "seam_manifest = \<lparr>sm_id = 1, sm_description = [], sm_not_after = 0, sm_allowed = [Net4 0x0a000000 16], sm_denied = [],
     sm_ceiling = \<lparr>maximum_packets = 5, maximum_runtime_seconds = 1, maximum_packets_per_second = 10\<rparr>,
     sm_had_signature = False\<rparr>"

definition seam_process :: "net process" where
  "seam_process = sample_process\<lparr>pr_helper := token_helper\<rparr>"

definition seam_asks :: "ask list" where
  "seam_asks = [AskPort (V4 0x0a000001) 80, AskHost (V4 0x0b000001)]"

lemma seam_short: "\<forall>r \<in> set (init_request seam_manifest # asked 1 seam_asks). \<exists>s. le_write token_lines r = Inr s \<and> length s \<le> max_line_bytes"
  by (simp add: seam_manifest_def seam_asks_def init_request_def token_lines_def max_line_bytes_def request_codec_def via_def
    sum_codec_def pair_codec_def list_codec_def net_codec_def word_codec_def nat_codec_def ip_codec_def show_nat_def digits_rev.simps)

lemma seam_finds:
  obtains q where "finds (pr_helper seam_process) (pr_wire seam_process) sample_scope 1 1 seam_asks (prober_new 1 0) =
    ([Inr (PortAnswer Filtered), Inl (Refusal 2 ''11.0.0.1'' ''out_of_session_scope'')], q)"
proof -
  have "pb_probes (prober_new 1 0) < 5" by (simp add: prober_new_def)
  from sample_probe [OF this] obtain p where
    p: "syn_probe prefixed_net prefixed_base sample_wire sample_scope (V4 0x0a000001) 80 (prober_new 1 0) = (Inr Filtered, p)" by blast
  have "check_session_scope prefixed_net prefixed_base sample_scope (V4 0x0b000001) = Inl OutOfSessionScope"
    by (simp add: check_session_scope.simps sample_scope_def covers_def prefixed_net_def checked_shl_def is_reserved_def octet0_def
      octet1_def Let_def mask_eq_exp_minus_1)
  then have "icmp_probe prefixed_net prefixed_base sample_wire sample_scope (V4 0x0b000001) p = (Inl OutOfSessionScope, p)"
    by (simp add: icmp_probe_def admit_def)
  moreover have "show_ip (V4 0x0b000001) = ''11.0.0.1''" by code_simp
  ultimately show ?thesis
    using that p by (simp add: seam_asks_def seam_process_def token_helper_def sample_process_def)
qed


end
