(* ===== verification/Rules.thy ===== *)
theory Rules
  imports Interpret Event_Codec
begin

text \<open>
  The rules that read a capture, \<open>crates/bathy-interpret/src/rules.rs\<close>: the ladder of confidences, the
  matchers of the eight protocols and the table. Matchers see bytes as a string. The \<open>regex\<close> crate is a
  parameter: what a pattern captures in a line, as byte offsets. Offsets are \<open>nat\<close>: they stay below the
  length of a slice plus 65,792, so no checked addition of \<open>usize\<close> can fail.
\<close>

section \<open>The ladder\<close>

datatype specificity = ProductAndVersion | ProductOnly | ProtocolOnly | Weak

text \<open>0.95, 0.85, 0.70 and 0.50 as \<open>f64\<close>.\<close>

fun specificity_value :: "specificity \<Rightarrow> u64" where
  "specificity_value ProductAndVersion = 0x3FEE666666666666"
| "specificity_value ProductOnly = 0x3FEB333333333333"
| "specificity_value ProtocolOnly = 0x3FE6666666666666"
| "specificity_value Weak = 0x3FE0000000000000"

definition specificity_confidence :: "specificity \<Rightarrow> confidence rust" where
  "specificity_confidence s = (case confidence_new (specificity_value s) of Inr c \<Rightarrow> Ret c | Inl e \<Rightarrow> Panic)"

section \<open>Reading bytes\<close>

record hit =
  ht_product :: "string option"
  ht_version :: "string option"
  ht_specificity :: specificity
  ht_span :: "nat \<times> nat"

definition byte :: "char \<Rightarrow> nat" where
  "byte c = of_char c"

definition byte_at :: "nat \<Rightarrow> string \<Rightarrow> nat option" where
  "byte_at i bs = (if i < length bs then Some (byte (bs ! i)) else None)"

definition bytes_range :: "nat \<Rightarrow> nat \<Rightarrow> string \<Rightarrow> string option" where
  "bytes_range a b bs = (if a \<le> b \<and> b \<le> length bs then Some (take (b - a) (drop a bs)) else None)"

definition u16_at :: "string \<Rightarrow> nat \<Rightarrow> nat option" where
  "u16_at bs i = (if i + 2 \<le> length bs then Some (byte (bs ! i) * 256 + byte (bs ! (i + 1))) else None)"

text \<open>The lines of a capture that are UTF-8, with the offset each starts at.\<close>

function utf8_lines_at :: "nat \<Rightarrow> string \<Rightarrow> (nat \<times> string) list" where
  "utf8_lines_at start bs =
     (let line = takeWhile (\<lambda>c. c \<noteq> CHR 0x0A) bs; n = length line
      in if n < length bs then
           (if utf8_valid line then [(start, line)] else []) @ utf8_lines_at (start + n + 1) (drop (n + 1) bs)
         else if bs \<noteq> [] \<and> utf8_valid bs then [(start, bs)] else [])"
  by pat_completeness auto
termination
  by (relation "measure (\<lambda>(start, bs). length bs)") auto

declare utf8_lines_at.simps [simp del]

definition utf8_lines :: "string \<Rightarrow> (nat \<times> string) list" where
  "utf8_lines bs = utf8_lines_at 0 bs"

section \<open>Regular expressions\<close>

text \<open>
  The patterns of the module. What one captures in a line is the whole match and, if the pattern has
  a group that took part, the group.
\<close>

datatype pattern = NginxServerRe | SshOpensshRe | SshBannerRe | SmtpGreetingRe | SmtpPostfixRe

type_synonym captures = "pattern \<Rightarrow> string \<Rightarrow> ((nat \<times> nat) \<times> (nat \<times> nat) option) option"

definition absolute_span :: "nat \<Rightarrow> nat \<times> nat \<Rightarrow> nat \<times> nat" where
  "absolute_span line_start m = (line_start + fst m, line_start + snd m)"

definition text_of :: "nat \<times> nat \<Rightarrow> string \<Rightarrow> string" where
  "text_of m s = take (snd m - fst m) (drop (fst m) s)"

section \<open>HTTP\<close>

definition http_status_line :: "string \<Rightarrow> (nat \<times> string) option" where
  "http_status_line bs =
     (case utf8_lines bs of
        [] \<Rightarrow> None
      | (start, line) # _ \<Rightarrow> if take 5 line = ''HTTP/'' then Some (start, line) else None)"

fun nginx_loop :: "captures \<Rightarrow> (nat \<times> string) list \<Rightarrow> hit option" where
  "nginx_loop C [] = None"
| "nginx_loop C ((line_start, line) # lines) =
     (case C NginxServerRe line of
        None \<Rightarrow> nginx_loop C lines
      | Some (m, grp) \<Rightarrow>
          let version = map_option (\<lambda>g. text_of g line) grp
          in Some \<lparr>ht_product = Some ''nginx'', ht_version = version,
               ht_specificity = (if version \<noteq> None then ProductAndVersion else ProductOnly),
               ht_span = absolute_span line_start m\<rparr>)"

definition http_nginx :: "captures \<Rightarrow> string \<Rightarrow> hit option" where
  "http_nginx C bs = Option.bind (http_status_line bs) (\<lambda>_. nginx_loop C (utf8_lines bs))"

definition http_bare_protocol :: "string \<Rightarrow> hit option" where
  "http_bare_protocol bs = Option.bind (http_status_line bs) (\<lambda>(start, line).
     Some \<lparr>ht_product = None, ht_version = None, ht_specificity = ProtocolOnly, ht_span = (start, start + length line)\<rparr>)"

section \<open>SSH\<close>

fun openssh_loop :: "captures \<Rightarrow> (nat \<times> string) list \<Rightarrow> hit option" where
  "openssh_loop C [] = None"
| "openssh_loop C ((line_start, line) # lines) =
     (case C SshOpensshRe line of
        None \<Rightarrow> openssh_loop C lines
      | Some (m, grp) \<Rightarrow> Option.bind grp (\<lambda>g.
          Some \<lparr>ht_product = Some ''OpenSSH'', ht_version = Some (text_of g line), ht_specificity = ProductAndVersion,
            ht_span = absolute_span line_start m\<rparr>))"

definition ssh_openssh :: "captures \<Rightarrow> string \<Rightarrow> hit option" where
  "ssh_openssh C bs = openssh_loop C (utf8_lines bs)"

fun find_loop :: "captures \<Rightarrow> pattern \<Rightarrow> string option \<Rightarrow> specificity \<Rightarrow> (nat \<times> string) list \<Rightarrow> hit option" where
  "find_loop C p product spec [] = None"
| "find_loop C p product spec ((line_start, line) # lines) =
     (case C p line of
        None \<Rightarrow> find_loop C p product spec lines
      | Some (m, grp) \<Rightarrow>
          Some \<lparr>ht_product = product, ht_version = None, ht_specificity = spec, ht_span = absolute_span line_start m\<rparr>)"

definition ssh_bare_protocol :: "captures \<Rightarrow> string \<Rightarrow> hit option" where
  "ssh_bare_protocol C bs = find_loop C SshBannerRe None ProtocolOnly (utf8_lines bs)"

section \<open>PostgreSQL, Redis and MySQL\<close>

definition protocol_hit :: "specificity \<Rightarrow> nat \<times> nat \<Rightarrow> hit" where
  "protocol_hit spec span = \<lparr>ht_product = None, ht_version = None, ht_specificity = spec, ht_span = span\<rparr>"

definition postgres_ssl_accepted :: "string \<Rightarrow> hit option" where
  "postgres_ssl_accepted bs = (if bs = ''S'' then Some (protocol_hit ProtocolOnly (0, 1)) else None)"

definition postgres_ssl_declined :: "string \<Rightarrow> hit option" where
  "postgres_ssl_declined bs = (if bs = ''N'' then Some (protocol_hit ProtocolOnly (0, 1)) else None)"

definition redis_pong :: "string \<Rightarrow> hit option" where
  "redis_pong bs = (if take 5 bs = ''+PONG'' then Some (protocol_hit ProtocolOnly (0, 5)) else None)"

text \<open>\<open>windows(2).position(..)\<close>.\<close>

fun crlf_position :: "string \<Rightarrow> nat option" where
  "crlf_position (a # b # bs) =
     (if a = CHR 0x0D \<and> b = CHR 0x0A then Some 0 else map_option Suc (crlf_position (b # bs)))"
| "crlf_position _ = None"

definition redis_resp_shaped_reply :: "string \<Rightarrow> hit option" where
  "redis_resp_shaped_reply bs =
     (case bs of
        [] \<Rightarrow> None
      | sigil # _ \<Rightarrow>
          if sigil \<notin> set ''+-:$*'' then None
          else Option.bind (crlf_position bs) (\<lambda>crlf_at. Some (protocol_hit Weak (0, crlf_at + 2))))"

definition position :: "char \<Rightarrow> string \<Rightarrow> nat option" where
  "position c bs = (let n = length (takeWhile (\<lambda>x. x \<noteq> c) bs) in if n < length bs then Some n else None)"

definition mysql_handshake_v10 :: "string \<Rightarrow> hit option" where
  "mysql_handshake_v10 bs = do {
     v \<leftarrow> byte_at 4 bs;
     if v \<noteq> 0x0a then None else do {
       rest \<leftarrow> bytes_range 5 (length bs) bs;
       nul \<leftarrow> position (CHR 0x00) rest;
       if nul = 0 then None else do {
         version \<leftarrow> bytes_range 5 (5 + nul) bs;
         if \<not> utf8_valid version then None
         else Some \<lparr>ht_product = Some ''MySQL'', ht_version = Some version, ht_specificity = ProductAndVersion,
                ht_span = (5, 5 + nul)\<rparr> } } }"

section \<open>DNS\<close>

text \<open>One label, a compression pointer or the end of a name. Every step goes forward.\<close>

function dns_skip_name :: "string \<Rightarrow> nat \<Rightarrow> nat option" where
  "dns_skip_name bs at =
     (case byte_at at bs of
        None \<Rightarrow> None
      | Some n \<Rightarrow>
          if n = 0 then Some (at + 1)
          else if 192 \<le> n then Option.bind (byte_at (at + 1) bs) (\<lambda>_. Some (at + 2))
          else dns_skip_name bs (at + 1 + n))"
  by pat_completeness auto
termination
  by (relation "measure (\<lambda>(bs, at). length bs - at)") (auto simp: byte_at_def split: if_splits)

declare dns_skip_name.simps [simp del]

fun dns_questions :: "nat \<Rightarrow> string \<Rightarrow> nat \<Rightarrow> nat \<Rightarrow> nat option" where
  "dns_questions 0 bs msg_end at = Some at"
| "dns_questions (Suc n) bs msg_end at = do {
     at \<leftarrow> dns_skip_name bs at;
     if at + 4 > msg_end then None else dns_questions n bs msg_end (at + 4) }"

fun dns_answers :: "nat \<Rightarrow> string \<Rightarrow> nat \<Rightarrow> nat \<Rightarrow> hit option" where
  "dns_answers 0 bs msg_end at = None"
| "dns_answers (Suc n) bs msg_end at = do {
     at \<leftarrow> dns_skip_name bs at;
     rtype \<leftarrow> u16_at bs at;
     rclass \<leftarrow> u16_at bs (at + 2);
     rdlength \<leftarrow> u16_at bs (at + 8);
     let rdata_start = at + 10; rdata_end = rdata_start + rdlength
     in if rdata_end > msg_end \<or> rdata_end > length bs then None
        else if rtype = 16 \<and> rclass = 3 then do {
          txt_len \<leftarrow> byte_at rdata_start bs;
          let txt_start = rdata_start + 1; txt_end = txt_start + txt_len
          in if txt_end > rdata_end then None
             else do {
               version \<leftarrow> bytes_range txt_start txt_end bs;
               if \<not> utf8_valid version \<or> version = [] then None
               else Some \<lparr>ht_product = Some ''BIND'', ht_version = Some version, ht_specificity = ProductAndVersion,
                      ht_span = (txt_start, txt_end)\<rparr> } }
        else dns_answers n bs msg_end rdata_end }"

definition dns_bind_version :: "string \<Rightarrow> hit option" where
  "dns_bind_version bs = do {
     msg_len \<leftarrow> u16_at bs 0;
     let msg_end = 2 + msg_len
     in if msg_end > length bs then None
        else do {
          flags \<leftarrow> u16_at bs 4;
          if flags < 0x8000 then None
          else do {
            qdcount \<leftarrow> u16_at bs 6;
            ancount \<leftarrow> u16_at bs 8;
            if ancount = 0 then None
            else do {
              at \<leftarrow> dns_questions qdcount bs msg_end 14;
              dns_answers ancount bs msg_end at } } } }"

section \<open>SMTP and TLS\<close>

definition smtp_postfix :: "captures \<Rightarrow> string \<Rightarrow> hit option" where
  "smtp_postfix C bs = find_loop C SmtpPostfixRe (Some ''Postfix'') ProductOnly (utf8_lines bs)"

definition smtp_bare_protocol :: "captures \<Rightarrow> string \<Rightarrow> hit option" where
  "smtp_bare_protocol C bs =
     (case utf8_lines bs of
        [] \<Rightarrow> None
      | (start, line) # _ \<Rightarrow>
          map_option (\<lambda>(m, grp). protocol_hit ProtocolOnly (absolute_span start m)) (C SmtpGreetingRe line))"

definition tls_server_hello :: "string \<Rightarrow> hit option" where
  "tls_server_hello bs =
     (case bytes_range 0 6 bs of
        Some h \<Rightarrow> if byte (h ! 0) = 0x16 \<and> byte (h ! 5) = 0x02 then Some (protocol_hit ProtocolOnly (0, 6)) else None
      | None \<Rightarrow> None)"

section \<open>The table\<close>

record rule_entry =
  rl_probe_id :: string
  rl_id :: string
  rl_service :: string
  rl_specificity :: specificity
  rl_rationale :: string
  rl_matcher :: "string \<Rightarrow> hit option"

definition all_rules :: "captures \<Rightarrow> rule_entry list" where
  "all_rules C = [
   \<lparr>rl_probe_id = ''http-get-v1'', rl_id = ''http.server.nginx.v1'', rl_service = ''http'', rl_specificity = ProductAndVersion,
      rl_rationale =
         ''The `Server` response header declared `nginx`, optionally followed by a version.'',
      rl_matcher = http_nginx C\<rparr>,
   \<lparr>rl_probe_id = ''http-get-v1'', rl_id = ''http.protocol.bare.v1'', rl_service = ''http'', rl_specificity = ProtocolOnly,
      rl_rationale =
         ''The response's first line is a well-formed HTTP status line, but no `Server` header '' @
         ''matched any known product.'',
      rl_matcher = http_bare_protocol\<rparr>,
   \<lparr>rl_probe_id = ''ssh-banner-v1'', rl_id = ''ssh.banner.openssh.v1'', rl_service = ''ssh'', rl_specificity = ProductAndVersion,
      rl_rationale =
         ''The SSH identification string named the OpenSSH software version, per the '' @
         ''`SSH-protoversion-softwareversion` format.'',
      rl_matcher = ssh_openssh C\<rparr>,
   \<lparr>rl_probe_id = ''ssh-banner-v1'', rl_id = ''ssh.protocol.bare.v1'', rl_service = ''ssh'', rl_specificity = ProtocolOnly,
      rl_rationale =
         ''The response is a well-formed SSH identification string, but the software field did not '' @
         ''match any known product.'',
      rl_matcher = ssh_bare_protocol C\<rparr>,
   \<lparr>rl_probe_id = ''postgres-startup-v1'', rl_id = ''postgres.sslrequest.accepted.v1'', rl_service = ''postgresql'', rl_specificity = ProtocolOnly,
      rl_rationale =
         ''The server replied with the single byte `S`, PostgreSQL's documented SSLRequest reply '' @
         ''meaning it will negotiate SSL.'',
      rl_matcher = postgres_ssl_accepted\<rparr>,
   \<lparr>rl_probe_id = ''postgres-startup-v1'', rl_id = ''postgres.sslrequest.declined.v1'', rl_service = ''postgresql'', rl_specificity = ProtocolOnly,
      rl_rationale =
         ''The server replied with the single byte `N`, PostgreSQL's documented SSLRequest reply '' @
         ''meaning it will not negotiate SSL.'',
      rl_matcher = postgres_ssl_declined\<rparr>,
   \<lparr>rl_probe_id = ''redis-ping-v1'', rl_id = ''redis.ping.pong.v1'', rl_service = ''redis'', rl_specificity = ProtocolOnly,
      rl_rationale =
         ''The server replied `+PONG`, RESP's documented reply to the `PING` command.'',
      rl_matcher = redis_pong\<rparr>,
   \<lparr>rl_probe_id = ''redis-ping-v1'', rl_id = ''redis.protocol.resp_shaped.v1'', rl_service = ''redis'', rl_specificity = Weak,
      rl_rationale =
         ''The reply began with a valid RESP type sigil and carried a proper CRLF line terminator, '' @
         ''but was not the literal `+PONG` a real Redis server sends -- consistent with a '' @
         ''RESP-compatible service, not a confirmed product.'',
      rl_matcher = redis_resp_shaped_reply\<rparr>,
   \<lparr>rl_probe_id = ''mysql-greeting-v1'', rl_id = ''mysql.handshake.v10.v1'', rl_service = ''mysql'', rl_specificity = ProductAndVersion,
      rl_rationale =
         ''The greeting's protocol-version byte was 0x0a (HandshakeV10), followed by a NUL-terminated '' @
         ''server-version string.'',
      rl_matcher = mysql_handshake_v10\<rparr>,
   \<lparr>rl_probe_id = ''dns-version-bind-v1'', rl_id = ''dns.version_bind.txt_chaos.v1'', rl_service = ''dns'', rl_specificity = ProductAndVersion,
      rl_rationale =
         ''The reply's answer section carried a TXT/CH record -- the documented response to a '' @
         ''`version.bind` query -- containing a version string.'',
      rl_matcher = dns_bind_version\<rparr>,
   \<lparr>rl_probe_id = ''smtp-banner-v1'', rl_id = ''smtp.banner.postfix.v1'', rl_service = ''smtp'', rl_specificity = ProductOnly,
      rl_rationale =
         ''The 220 greeting named Postfix. Postfix's greeting does not carry a version number, so no '' @
         ''version can be extracted.'',
      rl_matcher = smtp_postfix C\<rparr>,
   \<lparr>rl_probe_id = ''smtp-banner-v1'', rl_id = ''smtp.protocol.bare.v1'', rl_service = ''smtp'', rl_specificity = ProtocolOnly,
      rl_rationale =
         ''The response is a well-formed 220 SMTP greeting, but no product name in it matched any '' @
         ''known rule.'',
      rl_matcher = smtp_bare_protocol C\<rparr>,
   \<lparr>rl_probe_id = ''tls-v1'', rl_id = ''tls.serverhello.structural.v1'', rl_service = ''tls'', rl_specificity = ProtocolOnly,
      rl_rationale =
         ''The reply's record layer carried content type 0x16 (handshake) with an inner handshake '' @
         ''type of 0x02 (ServerHello) -- confirms a TLS server answered, but (for TLS 1.3) the '' @
         ''certificate is encrypted, so no product or version can be read from these bytes.'',
      rl_matcher = tls_server_hello\<rparr>]"

definition entries_for :: "captures \<Rightarrow> string \<Rightarrow> rule_entry list" where
  "entries_for C probe_id = filter (\<lambda>r. rl_probe_id r = probe_id) (all_rules C)"

definition explain :: "captures \<Rightarrow> string \<Rightarrow> rule_entry option" where
  "explain C rule_id = find (\<lambda>r. rl_id r = rule_id) (all_rules C)"

definition known_probe_ids :: "captures \<Rightarrow> string list" where
  "known_probe_ids C = remdups_adj (sort (map rl_probe_id (all_rules C)))"

text \<open>The confidence of a hit is the one of its rung; the rungs are valid (\<open>ladder_valid\<close>).\<close>

definition rung :: "specificity \<Rightarrow> confidence" where
  "rung s = Confidence (specificity_value s)"

definition as_rule :: "rule_entry \<Rightarrow> rule" where
  "as_rule r = \<lparr>ru_id = rl_id r, ru_probe_id = rl_probe_id r, ru_service = rl_service r, ru_rationale = rl_rationale r,
     ru_matcher = (\<lambda>bs. map_option (\<lambda>h. \<lparr>hit_product = ht_product h, hit_version = ht_version h, hit_span = ht_span h,
        hit_confidence = rung (ht_specificity h)\<rparr>) (rl_matcher r bs))\<rparr>"

definition interpret_bytes :: "captures \<Rightarrow> probe_capture \<Rightarrow> interp list" where
  "interpret_bytes C capture = interpret_capture (map as_rule (all_rules C)) capture"

section \<open>The interface to the regular expressions\<close>

text \<open>What the \<open>regex\<close> crate documents of a match: it lies in the text, and a group lies in the match.\<close>

locale regex_laws =
  fixes C :: captures
  assumes match_in_line: "C p s = Some (m, g) \<Longrightarrow> fst m \<le> snd m \<and> snd m \<le> length s"
    and group_in_match: "C p s = Some (m, Some grp) \<Longrightarrow> fst m \<le> fst grp \<and> fst grp \<le> snd grp \<and> snd grp \<le> snd m"

text \<open>A hit cites bytes: its span is a range of them, and a version it reports stands in that range.\<close>

definition cites :: "string \<Rightarrow> nat \<times> nat \<Rightarrow> string option \<Rightarrow> bool" where
  "cites bs span version \<longleftrightarrow> fst span \<le> snd span \<and> snd span \<le> length bs \<and>
     (\<forall>v. version = Some v \<longrightarrow> (\<exists>i. fst span \<le> i \<and> i + length v \<le> snd span \<and> take (length v) (drop i bs) = v))"

fun rung_fits :: "specificity \<Rightarrow> string option \<Rightarrow> string option \<Rightarrow> bool" where
  "rung_fits ProductAndVersion (Some p) (Some v) = True"
| "rung_fits ProductOnly (Some p) None = True"
| "rung_fits ProtocolOnly None None = True"
| "rung_fits Weak None None = True"
| "rung_fits _ _ _ = False"

definition hit_ok :: "string \<Rightarrow> hit \<Rightarrow> bool" where
  "hit_ok bs h \<longleftrightarrow> cites bs (ht_span h) (ht_version h) \<and> rung_fits (ht_specificity h) (ht_product h) (ht_version h)"

lemma utf8_lines_at_slices:
  "(i, l) \<in> set (utf8_lines_at start bs) \<Longrightarrow>
     start \<le> i \<and> i + length l \<le> start + length bs \<and> take (length l) (drop (i - start) bs) = l"
proof (induction start bs rule: utf8_lines_at.induct)
  case (1 start bs)
  let ?line = "takeWhile (\<lambda>c. c \<noteq> CHR 0x0A) bs"
  show ?case
  proof (cases "length ?line < length bs")
    case True
    have line: "take (length ?line) bs = ?line" by (rule takeWhile_eq_take [symmetric])
    consider (first) "i = start" "l = ?line"
      | (later) "(i, l) \<in> set (utf8_lines_at (start + length ?line + 1) (drop (length ?line + 1) bs))"
      using 1(2) True by (subst (asm) utf8_lines_at.simps) (auto simp: Let_def split: if_splits)
    then show ?thesis
    proof cases
      case first
      then show ?thesis using True line by simp
    next
      case later
      define n where "n = length ?line"
      have l: "start + n + 1 \<le> i \<and> i + length l \<le> start + n + 1 + length (drop (n + 1) bs) \<and>
          take (length l) (drop (i - (start + n + 1)) (drop (n + 1) bs)) = l"
        using 1(1) [OF refl refl True later] unfolding n_def .
      then obtain k where k: "i = start + n + 1 + k" using le_Suc_ex by blast
      obtain j where j: "length bs = n + 1 + j" using True le_Suc_ex [of "n + 1" "length bs"] by (auto simp: n_def)
      then show ?thesis using l by (simp add: k add.commute add.left_commute)
    qed
  next
    case False
    then show ?thesis using 1(2) by (subst (asm) utf8_lines_at.simps) (auto simp: Let_def split: if_splits)
  qed
qed

lemma utf8_lines_slices:
  assumes "(i, l) \<in> set (utf8_lines bs)"
  shows "i + length l \<le> length bs" "take (length l) (drop i bs) = l"
  using utf8_lines_at_slices [of i l 0 bs] assms by (simp_all add: utf8_lines_def)

lemma cites_none: "a \<le> b \<Longrightarrow> b \<le> length bs \<Longrightarrow> cites bs (a, b) None"
  by (simp add: cites_def)

context regex_laws begin

lemma cites_match:
  assumes "(i, l) \<in> set (utf8_lines bs)" "C p l = Some (m, grp)"
  shows "cites bs (absolute_span i m) (map_option (\<lambda>g. text_of g l) grp)"
proof -
  note line = utf8_lines_slices [OF assms(1)]
  have m: "fst m \<le> snd m" "snd m \<le> length l" using match_in_line [OF assms(2)] by simp_all
  have "\<exists>k. i + fst m \<le> k \<and> k + length (text_of g l) \<le> i + snd m \<and> take (length (text_of g l)) (drop k bs) = text_of g l"
    if "grp = Some g" for g
  proof -
    have g: "fst m \<le> fst g" "fst g \<le> snd g" "snd g \<le> snd m" using group_in_match [of p l m g] assms(2) that by simp_all
    then have n: "length (text_of g l) = snd g - fst g" using m by (simp add: text_of_def)
    have "take (snd g - fst g) (drop (fst g) l) = take (snd g - fst g) (drop (fst g) (take (length l) (drop i bs)))"
      using line(2) by simp
    also have "\<dots> = take (snd g - fst g) (drop (i + fst g) bs)"
      using g m by (simp add: drop_take add.commute min_def)
    finally have "take (length (text_of g l)) (drop (i + fst g) bs) = text_of g l" unfolding n by (simp add: text_of_def)
    then show ?thesis using g n by (intro exI [of _ "i + fst g"]) simp
  qed
  then show ?thesis using m line(1) by (auto simp: cites_def absolute_span_def)
qed

lemma cites_find: "(i, l) \<in> set (utf8_lines bs) \<Longrightarrow> C p l = Some (m, grp) \<Longrightarrow> cites bs (absolute_span i m) None"
  using cites_match [of i l bs p m grp] by (simp add: cites_def)

lemma nginx_loop_ok: "nginx_loop C ls = Some h \<Longrightarrow> set ls \<subseteq> set (utf8_lines bs) \<Longrightarrow> hit_ok bs h"
proof (induction ls)
  case (Cons x ls)
  obtain i l where x: "x = (i, l)" by fastforce
  show ?case
  proof (cases "C NginxServerRe l")
    case None
    then show ?thesis using Cons x by simp
  next
    case (Some mg)
    then obtain m grp where m: "C NginxServerRe l = Some (m, grp)" by (cases mg) simp
    have "cites bs (absolute_span i m) (map_option (\<lambda>g. text_of g l) grp)"
      using cites_match [OF _ m] Cons.prems(2) x by simp
    then show ?thesis using Cons.prems(1) x m by (cases grp) (auto simp: hit_ok_def)
  qed
qed simp

lemma openssh_loop_ok: "openssh_loop C ls = Some h \<Longrightarrow> set ls \<subseteq> set (utf8_lines bs) \<Longrightarrow> hit_ok bs h"
proof (induction ls)
  case (Cons x ls)
  obtain i l where x: "x = (i, l)" by fastforce
  show ?case
  proof (cases "C SshOpensshRe l")
    case None
    then show ?thesis using Cons x by simp
  next
    case (Some mg)
    then obtain m grp where m: "C SshOpensshRe l = Some (m, grp)" by (cases mg) simp
    have "cites bs (absolute_span i m) (map_option (\<lambda>g. text_of g l) grp)"
      using cites_match [OF _ m] Cons.prems(2) x by simp
    then show ?thesis using Cons.prems(1) x m by (cases grp) (auto simp: hit_ok_def)
  qed
qed simp

lemma find_loop_ok:
  assumes "rung_fits spec product None"
  shows "find_loop C p product spec ls = Some h \<Longrightarrow> set ls \<subseteq> set (utf8_lines bs) \<Longrightarrow> hit_ok bs h"
proof (induction ls)
  case (Cons x ls)
  obtain i l where x: "x = (i, l)" by fastforce
  show ?case
  proof (cases "C p l")
    case None
    then show ?thesis using Cons x by simp
  next
    case (Some mg)
    then obtain m grp where m: "C p l = Some (m, grp)" by (cases mg) simp
    have "cites bs (absolute_span i m) None" using cites_find [OF _ m] Cons.prems(2) x by simp
    then show ?thesis using Cons.prems(1) x m assms by (auto simp: hit_ok_def)
  qed
qed simp

end

section \<open>Every matcher\<close>

lemma protocol_hit_ok: "a \<le> b \<Longrightarrow> b \<le> length bs \<Longrightarrow> spec \<in> {ProtocolOnly, Weak} \<Longrightarrow> hit_ok bs (protocol_hit spec (a, b))"
  by (auto simp: hit_ok_def protocol_hit_def cites_none)

lemma version_hit_ok:
  "bytes_range a b bs = Some v \<Longrightarrow>
     hit_ok bs \<lparr>ht_product = Some p, ht_version = Some v, ht_specificity = ProductAndVersion, ht_span = (a, b)\<rparr>"
  by (auto simp: hit_ok_def cites_def bytes_range_def split: if_splits intro!: exI [of _ a])

lemma http_status_line_in: "http_status_line bs = Some (i, l) \<Longrightarrow> (i, l) \<in> set (utf8_lines bs)"
  by (auto simp: http_status_line_def split: list.splits if_splits)

lemma take_prefix_length: "take n xs = ys \<Longrightarrow> length ys = n \<Longrightarrow> n \<le> length xs"
  by auto

lemma crlf_position_bound: "crlf_position bs = Some n \<Longrightarrow> n + 2 \<le> length bs"
  by (induction bs arbitrary: n rule: crlf_position.induct) (auto split: if_splits)

lemma dns_answers_ok: "dns_answers n bs msg_end at = Some h \<Longrightarrow> hit_ok bs h"
proof (induction n arbitrary: at)
  case (Suc n)
  then show ?case
    by (auto simp: Let_def bind_eq_Some_conv split: if_splits intro!: version_hit_ok)
qed simp

lemma fixed_hits_ok:
  "http_bare_protocol bs = Some h \<Longrightarrow> hit_ok bs h"
  "postgres_ssl_accepted bs = Some h \<Longrightarrow> hit_ok bs h"
  "postgres_ssl_declined bs = Some h \<Longrightarrow> hit_ok bs h"
  "redis_pong bs = Some h \<Longrightarrow> hit_ok bs h"
  "redis_resp_shaped_reply bs = Some h \<Longrightarrow> hit_ok bs h"
  "mysql_handshake_v10 bs = Some h \<Longrightarrow> hit_ok bs h"
  "dns_bind_version bs = Some h \<Longrightarrow> hit_ok bs h"
  "tls_server_hello bs = Some h \<Longrightarrow> hit_ok bs h"
proof -
  show "http_bare_protocol bs = Some h \<Longrightarrow> hit_ok bs h"
    using utf8_lines_slices(1) [OF http_status_line_in]
    by (auto simp: http_bare_protocol_def bind_eq_Some_conv hit_ok_def cites_none)
  show "postgres_ssl_accepted bs = Some h \<Longrightarrow> hit_ok bs h" "postgres_ssl_declined bs = Some h \<Longrightarrow> hit_ok bs h"
    by (auto simp: postgres_ssl_accepted_def postgres_ssl_declined_def intro!: protocol_hit_ok split: if_splits)
  show "redis_pong bs = Some h \<Longrightarrow> hit_ok bs h"
    by (auto simp: redis_pong_def intro!: protocol_hit_ok dest: take_prefix_length split: if_splits)
  show "redis_resp_shaped_reply bs = Some h \<Longrightarrow> hit_ok bs h"
    by (auto simp: redis_resp_shaped_reply_def bind_eq_Some_conv intro!: protocol_hit_ok dest: crlf_position_bound
      split: list.splits if_splits)
  show "mysql_handshake_v10 bs = Some h \<Longrightarrow> hit_ok bs h"
    by (auto simp: mysql_handshake_v10_def bind_eq_Some_conv intro!: version_hit_ok split: if_splits)
  show "dns_bind_version bs = Some h \<Longrightarrow> hit_ok bs h"
    by (auto simp: dns_bind_version_def bind_eq_Some_conv Let_def dest: dns_answers_ok split: if_splits)
  show "tls_server_hello bs = Some h \<Longrightarrow> hit_ok bs h"
    by (auto simp: tls_server_hello_def bytes_range_def intro!: protocol_hit_ok split: if_splits)
qed

context regex_laws begin

lemma regex_hits_ok:
  "http_nginx C bs = Some h \<Longrightarrow> hit_ok bs h"
  "ssh_openssh C bs = Some h \<Longrightarrow> hit_ok bs h"
  "ssh_bare_protocol C bs = Some h \<Longrightarrow> hit_ok bs h"
  "smtp_postfix C bs = Some h \<Longrightarrow> hit_ok bs h"
  "smtp_bare_protocol C bs = Some h \<Longrightarrow> hit_ok bs h"
proof -
  show "http_nginx C bs = Some h \<Longrightarrow> hit_ok bs h"
    by (auto simp: http_nginx_def bind_eq_Some_conv intro: nginx_loop_ok [OF _ subset_refl])
  show "ssh_openssh C bs = Some h \<Longrightarrow> hit_ok bs h"
    by (auto simp: ssh_openssh_def intro: openssh_loop_ok [OF _ subset_refl])
  show "ssh_bare_protocol C bs = Some h \<Longrightarrow> hit_ok bs h"
    unfolding ssh_bare_protocol_def by (rule find_loop_ok [OF _ _ subset_refl]) simp_all
  show "smtp_postfix C bs = Some h \<Longrightarrow> hit_ok bs h"
    unfolding smtp_postfix_def by (rule find_loop_ok [OF _ _ subset_refl]) simp_all
  show "smtp_bare_protocol C bs = Some h \<Longrightarrow> hit_ok bs h"
  proof -
    assume "smtp_bare_protocol C bs = Some h"
    then obtain i l ls m grp where u: "utf8_lines bs = (i, l) # ls" and c: "C SmtpGreetingRe l = Some (m, grp)"
      and h: "h = protocol_hit ProtocolOnly (absolute_span i m)"
      by (auto simp: smtp_bare_protocol_def split: list.splits)
    have "cites bs (absolute_span i m) None" using cites_find [OF _ c, of i bs] u by simp
    then show ?thesis by (simp add: h hit_ok_def protocol_hit_def)
  qed
qed

lemma rule_hits_ok: "r \<in> set (all_rules C) \<Longrightarrow> rl_matcher r bs = Some h \<Longrightarrow> hit_ok bs h"
  by (auto simp: all_rules_def dest: fixed_hits_ok regex_hits_ok)

end

section \<open>The table as a whole\<close>

lemma all_ids_distinct: "distinct (map rl_id (all_rules C))"
  by (simp add: all_rules_def)

lemma ladder_valid: "specificity_confidence s = Ret (rung s)"
  by (cases s) (simp_all add: specificity_confidence_def rung_def confidence_new_def f64_is_finite_def f64_magnitude_def f64_le_def
    f64_is_nan_def f64_value_key_def f64_zero_def f64_one_def)

lemma explain_of_table: "r \<in> set (all_rules C) \<Longrightarrow> explain C (rl_id r) = Some r"
proof -
  have "find (\<lambda>r. rl_id r = rl_id x) xs = Some x" if "x \<in> set xs" "distinct (map rl_id xs)" for x xs
    using that by (induction xs) auto
  then show "r \<in> set (all_rules C) \<Longrightarrow> explain C (rl_id r) = Some r"
    using all_ids_distinct unfolding explain_def by blast
qed

lemma interpret_bytes_source:
  assumes "i \<in> set (interpret_bytes C capture)"
  obtains r h where "r \<in> set (all_rules C)" "rl_probe_id r = pc_probe_id capture" "rl_matcher r (pc_response capture) = Some h"
    "i = \<lparr>ip_observation = \<lparr>ob_service = rl_service r, ob_product = ht_product h, ob_version = ht_version h,
            ob_confidence = rung (ht_specificity h)\<rparr>,
          ip_rule_id = rl_id r, ip_matched_span = ht_span h, ip_rationale = rl_rationale r\<rparr>"
proof -
  have "i \<in> set (List.map_filter (\<lambda>r. map_option
            (\<lambda>hit. \<lparr>ip_observation = \<lparr>ob_service = ru_service r, ob_product = hit_product hit,
                       ob_version = hit_version hit, ob_confidence = hit_confidence hit\<rparr>,
                     ip_rule_id = ru_id r, ip_matched_span = hit_span hit, ip_rationale = ru_rationale r\<rparr>)
            (ru_matcher r (pc_response capture)))
         (rules_for (map as_rule (all_rules C)) (pc_probe_id capture)))"
    using assms by (simp add: interpret_bytes_def interpret_capture_def sort_stable_def)
  then obtain r h where r: "r \<in> set (all_rules C)" "rl_probe_id r = pc_probe_id capture"
    "rl_matcher r (pc_response capture) = Some h"
    "i = \<lparr>ip_observation = \<lparr>ob_service = rl_service r, ob_product = ht_product h, ob_version = ht_version h,
            ob_confidence = rung (ht_specificity h)\<rparr>,
          ip_rule_id = rl_id r, ip_matched_span = ht_span h, ip_rationale = rl_rationale r\<rparr>"
    by (auto simp: List.map_filter_def rules_for_def as_rule_def)
  then show thesis using that by blast
qed

text \<open>An engine for the five patterns over ASCII text, to apply the laws to.\<close>

definition is_digit :: "char \<Rightarrow> bool" where
  "is_digit c \<longleftrightarrow> 48 \<le> byte c \<and> byte c \<le> 57"

definition ssh_prefix :: "string \<Rightarrow> bool" where
  "ssh_prefix s \<longleftrightarrow> 8 \<le> length s \<and> take 4 s = ''SSH-'' \<and> is_digit (s ! 4) \<and> s ! 5 = CHR ''.'' \<and> is_digit (s ! 6) \<and> s ! 7 = CHR ''-''"

definition visible :: "string \<Rightarrow> nat" where
  "visible s = length (takeWhile (\<lambda>c. byte c > 32) s)"

fun ascii_captures :: captures where
  "ascii_captures SshBannerRe s = (if ssh_prefix s then Some ((0, 8), None) else None)"
| "ascii_captures SshOpensshRe s =
     (if ssh_prefix s \<and> take 8 (drop 8 s) = ''OpenSSH_'' \<and> visible (drop 16 s) > 0
      then Some ((0, 16 + visible (drop 16 s)), Some (16, 16 + visible (drop 16 s))) else None)"
| "ascii_captures SmtpGreetingRe s = (if take 4 s = ''220 '' \<or> take 4 s = ''220-'' then Some ((0, 4), None) else None)"
| "ascii_captures SmtpPostfixRe s = None"
| "ascii_captures NginxServerRe s =
     (if take 13 s = ''Server: nginx'' then
        (if take 1 (drop 13 s) = ''/'' \<and> visible (drop 14 s) > 0
         then Some ((0, 14 + visible (drop 14 s)), Some (14, 14 + visible (drop 14 s))) else Some ((0, 13), None))
      else None)"

lemma visible_bound: "visible (drop n s) > 0 \<Longrightarrow> n + visible (drop n s) \<le> length s"
proof -
  assume "visible (drop n s) > 0"
  moreover have "visible (drop n s) \<le> length (drop n s)" unfolding visible_def by (rule length_takeWhile_le)
  ultimately show ?thesis by auto
qed

interpretation ascii: regex_laws ascii_captures
proof
  fix p s m g
  assume c: "ascii_captures p s = Some (m, g)"
  show "fst m \<le> snd m \<and> snd m \<le> length s"
    using c by (cases p) (auto simp: ssh_prefix_def dest: visible_bound take_prefix_length split: if_splits)
next
  fix p s m grp
  assume c: "ascii_captures p s = Some (m, Some grp)"
  show "fst m \<le> fst grp \<and> fst grp \<le> snd grp \<and> snd grp \<le> snd m"
    using c by (cases p) (auto split: if_splits)
qed

definition sample_capture :: probe_capture where
  "sample_capture = \<lparr>pc_probe_id = ''ssh-banner-v1'', pc_transport = Tcp, pc_port = 22, pc_request = None,
     pc_response = ''SSH-2.0-OpenSSH_9.6p1 U'', pc_elapsed_micros = 5, pc_truncated = False\<rparr>"

lemma sample_interp:
  "\<lparr>ip_observation = \<lparr>ob_service = ''ssh'', ob_product = Some ''OpenSSH'', ob_version = Some ''9.6p1'', ob_confidence = rung ProductAndVersion\<rparr>,
    ip_rule_id = ''ssh.banner.openssh.v1'', ip_matched_span = (0, 21), ip_rationale = rl_rationale (all_rules ascii_captures ! 2)\<rparr>
   \<in> set (interpret_bytes ascii_captures sample_capture)"
proof -
  have "utf8_valid ''SSH-2.0-OpenSSH_9.6p1 U''" by (simp add: utf8_valid_def)
  then have "utf8_lines ''SSH-2.0-OpenSSH_9.6p1 U'' = [(0, ''SSH-2.0-OpenSSH_9.6p1 U'')]"
    by (simp add: utf8_lines_def utf8_lines_at.simps)
  then have "ssh_openssh ascii_captures ''SSH-2.0-OpenSSH_9.6p1 U'' =
      Some \<lparr>ht_product = Some ''OpenSSH'', ht_version = Some ''9.6p1'', ht_specificity = ProductAndVersion, ht_span = (0, 21)\<rparr>"
    by (simp add: ssh_openssh_def ssh_prefix_def is_digit_def byte_def visible_def text_of_def absolute_span_def)
  then show ?thesis
    by (simp add: interpret_bytes_def interpret_capture_def sort_stable_def sample_capture_def rules_for_def all_rules_def as_rule_def
      List.map_filter_def)
qed

end
