(* ===== verification/Claims.thy ===== *)
theory Claims
  imports Rules
begin

text \<open>
  What an interpretation may claim and on what grounds, written down apart from the rules that make the
  claims: for each rule its probe, the service and the product it names, and what the response holds at
  the bytes it cites. The properties compare the rules of \<open>crates/bathy-interpret/src/rules.rs\<close> with this table.
\<close>

section \<open>Grounds\<close>

text \<open>A line of the response that a pattern matches, at the cited bytes; the first line alone.\<close>

definition matched_in :: "captures \<Rightarrow> pattern \<Rightarrow> (nat \<times> string) list \<Rightarrow> nat \<times> nat \<Rightarrow> bool" where
  "matched_in C p lines span \<longleftrightarrow>
     (\<exists>(i, l) \<in> set lines. \<exists>m g. C p l = Some (m, g) \<and> span = (i + fst m, i + snd m))"

definition matched :: "captures \<Rightarrow> pattern \<Rightarrow> string \<Rightarrow> nat \<times> nat \<Rightarrow> bool" where
  "matched C p bs span = matched_in C p (utf8_lines bs) span"

definition opens_as_http :: "string \<Rightarrow> bool" where
  "opens_as_http bs \<longleftrightarrow> (\<exists>i l ls. utf8_lines bs = (i, l) # ls \<and> take 5 l = ''HTTP/'')"

type_synonym grounds = "string \<Rightarrow> nat \<times> nat \<Rightarrow> bool"

definition claim_table :: "captures \<Rightarrow> (string \<times> string \<times> string \<times> string option \<times> grounds) list" where
  "claim_table C = [
     (''http.server.nginx.v1'', ''http-get-v1'', ''http'', Some ''nginx'',
       \<lambda>bs span. opens_as_http bs \<and> matched C NginxServerRe bs span),
     (''http.protocol.bare.v1'', ''http-get-v1'', ''http'', None,
       \<lambda>bs span. opens_as_http bs \<and> fst span = fst (hd (utf8_lines bs))),
     (''ssh.banner.openssh.v1'', ''ssh-banner-v1'', ''ssh'', Some ''OpenSSH'', matched C SshOpensshRe),
     (''ssh.protocol.bare.v1'', ''ssh-banner-v1'', ''ssh'', None, matched C SshBannerRe),
     (''postgres.sslrequest.accepted.v1'', ''postgres-startup-v1'', ''postgresql'', None,
       \<lambda>bs span. bs = ''S'' \<and> span = (0, 1)),
     (''postgres.sslrequest.declined.v1'', ''postgres-startup-v1'', ''postgresql'', None,
       \<lambda>bs span. bs = ''N'' \<and> span = (0, 1)),
     (''redis.ping.pong.v1'', ''redis-ping-v1'', ''redis'', None,
       \<lambda>bs span. take 5 bs = ''+PONG'' \<and> span = (0, 5)),
     (''redis.protocol.resp_shaped.v1'', ''redis-ping-v1'', ''redis'', None,
       \<lambda>bs span. bs \<noteq> [] \<and> hd bs \<in> set ''+-:$*'' \<and> fst span = 0 \<and> 2 \<le> snd span \<and>
         take 2 (drop (snd span - 2) bs) = [CHR 0x0D, CHR 0x0A]),
     (''mysql.handshake.v10.v1'', ''mysql-greeting-v1'', ''mysql'', Some ''MySQL'',
       \<lambda>bs span. byte_at 4 bs = Some 10 \<and> fst span = 5 \<and> 5 < snd span \<and> byte_at (snd span) bs = Some 0),
     (''dns.version_bind.txt_chaos.v1'', ''dns-version-bind-v1'', ''dns'', Some ''BIND'',
       \<lambda>bs span. (\<exists>flags. u16_at bs 4 = Some flags \<and> 0x8000 \<le> flags) \<and>
         (\<exists>at. u16_at bs at = Some 16 \<and> u16_at bs (at + 2) = Some 3 \<and> fst span = at + 11 \<and>
           byte_at (at + 10) bs = Some (snd span - fst span))),
     (''smtp.banner.postfix.v1'', ''smtp-banner-v1'', ''smtp'', Some ''Postfix'', matched C SmtpPostfixRe),
     (''smtp.protocol.bare.v1'', ''smtp-banner-v1'', ''smtp'', None,
       \<lambda>bs span. matched C SmtpGreetingRe bs span \<and> fst (hd (utf8_lines bs)) \<le> fst span),
     (''tls.serverhello.structural.v1'', ''tls-v1'', ''tls'', None,
       \<lambda>bs span. byte_at 0 bs = Some 0x16 \<and> byte_at 5 bs = Some 0x02 \<and> span = (0, 6))]"

section \<open>Each matcher has its grounds\<close>

lemma matched_in_Cons:
  "matched_in C p ((i, l) # ls) span \<longleftrightarrow> (\<exists>m g. C p l = Some (m, g) \<and> span = (i + fst m, i + snd m)) \<or> matched_in C p ls span"
  by (auto simp: matched_in_def)

lemma find_loop_grounds:
  "find_loop C p product spec lines = Some h \<Longrightarrow> ht_product h = product \<and> matched_in C p lines (ht_span h)"
  by (induction lines) (auto simp: matched_in_Cons absolute_span_def split: option.splits)

lemma nginx_loop_grounds:
  "nginx_loop C lines = Some h \<Longrightarrow> ht_product h = Some ''nginx'' \<and> matched_in C NginxServerRe lines (ht_span h)"
  by (induction lines) (auto simp: matched_in_Cons absolute_span_def Let_def split: option.splits)

lemma openssh_loop_grounds:
  "openssh_loop C lines = Some h \<Longrightarrow> ht_product h = Some ''OpenSSH'' \<and> matched_in C SshOpensshRe lines (ht_span h)"
  by (induction lines) (auto simp: matched_in_Cons absolute_span_def bind_eq_Some_conv split: option.splits)

lemma crlf_at: "crlf_position bs = Some n \<Longrightarrow> take 2 (drop n bs) = [CHR 0x0D, CHR 0x0A]"
  by (induction bs arbitrary: n rule: crlf_position.induct) (auto simp: numeral_2_eq_2 split: if_splits)

lemma position_byte: "position c bs = Some n \<Longrightarrow> n < length bs \<and> bs ! n = c"
  unfolding position_def Let_def by (auto split: if_splits dest: nth_length_takeWhile)

lemma dns_answers_grounds:
  "dns_answers n bs msg_end at = Some h \<Longrightarrow>
     ht_product h = Some ''BIND'' \<and>
     (\<exists>at. u16_at bs at = Some 16 \<and> u16_at bs (at + 2) = Some 3 \<and> fst (ht_span h) = at + 11 \<and>
        byte_at (at + 10) bs = Some (snd (ht_span h) - fst (ht_span h)))"
proof (induction n arbitrary: at)
  case (Suc n)
  then show ?case by (auto simp: Let_def bind_eq_Some_conv split: if_splits)
qed simp

lemma status_line: "http_status_line bs = Some (i, l) \<Longrightarrow> opens_as_http bs \<and> hd (utf8_lines bs) = (i, l)"
  by (auto simp: http_status_line_def opens_as_http_def split: list.splits if_splits)

lemma http_grounds:
  "http_nginx C bs = Some h \<Longrightarrow> ht_product h = Some ''nginx'' \<and> opens_as_http bs \<and> matched C NginxServerRe bs (ht_span h)"
  "http_bare_protocol bs = Some h \<Longrightarrow> ht_product h = None \<and> opens_as_http bs \<and> fst (ht_span h) = fst (hd (utf8_lines bs))"
  by (auto simp: http_nginx_def http_bare_protocol_def bind_eq_Some_conv matched_def dest: status_line nginx_loop_grounds)

lemma ssh_grounds:
  "ssh_openssh C bs = Some h \<Longrightarrow> ht_product h = Some ''OpenSSH'' \<and> matched C SshOpensshRe bs (ht_span h)"
  "ssh_bare_protocol C bs = Some h \<Longrightarrow> ht_product h = None \<and> matched C SshBannerRe bs (ht_span h)"
  by (auto simp: ssh_openssh_def ssh_bare_protocol_def matched_def dest: openssh_loop_grounds find_loop_grounds)

lemma smtp_grounds:
  "smtp_postfix C bs = Some h \<Longrightarrow> ht_product h = Some ''Postfix'' \<and> matched C SmtpPostfixRe bs (ht_span h)"
  "smtp_bare_protocol C bs = Some h \<Longrightarrow>
     ht_product h = None \<and> matched C SmtpGreetingRe bs (ht_span h) \<and> fst (hd (utf8_lines bs)) \<le> fst (ht_span h)"
proof -
  show "smtp_postfix C bs = Some h \<Longrightarrow> ht_product h = Some ''Postfix'' \<and> matched C SmtpPostfixRe bs (ht_span h)"
    by (auto simp: smtp_postfix_def matched_def dest: find_loop_grounds)
  show "smtp_bare_protocol C bs = Some h \<Longrightarrow>
     ht_product h = None \<and> matched C SmtpGreetingRe bs (ht_span h) \<and> fst (hd (utf8_lines bs)) \<le> fst (ht_span h)"
    unfolding smtp_bare_protocol_def matched_def protocol_hit_def
    by (cases "utf8_lines bs") (auto simp: matched_in_Cons absolute_span_def split: option.splits)
qed

lemma sql_grounds:
  "postgres_ssl_accepted bs = Some h \<Longrightarrow> ht_product h = None \<and> bs = ''S'' \<and> ht_span h = (0, 1)"
  "postgres_ssl_declined bs = Some h \<Longrightarrow> ht_product h = None \<and> bs = ''N'' \<and> ht_span h = (0, 1)"
  by (auto simp: postgres_ssl_accepted_def postgres_ssl_declined_def protocol_hit_def split: if_splits)

lemma mysql_grounds:
  "mysql_handshake_v10 bs = Some h \<Longrightarrow> ht_product h = Some ''MySQL'' \<and> byte_at 4 bs = Some 10 \<and> fst (ht_span h) = 5 \<and>
     5 < snd (ht_span h) \<and> byte_at (snd (ht_span h)) bs = Some 0"
  by (auto simp: mysql_handshake_v10_def bind_eq_Some_conv bytes_range_def byte_at_def byte_def split: if_splits dest!: position_byte)

lemma redis_grounds:
  "redis_pong bs = Some h \<Longrightarrow> ht_product h = None \<and> take 5 bs = ''+PONG'' \<and> ht_span h = (0, 5)"
  "redis_resp_shaped_reply bs = Some h \<Longrightarrow> ht_product h = None \<and> bs \<noteq> [] \<and> hd bs \<in> set ''+-:$*'' \<and> fst (ht_span h) = 0 \<and>
     2 \<le> snd (ht_span h) \<and> take 2 (drop (snd (ht_span h) - 2) bs) = [CHR 0x0D, CHR 0x0A]"
proof -
  show "redis_pong bs = Some h \<Longrightarrow> ht_product h = None \<and> take 5 bs = ''+PONG'' \<and> ht_span h = (0, 5)"
    unfolding redis_pong_def protocol_hit_def by (simp split: if_splits) auto
  show "redis_resp_shaped_reply bs = Some h \<Longrightarrow> ht_product h = None \<and> bs \<noteq> [] \<and> hd bs \<in> set ''+-:$*'' \<and> fst (ht_span h) = 0 \<and>
     2 \<le> snd (ht_span h) \<and> take 2 (drop (snd (ht_span h) - 2) bs) = [CHR 0x0D, CHR 0x0A]"
    unfolding redis_resp_shaped_reply_def protocol_hit_def
    by (cases bs) (auto simp: bind_eq_Some_conv dest!: crlf_at split: if_splits simp del: drop_Suc_Cons)
qed

lemma tls_grounds:
  "tls_server_hello bs = Some h \<Longrightarrow> ht_product h = None \<and> byte_at 0 bs = Some 0x16 \<and> byte_at 5 bs = Some 0x02 \<and> ht_span h = (0, 6)"
  by (auto simp: tls_server_hello_def bytes_range_def byte_at_def protocol_hit_def split: if_splits)

lemma dns_grounds:
  assumes "dns_bind_version bs = Some h"
  shows "ht_product h = Some ''BIND''" "\<exists>flags. u16_at bs 4 = Some flags \<and> 0x8000 \<le> flags"
    "\<exists>at. u16_at bs at = Some 16 \<and> u16_at bs (at + 2) = Some 3 \<and> fst (ht_span h) = at + 11 \<and>
        byte_at (at + 10) bs = Some (snd (ht_span h) - fst (ht_span h))"
proof -
  obtain flags n at msg_end where *: "u16_at bs 4 = Some flags" "\<not> flags < 0x8000" "dns_answers n bs msg_end at = Some h"
    using assms by (auto simp: dns_bind_version_def bind_eq_Some_conv Let_def split: if_splits)
  show "ht_product h = Some ''BIND''" "\<exists>at. u16_at bs at = Some 16 \<and> u16_at bs (at + 2) = Some 3 \<and> fst (ht_span h) = at + 11 \<and>
        byte_at (at + 10) bs = Some (snd (ht_span h) - fst (ht_span h))"
    using dns_answers_grounds [OF *(3)] by blast+
  show "\<exists>flags. u16_at bs 4 = Some flags \<and> 0x8000 \<le> flags" using *(1,2) not_less by blast
qed

lemma rule_grounds:
  assumes "r \<in> set (all_rules C)" "rl_matcher r bs = Some h"
  shows "\<exists>g. (rl_id r, rl_probe_id r, rl_service r, ht_product h, g) \<in> set (claim_table C) \<and> g bs (ht_span h)"
proof -
  note table = claim_table_def list.set insert_iff prod.inject
  have "length (all_rules C) = 13" by (simp add: all_rules_def)
  then obtain k where k: "k < 13" "r = all_rules C ! k" using assms(1) by (metis in_set_conv_nth)
  have "k = 0 \<or> k = 1 \<or> k = 2 \<or> k = 3 \<or> k = 4 \<or> k = 5 \<or> k = 6 \<or> k = 7 \<or> k = 8 \<or> k = 9 \<or> k = 10 \<or> k = 11 \<or> k = 12"
    using k(1) by presburger
  then consider "k = 0" | "k = 1" | "k = 2" | "k = 3" | "k = 4" | "k = 5" | "k = 6" | "k = 7" | "k = 8" | "k = 9"
    | "k = 10" | "k = 11" | "k = 12" by blast
  then show ?thesis
  proof cases
    case 1
    then have r: "r = all_rules C ! 0" using k(2) by simp
    then have "http_nginx C bs = Some h" using assms(2) by (simp add: all_rules_def)
    from http_grounds(1) [OF this] show ?thesis by (auto simp: r all_rules_def table)
  next
    case 2
    then have r: "r = all_rules C ! 1" using k(2) by simp
    then have "http_bare_protocol bs = Some h" using assms(2) by (simp add: all_rules_def)
    from http_grounds(2) [OF this] show ?thesis by (auto simp: r all_rules_def table)
  next
    case 3
    then have r: "r = all_rules C ! 2" using k(2) by simp
    then have "ssh_openssh C bs = Some h" using assms(2) by (simp add: all_rules_def)
    from ssh_grounds(1) [OF this] show ?thesis by (auto simp: r all_rules_def table)
  next
    case 4
    then have r: "r = all_rules C ! 3" using k(2) by simp
    then have "ssh_bare_protocol C bs = Some h" using assms(2) by (simp add: all_rules_def)
    from ssh_grounds(2) [OF this] show ?thesis by (auto simp: r all_rules_def table)
  next
    case 5
    then have r: "r = all_rules C ! 4" using k(2) by simp
    then have "postgres_ssl_accepted bs = Some h" using assms(2) by (simp add: all_rules_def)
    from sql_grounds(1) [OF this] show ?thesis by (auto simp: r all_rules_def table)
  next
    case 6
    then have r: "r = all_rules C ! 5" using k(2) by simp
    then have "postgres_ssl_declined bs = Some h" using assms(2) by (simp add: all_rules_def)
    from sql_grounds(2) [OF this] show ?thesis by (auto simp: r all_rules_def table)
  next
    case 7
    then have r: "r = all_rules C ! 6" using k(2) by simp
    then have "redis_pong bs = Some h" using assms(2) by (simp add: all_rules_def)
    from redis_grounds(1) [OF this] show ?thesis by (auto simp: r all_rules_def table)
  next
    case 8
    then have r: "r = all_rules C ! 7" using k(2) by simp
    then have "redis_resp_shaped_reply bs = Some h" using assms(2) by (simp add: all_rules_def)
    from redis_grounds(2) [OF this] show ?thesis by (auto simp: r all_rules_def table)
  next
    case 9
    then have r: "r = all_rules C ! 8" using k(2) by simp
    then have "mysql_handshake_v10 bs = Some h" using assms(2) by (simp add: all_rules_def)
    from mysql_grounds [OF this] show ?thesis by (auto simp: r all_rules_def table)
  next
    case 10
    then have r: "r = all_rules C ! 9" using k(2) by simp
    then have "dns_bind_version bs = Some h" using assms(2) by (simp add: all_rules_def)
    from dns_grounds [OF this] show ?thesis by (auto simp: r all_rules_def table)
  next
    case 11
    then have r: "r = all_rules C ! 10" using k(2) by simp
    then have "smtp_postfix C bs = Some h" using assms(2) by (simp add: all_rules_def)
    from smtp_grounds(1) [OF this] show ?thesis by (auto simp: r all_rules_def table)
  next
    case 12
    then have r: "r = all_rules C ! 11" using k(2) by simp
    then have "smtp_bare_protocol C bs = Some h" using assms(2) by (simp add: all_rules_def)
    from smtp_grounds(2) [OF this] show ?thesis by (auto simp: r all_rules_def table)
  next
    case 13
    then have r: "r = all_rules C ! 12" using k(2) by simp
    then have "tls_server_hello bs = Some h" using assms(2) by (simp add: all_rules_def)
    from tls_grounds [OF this] show ?thesis by (auto simp: r all_rules_def table)
  qed
qed

section \<open>The order\<close>

text \<open>Better first: the larger confidence, and among equals the smaller rule id.\<close>

definition no_worse :: "interp \<Rightarrow> interp \<Rightarrow> bool" where
  "no_worse i j \<longleftrightarrow>
     (let value = \<lambda>x. f64_value_key (confidence_bits (ob_confidence (ip_observation x)))
      in value j < value i \<or> value j = value i \<and> ip_rule_id i \<le> ip_rule_id j)"

lemma ranked: "sorted_wrt no_worse (interpret_capture rules capture)"
proof -
  have "sorted_wrt no_worse (sort_stable out)" for out
  proof -
    let ?key = "\<lambda>i. (- f64_value_key (confidence_bits (ob_confidence (ip_observation i))), ip_rule_id i)"
    have "sorted_wrt (\<lambda>i j. ?key i \<le> ?key j) (sort_stable out)"
      using sorted_sort_key [of ?key out] by (simp add: sort_stable_def sorted_map)
    then show ?thesis by (rule sorted_wrt_mono_rel [rotated]) (auto simp: no_worse_def Let_def less_eq_prod_def)
  qed
  then show ?thesis by (simp add: interpret_capture_def)
qed

section \<open>Properties\<close>

text \<open>
  C30: every claim has its grounds in the bytes it cites. Whatever a host answers, an interpretation of the
  answer is an entry of the table of claims, for the probe that asked: it names the service and the product
  of that entry, and the answer holds, at the bytes the interpretation cites, what the entry demands (a line the
  pattern matches, a status line, the fixed reply, the tagged text). The bytes cited are a range of the
  answer; a version stands in that range letter by letter; and the rule's id leads back to the rule.
\<close>

theorem every_claim_cites_its_bytes:
  assumes "regex_laws C" "i \<in> set (interpret_bytes C capture)"
  shows "(\<exists>g. (ip_rule_id i, pc_probe_id capture, ob_service (ip_observation i), ob_product (ip_observation i), g) \<in> set (claim_table C) \<and>
      g (pc_response capture) (ip_matched_span i)) \<and>
    cites (pc_response capture) (ip_matched_span i) (ob_version (ip_observation i)) \<and>
    (\<exists>r. explain C (ip_rule_id i) = Some r \<and> ip_rationale i = rl_rationale r)"
  using assms(2)
proof (rule interpret_bytes_source)
  fix r h
  assume r: "r \<in> set (all_rules C)" "rl_probe_id r = pc_probe_id capture" "rl_matcher r (pc_response capture) = Some h"
    and i: "i = \<lparr>ip_observation = \<lparr>ob_service = rl_service r, ob_product = ht_product h, ob_version = ht_version h,
            ob_confidence = rung (ht_specificity h)\<rparr>,
          ip_rule_id = rl_id r, ip_matched_span = ht_span h, ip_rationale = rl_rationale r\<rparr>"
  have "hit_ok (pc_response capture) h" by (rule regex_laws.rule_hits_ok [OF assms(1) r(1,3)])
  then show ?thesis using r(2) rule_grounds [OF r(1,3)] explain_of_table [OF r(1)] by (simp add: i hit_ok_def)
qed

theorem every_claim_cites_its_bytes_witness:
  "cites (pc_response sample_capture) (0, 21) (Some ''9.6p1'') \<and>
   (\<exists>g. (''ssh.banner.openssh.v1'', ''ssh-banner-v1'', ''ssh'', Some ''OpenSSH'', g) \<in> set (claim_table ascii_captures))"
  using every_claim_cites_its_bytes [OF ascii.regex_laws_axioms sample_interp] by (auto simp: sample_capture_def)

text \<open>
  C39: what an interpreter returns is well-formed. The list is ranked, the larger confidence first and equals by
  rule id; every entry names one of the eight services the probes ask about; and its confidence is a
  valid one, that of the rung its contents earn: a product and a version, a product alone, or neither.
\<close>

theorem interpretations_are_well_formed:
  assumes "regex_laws C"
  shows "sorted_wrt no_worse (interpret_bytes C capture) \<and>
    (\<forall>i \<in> set (interpret_bytes C capture).
       ob_service (ip_observation i) \<in> {''http'', ''ssh'', ''postgresql'', ''redis'', ''mysql'', ''dns'', ''smtp'', ''tls''} \<and>
       (\<exists>s. specificity_confidence s = Ret (ob_confidence (ip_observation i)) \<and>
          rung_fits s (ob_product (ip_observation i)) (ob_version (ip_observation i))))"
proof (intro conjI ballI)
  show "sorted_wrt no_worse (interpret_bytes C capture)" unfolding interpret_bytes_def by (rule ranked)
next
  fix i
  assume "i \<in> set (interpret_bytes C capture)"
  then obtain r h where r: "r \<in> set (all_rules C)" "rl_matcher r (pc_response capture) = Some h"
    and i: "i = \<lparr>ip_observation = \<lparr>ob_service = rl_service r, ob_product = ht_product h, ob_version = ht_version h,
            ob_confidence = rung (ht_specificity h)\<rparr>,
          ip_rule_id = rl_id r, ip_matched_span = ht_span h, ip_rationale = rl_rationale r\<rparr>"
    by (rule interpret_bytes_source)
  have ok: "hit_ok (pc_response capture) h" by (rule regex_laws.rule_hits_ok [OF assms r])
  show "ob_service (ip_observation i) \<in> {''http'', ''ssh'', ''postgresql'', ''redis'', ''mysql'', ''dns'', ''smtp'', ''tls''}"
    using r(1) by (auto simp: i all_rules_def)
  show "\<exists>s. specificity_confidence s = Ret (ob_confidence (ip_observation i)) \<and>
      rung_fits s (ob_product (ip_observation i)) (ob_version (ip_observation i))"
    using ok ladder_valid by (intro exI [of _ "ht_specificity h"]) (simp add: i hit_ok_def)
qed

theorem interpretations_are_well_formed_witness:
  "\<exists>s. specificity_confidence s = Ret (rung ProductAndVersion) \<and> rung_fits s (Some ''OpenSSH'') (Some ''9.6p1'')"
  using interpretations_are_well_formed [OF ascii.regex_laws_axioms, of sample_capture] sample_interp by fastforce

end
