(* ===== verification/Rate.thy ===== *)
theory Rate
  imports Complex_Main Bathy_Prelude
begin

text \<open>
  The rate limiter of the scheduler, \<open>crates/bathy-engine/src/rate.rs\<close>: a bucket of tokens behind a mutex,
  which every acquirer drains as far as it can and then sleeps. Instants are seconds as real numbers, and
  the arithmetic of \<open>f64\<close> is that of the reals: rounding is not modelled.
\<close>

section \<open>The bucket\<close>

record bucket =
  bk_tokens :: real
  bk_last :: real

record rate_limiter =
  lm_capacity :: real
  lm_refill_per_second :: real

definition limiter_new :: "u32 \<Rightarrow> real \<Rightarrow> rate_limiter \<times> bucket" where
  "limiter_new pps now =
     (let capacity = real (max (unat pps) 1)
      in (\<lparr>lm_capacity = capacity, lm_refill_per_second = capacity\<rparr>, \<lparr>bk_tokens = capacity, bk_last = now\<rparr>))"

text \<open>
  One pass of \<open>acquire\<close> through the mutex: nothing more to do, or what is still needed and how long to
  sleep. \<open>duration_since\<close> saturates at zero.
\<close>

definition turn :: "rate_limiter \<Rightarrow> real \<Rightarrow> real \<Rightarrow> bucket \<Rightarrow> (real \<times> real) option \<times> bucket" where
  "turn L needed now b =
     (let elapsed = max 0 (now - bk_last b);
          tokens = min (bk_tokens b + elapsed * lm_refill_per_second L) (lm_capacity L)
      in if tokens \<ge> needed then (None, \<lparr>bk_tokens = tokens - needed, bk_last = now\<rparr>)
         else (Some (needed - tokens, min ((needed - tokens) / lm_refill_per_second L) 1), \<lparr>bk_tokens = 0, bk_last = now\<rparr>))"

text \<open>
  \<open>acquire\<close> when nobody else takes tokens. The \<open>k\<close>-th delay is how much longer the \<open>k\<close>-th sleep takes than
  asked; None is a call still waiting when the delays run out.
\<close>

fun acquire :: "rate_limiter \<Rightarrow> real \<Rightarrow> real \<Rightarrow> real list \<Rightarrow> bucket \<Rightarrow> bucket option" where
  "acquire L needed now delays b =
     (case turn L needed now b of
        (None, b') \<Rightarrow> Some b'
      | (Some (rest, wait), b') \<Rightarrow>
          (case delays of [] \<Rightarrow> None | d # ds \<Rightarrow> acquire L rest (now + wait + d) ds b'))"

declare acquire.simps [simp del]

text \<open>Every acquirer at once: the turns they take at the mutex, each with what it needs and when.\<close>

fun turns :: "rate_limiter \<Rightarrow> (real \<times> real) list \<Rightarrow> bucket \<Rightarrow> bucket" where
  "turns L [] b = b"
| "turns L ((needed, now) # ts) b = turns L ts (snd (turn L needed now b))"

definition taken :: "rate_limiter \<Rightarrow> real \<Rightarrow> real \<Rightarrow> bucket \<Rightarrow> real" where
  "taken L needed now b = (case fst (turn L needed now b) of None \<Rightarrow> needed | Some (rest, wait) \<Rightarrow> needed - rest)"

fun total_taken :: "rate_limiter \<Rightarrow> (real \<times> real) list \<Rightarrow> bucket \<Rightarrow> real" where
  "total_taken L [] b = 0"
| "total_taken L ((needed, now) # ts) b = taken L needed now b + total_taken L ts (snd (turn L needed now b))"

section \<open>Bounds\<close>

definition limiter_ok :: "rate_limiter \<Rightarrow> bool" where
  "limiter_ok L \<longleftrightarrow> 1 \<le> lm_capacity L \<and> lm_refill_per_second L = lm_capacity L"

definition bucket_ok :: "rate_limiter \<Rightarrow> bucket \<Rightarrow> bool" where
  "bucket_ok L b \<longleftrightarrow> 0 \<le> bk_tokens b \<and> bk_tokens b \<le> lm_capacity L"

lemma limiter_new_ok: "limiter_new pps now = (L, b) \<Longrightarrow> limiter_ok L \<and> bucket_ok L b \<and> lm_capacity L = real (max (unat pps) 1) \<and>
    bk_tokens b = lm_capacity L \<and> bk_last b = now"
proof -
  define c where "c = max (unat pps) 1"
  have "1 \<le> c" by (simp add: c_def)
  then show "limiter_new pps now = (L, b) \<Longrightarrow> limiter_ok L \<and> bucket_ok L b \<and> lm_capacity L = real (max (unat pps) 1) \<and>
      bk_tokens b = lm_capacity L \<and> bk_last b = now"
    unfolding limiter_new_def c_def [symmetric] by (auto simp: limiter_ok_def bucket_ok_def Let_def)
qed

lemma turn_accounts:
  assumes "limiter_ok L" "bucket_ok L b" "bk_last b \<le> now" "0 \<le> needed"
  shows "bucket_ok L (snd (turn L needed now b)) \<and> bk_last (snd (turn L needed now b)) = now \<and> 0 \<le> taken L needed now b \<and>
    taken L needed now b + bk_tokens (snd (turn L needed now b)) \<le> bk_tokens b + lm_capacity L * (now - bk_last b)"
proof -
  have r: "0 \<le> (now - bk_last b) * lm_capacity L" using assms by (simp add: limiter_ok_def)
  then show ?thesis using assms
    by (auto simp: turn_def taken_def bucket_ok_def limiter_ok_def Let_def min_def mult.commute)
qed

lemma total_taken_bound:
  assumes "limiter_ok L" "bucket_ok L b" "sorted (bk_last b # map snd ts)" "\<forall>(needed, now) \<in> set ts. 0 \<le> needed"
  shows "total_taken L ts b \<le> bk_tokens b + lm_capacity L * (last (bk_last b # map snd ts) - bk_last b)"
  using assms(2-4)
proof (induction ts arbitrary: b)
  case (Cons x ts)
  obtain needed now where x: "x = (needed, now)" by fastforce
  let ?b = "snd (turn L needed now b)"
  have t: "bucket_ok L ?b" "bk_last ?b = now" "taken L needed now b + bk_tokens ?b \<le> bk_tokens b + lm_capacity L * (now - bk_last b)"
    using turn_accounts [OF assms(1) Cons.prems(1), of now needed] Cons.prems(2,3) x by auto
  have "total_taken L ts ?b \<le> bk_tokens ?b + lm_capacity L * (last (now # map snd ts) - now)"
    using Cons.IH [OF t(1)] Cons.prems(2,3) x t(2) by auto
  moreover have "last (bk_last b # map snd (x # ts)) = last (now # map snd ts)" by (simp add: x)
  ultimately show ?case using t(3) by (simp add: x algebra_simps)
qed (simp add: bucket_ok_def)

text \<open>
  C36: the rate. However many acquirers share a limiter and however their turns interleave, the tokens
  they have taken by any instant are at most one second's burst plus the configured rate (at least one
  packet per second) times the time since the limiter was made.
\<close>

theorem limiter_bounds_rate:
  assumes "limiter_new pps start = (L, b)" "sorted (start # map snd ts)" "\<forall>(needed, now) \<in> set ts. 0 \<le> needed"
  shows "total_taken L ts b \<le> real (max (unat pps) 1) * (1 + (last (start # map snd ts) - start))"
proof -
  note new = limiter_new_ok [OF assms(1)]
  have "total_taken L ts b \<le> bk_tokens b + lm_capacity L * (last (bk_last b # map snd ts) - bk_last b)"
    using total_taken_bound [of L b ts] new assms(2,3) by simp
  then show ?thesis using new by (simp add: algebra_simps)
qed

theorem limiter_bounds_rate_witness:
  "\<exists>L b. limiter_new 2 0 = (L, b) \<and> total_taken L [(2, 0), (3, 1 / 2)] b \<le> 3"
proof -
  obtain L b where lb: "limiter_new 2 0 = (L, b)" by fastforce
  then show ?thesis using limiter_bounds_rate [OF lb, of "[(2, 0), (3, 1 / 2)]"] by auto
qed

section \<open>Waiting ends\<close>

lemma turn_refused:
  assumes "limiter_ok L" "bucket_ok L b" "turn L needed now b = (Some (rest, wait), b')"
  shows "b' = \<lparr>bk_tokens = 0, bk_last = now\<rparr> \<and> rest \<le> needed \<and> 0 < rest \<and> wait = min (rest / lm_capacity L) 1"
  using assms by (auto simp: turn_def Let_def limiter_ok_def bucket_ok_def split: if_splits)

lemma acquire_from_empty:
  assumes "limiter_ok L" "0 < needed" "needed \<le> real (Suc k) * lm_capacity L" "length delays \<ge> k" "\<forall>d \<in> set delays. 0 \<le> d"
    and "prev + min (needed / lm_capacity L) 1 \<le> now"
  shows "acquire L needed now delays \<lparr>bk_tokens = 0, bk_last = prev\<rparr> \<noteq> None"
  using assms(2-)
proof (induction k arbitrary: needed now delays prev)
  case 0
  have cap: "1 \<le> lm_capacity L" "lm_refill_per_second L = lm_capacity L" using assms(1) by (simp_all add: limiter_ok_def)
  have "needed / lm_capacity L \<le> 1" using 0 cap by (simp add: divide_le_eq)
  then have "needed / lm_capacity L \<le> now - prev" using 0 by (simp add: min_def)
  then have "needed \<le> (now - prev) * lm_capacity L" using cap by (simp add: divide_le_eq)
  moreover from this have "0 < now - prev" using 0(1) cap(1) zero_less_mult_pos2 [of "now - prev" "lm_capacity L"] by linarith
  ultimately show ?case using 0 cap by (subst acquire.simps) (simp add: turn_def Let_def)
next
  case (Suc k)
  have cap: "1 \<le> lm_capacity L" "lm_refill_per_second L = lm_capacity L" using assms(1) by (simp_all add: limiter_ok_def)
  let ?b = "\<lparr>bk_tokens = 0, bk_last = prev\<rparr>"
  show ?case
  proof (cases "turn L needed now ?b")
    case (Pair r b')
    show ?thesis
    proof (cases r)
      case None
      then show ?thesis using Pair by (subst acquire.simps) simp
    next
      case (Some rw)
      obtain rest wait where rw: "rw = (rest, wait)" by fastforce
      have ok: "bucket_ok L ?b" using cap by (simp add: bucket_ok_def)
      note t = turn_refused [OF assms(1) ok, of needed now rest wait b'] Pair Some rw
      have b': "b' = \<lparr>bk_tokens = 0, bk_last = now\<rparr>" "0 < rest" "wait = min (rest / lm_capacity L) 1" using t by simp_all
      have rest: "rest = needed - min (max 0 (now - prev) * lm_capacity L) (lm_capacity L)" and short: "min (max 0 (now - prev) * lm_capacity L) (lm_capacity L) < needed"
        using Pair Some rw cap by (auto simp: turn_def Let_def split: if_splits)
      have "1 \<le> now - prev"
      proof (rule ccontr)
        assume "\<not> 1 \<le> now - prev"
        then have e: "needed / lm_capacity L \<le> now - prev" "now - prev < 1" using Suc.prems by (auto simp: min_def split: if_splits)
        then have "needed \<le> (now - prev) * lm_capacity L" using cap by (simp add: divide_le_eq)
        moreover from this have "0 < now - prev"
          using Suc.prems(1) cap(1) zero_less_mult_pos2 [of "now - prev" "lm_capacity L"] by linarith
        moreover have "(now - prev) * lm_capacity L \<le> lm_capacity L" using e(2) cap by (simp add: mult_left_le_one_le mult_right_le_one_le)
        ultimately show False using short Suc.prems(1) cap by (auto simp: min_def max_def split: if_splits)
      qed
      then have "lm_capacity L \<le> max 0 (now - prev) * lm_capacity L" using cap by (simp add: mult_le_cancel_right1)
      then have "rest = needed - lm_capacity L" using rest by (simp add: min_def)
      then have "rest \<le> real (Suc k) * lm_capacity L" using Suc.prems(2) by (simp add: algebra_simps)
      moreover obtain d ds where d: "delays = d # ds" "0 \<le> d" using Suc.prems by (cases delays) auto
      ultimately have "acquire L rest (now + wait + d) ds b' \<noteq> None"
        unfolding b'(1) using Suc.prems b' d by (intro Suc.IH) auto
      then show ?thesis using Pair Some rw d by (subst acquire.simps) simp
    qed
  qed
qed

text \<open>
  Waiting ends. A call that needs \<open>n\<close> tokens and competes with nobody sleeps at most as often as
  the capacity goes into \<open>n\<close>, rounded up, however much longer each sleep takes than asked and even when \<open>n\<close>
  exceeds what the bucket can ever hold.
\<close>

theorem acquire_returns:
  assumes "limiter_new pps start = (L, b0)" "bucket_ok L b" "real n \<le> real k * lm_capacity L" "length delays = k" "\<forall>d \<in> set delays. 0 \<le> d"
  shows "acquire L (real n) now delays b \<noteq> None"
proof -
  have ok: "limiter_ok L" using limiter_new_ok [OF assms(1)] by simp
  show ?thesis
  proof (cases "turn L (real n) now b")
    case (Pair r b')
    show ?thesis
    proof (cases r)
      case None
      then show ?thesis using Pair by (subst acquire.simps) simp
    next
      case (Some rw)
      obtain rest wait where rw: "rw = (rest, wait)" by fastforce
      have t: "b' = \<lparr>bk_tokens = 0, bk_last = now\<rparr>" "rest \<le> real n" "0 < rest" "wait = min (rest / lm_capacity L) 1"
        using turn_refused [OF ok assms(2), of "real n" now rest wait b'] Pair Some rw by simp_all
      have "k \<noteq> 0" using t(2,3) assms(3) by (cases k) auto
      then obtain j where j: "k = Suc j" by (cases k) auto
      then obtain d ds where d: "delays = d # ds" "0 \<le> d" "length ds = j" "\<forall>d \<in> set ds. 0 \<le> d"
        using assms(4,5) by (cases delays) auto
      have "acquire L rest (now + wait + d) ds b' \<noteq> None"
        unfolding t(1) using t d assms(3) j by (intro acquire_from_empty [OF ok, of _ j]) auto
      then show ?thesis using Pair Some rw d by (subst acquire.simps) simp
    qed
  qed
qed

theorem acquire_returns_witness:
  "\<exists>L b. limiter_new 10 0 = (L, b) \<and> acquire L (real 25) 0 [0, 0, 0] b \<noteq> None"
proof -
  obtain L b where lb: "limiter_new 10 0 = (L, b)" by fastforce
  then show ?thesis using acquire_returns [OF lb, of b 25 3 "[0, 0, 0]" 0] limiter_new_ok [OF lb] by simp
qed

end
