(* ===== verification/Probe_Io.thy ===== *)
theory Probe_Io
  imports Probes Net_Addr
begin

text \<open>
  What a probe sends and reads: \<open>ProbeIo\<close> of \<open>crates/bathy-probe/src/framework.rs\<close> with its two bounded
  reads, and the eight probes of \<open>crates/bathy-probe/src/probes/\<close>. A connection is what its peer does to
  each write and read, in order.
\<close>

section \<open>A connection\<close>

text \<open>
  Bytes that arrive, a wait that outlasts the deadline of the read that meets it, or an error. The end of
  the list is the peer closing its side. A write succeeds, or fails or times out after some of its bytes were sent.
\<close>

datatype arrival = Arrived string | Silence | ReadFault string

datatype write_result = Written | WriteFault nat string | WriteElapsed nat

text \<open>A read never reports more bytes than its buffer holds, so \<open>OversizedRead\<close> does not occur.\<close>

datatype probe_error =
    ProbeIoError string
  | ProbeTimeout nat
  | EmptyResponse
  | DeadlineUnrepresentable nat
  | OversizedRead nat nat

record probe_io =
  io_port :: u16
  io_read_cap :: nat
  io_deadline :: nat
  io_representable :: bool \<comment> \<open>now plus the deadline is an instant\<close>
  io_peer :: "(ip_addr \<times> u16) option"
  io_elapsed :: u64
  io_writes :: "write_result list"
  io_arrivals :: "arrival list"
  io_sent :: "string list" \<comment> \<open>the writes that completed\<close>
  io_partial :: "string list" \<comment> \<open>what was sent of those that did not\<close>

definition default_read_cap :: nat where "default_read_cap = 64 * 1024"

definition peer_host_header :: "probe_io \<Rightarrow> string" where
  "peer_host_header io =
     (case io_peer io of
        Some (ip, port) \<Rightarrow> show_ip ip @ '':'' @ show_word port
      | None \<Rightarrow> '':'' @ show_word (io_port io))"

definition write_all :: "string \<Rightarrow> probe_io \<Rightarrow> (probe_error + unit) \<times> probe_io" where
  "write_all bytes io =
     (case io_writes io of
        WriteFault n e # ws \<Rightarrow> (Inl (ProbeIoError e), io\<lparr>io_writes := ws, io_partial := io_partial io @ [take n bytes]\<rparr>)
      | WriteElapsed n # ws \<Rightarrow>
          (Inl (ProbeTimeout (io_deadline io)), io\<lparr>io_writes := ws, io_partial := io_partial io @ [take n bytes]\<rparr>)
      | Written # ws \<Rightarrow> (Inr (), io\<lparr>io_writes := ws, io_sent := io_sent io @ [bytes]\<rparr>)
      | [] \<Rightarrow> (Inr (), io\<lparr>io_sent := io_sent io @ [bytes]\<rparr>))"

text \<open>One \<open>read\<close> into a buffer of \<open>k\<close> bytes, and one \<open>peek\<close>.\<close>

datatype read_result = ReadEof | ReadBytes string | ReadError string | ReadElapsed

fun sock_read :: "nat \<Rightarrow> arrival list \<Rightarrow> read_result \<times> arrival list" where
  "sock_read k [] = (ReadEof, [])"
| "sock_read k (Silence # as) = (ReadElapsed, as)"
| "sock_read k (ReadFault e # as) = (ReadError e, as)"
| "sock_read k (Arrived s # as) =
     (if s = [] then sock_read k as
      else (ReadBytes (take k s), if length s \<le> k then as else Arrived (drop k s) # as))"

fun sock_peek :: "arrival list \<Rightarrow> bool" where
  "sock_peek [] = False"
| "sock_peek (Arrived s # as) = (if s = [] then sock_peek as else True)"
| "sock_peek _ = False"

section \<open>The bounded reads\<close>

definition chunk_size :: nat where "chunk_size = 8192"

lemma sock_read_bytes: "sock_read k as = (ReadBytes d, as') \<Longrightarrow> 0 < k \<Longrightarrow> 0 < length d \<and> length d \<le> k"
  by (induction k as rule: sock_read.induct) (auto split: if_splits)

lemma room_shrinks: "d \<noteq> [] \<Longrightarrow> n < cap \<Longrightarrow> cap - (n + length d) < cap - (n :: nat)"
  by (cases d) auto

function read_loop :: "nat \<Rightarrow> string \<Rightarrow> arrival list \<Rightarrow> (probe_error + string \<times> bool) \<times> arrival list" where
  "read_loop cap out as =
     (let room = cap - length out in
      if room = 0 then
        (case sock_read 1 as of
           (ReadEof, as) \<Rightarrow> (Inr (out, False), as)
         | (ReadBytes d, as) \<Rightarrow> (Inr (out, True), as)
         | (ReadError e, as) \<Rightarrow> (Inl (ProbeIoError e), as)
         | (ReadElapsed, as) \<Rightarrow> (Inr (out, True), as))
      else
        (case sock_read (min room chunk_size) as of
           (ReadEof, as) \<Rightarrow> (Inr (out, False), as)
         | (ReadBytes d, as) \<Rightarrow> read_loop cap (out @ d) as
         | (ReadError e, as) \<Rightarrow> (Inl (ProbeIoError e), as)
         | (ReadElapsed, as) \<Rightarrow> (Inr (out, out \<noteq> []), as)))"
  by pat_completeness auto
termination
  by (relation "measure (\<lambda>(cap, out, as). cap - length out)")
    (auto simp: chunk_size_def not_le room_shrinks dest!: sock_read_bytes [OF sym])

declare read_loop.simps [simp del]

definition read_bounded :: "probe_io \<Rightarrow> (probe_error + string \<times> bool) \<times> probe_io" where
  "read_bounded io =
     (if \<not> io_representable io then (Inl (DeadlineUnrepresentable (io_deadline io)), io)
      else case read_loop (io_read_cap io) [] (io_arrivals io) of
        (r, as) \<Rightarrow> (r, io\<lparr>io_arrivals := as\<rparr>))"

function read_exact_loop :: "nat \<Rightarrow> string \<Rightarrow> arrival list \<Rightarrow> (probe_error + string \<times> bool) \<times> arrival list" where
  "read_exact_loop target out as =
     (if length out < target then
        (case sock_read (target - length out) as of
           (ReadEof, as) \<Rightarrow> (Inr (out, False), as)
         | (ReadBytes d, as) \<Rightarrow> read_exact_loop target (out @ d) as
         | (ReadError e, as) \<Rightarrow> (Inl (ProbeIoError e), as)
         | (ReadElapsed, as) \<Rightarrow> (Inr (out, out \<noteq> []), as))
      else if target = 0 then (Inr (out, False), as)
      else (Inr (out, sock_peek as), as))"
  by pat_completeness auto
termination
  by (relation "measure (\<lambda>(target, out, as). target - length out)") (auto simp: room_shrinks dest!: sock_read_bytes [OF sym])

declare read_exact_loop.simps [simp del]

definition read_at_most :: "nat \<Rightarrow> probe_io \<Rightarrow> (probe_error + string \<times> bool) \<times> probe_io" where
  "read_at_most n io =
     (if \<not> io_representable io then (Inl (DeadlineUnrepresentable (io_deadline io)), io)
      else case read_exact_loop (min n (io_read_cap io)) [] (io_arrivals io) of
        (r, as) \<Rightarrow> (r, io\<lparr>io_arrivals := as\<rparr>))"

section \<open>The requests\<close>

definition chars :: "nat list \<Rightarrow> string" where
  "chars bs = map char_of bs"

definition u16be :: "nat \<Rightarrow> nat list" where
  "u16be n = [n div 256 mod 256, n mod 256]"

definition crlf :: string where "crlf = [CHR 0x0D, CHR 0x0A]"

text \<open>The version is \<open>CARGO_PKG_VERSION\<close>, which the build fixes: an argument.\<close>

definition user_agent :: "string \<Rightarrow> string" where
  "user_agent version = ''bathy/'' @ version @ '' (+https://github.com/russell0/bathy)''"

definition http_request :: "string \<Rightarrow> string \<Rightarrow> string" where
  "http_request version host =
     ''GET / HTTP/1.1'' @ crlf @ ''Host: '' @ host @ crlf @ ''User-Agent: '' @ user_agent version @ crlf @
     ''Accept: */*'' @ crlf @ ''Connection: close'' @ crlf @ crlf"

definition ssl_request :: string where
  "ssl_request = chars [0x00, 0x00, 0x00, 0x08, 0x04, 0xD2, 0x16, 0x2F]"

definition redis_ping :: string where
  "redis_ping = ''*1'' @ crlf @ ''$4'' @ crlf @ ''PING'' @ crlf"

definition ehlo :: string where
  "ehlo = ''EHLO bathy.invalid'' @ crlf"

definition dns_label :: "string \<Rightarrow> nat list" where
  "dns_label l = length l # map of_char l"

definition dns_query_message :: "nat list" where
  "dns_query_message =
     u16be 0x5344 @ u16be 0x0000 @ u16be 1 @ u16be 0 @ u16be 0 @ u16be 0 @
     concat (map dns_label [''version'', ''bind'']) @ [0] @ u16be 16 @ u16be 3"

definition build_query :: "nat list" where
  "build_query = u16be (length dns_query_message) @ dns_query_message"

definition cipher_suites :: "nat list" where "cipher_suites = [0x1301, 0x1302, 0x1303, 0x1304, 0x1305]"
definition supported_groups :: "nat list" where "supported_groups = [0x001D, 0x0017, 0x0018]"
definition signature_algorithms :: "nat list" where
  "signature_algorithms = [0x0403, 0x0503, 0x0603, 0x0804, 0x0805, 0x0806, 0x0401, 0x0501, 0x0601, 0x0807]"
definition fixed_x25519_key :: "nat list" where "fixed_x25519_key = replicate 32 0xAA"
definition client_random :: "nat list" where "client_random = [0..<32]"

definition hello_extensions :: "nat list" where
  "hello_extensions =
     u16be 0x002b @ u16be 3 @ [2] @ u16be 0x0304 @
     u16be 0x000a @ u16be (length supported_groups * 2 + 2) @ u16be (length supported_groups * 2) @
       concat (map u16be supported_groups) @
     u16be 0x000d @ u16be (length signature_algorithms * 2 + 2) @ u16be (length signature_algorithms * 2) @
       concat (map u16be signature_algorithms) @
     u16be 0x0033 @ u16be (2 + 2 + length fixed_x25519_key + 2) @ u16be (2 + 2 + length fixed_x25519_key) @
       u16be 0x001D @ u16be 32 @ fixed_x25519_key"

definition hello_body :: "nat list" where
  "hello_body =
     [0x03, 0x03] @ client_random @ [0] @ u16be (length cipher_suites * 2) @ concat (map u16be cipher_suites) @ [1, 0] @
     u16be (length hello_extensions) @ hello_extensions"

definition hello_handshake :: "nat list" where
  "hello_handshake = [0x01, length hello_body div 65536 mod 256] @ u16be (length hello_body) @ hello_body"

definition build_client_hello :: "nat list" where
  "build_client_hello = [0x16, 0x03, 0x01] @ u16be (length hello_handshake) @ hello_handshake"

section \<open>The probes\<close>

definition finish_capture :: "string \<Rightarrow> probe_io \<Rightarrow> string option \<Rightarrow> string \<Rightarrow> bool \<Rightarrow> probe_capture" where
  "finish_capture pid io request response truncated =
     \<lparr>pc_probe_id = pid, pc_transport = Tcp, pc_port = io_port io, pc_request = request, pc_response = response,
      pc_elapsed_micros = io_elapsed io, pc_truncated = truncated\<rparr>"

text \<open>The end every probe but one shares: an empty answer is an error, any other a capture.\<close>

definition capture_of ::
  "string \<Rightarrow> string option \<Rightarrow> (probe_error + string \<times> bool) \<times> probe_io \<Rightarrow> (probe_error + probe_capture) \<times> probe_io"
where
  "capture_of pid request r =
     (case r of
        (Inl e, io) \<Rightarrow> (Inl e, io)
      | (Inr (response, truncated), io) \<Rightarrow>
          if response = [] then (Inl EmptyResponse, io) else (Inr (finish_capture pid io request response truncated), io))"

definition send_first ::
  "string \<Rightarrow> string \<Rightarrow> (probe_io \<Rightarrow> (probe_error + string \<times> bool) \<times> probe_io) \<Rightarrow> probe_io \<Rightarrow> (probe_error + probe_capture) \<times> probe_io"
where
  "send_first pid request reading io =
     (case write_all request io of
        (Inl e, io) \<Rightarrow> (Inl e, io)
      | (Inr _, io) \<Rightarrow> capture_of pid (Some request) (reading io))"

definition http_execute :: "string \<Rightarrow> probe_io \<Rightarrow> (probe_error + probe_capture) \<times> probe_io" where
  "http_execute version io = send_first ''http-get-v1'' (http_request version (peer_host_header io)) read_bounded io"

definition ssh_execute :: "probe_io \<Rightarrow> (probe_error + probe_capture) \<times> probe_io" where
  "ssh_execute io = capture_of ''ssh-banner-v1'' None (read_bounded io)"

definition mysql_execute :: "probe_io \<Rightarrow> (probe_error + probe_capture) \<times> probe_io" where
  "mysql_execute io = capture_of ''mysql-greeting-v1'' None (read_bounded io)"

definition postgres_execute :: "probe_io \<Rightarrow> (probe_error + probe_capture) \<times> probe_io" where
  "postgres_execute io = send_first ''postgres-startup-v1'' ssl_request (read_at_most 1) io"

definition redis_execute :: "probe_io \<Rightarrow> (probe_error + probe_capture) \<times> probe_io" where
  "redis_execute io = send_first ''redis-ping-v1'' redis_ping read_bounded io"

definition dns_execute :: "probe_io \<Rightarrow> (probe_error + probe_capture) \<times> probe_io" where
  "dns_execute io = send_first ''dns-version-bind-v1'' (chars build_query) read_bounded io"

definition tls_execute :: "probe_io \<Rightarrow> (probe_error + probe_capture) \<times> probe_io" where
  "tls_execute io = send_first ''tls-v1'' (chars build_client_hello) read_bounded io"

definition smtp_execute :: "probe_io \<Rightarrow> (probe_error + probe_capture) \<times> probe_io" where
  "smtp_execute io =
     (case read_bounded io of
        (Inl e, io) \<Rightarrow> (Inl e, io)
      | (Inr (greeting, greeting_truncated), io) \<Rightarrow>
          if greeting = [] then (Inl EmptyResponse, io)
          else if greeting_truncated \<and> length greeting \<ge> io_read_cap io then
            (Inr (finish_capture ''smtp-banner-v1'' io None greeting True), io)
          else
            (case write_all ehlo io of
               (Inl _, io) \<Rightarrow> (Inr (finish_capture ''smtp-banner-v1'' io None greeting False), io)
             | (Inr _, io) \<Rightarrow>
                 (case read_bounded io of
                    (Inl _, io) \<Rightarrow> (Inr (finish_capture ''smtp-banner-v1'' io (Some ehlo) greeting False), io)
                  | (Inr (capabilities, caps_truncated), io) \<Rightarrow>
                      (Inr (finish_capture ''smtp-banner-v1'' io (Some ehlo) (greeting @ capabilities) caps_truncated), io))))"

definition execute :: "string \<Rightarrow> probe \<Rightarrow> probe_io \<Rightarrow> (probe_error + probe_capture) \<times> probe_io" where
  "execute version p io =
     (if pb_id p = ''http-get-v1'' then http_execute version io
      else if pb_id p = ''tls-v1'' then tls_execute io
      else if pb_id p = ''ssh-banner-v1'' then ssh_execute io
      else if pb_id p = ''smtp-banner-v1'' then smtp_execute io
      else if pb_id p = ''dns-version-bind-v1'' then dns_execute io
      else if pb_id p = ''postgres-startup-v1'' then postgres_execute io
      else if pb_id p = ''mysql-greeting-v1'' then mysql_execute io
      else redis_execute io)"

section \<open>What a read returns\<close>

definition arrived :: "arrival list \<Rightarrow> string" where
  "arrived as = concat (map (\<lambda>a. case a of Arrived s \<Rightarrow> s | _ \<Rightarrow> []) as)"

lemma arrived_simps [simp]:
  "arrived [] = []" "arrived (Arrived s # as) = s @ arrived as" "arrived (Silence # as) = arrived as" "arrived (ReadFault e # as) = arrived as"
  by (simp_all add: arrived_def)

lemma sock_read_arrived:
  "sock_read k as = (r, as') \<Longrightarrow> arrived as = (case r of ReadBytes d \<Rightarrow> d | _ \<Rightarrow> []) @ arrived as'"
  by (induction k as rule: sock_read.induct) (auto split: if_splits)

lemma sock_read_eof: "sock_read k as = (ReadEof, as') \<Longrightarrow> arrived as = [] \<and> arrived as' = []"
  by (induction k as rule: sock_read.induct) (auto split: if_splits)

text \<open>A read returns what arrived first, within its bound; what it leaves unread comes after that.\<close>

definition reads_first :: "nat \<Rightarrow> arrival list \<Rightarrow> string \<Rightarrow> bool \<Rightarrow> arrival list \<Rightarrow> bool" where
  "reads_first cap as bytes truncated as' \<longleftrightarrow>
     length bytes \<le> cap \<and> (\<exists>more. arrived as = bytes @ more) \<and>
     (\<not> (truncated \<and> cap \<le> length bytes) \<longrightarrow> arrived as = bytes @ arrived as') \<and>
     (\<not> truncated \<and> bytes \<noteq> [] \<longrightarrow> arrived as' = [])"

lemma read_loop_returns:
  "read_loop cap out as = (Inr (bytes, truncated), as') \<Longrightarrow> length out \<le> cap \<Longrightarrow>
     \<exists>d. bytes = out @ d \<and> length bytes \<le> cap \<and> (\<exists>more. arrived as = d @ more) \<and>
       (\<not> (truncated \<and> cap \<le> length bytes) \<longrightarrow> arrived as = d @ arrived as') \<and>
       (\<not> truncated \<and> bytes \<noteq> [] \<longrightarrow> arrived as' = [])"
proof (induction cap out as rule: read_loop.induct)
  case (1 cap out as)
  obtain r rest where full: "sock_read 1 as = (r, rest)" by fastforce
  obtain r' rest' where some: "sock_read (min (cap - length out) chunk_size) as = (r', rest')" by fastforce
  show ?case
  proof (cases "cap - length out = 0")
    case True
    then show ?thesis using 1(2,3) full sock_read_eof [of 1 as rest]
      by (subst (asm) read_loop.simps) (cases r; auto)
  next
    case False
    note rest = sock_read_arrived [OF some]
    show ?thesis
    proof (cases r')
      case (ReadBytes d)
      have len: "length d \<le> cap - length out" using sock_read_bytes [OF some [unfolded ReadBytes]] False by (simp add: chunk_size_def)
      have eq: "read_loop cap (out @ d) rest' = (Inr (bytes, truncated), as')"
        using 1(2) False some ReadBytes by (subst (asm) read_loop.simps) simp
      have "length (out @ d) \<le> cap" using len 1(3) by simp
      from 1(1) [OF refl False some [symmetric] ReadBytes eq this] obtain e where
        e: "bytes = (out @ d) @ e" "length bytes \<le> cap" "\<exists>more. arrived rest' = e @ more"
          "\<not> (truncated \<and> cap \<le> length bytes) \<longrightarrow> arrived rest' = e @ arrived as'"
          "\<not> truncated \<and> bytes \<noteq> [] \<longrightarrow> arrived as' = []" by blast
      have "arrived as = d @ arrived rest'" using rest ReadBytes by simp
      then show ?thesis using e by (intro exI [of _ "d @ e"]) auto
    qed (use 1(2,3) False some rest sock_read_eof [of _ as rest'] in \<open>subst (asm) read_loop.simps, auto\<close>)+
  qed
qed

lemma read_exact_loop_returns:
  "read_exact_loop target out as = (Inr (bytes, truncated), as') \<Longrightarrow> length out \<le> target \<Longrightarrow>
     \<exists>d. bytes = out @ d \<and> length bytes \<le> target \<and> (\<exists>more. arrived as = d @ more)"
proof (induction target out as rule: read_exact_loop.induct)
  case (1 target out as)
  obtain r rest where some: "sock_read (target - length out) as = (r, rest)" by fastforce
  show ?case
  proof (cases "length out < target")
    case False
    then show ?thesis using 1(2,3) by (subst (asm) read_exact_loop.simps) (auto split: if_splits)
  next
    case True
    show ?thesis
    proof (cases r)
      case (ReadBytes d)
      have len: "length d \<le> target - length out" using sock_read_bytes [OF some [unfolded ReadBytes]] True by simp
      have eq: "read_exact_loop target (out @ d) rest = (Inr (bytes, truncated), as')"
        using 1(2) True some ReadBytes by (subst (asm) read_exact_loop.simps) simp
      have "length (out @ d) \<le> target" using len True by simp
      from 1(1) [OF True some [symmetric] ReadBytes eq this] obtain e where
        e: "bytes = (out @ d) @ e" "length bytes \<le> target" "\<exists>more. arrived rest = e @ more" by blast
      have "arrived as = d @ arrived rest" using sock_read_arrived [OF some] ReadBytes by simp
      then show ?thesis using e by (intro exI [of _ "d @ e"]) auto
    qed (use 1(2,3) True some in \<open>subst (asm) read_exact_loop.simps, auto\<close>)+
  qed
qed

lemma read_bounded_returns:
  "read_bounded io = (Inr (bytes, truncated), io') \<Longrightarrow>
     reads_first (io_read_cap io) (io_arrivals io) bytes truncated (io_arrivals io') \<and> io' = io\<lparr>io_arrivals := io_arrivals io'\<rparr>"
  using read_loop_returns [of "io_read_cap io" "[]" "io_arrivals io" bytes truncated]
  by (auto simp: read_bounded_def reads_first_def split: if_splits prod.splits)

lemma read_at_most_returns:
  "read_at_most n io = (Inr (bytes, truncated), io') \<Longrightarrow>
     length bytes \<le> min n (io_read_cap io) \<and> (\<exists>more. arrived (io_arrivals io) = bytes @ more) \<and> io' = io\<lparr>io_arrivals := io_arrivals io'\<rparr>"
  using read_exact_loop_returns [of "min n (io_read_cap io)" "[]" "io_arrivals io" bytes truncated]
  by (auto simp: read_at_most_def split: if_splits prod.splits)

lemma write_all_returns:
  "write_all bytes io = (Inr u, io') \<Longrightarrow> io_sent io' = io_sent io @ [bytes] \<and> io_arrivals io' = io_arrivals io \<and>
     io_read_cap io' = io_read_cap io \<and> io_port io' = io_port io"
  "write_all bytes io = (Inl e, io') \<Longrightarrow> io_sent io' = io_sent io \<and> io_arrivals io' = io_arrivals io \<and>
     io_read_cap io' = io_read_cap io \<and> io_port io' = io_port io"
  by (auto simp: write_all_def split: list.splits write_result.splits)

section \<open>What a capture holds\<close>

definition capture_ok :: "nat \<Rightarrow> probe_io \<Rightarrow> probe_io \<Rightarrow> probe_capture \<Rightarrow> bool" where
  "capture_ok bound io io' c \<longleftrightarrow>
     pc_response c \<noteq> [] \<and> length (pc_response c) \<le> bound \<and> (\<exists>more. arrived (io_arrivals io) = pc_response c @ more) \<and>
     io_sent io' = io_sent io @ (case pc_request c of None \<Rightarrow> [] | Some r \<Rightarrow> [r])"

lemma send_first_ok:
  assumes "send_first pid request reading io = (Inr c, io')"
    and "\<And>io bytes truncated io'. reading io = (Inr (bytes, truncated), io') \<Longrightarrow>
      length bytes \<le> io_read_cap io \<and> (\<exists>more. arrived (io_arrivals io) = bytes @ more) \<and> io_sent io' = io_sent io"
  shows "capture_ok (io_read_cap io) io io' c"
proof -
  obtain w u where w: "write_all request io = (w, u)" by fastforce
  show ?thesis
  proof (cases w)
    case (Inl e)
    then show ?thesis using assms(1) w by (simp add: send_first_def)
  next
    case (Inr v)
    obtain r v where r: "reading u = (r, v)" by fastforce
    note sent = write_all_returns(1) [OF w [unfolded Inr]]
    show ?thesis
    proof (cases r)
      case (Inl e)
      then show ?thesis using assms(1) w Inr r by (simp add: send_first_def capture_of_def)
    next
      case result: (Inr bt)
      obtain bytes truncated where bt: "bt = (bytes, truncated)" by fastforce
      then show ?thesis using assms(1) w Inr r result sent assms(2) [of u bytes truncated v]
        by (auto simp: send_first_def capture_of_def capture_ok_def finish_capture_def split: if_splits)
    qed
  qed
qed

lemma read_bounded_simple:
  "read_bounded io = (Inr (bytes, truncated), io') \<Longrightarrow>
     length bytes \<le> io_read_cap io \<and> (\<exists>more. arrived (io_arrivals io) = bytes @ more) \<and> io_sent io' = io_sent io"
  using read_bounded_returns [of io bytes truncated io'] unfolding reads_first_def by (metis probe_io.ext_inject probe_io.surjective probe_io.update_convs(8))

lemma read_at_most_simple:
  "read_at_most n io = (Inr (bytes, truncated), io') \<Longrightarrow>
     length bytes \<le> io_read_cap io \<and> (\<exists>more. arrived (io_arrivals io) = bytes @ more) \<and> io_sent io' = io_sent io"
  using read_at_most_returns [of n io bytes truncated io']
  by (metis min.bounded_iff probe_io.ext_inject probe_io.surjective probe_io.update_convs(8))

lemma listen_ok:
  assumes "capture_of pid None (read_bounded io) = (Inr c, io')"
  shows "capture_ok (io_read_cap io) io io' c"
proof -
  obtain r v where r: "read_bounded io = (r, v)" by fastforce
  show ?thesis
  proof (cases r)
    case (Inl e)
    then show ?thesis using assms r by (simp add: capture_of_def)
  next
    case (Inr bt)
    obtain bytes truncated where "bt = (bytes, truncated)" by fastforce
    then show ?thesis using assms r Inr read_bounded_simple [of io bytes truncated v]
      by (auto simp: capture_of_def capture_ok_def finish_capture_def split: if_splits)
  qed
qed

lemma smtp_ok:
  assumes "smtp_execute io = (Inr c, io')"
  shows "capture_ok (2 * io_read_cap io) io io' c"
proof -
  obtain r v where r: "read_bounded io = (r, v)" by fastforce
  show ?thesis
  proof (cases r)
    case (Inl e)
    then show ?thesis using assms r by (simp add: smtp_execute_def)
  next
    case (Inr bt)
    obtain greeting cut where bt: "bt = (greeting, cut)" by fastforce
    have g: "length greeting \<le> io_read_cap io" "\<exists>more. arrived (io_arrivals io) = greeting @ more" "io_sent v = io_sent io"
      "io_read_cap v = io_read_cap io"
      "\<not> (cut \<and> io_read_cap io \<le> length greeting) \<Longrightarrow> arrived (io_arrivals io) = greeting @ arrived (io_arrivals v)"
      using read_bounded_returns [of io greeting cut v] r Inr bt unfolding reads_first_def
      by (auto dest: arg_cong [of _ _ io_sent] arg_cong [of _ _ io_read_cap])
    show ?thesis
    proof (cases "greeting = [] \<or> cut \<and> io_read_cap v \<le> length greeting")
      case True
      then show ?thesis using assms r Inr bt g(1-3)
        by (auto simp: smtp_execute_def capture_ok_def finish_capture_def split: if_splits)
    next
      case False
      then have whole: "arrived (io_arrivals io) = greeting @ arrived (io_arrivals v)" using g(4,5) by auto
      obtain w u where w: "write_all ehlo v = (w, u)" by fastforce
      show ?thesis
      proof (cases w)
        case (Inl e)
        then show ?thesis using assms r Inr bt False g(1-3) w write_all_returns(2) [of ehlo v e u]
          by (auto simp: smtp_execute_def capture_ok_def finish_capture_def)
      next
        case written: (Inr x)
        have s: "io_sent u = io_sent io @ [ehlo]" "io_arrivals u = io_arrivals v" "io_read_cap u = io_read_cap io"
          using write_all_returns(1) [of ehlo v x u] w written g(3,4) by simp_all
        obtain r2 z where r2: "read_bounded u = (r2, z)" by fastforce
        show ?thesis
        proof (cases r2)
          case (Inl e)
          have "io_sent z = io_sent u" using r2 Inl by (auto simp: read_bounded_def split: if_splits prod.splits)
          then show ?thesis using assms r Inr bt False g(1,2) w written r2 Inl s
            by (auto simp: smtp_execute_def capture_ok_def finish_capture_def)
        next
          case more: (Inr bt2)
          obtain caps cut2 where bt2: "bt2 = (caps, cut2)" by fastforce
          have c: "length caps \<le> io_read_cap io" "\<exists>m. arrived (io_arrivals v) = caps @ m" "io_sent z = io_sent u"
            using read_bounded_simple [of u caps cut2 z] r2 more bt2 s by simp_all
          then show ?thesis using assms r Inr bt False g(1) w written r2 more bt2 s whole
            by (auto simp: smtp_execute_def capture_ok_def finish_capture_def)
        qed
      qed
    qed
  qed
qed

text \<open>
  C31: captures are bounded and come from the peer. Whatever a peer sends, when and for how long, a probe
  that returns a capture kept some bytes, no more than the read cap of its connection (twice that for the
  SMTP probe, which reads twice), and they are the bytes that arrived first, with none lost, repeated or reordered; and
  exactly the request the capture records was sent.
\<close>

theorem captures_are_bounded:
  assumes "execute version p io = (Inr c, io')"
  shows "pc_response c \<noteq> [] \<and>
    length (pc_response c) \<le> (if pb_id p = ''smtp-banner-v1'' then 2 else 1) * io_read_cap io \<and>
    (\<exists>more. arrived (io_arrivals io) = pc_response c @ more) \<and>
    io_sent io' = io_sent io @ (case pc_request c of None \<Rightarrow> [] | Some r \<Rightarrow> [r])"
proof -
  note bounded = send_first_ok [of _ _ read_bounded io c io', OF _ read_bounded_simple]
  note at_most = send_first_ok [of _ _ "read_at_most n" io c io' for n, OF _ read_at_most_simple]
  have "capture_ok ((if pb_id p = ''smtp-banner-v1'' then 2 else 1) * io_read_cap io) io io' c"
    using assms unfolding execute_def
    by (auto simp: http_execute_def tls_execute_def ssh_execute_def dns_execute_def postgres_execute_def mysql_execute_def
        redis_execute_def dest: bounded at_most listen_ok smtp_ok split: if_splits)
  then show ?thesis unfolding capture_ok_def .
qed

definition sample_io :: probe_io where
  "sample_io = \<lparr>io_port = 25, io_read_cap = 8, io_deadline = 3, io_representable = True, io_peer = None, io_elapsed = 4,
     io_writes = [], io_arrivals = [Arrived ''220 hi'', Silence, Silence, Arrived ''250 ok''], io_sent = [], io_partial = []\<rparr>"

lemma sample_smtp:
  "smtp_execute sample_io =
     (Inr \<lparr>pc_probe_id = ''smtp-banner-v1'', pc_transport = Tcp, pc_port = 25, pc_request = Some ehlo, pc_response = ''220 hi'',
        pc_elapsed_micros = 4, pc_truncated = False\<rparr>,
      sample_io\<lparr>io_arrivals := [Arrived ''250 ok''], io_sent := [ehlo]\<rparr>)"
  by (simp add: smtp_execute_def sample_io_def read_bounded_def read_loop.simps chunk_size_def write_all_def finish_capture_def)

theorem captures_are_bounded_witness:
  "length ''220 hi'' \<le> 2 * io_read_cap sample_io"
proof -
  have "execute ''1'' smtp_banner_probe sample_io = smtp_execute sample_io" by (simp add: execute_def smtp_banner_probe_def)
  from captures_are_bounded [OF this [unfolded sample_smtp]] show ?thesis by (simp add: smtp_banner_probe_def)
qed

text \<open>
  What \<open>truncated\<close> says. For the probes that read until the peer closes, a capture that is not
  truncated is everything the peer sent. The SMTP probe does not keep this: a peer that falls silent after
  \<open>EHLO\<close>, neither closing nor at the cap, leaves a capture that claims to be complete although more arrives.
\<close>

lemma complete_captures:
  assumes "capture_of pid request (read_bounded io) = (Inr c, io')" "\<not> pc_truncated c"
  shows "pc_response c = arrived (io_arrivals io)"
proof -
  obtain r v where r: "read_bounded io = (r, v)" by fastforce
  show ?thesis
  proof (cases r)
    case (Inl e)
    then show ?thesis using assms r by (simp add: capture_of_def)
  next
    case (Inr bt)
    obtain bytes truncated where "bt = (bytes, truncated)" by fastforce
    then show ?thesis using assms r Inr read_bounded_returns [of io bytes truncated v]
      by (auto simp: capture_of_def finish_capture_def reads_first_def split: if_splits)
  qed
qed

theorem smtp_claims_complete_on_silence:
  "\<exists>c io'. smtp_execute sample_io = (Inr c, io') \<and> \<not> pc_truncated c \<and> arrived (io_arrivals io') = ''250 ok'' \<and>
     pc_response c \<noteq> arrived (io_arrivals sample_io)"
  by (simp add: sample_smtp) (simp add: sample_io_def)

section \<open>The requests are well framed\<close>

definition be_value :: "nat list \<Rightarrow> nat" where
  "be_value bs = foldl (\<lambda>v b. v * 256 + b) 0 bs"

lemma u16be_value [simp]: "n < 65536 \<Longrightarrow> be_value (u16be n) = n"
  by (simp add: be_value_def u16be_def)

lemma u16be_bytes [simp]: "list_all (\<lambda>b. b < 256) (u16be n)" "length (u16be n) = 2"
  by (simp_all add: u16be_def)

lemma u16be_list [simp]: "list_all (\<lambda>b. b < 256) (concat (map u16be ns))" "length (concat (map u16be ns)) = 2 * length ns"
  by (induction ns) simp_all

lemmas hello_defs = hello_body_def client_random_def cipher_suites_def hello_extensions_def supported_groups_def
  signature_algorithms_def fixed_x25519_key_def

lemma hello_lengths: "length hello_extensions = 87" "length hello_body = 138"
proof -
  show e: "length hello_extensions = 87"
    by (simp add: hello_extensions_def supported_groups_def signature_algorithms_def fixed_x25519_key_def)
  show "length hello_body = 138"
    by (simp add: hello_body_def client_random_def cipher_suites_def e)
qed

lemma take_u16be: "take 2 (u16be n @ bs) = u16be n" "drop 2 (u16be n @ bs) = bs"
  by (simp_all add: u16be_def)

lemma bytes_upto32: "list_all (\<lambda>b. b < 256) [0..<32]"
  by (simp add: list_all_iff)

lemma bytes_const: "b < 256 \<Longrightarrow> list_all (\<lambda>b. b < 256) (replicate n b)"
  by (simp add: list_all_iff)

theorem requests_are_framed:
  "be_value (take 2 build_query) = length (drop 2 build_query) \<and>
   be_value (take 2 (drop 3 build_client_hello)) = length (drop 5 build_client_hello) \<and>
   be_value (take 3 (drop 6 build_client_hello)) = length (drop 9 build_client_hello) \<and>
   list_all (\<lambda>b. b < 256) build_query \<and> list_all (\<lambda>b. b < 256) build_client_hello"
proof -
  have q: "length dns_query_message = 30" by (simp add: dns_query_message_def dns_label_def)
  have h: "length hello_handshake = 142" by (simp add: hello_handshake_def hello_lengths)
  have "be_value (take 2 build_query) = length (drop 2 build_query)"
    by (simp add: build_query_def take_u16be q)
  moreover have "drop 3 build_client_hello = u16be 142 @ hello_handshake" "drop 5 build_client_hello = hello_handshake"
    by (simp_all add: build_client_hello_def h u16be_def)
  then have "be_value (take 2 (drop 3 build_client_hello)) = length (drop 5 build_client_hello)"
    by (simp add: take_u16be h)
  moreover have "take 3 (drop 6 build_client_hello) = 0 # u16be 138" "drop 9 build_client_hello = hello_body"
    by (simp_all add: build_client_hello_def hello_handshake_def u16be_def hello_lengths)
  then have "be_value (take 3 (drop 6 build_client_hello)) = length (drop 9 build_client_hello)"
    by (simp add: hello_lengths be_value_def u16be_def)
  moreover have "list_all (\<lambda>b. b < 256) build_query"
    by (simp add: build_query_def dns_query_message_def dns_label_def)
  moreover have "list_all (\<lambda>b. b < 256) build_client_hello"
    by (simp add: build_client_hello_def hello_handshake_def hello_body_def hello_extensions_def client_random_def
      fixed_x25519_key_def bytes_upto32 bytes_const)
  ultimately show ?thesis by blast
qed

end
