(* ===== verification/Approval.thy ===== *)
theory Approval
  imports Ids Canonical
begin

text \<open>
  The human-approval gate, \<open>crates/bathy-mcp/src/approval.rs\<close>. A scan wider than the threshold is answered
  with a question and a sealed token; the retry brings the token back through the client, who is not
  trusted. What seals and opens is \<open>RequestStateCodec\<close> of the \<open>rmcp\<close> crate, a parameter.
\<close>

section \<open>Tokens\<close>

record pending_approval =
  pa_nonce :: u64
  pa_plan_hash :: string
  pa_estimated_targets :: u64
  pa_threshold :: u64

datatype approval_error = Unverifiable | Expired | AlreadyUsed | PlanChanged | Declined

fun approval_code :: "approval_error \<Rightarrow> string" where
  "approval_code Unverifiable = ''approval_unverifiable''"
| "approval_code Expired = ''approval_expired''"
| "approval_code AlreadyUsed = ''approval_already_used''"
| "approval_code PlanChanged = ''approval_plan_changed''"
| "approval_code Declined = ''approval_declined''"

fun approval_detail :: "approval_error \<Rightarrow> string" where
  "approval_detail Unverifiable =
     ''the approval token did not verify against this server, this caller and '' @
     ''these arguments; nothing was started and no packet was sent''"
| "approval_detail Expired =
     ''the approval token has expired; ask again, so a human approves the scan '' @
     ''that is about to run''"
| "approval_detail AlreadyUsed =
     ''the approval token has already been redeemed; an approval authorizes one '' @
     ''scan, not a standing grant''"
| "approval_detail PlanChanged = ''the request no longer produces the plan this approval was issued for''"
| "approval_detail Declined = ''the approval was not granted''"

text \<open>
  The codec: sealing takes the payload, the associated data, the time to live and the time; opening takes
  the time, the token and the associated data.
\<close>

datatype seal_error = SealExpired | SealOther

record codec =
  cd_seal :: "pending_approval \<Rightarrow> string \<Rightarrow> nat \<Rightarrow> u64 \<Rightarrow> string + string"
  cd_open :: "u64 \<Rightarrow> string \<Rightarrow> string \<Rightarrow> seal_error + pending_approval"

section \<open>The gate\<close>

definition approval_key :: string where "approval_key = ''approval''"

definition binding_domain :: string where "binding_domain = ''bathy/mcp/scan.start/approval/v1''"

definition unidentified_principal :: string where "unidentified_principal = CHR 0x00 # ''unidentified''"

text \<open>Durations and instants are milliseconds.\<close>

record gate =
  gt_ttl :: nat
  gt_threshold_targets :: u64
  gt_redeemed :: "u64 \<rightharpoonup> u64"
  gt_counter :: u64

definition gate_new :: "u64 \<Rightarrow> nat \<Rightarrow> gate" where
  "gate_new threshold ttl = \<lparr>gt_ttl = ttl, gt_threshold_targets = threshold, gt_redeemed = Map.empty, gt_counter = 0\<rparr>"

definition requires_approval :: "gate \<Rightarrow> u64 \<Rightarrow> bool" where
  "requires_approval g estimated_targets \<longleftrightarrow> estimated_targets > gt_threshold_targets g"

definition approval_binding :: "string \<Rightarrow> digest \<Rightarrow> string" where
  "approval_binding caller arguments_digest =
     binding_domain @ ''|principal='' @ caller @ ''|arguments='' @ digest_display arguments_digest"

definition challenge ::
  "codec \<Rightarrow> u64 \<Rightarrow> string \<Rightarrow> digest \<Rightarrow> string \<Rightarrow> u64 \<Rightarrow> gate \<Rightarrow> (string + string) \<times> gate"
where
  "challenge C now caller arguments_digest plan_hash estimated_targets g =
     (let pending = \<lparr>pa_nonce = gt_counter g, pa_plan_hash = plan_hash, pa_estimated_targets = estimated_targets,
            pa_threshold = gt_threshold_targets g\<rparr>
      in (cd_seal C pending (approval_binding caller arguments_digest) (gt_ttl g) now,
          g\<lparr>gt_counter := gt_counter g + 1\<rparr>))"

text \<open>\<open>as_millis().min(u64::MAX)\<close>; \<open>HashMap::retain\<close>, and \<open>insert\<close>, which replaces.\<close>

definition ttl_millis :: "gate \<Rightarrow> u64" where
  "ttl_millis g = of_nat (min (gt_ttl g) (2 ^ 64 - 1))"

definition retain_after :: "u64 \<Rightarrow> (u64 \<rightharpoonup> u64) \<Rightarrow> (u64 \<rightharpoonup> u64)" where
  "retain_after now m = (\<lambda>k. case m k of Some expiry \<Rightarrow> if expiry > now then Some expiry else None | None \<Rightarrow> None)"

definition consume :: "u64 \<Rightarrow> u64 \<Rightarrow> gate \<Rightarrow> (approval_error + unit) \<times> gate" where
  "consume now nonce g =
     (let forget_at = sat_add now (ttl_millis g);
          kept = retain_after now (gt_redeemed g)
      in (if kept nonce \<noteq> None then Inl AlreadyUsed else Inr (), g\<lparr>gt_redeemed := kept(nonce \<mapsto> forget_at)\<rparr>))"

text \<open>Indexing a JSON value with a key gives \<open>null\<close> when there is nothing.\<close>

fun json_index :: "json \<Rightarrow> string \<Rightarrow> json" where
  "json_index (JObject m) k = (case map_of m k of Some v \<Rightarrow> v | None \<Rightarrow> JNull)"
| "json_index v k = JNull"

definition granted :: "(string \<rightharpoonup> json) option \<Rightarrow> bool" where
  "granted responses =
     (case responses of
        None \<Rightarrow> False
      | Some m \<Rightarrow>
          (case m approval_key of
             None \<Rightarrow> False
           | Some answer \<Rightarrow>
               json_index answer ''action'' = JString ''accept'' \<and>
               json_index (json_index answer ''content'') ''approved'' = JBool True))"

text \<open>The codec reads its clock at \<open>at\<close>, the gate reads its own at \<open>now\<close>, afterwards.\<close>

definition redeem ::
  "codec \<Rightarrow> u64 \<Rightarrow> u64 \<Rightarrow> string option \<Rightarrow> (string \<rightharpoonup> json) option \<Rightarrow> string \<Rightarrow> digest \<Rightarrow> string \<Rightarrow> gate
     \<Rightarrow> (approval_error + pending_approval) \<times> gate"
where
  "redeem C at now request_state responses caller arguments_digest plan_hash g =
     (case request_state of
        None \<Rightarrow> (Inl Unverifiable, g)
      | Some sealed \<Rightarrow>
          (case cd_open C at sealed (approval_binding caller arguments_digest) of
             Inl SealExpired \<Rightarrow> (Inl Expired, g)
           | Inl SealOther \<Rightarrow> (Inl Unverifiable, g)
           | Inr pending \<Rightarrow>
               (case consume now (pa_nonce pending) g of
                  (Inl e, g) \<Rightarrow> (Inl e, g)
                | (Inr _, g) \<Rightarrow>
                    if pa_plan_hash pending \<noteq> plan_hash then (Inl PlanChanged, g)
                    else if \<not> granted responses then (Inl Declined, g)
                    else (Inr pending, g))))"

section \<open>A token says whose and what\<close>

lemma digest_display_length: "digest_wf d \<Longrightarrow> length (digest_display d) = 71"
proof -
  have "length (concat (map hex02 bs)) = 2 * length bs" for bs by (induction bs) (simp_all add: hex02_def)
  then show "digest_wf d \<Longrightarrow> ?thesis" by (simp add: digest_display_def digest_wf_def)
qed

lemma digest_display_inj: "digest_wf d \<Longrightarrow> digest_wf d' \<Longrightarrow> digest_display d = digest_display d' \<Longrightarrow> d = d'"
  using digest_from_str_iff by (metis Inr_inject)

text \<open>A caller chooses its own name, but cannot choose one that makes its binding another caller's.\<close>

lemma approval_binding_inj:
  assumes "digest_wf d" "digest_wf d'" "approval_binding p d = approval_binding p' d'"
  shows "p = p' \<and> d = d'"
proof -
  have "p @ ''|arguments='' @ digest_display d = p' @ ''|arguments='' @ digest_display d'"
    using assms(3) by (simp add: approval_binding_def)
  then have "p = p' \<and> ''|arguments='' @ digest_display d = ''|arguments='' @ digest_display d'"
    using digest_display_length [OF assms(1)] digest_display_length [OF assms(2)] by (intro append_eq_append_conv [THEN iffD1]) auto
  then show ?thesis using digest_display_inj [OF assms(1,2)] by simp
qed

section \<open>Every history of a gate\<close>

record issue =
  is_token :: string
  is_caller :: string
  is_arguments :: digest
  is_pending :: pending_approval
  is_at :: nat

record acceptance =
  ac_pending :: pending_approval
  ac_caller :: string
  ac_arguments :: digest
  ac_plan :: string
  ac_responses :: "(string \<rightharpoonup> json) option"
  ac_at :: u64 \<comment> \<open>the codec's reading of the time\<close>
  ac_now :: u64 \<comment> \<open>and the gate's, after it\<close>

text \<open>
  What \<open>RequestStateCodec\<close> is documented to give: a token that opens under some associated data is one this process
  sealed under them, with the payload it was sealed with and within its time to live. This is what a client cannot get around.
\<close>

definition genuine :: "codec \<Rightarrow> nat \<Rightarrow> issue list \<Rightarrow> u64 \<Rightarrow> string \<Rightarrow> string \<Rightarrow> bool" where
  "genuine C ttl issued at s b \<longleftrightarrow>
     (\<forall>p. cd_open C at s b = Inr p \<longrightarrow>
        list_ex (\<lambda>i. is_token i = s \<and> approval_binding (is_caller i) (is_arguments i) = b \<and> is_pending i = p \<and> unat at < is_at i + ttl) issued)"

text \<open>
  A gate between its creation and now: challenges and redemptions in any order, by any callers. The clock
  does not go back; the codec and the gate each read it.
\<close>

inductive approvals :: "codec \<Rightarrow> nat \<Rightarrow> u64 \<Rightarrow> gate \<Rightarrow> issue list \<Rightarrow> acceptance list \<Rightarrow> bool" for C ttl where
  approvals_new: "approvals C ttl now (gate_new threshold ttl) [] []"
| approvals_challenge: "approvals C ttl before g issued accepted \<Longrightarrow> before \<le> now \<Longrightarrow> gt_counter g \<noteq> - 1 \<Longrightarrow> digest_wf arguments_digest \<Longrightarrow>
     challenge C now caller arguments_digest plan_hash n g = (Inr token, g') \<Longrightarrow>
     approvals C ttl now g'
       (\<lparr>is_token = token, is_caller = caller, is_arguments = arguments_digest,
         is_pending = \<lparr>pa_nonce = gt_counter g, pa_plan_hash = plan_hash, pa_estimated_targets = n,
           pa_threshold = gt_threshold_targets g\<rparr>,
         is_at = unat now\<rparr> # issued) accepted"
| approvals_unissuable: "approvals C ttl before g issued accepted \<Longrightarrow> before \<le> now \<Longrightarrow> gt_counter g \<noteq> - 1 \<Longrightarrow>
     challenge C now caller arguments_digest plan_hash n g = (Inl e, g') \<Longrightarrow> approvals C ttl now g' issued accepted"
| approvals_redeem: "approvals C ttl before g issued accepted \<Longrightarrow> before \<le> at \<Longrightarrow> at \<le> now \<Longrightarrow> digest_wf arguments_digest \<Longrightarrow>
     unat now + ttl < 2 ^ 64 \<Longrightarrow> (\<And>s. state = Some s \<Longrightarrow> genuine C ttl issued at s (approval_binding caller arguments_digest)) \<Longrightarrow>
     redeem C at now state responses caller arguments_digest plan_hash g = (r, g') \<Longrightarrow>
     approvals C ttl now g' issued
       (case r of Inl e \<Rightarrow> accepted
        | Inr p \<Rightarrow> \<lparr>ac_pending = p, ac_caller = caller, ac_arguments = arguments_digest, ac_plan = plan_hash, ac_responses = responses,
            ac_at = at, ac_now = now\<rparr> # accepted)"

text \<open>The challenge an acceptance answers; and whether the gate read its clock only after that challenge had expired.\<close>

definition belongs :: "nat \<Rightarrow> acceptance \<Rightarrow> issue \<Rightarrow> bool" where
  "belongs ttl a i \<longleftrightarrow> is_pending i = ac_pending a \<and> is_caller i = ac_caller a \<and> is_arguments i = ac_arguments a \<and>
     pa_plan_hash (is_pending i) = ac_plan a \<and> is_at i \<le> unat (ac_now a) \<and> unat (ac_at a) < is_at i + ttl"

definition late :: "nat \<Rightarrow> issue list \<Rightarrow> acceptance \<Rightarrow> bool" where
  "late ttl issued a \<longleftrightarrow> list_ex (\<lambda>i. is_pending i = ac_pending a \<and> is_at i + ttl \<le> unat (ac_now a)) issued"

text \<open>An acceptance after another of the same challenge, newest first: the second was late and the first was not.\<close>

definition spent :: "nat \<Rightarrow> issue list \<Rightarrow> acceptance \<Rightarrow> acceptance \<Rightarrow> bool" where
  "spent ttl issued newer older \<longleftrightarrow>
     (pa_nonce (ac_pending newer) = pa_nonce (ac_pending older) \<longrightarrow> late ttl issued newer \<and> \<not> late ttl issued older)"

text \<open>An issued token that was redeemed is remembered for as long as it could open.\<close>

definition remembered :: "nat \<Rightarrow> u64 \<Rightarrow> gate \<Rightarrow> issue \<Rightarrow> bool" where
  "remembered ttl now g i \<longleftrightarrow> is_at i + ttl \<le> unat now \<or>
     (\<exists>e. gt_redeemed g (pa_nonce (is_pending i)) = Some e \<and> is_at i + ttl \<le> unat e)"

definition accounted :: "nat \<Rightarrow> u64 \<Rightarrow> gate \<Rightarrow> issue list \<Rightarrow> acceptance \<Rightarrow> bool" where
  "accounted ttl now g issued a \<longleftrightarrow> granted (ac_responses a) \<and> ac_now a \<le> now \<and>
     (\<exists>i \<in> set issued. belongs ttl a i \<and> remembered ttl now g i)"

definition approvals_ok :: "nat \<Rightarrow> u64 \<Rightarrow> gate \<Rightarrow> issue list \<Rightarrow> acceptance list \<Rightarrow> bool" where
  "approvals_ok ttl now g issued accepted \<longleftrightarrow>
     gt_ttl g = ttl \<and>
     (\<forall>i \<in> set issued. pa_nonce (is_pending i) < gt_counter g \<and> is_at i \<le> unat now \<and> digest_wf (is_arguments i)) \<and>
     distinct (map (pa_nonce \<circ> is_pending) issued) \<and>
     (\<forall>a \<in> set accepted. accounted ttl now g issued a) \<and>
     sorted_wrt (spent ttl issued) accepted"

lemma approvals_okI [intro?]:
  assumes "gt_ttl g = ttl"
    and "\<And>i. i \<in> set issued \<Longrightarrow> pa_nonce (is_pending i) < gt_counter g \<and> is_at i \<le> unat now \<and> digest_wf (is_arguments i)"
    and "distinct (map (pa_nonce \<circ> is_pending) issued)"
    and "\<And>a. a \<in> set accepted \<Longrightarrow> accounted ttl now g issued a"
    and "sorted_wrt (spent ttl issued) accepted"
  shows "approvals_ok ttl now g issued accepted"
  using assms unfolding approvals_ok_def by blast

text \<open>Two issues of one history with the same payload are one.\<close>

lemma issue_unique:
  assumes "distinct (map (pa_nonce \<circ> is_pending) issued)" "i \<in> set issued" "j \<in> set issued"
    "pa_nonce (is_pending i) = pa_nonce (is_pending j)"
  shows "i = j"
  using assms by (auto simp: distinct_map inj_on_def)

lemma late_iff:
  assumes "distinct (map (pa_nonce \<circ> is_pending) issued)" "i \<in> set issued" "is_pending i = ac_pending a"
  shows "late ttl issued a \<longleftrightarrow> is_at i + ttl \<le> unat (ac_now a)"
proof
  assume "late ttl issued a"
  then obtain j where j: "j \<in> set issued" "is_pending j = ac_pending a" "is_at j + ttl \<le> unat (ac_now a)"
    by (auto simp: late_def list_ex_iff)
  then have "i = j" using issue_unique [OF assms(1,2) j(1)] assms(3) by simp
  then show "is_at i + ttl \<le> unat (ac_now a)" using j(3) by simp
next
  assume "is_at i + ttl \<le> unat (ac_now a)"
  then show "late ttl issued a" using assms(2,3) by (auto simp: late_def list_ex_iff)
qed

lemma challenge_fields:
  "challenge C now caller d plan n g = (r, g') \<Longrightarrow> g' = g\<lparr>gt_counter := gt_counter g + 1\<rparr>"
  by (auto simp: challenge_def Let_def)

lemma consume_fields:
  assumes "consume now k g = (r, g')"
  shows "gt_ttl g' = gt_ttl g" "gt_counter g' = gt_counter g"
    "gt_redeemed g' = (retain_after now (gt_redeemed g))(k \<mapsto> sat_add now (ttl_millis g))"
    "r = Inr () \<longleftrightarrow> retain_after now (gt_redeemed g) k = None"
  using assms by (auto simp: consume_def Let_def split: if_splits)

lemma consume_remembers:
  assumes "consume now k g = (r, g')" "remembered ttl before g i \<or> k = pa_nonce (is_pending i)"
    and "before \<le> now" "gt_ttl g = ttl" "unat now + ttl < 2 ^ 64" "is_at i \<le> unat now"
  shows "remembered ttl now g' i"
proof -
  have "unat (ttl_millis g) = ttl"
    using assms(4,5) by (simp add: ttl_millis_def unat_of_nat_small)
  then have forget: "unat (sat_add now (ttl_millis g)) = unat now + ttl"
    using assms(5) by (simp add: unat_sat_add)
  show ?thesis
  proof (cases "k = pa_nonce (is_pending i)")
    case True
    then show ?thesis using consume_fields(3) [OF assms(1)] forget assms(6) by (simp add: remembered_def)
  next
    case False
    then have "remembered ttl before g i" using assms(2) by blast
    then consider "is_at i + ttl \<le> unat before"
      | e where "gt_redeemed g (pa_nonce (is_pending i)) = Some e" "is_at i + ttl \<le> unat e"
      by (auto simp: remembered_def)
    then show ?thesis
    proof cases
      case 1
      then show ?thesis using assms(3) by (simp add: remembered_def word_le_nat_alt)
    next
      case 2
      then show ?thesis using False consume_fields(3) [OF assms(1)]
        by (auto simp: remembered_def retain_after_def word_less_nat_alt)
    qed
  qed
qed

lemma remembered_refuses:
  assumes "remembered ttl before g i" "before \<le> now" "unat now < is_at i + ttl"
  shows "retain_after now (gt_redeemed g) (pa_nonce (is_pending i)) \<noteq> None"
  using assms by (auto simp: remembered_def retain_after_def word_le_nat_alt word_less_nat_alt)

lemma redeem_cases:
  assumes "redeem C at now state responses caller d plan g = (r, g')"
  obtains (shut) e where "r = Inl e" "g' = g"
  | (opened) s p c where "state = Some s" "cd_open C at s (approval_binding caller d) = Inr p" "consume now (pa_nonce p) g = (c, g')"
      "(\<exists>e. r = Inl e) \<or> r = Inr p \<and> c = Inr () \<and> pa_plan_hash p = plan \<and> granted responses"
  using assms
  by (cases state) (auto simp: redeem_def split: sum.splits seal_error.splits prod.splits if_splits)

lemma remembered_issue:
  "remembered ttl now (g\<lparr>gt_counter := n\<rparr>) i = remembered ttl now g i"
  by (simp add: remembered_def)

lemma remembered_later: "remembered ttl before g i \<Longrightarrow> before \<le> now \<Longrightarrow> remembered ttl now g i"
  by (auto simp: remembered_def word_le_nat_alt)

lemma counter_up: "c \<noteq> - 1 \<Longrightarrow> (c :: u64) < c + 1"
proof -
  assume "c \<noteq> - 1"
  then have "unat c \<noteq> unat (- 1 :: u64)" by (simp only: word_unat_eq_iff) simp
  then have "unat c + 1 < 2 ^ 64" using unat_bounded [of c] by (simp add: unat_max_word)
  then show "c < c + 1" by (simp add: word_less_nat_alt unat_word_ariths)
qed

lemma challenge_keeps:
  assumes "approvals_ok ttl before g issued accepted" "before \<le> now" "gt_counter g \<noteq> - 1"
  shows "approvals_ok ttl now (g\<lparr>gt_counter := gt_counter g + 1\<rparr>) issued accepted" (is ?kept)
    and "pa_nonce (is_pending i) = gt_counter g \<Longrightarrow> is_at i = unat now \<Longrightarrow> digest_wf (is_arguments i) \<Longrightarrow>
      approvals_ok ttl now (g\<lparr>gt_counter := gt_counter g + 1\<rparr>) (i # issued) accepted"
proof -
  let ?g = "g\<lparr>gt_counter := gt_counter g + 1\<rparr>"
  have n: "w < gt_counter g \<Longrightarrow> w < gt_counter g + 1" for w
    using order.strict_trans [OF _ counter_up [OF assms(3)]] .
  have t: "m \<le> unat before \<Longrightarrow> m \<le> unat now" for m using assms(2) by (simp add: word_le_nat_alt)
  note ok = assms(1) [unfolded approvals_ok_def]
  have accepted: "accounted ttl now ?g issued a" if "a \<in> set accepted" for a
  proof -
    have "accounted ttl before g issued a" using ok that by blast
    then show ?thesis using remembered_later [OF _ assms(2)] assms(2) unfolding accounted_def remembered_issue
      by (meson order.trans)
  qed
  show ?kept using ok n t accepted by (intro approvals_okI) auto
  assume i: "pa_nonce (is_pending i) = gt_counter g" "is_at i = unat now" "digest_wf (is_arguments i)"
  have other: "is_pending i \<noteq> ac_pending a" if "a \<in> set accepted" for a
    using accepted [OF that] ok i(1) by (auto simp: accounted_def belongs_def)
  have late: "late ttl (i # issued) a = late ttl issued a" if "a \<in> set accepted" for a
    using other [OF that] by (simp add: late_def)
  show "approvals_ok ttl now ?g (i # issued) accepted"
  proof
    show "gt_ttl ?g = ttl" using ok by simp
    show "pa_nonce (is_pending j) < gt_counter ?g \<and> is_at j \<le> unat now \<and> digest_wf (is_arguments j)"
      if "j \<in> set (i # issued)" for j using ok n t i counter_up [OF assms(3)] that by auto
    show "distinct (map (pa_nonce \<circ> is_pending) (i # issued))" using ok i by auto
    show "accounted ttl now ?g (i # issued) a" if "a \<in> set accepted" for a
      using accepted [OF that] by (auto simp: accounted_def)
    have "sorted_wrt (spent ttl issued) accepted" using ok by blast
    then show "sorted_wrt (spent ttl (i # issued)) accepted"
      by (rule sorted_wrt_mono_rel [rotated]) (simp add: spent_def late)
  qed
qed

lemma redeem_keeps:
  assumes ok: "approvals_ok ttl before g issued accepted"
    and time: "before \<le> at" "at \<le> now" "unat now + ttl < 2 ^ 64" and d: "digest_wf d"
    and gen: "\<And>s. state = Some s \<Longrightarrow> genuine C ttl issued at s (approval_binding caller d)"
    and red: "redeem C at now state responses caller d plan g = (r, g')"
  shows "approvals_ok ttl now g' issued
       (case r of Inl e \<Rightarrow> accepted
        | Inr p \<Rightarrow> \<lparr>ac_pending = p, ac_caller = caller, ac_arguments = d, ac_plan = plan, ac_responses = responses, ac_at = at, ac_now = now\<rparr> # accepted)"
  using red
proof (cases rule: redeem_cases)
  have later: "before \<le> now" using time(1,2) by simp
  have t: "m \<le> unat before \<Longrightarrow> m \<le> unat now" for m using later by (simp add: word_le_nat_alt)
  note inv = ok [unfolded approvals_ok_def]
  have here: "is_at j \<le> unat now" if "j \<in> set issued" for j using inv t that by blast
  {
    case (shut e)
    have "accounted ttl now g issued a" if "a \<in> set accepted" for a
    proof -
      have "accounted ttl before g issued a" using inv that by blast
      then show ?thesis using remembered_later [OF _ later] later unfolding accounted_def by (meson order.trans)
    qed
    then show ?thesis using shut inv here by (simp add: approvals_okI)
  next
    case (opened s p c)
    note fields = consume_fields [OF opened(3)]
    obtain i where i: "i \<in> set issued" "approval_binding (is_caller i) (is_arguments i) = approval_binding caller d" "is_pending i = p"
      "unat at < is_at i + ttl"
      using gen [OF opened(1)] opened(2) by (auto simp: genuine_def list_ex_iff)
    have whose: "is_caller i = caller" "is_arguments i = d"
      using approval_binding_inj [OF _ d i(2)] inv i(1) by blast+
    have rem: "remembered ttl now g' j" if "j \<in> set issued" "remembered ttl before g j \<or> j = i" for j
      using consume_remembers [OF opened(3) _ later _ time(3) here [OF that(1)]] that(2) inv i(3) by blast
    have accepted_ok: "accounted ttl now g' issued a" if "a \<in> set accepted" for a
    proof -
      have "accounted ttl before g issued a" using inv that by blast
      then show ?thesis using rem later unfolding accounted_def by (meson order.trans)
    qed
    have base: "gt_ttl g' = ttl"
      "\<And>j. j \<in> set issued \<Longrightarrow> pa_nonce (is_pending j) < gt_counter g' \<and> is_at j \<le> unat now \<and> digest_wf (is_arguments j)"
      "distinct (map (pa_nonce \<circ> is_pending) issued)"
      using inv fields(1,2) here by auto
    show ?thesis
    proof (cases r)
      case (Inl e)
      then show ?thesis using base accepted_ok inv by (simp add: approvals_okI)
    next
      case (Inr q)
      then have q: "q = p" "c = Inr ()" "pa_plan_hash p = plan" "granted responses" using opened(4) by auto
      let ?a = "\<lparr>ac_pending = q, ac_caller = caller, ac_arguments = d, ac_plan = plan, ac_responses = responses, ac_at = at, ac_now = now\<rparr>"
      have "spent ttl issued ?a a" if a: "a \<in> set accepted" for a
        unfolding spent_def
      proof
        assume same: "pa_nonce (ac_pending ?a) = pa_nonce (ac_pending a)"
        obtain j where j: "j \<in> set issued" "belongs ttl a j" "remembered ttl before g j" "ac_now a \<le> before"
          using inv a unfolding accounted_def by blast
        have "is_pending j = ac_pending a" using j(2) by (simp only: belongs_def)
        then have "pa_nonce (is_pending j) = pa_nonce (is_pending i)" using same i(3) q(1) by simp
        then have "j = i" by (rule issue_unique [OF base(3) j(1) i(1)])
        have lost: "is_at i + ttl \<le> unat now"
          using remembered_refuses [OF j(3) later] \<open>j = i\<close> i(3) fields(4) q(2) by force
        have "late ttl issued ?a" using late_iff [OF base(3) i(1), of ?a] i(3) q(1) lost by simp
        moreover have "unat (ac_now a) \<le> unat at" using j(4) time(1) by (simp add: word_le_nat_alt)
        then have "\<not> late ttl issued a"
          using late_iff [OF base(3) j(1), of a] j(2) i(4) \<open>j = i\<close> by (simp add: belongs_def)
        ultimately show "late ttl issued ?a \<and> \<not> late ttl issued a" by blast
      qed
      moreover have "accounted ttl now g' issued ?a"
        using i whose here [OF i(1)] q rem [OF i(1)] by (auto simp: accounted_def belongs_def intro!: bexI [OF _ i(1)])
      ultimately show ?thesis unfolding Inr sum.case
        using base accepted_ok inv by (intro approvals_okI) auto
    qed
  }
qed

lemma approvals_invariant:
  assumes "approvals C ttl now g issued accepted"
  shows "approvals_ok ttl now g issued accepted"
  using assms
proof (induction rule: approvals.induct)
  case (approvals_new now threshold)
  then show ?case by (simp add: approvals_ok_def gate_new_def)
next
  case (approvals_challenge before g issued accepted now d caller plan n token g')
  then show ?case using challenge_keeps(2) [OF approvals_challenge.IH approvals_challenge.hyps(2,3)] challenge_fields by simp
next
  case (approvals_unissuable before g issued accepted now caller d plan n e g')
  then show ?case using challenge_keeps(1) [OF approvals_unissuable.IH approvals_unissuable.hyps(2,3)] challenge_fields by simp
next
  case (approvals_redeem before g issued accepted at now d state caller responses plan r g')
  then show ?case using redeem_keeps by blast
qed


text \<open>A codec for one challenge, and what a client does with its token.\<close>

definition sample_pending :: pending_approval where
  "sample_pending = \<lparr>pa_nonce = 0, pa_plan_hash = ''plan'', pa_estimated_targets = 256, pa_threshold = 64\<rparr>"

definition sample_codec :: codec where
  "sample_codec = \<lparr>cd_seal = (\<lambda>p b ttl now. Inr ''t''),
     cd_open = (\<lambda>at s b. if s = ''t'' \<and> b = approval_binding ''agent'' (Digest (replicate 32 0)) \<and> unat at < 10 then Inr sample_pending
       else Inl SealOther)\<rparr>"

definition yes :: "(string \<rightharpoonup> json) option" where
  "yes = Some [approval_key \<mapsto> JObject [(''action'', JString ''accept''), (''content'', JObject [(''approved'', JBool True)])]]"

definition sample_issue :: issue where
  "sample_issue = \<lparr>is_token = ''t'', is_caller = ''agent'', is_arguments = Digest (replicate 32 0), is_pending = sample_pending, is_at = 0\<rparr>"

definition sample_acceptance :: "u64 \<Rightarrow> u64 \<Rightarrow> acceptance" where
  "sample_acceptance at now = \<lparr>ac_pending = sample_pending, ac_caller = ''agent'', ac_arguments = Digest (replicate 32 0), ac_plan = ''plan'', ac_responses = yes, ac_at = at, ac_now = now\<rparr>"

lemma granted_yes: "granted yes"
  by (simp add: granted_def yes_def)

lemma sample_genuine: "genuine sample_codec 10 [sample_issue] at s b"
  by (simp add: genuine_def sample_codec_def sample_issue_def)

lemma sample_challenge: "approvals sample_codec 10 0 ((gate_new 64 10)\<lparr>gt_counter := 1\<rparr>) [sample_issue] []"
proof -
  have "challenge sample_codec 0 ''agent'' (Digest (replicate 32 0)) ''plan'' 256 (gate_new 64 10) = (Inr ''t'', (gate_new 64 10)\<lparr>gt_counter := 1\<rparr>)"
    by (simp add: challenge_def sample_codec_def gate_new_def)
  from approvals_challenge [OF approvals_new [of _ _ 0 64] _ _ _ this] show ?thesis
    by (simp add: gate_new_def sample_issue_def sample_pending_def digest_wf_def)
qed

lemma sample_redeem:
  assumes "gt_redeemed g 0 = None \<or> (\<exists>e. gt_redeemed g 0 = Some e \<and> e \<le> now)" "gt_ttl g = 10" "unat at < 10"
    and "approvals sample_codec 10 before g [sample_issue] accepted" "before \<le> at" "at \<le> now" "unat now \<le> 10"
  shows "\<exists>g'. gt_ttl g' = 10 \<and> gt_redeemed g' 0 = Some (sat_add now 10) \<and>
    approvals sample_codec 10 now g' [sample_issue] (sample_acceptance at now # accepted)"
proof -
  define g' where "g' = snd (consume now 0 g)"
  have "consume now 0 g = (Inr (), g')"
    using assms(1) by (auto simp: g'_def consume_def Let_def retain_after_def)
  moreover from this have "gt_ttl g' = 10" "gt_redeemed g' 0 = Some (sat_add now 10)"
    using consume_fields assms(2) by (simp_all add: ttl_millis_def)
  moreover have "redeem sample_codec at now (Some ''t'') yes ''agent'' (Digest (replicate 32 0)) ''plan'' g = (Inr sample_pending, g')"
    using calculation(1) assms(3) granted_yes by (simp add: redeem_def sample_codec_def sample_pending_def)
  from approvals_redeem [OF assms(4-6) _ _ sample_genuine this]
  have "approvals sample_codec 10 now g' [sample_issue] (sample_acceptance at now # accepted)"
    using assms(7) by (simp add: sample_acceptance_def digest_wf_def)
  ultimately show ?thesis by blast
qed


text \<open>
  The second acceptance is possible. The horizon is the gate's own clock, read after the seal was opened. If that reading falls past the
  time to live although the seal opened within it, a nonce redeemed in the instant it was issued has
  already been forgotten, and the token is accepted again.
\<close>

theorem a_late_reading_redeems_twice:
  "\<exists>g. approvals sample_codec 10 10 g [sample_issue] [sample_acceptance 9 10, sample_acceptance 0 0]"
proof -
  obtain g where g: "gt_ttl g = 10" "gt_redeemed g 0 = Some 10" "approvals sample_codec 10 0 g [sample_issue] [sample_acceptance 0 0]"
    using sample_redeem [OF _ _ _ sample_challenge, of 0 0] by (auto simp: gate_new_def sat_add_def)
  then show ?thesis using sample_redeem [OF _ g(1) _ g(3), of 10 9] by auto
qed

end
