(* ===== verification/Tools.thy ===== *)
theory Tools
  imports Plan Scope Durable_Log Task_Store Approval
begin

text \<open>
  The tools an agent calls, \<open>crates/bathy-mcp\<close>: the request a caller may state
  (\<open>crates/bathy-types/src/tools.rs\<close>), its authorization (\<open>engine.rs\<close>), and starting, resuming, following and
  cancelling scans (\<open>tools/scan.rs\<close>, \<open>server.rs\<close>). The command line runs the same functions.
\<close>

section \<open>Requests and refusals\<close>

record tool_failure =
  tf_error :: string
  tf_detail :: string

record scan_request_spec =
  rq_targets :: "string nonempty"
  rq_objective :: objective
  rq_ports :: port_selection
  rq_service_detection :: service_detection
  rq_evidence_level :: evidence_level
  rq_max_packets :: "u64 option"
  rq_max_runtime_seconds :: "u64 option"
  rq_max_packets_per_second :: "u32 option"
  rq_idempotency_key :: string

fun unwrap_or :: "'a option \<Rightarrow> 'a \<Rightarrow> 'a" where
  "unwrap_or (Some a) b = a"
| "unwrap_or None b = b"

definition into_request :: "scan_request_spec \<Rightarrow> u128 \<Rightarrow> budgets \<Rightarrow> tool_failure + scan_request" where
  "into_request s scope_id ceiling =
     (let b = \<lparr>maximum_packets = unwrap_or (rq_max_packets s) (maximum_packets ceiling),
               maximum_runtime_seconds = unwrap_or (rq_max_runtime_seconds s) (maximum_runtime_seconds ceiling),
               maximum_packets_per_second = unwrap_or (rq_max_packets_per_second s) (maximum_packets_per_second ceiling)\<rparr>
      in if maximum_packets b = 0 \<or> maximum_runtime_seconds b = 0 \<or> maximum_packets_per_second b = 0
         then Inl \<lparr>tf_error = ''bad_budget'', tf_detail = ''every budget must be greater than zero''\<rparr>
         else if sd_intensity (rq_service_detection s) > 9
         then Inl \<lparr>tf_error = ''bad_intensity'',
                tf_detail = ''intensity must be 0-9, got '' @ show_word (sd_intensity (rq_service_detection s))\<rparr>
         else Inr \<lparr>sr_targets = rq_targets s, sr_scope_id = scope_id, sr_objective = rq_objective s, sr_ports = rq_ports s,
                sr_service_detection = rq_service_detection s, sr_budgets = b, sr_evidence_level = rq_evidence_level s,
                sr_idempotency_key = rq_idempotency_key s\<rparr>)"

text \<open>
  What the tools take from outside: the plan's and the manifest's parameters, the file system, the derived
  serializer of requests, the record codec of the log, and the \<open>Display\<close> texts of the errors they relay.
\<close>

record 'n tools_env =
  te_plan :: "'n plan_env"
  te_decode :: "string \<Rightarrow> u128 option"
  te_parse_time :: "string \<Rightarrow> int option"
  te_manifest_from_str :: "string \<Rightarrow> string + raw_manifest"
  te_read_to_string :: "string \<Rightarrow> string + string"
  te_request_to_string :: "scan_request \<Rightarrow> string + string"
  te_request_from_str :: "string \<Rightarrow> string + scan_request"
  te_log :: log_env
  te_json_text :: "json \<Rightarrow> string" \<comment> \<open>the text of a JSON string, number, boolean or null\<close>
  te_show_manifest_error :: "manifest_error \<Rightarrow> string"
  te_show_plan_error :: "plan_error \<Rightarrow> string"
  te_show_store_error :: "store_error \<Rightarrow> string"
  te_show_log_error :: "log_error \<Rightarrow> string"

definition store_failure :: "'n tools_env \<Rightarrow> store_error \<Rightarrow> tool_failure" where
  "store_failure T e =
     (case e of
        IdempotencyConflict k p q \<Rightarrow> \<lparr>tf_error = ''idempotency_conflict'', tf_detail = te_show_store_error T e\<rparr>
      | _ \<Rightarrow> \<lparr>tf_error = ''store_unavailable'', tf_detail = te_show_store_error T e\<rparr>)"

definition no_such_scan :: "'n tools_env \<Rightarrow> u128 \<Rightarrow> tool_failure" where
  "no_such_scan T sid =
     \<lparr>tf_error = ''no_such_scan'', tf_detail = ''no scan '' @ id_display (pe_encode (te_plan T)) ''scan'' sid\<rparr>"

definition load_manifest :: "'n tools_env \<Rightarrow> string \<Rightarrow> tool_failure + 'n scope_manifest" where
  "load_manifest T path =
     (case te_read_to_string T path of
        Inl e \<Rightarrow> Inl \<lparr>tf_error = ''scope_unreadable'', tf_detail = path @ '': '' @ e\<rparr>
      | Inr contents \<Rightarrow>
          (case snd (manifest_load (pe_net (te_plan T)) (te_parse_time T) (te_manifest_from_str T) contents) of
             Inl e \<Rightarrow> Inl \<lparr>tf_error = ''scope_invalid'', tf_detail = path @ '': '' @ te_show_manifest_error T e\<rparr>
           | Inr m \<Rightarrow> Inr m))"

section \<open>Authorization\<close>

definition max_targets :: u64 where "max_targets = 65536"

record 'n authorized_scan =
  az_manifest :: "'n scope_manifest"
  az_request :: scan_request
  az_plan :: scan_plan

datatype 'n authorization = AuthorizationApproved "'n authorized_scan" | AuthorizationDenied string string scan_plan

definition authorize ::
  "'n tools_env \<Rightarrow> 'n scope_manifest \<Rightarrow> scan_request \<Rightarrow> string \<Rightarrow> (tool_failure + 'n authorization) rust"
where
  "authorize T m request now =
     rust_bind (plan_build (te_plan T) request max_targets) (\<lambda>built.
     Ret (case built of
        Inl e \<Rightarrow> Inl \<lparr>tf_error = ''invalid_plan'', tf_detail = te_show_plan_error T e\<rparr>
      | Inr plan \<Rightarrow>
          (case evaluate (pe_net (te_plan T)) (te_parse_time T) (pe_encode (te_plan T)) m request (pl_targets plan) now of
             Approved \<Rightarrow> Inr (AuthorizationApproved \<lparr>az_manifest = m, az_request = request, az_plan = plan\<rparr>)
           | Denied reason detail \<Rightarrow> Inr (AuthorizationDenied (deny_code reason) detail plan))))"

definition estimated_targets :: "'n authorized_scan \<Rightarrow> u64" where
  "estimated_targets a = of_nat (length (pl_targets (az_plan a)))"

definition estimated_probes :: "'n authorized_scan \<Rightarrow> u64" where
  "estimated_probes a = plan_len (az_plan a)"

datatype policy_tag = TagApproved | TagDenied

record scan_preview_output =
  pv_policy_decision :: policy_tag
  pv_plan_hash :: "digest option"
  pv_estimated_targets :: "u64 option"
  pv_estimated_probes :: "u64 option"
  pv_estimated_runtime_seconds :: "u64 option"
  pv_scope_id :: "u128 option"
  pv_reason_code :: "string option"
  pv_detail :: "string option"

definition denied_preview :: "string \<Rightarrow> string \<Rightarrow> scan_preview_output" where
  "denied_preview code detail =
     \<lparr>pv_policy_decision = TagDenied, pv_plan_hash = None, pv_estimated_targets = None, pv_estimated_probes = None,
      pv_estimated_runtime_seconds = None, pv_scope_id = None, pv_reason_code = Some code, pv_detail = Some detail\<rparr>"

text \<open>What a preview and a start have in common: the manifest, the request, the decision.\<close>

definition requested ::
  "'n tools_env \<Rightarrow> string \<Rightarrow> scan_request_spec \<Rightarrow> string \<Rightarrow> (tool_failure + 'n authorization) rust"
where
  "requested T path spec now =
     (case load_manifest T path of
        Inl e \<Rightarrow> Ret (Inl e)
      | Inr m \<Rightarrow>
          (case into_request spec (sm_id m) (sm_ceiling m) of
             Inl e \<Rightarrow> Ret (Inl e)
           | Inr request \<Rightarrow> authorize T m request now))"

definition preview ::
  "'n tools_env \<Rightarrow> string \<Rightarrow> scan_request_spec \<Rightarrow> string \<Rightarrow> (tool_failure + scan_preview_output) rust"
where
  "preview T path spec now =
     rust_bind (requested T path spec now) (\<lambda>r. Ret (case r of
        Inl e \<Rightarrow> Inl e
      | Inr (AuthorizationDenied code detail plan) \<Rightarrow> Inr (denied_preview code detail)
      | Inr (AuthorizationApproved a) \<Rightarrow>
          Inr \<lparr>pv_policy_decision = TagApproved, pv_plan_hash = Some (pl_hash (az_plan a)),
            pv_estimated_targets = Some (estimated_targets a), pv_estimated_probes = Some (estimated_probes a),
            pv_estimated_runtime_seconds = Some (estimated_runtime_seconds (estimated_probes a)
              (maximum_packets_per_second (sr_budgets (az_request a)))),
            pv_scope_id = Some (sm_id (az_manifest a)), pv_reason_code = None, pv_detail = None\<rparr>))"

section \<open>Starting a scan\<close>

text \<open>The state directory: the task store, the event logs, and the markers that ask a scan to stop.\<close>

record tools_state =
  tl_db :: db
  tl_log :: "u128 \<Rightarrow> log_file"
  tl_cancel :: "u128 \<Rightarrow> bool"

text \<open>
  What a call meets: a fresh identifier, the clock's readings, faults of the database, what other
  connections do inside \<open>start_or_reuse\<close>, and what other processes do before the log is opened.
\<close>

record outside =
  ou_scan_id :: u128
  ou_pk_first :: bool
  ou_store_fault :: store_fault
  ou_inserted_at :: string
  ou_started_at :: string
  ou_before_insert :: "db \<Rightarrow> db"
  ou_after_insert :: "db \<Rightarrow> db"
  ou_status_fault :: "sql_error option"
  ou_meanwhile :: "tools_state \<Rightarrow> tools_state"
  ou_clear_fails :: bool
  ou_instant :: nat

record task_handle =
  th_task_id :: u128
  th_plan_hash :: digest
  th_policy_decision :: policy_tag
  th_estimated_targets :: u64
  th_status :: task_status

record scan_start_output =
  so_policy_decision :: policy_tag
  so_handle :: "task_handle option"
  so_reason_code :: "string option"
  so_detail :: "string option"
  so_reused :: bool

record work =
  wk_scan_id :: u128
  wk_from_index :: u64
  wk_ledger :: ledger
  wk_log :: group_commit_log

definition open_log :: "'n tools_env \<Rightarrow> outside \<Rightarrow> u128 \<Rightarrow> tools_state \<Rightarrow> (tool_failure + group_commit_log) \<times> tools_state" where
  "open_log T A sid X =
     (case gc_open (te_log T) sid group_commit_config_default (ou_instant A) (tl_log X sid) of
        (Inl e, f) \<Rightarrow> (Inl \<lparr>tf_error = ''log_unavailable'', tf_detail = te_show_log_error T e\<rparr>, X\<lparr>tl_log := (tl_log X)(sid := f)\<rparr>)
      | (Inr g, f) \<Rightarrow> (Inr g, X\<lparr>tl_log := (tl_log X)(sid := f)\<rparr>))"

text \<open>A marker that cannot be removed stays, and nobody is told.\<close>

definition clear_marker :: "outside \<Rightarrow> u128 \<Rightarrow> tools_state \<Rightarrow> tools_state" where
  "clear_marker A sid X = (if ou_clear_fails A then X else X\<lparr>tl_cancel := (tl_cancel X)(sid := False)\<rparr>)"

definition set_running :: "'n tools_env \<Rightarrow> outside \<Rightarrow> u128 \<Rightarrow> tools_state \<Rightarrow> (tool_failure + unit) \<times> tools_state" where
  "set_running T A sid X =
     (case ou_status_fault A of
        Some e \<Rightarrow> (Inl (store_failure T (Sqlite e)), X)
      | None \<Rightarrow>
          (case set_status (pe_encode (te_plan T)) sid TRunning (ou_started_at A) (tl_db X) of
             (Inl e, d) \<Rightarrow> (Inl (store_failure T e), X\<lparr>tl_db := d\<rparr>)
           | (Inr _, d) \<Rightarrow> (Inr (), X\<lparr>tl_db := d\<rparr>)))"

definition start_request_of :: "'n authorized_scan \<Rightarrow> string \<Rightarrow> start_request" where
  "start_request_of a document =
     \<lparr>sq_idempotency_key = sr_idempotency_key (az_request a), sq_plan_hash = pl_hash (az_plan a),
      sq_scope_id = sr_scope_id (az_request a), sq_request_json = document,
      sq_estimated_targets = estimated_targets a, sq_estimated_probes = estimated_probes a\<rparr>"

definition approved_output :: "'n authorized_scan \<Rightarrow> u128 \<Rightarrow> task_status \<Rightarrow> bool \<Rightarrow> scan_start_output" where
  "approved_output a sid status fresh =
     \<lparr>so_policy_decision = TagApproved,
      so_handle = Some \<lparr>th_task_id = sid, th_plan_hash = pl_hash (az_plan a), th_policy_decision = TagApproved,
        th_estimated_targets = estimated_targets a, th_status = status\<rparr>,
      so_reason_code = None, so_detail = None, so_reused = (\<not> fresh)\<rparr>"

text \<open>The work is handed to a scheduler: a scan begins exactly when there is some.\<close>

definition admit_into_store ::
  "'n tools_env \<Rightarrow> outside \<Rightarrow> 'n authorized_scan \<Rightarrow> tools_state
     \<Rightarrow> (tool_failure + scan_start_output \<times> work option) rust \<times> tools_state"
where
  "admit_into_store T A a X =
     (case te_request_to_string T (az_request a) of
        Inl e \<Rightarrow> (Ret (Inl \<lparr>tf_error = ''request_unserializable'', tf_detail = e\<rparr>), X)
      | Inr document \<Rightarrow>
          let d0 = tl_db X; d1 = ou_before_insert A d0; d2 = ou_after_insert A d1
          in (case start_or_reuse (pe_encode (te_plan T)) (te_decode T) (ou_pk_first A) (ou_store_fault A)
                  (start_request_of a document) (ou_scan_id A) (ou_inserted_at A) d0 d1 d2 of
                (Panic, d) \<Rightarrow> (Panic, X\<lparr>tl_db := d\<rparr>)
              | (Ret (Inl e), d) \<Rightarrow> (Ret (Inl (store_failure T e)), X\<lparr>tl_db := d\<rparr>)
              | (Ret (Inr (Reused sid status)), d) \<Rightarrow> (Ret (Inr (approved_output a sid status False, None)), X\<lparr>tl_db := d\<rparr>)
              | (Ret (Inr (Started sid)), d) \<Rightarrow>
                  (case set_running T A sid (X\<lparr>tl_db := d\<rparr>) of
                     (Inl e, X) \<Rightarrow> (Ret (Inl e), X)
                   | (Inr _, X) \<Rightarrow>
                       (case open_log T A sid (ou_meanwhile A X) of
                          (Inl e, X) \<Rightarrow> (Ret (Inl e), X)
                        | (Inr g, X) \<Rightarrow>
                            (Ret (Inr (approved_output a sid TRunning True,
                               Some \<lparr>wk_scan_id = sid, wk_from_index = 0, wk_ledger = ledger_new (sr_budgets (az_request a)),
                                 wk_log = g\<rparr>)), clear_marker A sid X)))))"

section \<open>Resuming one\<close>

record scan_resume_output =
  ro_scan_id :: u128
  ro_status :: task_status
  ro_resumed_from_unit :: u64
  ro_units_total :: u64
  ro_resumed :: bool

definition record_for :: "'n tools_env \<Rightarrow> u128 \<Rightarrow> db \<Rightarrow> (tool_failure + task_record) rust" where
  "record_for T sid d =
     rust_bind (store_get (pe_encode (te_plan T)) (te_decode T) sid d) (\<lambda>r. Ret (case r of
        Inl e \<Rightarrow> Inl (store_failure T e)
      | Inr None \<Rightarrow> Inl (no_such_scan T sid)
      | Inr (Some rec) \<Rightarrow> Inr rec))"

definition plan_mismatch :: "'n tools_env \<Rightarrow> u128 \<Rightarrow> digest \<Rightarrow> digest \<Rightarrow> tool_failure" where
  "plan_mismatch T sid stored produced =
     \<lparr>tf_error = ''plan_mismatch'',
      tf_detail = ''scan '' @ id_display (pe_encode (te_plan T)) ''scan'' sid @ '' was started against plan '' @
        digest_display stored @ '' but this scope and request produce '' @ digest_display produced\<rparr>"

text \<open>The decision to resume: it reads the state directory and changes nothing.\<close>

definition resume_decision ::
  "'n tools_env \<Rightarrow> string \<Rightarrow> u128 \<Rightarrow> string \<Rightarrow> db \<Rightarrow> (tool_failure + task_record \<times> 'n authorized_scan \<times> u64 option) rust"
where
  "resume_decision T path sid now d =
     (case load_manifest T path of
        Inl e \<Rightarrow> Ret (Inl e)
      | Inr m \<Rightarrow>
          rust_bind (record_for T sid d) (\<lambda>r. case r of
             Inl e \<Rightarrow> Ret (Inl e)
           | Inr rec \<Rightarrow>
               (case te_request_from_str T (tr_request_json rec) of
                  Inl e \<Rightarrow> Ret (Inl \<lparr>tf_error = ''stored_request_unreadable'', tf_detail = e\<rparr>)
                | Inr request \<Rightarrow>
                    rust_bind (authorize T m request now) (\<lambda>decided. Ret (case decided of
                       Inl e \<Rightarrow> Inl e
                     | Inr (AuthorizationDenied code detail plan) \<Rightarrow> Inl \<lparr>tf_error = code, tf_detail = detail\<rparr>
                     | Inr (AuthorizationApproved a) \<Rightarrow>
                         if pl_hash (az_plan a) \<noteq> tr_plan_hash rec
                         then Inl (plan_mismatch T sid (tr_plan_hash rec) (pl_hash (az_plan a)))
                         else (case next_pending_unit (pe_encode (te_plan T)) sid (plan_len (az_plan a)) d of
                                 Inl e \<Rightarrow> Inl (store_failure T e)
                               | Inr from_index \<Rightarrow> Inr (rec, a, from_index)))))))"

definition prepare_resume ::
  "'n tools_env \<Rightarrow> outside \<Rightarrow> string \<Rightarrow> u128 \<Rightarrow> string \<Rightarrow> tools_state
     \<Rightarrow> (tool_failure + scan_resume_output \<times> ('n authorized_scan \<times> work) option) rust \<times> tools_state"
where
  "prepare_resume T A path sid now X =
     (case resume_decision T path sid now (tl_db X) of
        Panic \<Rightarrow> (Panic, X)
      | Ret (Inl e) \<Rightarrow> (Ret (Inl e), X)
      | Ret (Inr (rec, a, None)) \<Rightarrow>
          (Ret (Inr (\<lparr>ro_scan_id = sid, ro_status = tr_status rec, ro_resumed_from_unit = plan_len (az_plan a),
             ro_units_total = plan_len (az_plan a), ro_resumed = False\<rparr>, None)), X)
      | Ret (Inr (rec, a, Some from_index)) \<Rightarrow>
          (case open_log T A sid (ou_meanwhile A X) of
             (Inl e, X) \<Rightarrow> (Ret (Inl e), X)
           | (Inr g, X) \<Rightarrow>
               (case set_running T A sid (clear_marker A sid X) of
                  (Inl e, X) \<Rightarrow> (Ret (Inl e), X\<lparr>tl_log := (tl_log X)(sid := (tl_log X sid)\<lparr>lf_locked := False\<rparr>)\<rparr>)
                | (Inr _, X) \<Rightarrow>
                    (Ret (Inr (\<lparr>ro_scan_id = sid, ro_status = TRunning, ro_resumed_from_unit = from_index,
                        ro_units_total = plan_len (az_plan a), ro_resumed = True\<rparr>,
                       Some (a, \<lparr>wk_scan_id = sid, wk_from_index = from_index,
                         wk_ledger = ledger_resumed (sr_budgets (az_request a)) (tr_packets_spent rec) (tr_elapsed_seconds rec),
                         wk_log = g\<rparr>))), X))))"

section \<open>Following and stopping one\<close>

record scan_events_output =
  eo_events :: "event list"
  eo_next_cursor :: u64
  eo_has_more :: bool

definition no_such_log :: "'n tools_env \<Rightarrow> log_file \<Rightarrow> log_error \<Rightarrow> tool_failure" where
  "no_such_log T f e =
     (if lf_bytes f = None then \<lparr>tf_error = ''no_such_scan_log'', tf_detail = te_show_log_error T e\<rparr>
      else \<lparr>tf_error = ''log_unreadable'', tf_detail = te_show_log_error T e\<rparr>)"

text \<open>\<open>f\<close> is the log when the reader opens it, \<open>f'\<close> when it reads: a scan may be writing.\<close>

definition events_page ::
  "'n tools_env \<Rightarrow> u128 \<Rightarrow> u64 \<Rightarrow> u32 \<Rightarrow> log_file \<Rightarrow> log_file \<Rightarrow> tool_failure + scan_events_output"
where
  "events_page T sid after_sequence limit f f' =
     (if limit = 0 \<or> limit > 1000
      then Inl \<lparr>tf_error = ''bad_limit'', tf_detail = ''limit must be 1-1000, got '' @ show_word limit\<rparr>
      else case reader_open (te_log T) sid f of
        Inl e \<Rightarrow> Inl (no_such_log T f e)
      | Inr reader \<Rightarrow>
          (case reader_read_from (te_log T) reader f' after_sequence of
             Inl e \<Rightarrow> Inl \<lparr>tf_error = ''log_unreadable'', tf_detail = te_show_log_error T e\<rparr>
           | Inr available \<Rightarrow>
               let events = take (unat limit) available
               in Inr \<lparr>eo_events = events,
                    eo_next_cursor = (if events = [] then after_sequence else ev_sequence (last events)),
                    eo_has_more = (length available > unat limit)\<rparr>))"

record scan_status_output =
  st_scan_id :: u128
  st_status :: task_status
  st_estimated_targets :: u64
  st_units_completed :: u64
  st_units_total :: u64
  st_packets_spent :: u64
  st_elapsed_seconds :: u64
  st_last_sequence :: u64
  st_plan_hash :: digest
  st_scope_id :: u128
  st_idempotency_key :: string
  st_created_at :: string
  st_updated_at :: string

definition scan_status :: "'n tools_env \<Rightarrow> u128 \<Rightarrow> db \<Rightarrow> (tool_failure + scan_status_output) rust" where
  "scan_status T sid d =
     rust_bind (record_for T sid d) (\<lambda>r. Ret (case r of
        Inl e \<Rightarrow> Inl e
      | Inr rec \<Rightarrow>
          (case completed_units (pe_encode (te_plan T)) sid d of
             Inl e \<Rightarrow> Inl (store_failure T e)
           | Inr units \<Rightarrow> 
               Inr \<lparr>st_scan_id = tr_scan_id rec, st_status = tr_status rec, st_estimated_targets = tr_estimated_targets rec,
                 st_units_completed = of_nat (length units), st_units_total = tr_estimated_probes rec,
                 st_packets_spent = tr_packets_spent rec, st_elapsed_seconds = tr_elapsed_seconds rec,
                 st_last_sequence = tr_last_sequence rec, st_plan_hash = tr_plan_hash rec, st_scope_id = tr_scope_id rec,
                 st_idempotency_key = tr_idempotency_key rec, st_created_at = tr_created_at rec,
                 st_updated_at = tr_updated_at rec\<rparr>)))"

record scan_cancel_output =
  co_scan_id :: u128
  co_status :: task_status
  co_units_completed :: u64
  co_resumable :: bool
  co_cancellation_requested :: bool

definition scan_cancel ::
  "'n tools_env \<Rightarrow> u128 \<Rightarrow> string option \<Rightarrow> tools_state \<Rightarrow> (tool_failure + scan_cancel_output) rust \<times> tools_state"
where
  "scan_cancel T sid marker_fault X =
     (case record_for T sid (tl_db X) of
        Panic \<Rightarrow> (Panic, X)
      | Ret (Inl e) \<Rightarrow> (Ret (Inl e), X)
      | Ret (Inr rec) \<Rightarrow>
          (case completed_units (pe_encode (te_plan T)) sid (tl_db X) of
             Inl e \<Rightarrow> (Ret (Inl (store_failure T e)), X)
           | Inr units \<Rightarrow>
               (case next_pending_unit (pe_encode (te_plan T)) sid (tr_estimated_probes rec) (tl_db X) of
                  Inl e \<Rightarrow> (Ret (Inl (store_failure T e)), X)
                | Inr pending \<Rightarrow>
                    (case marker_fault of
                       Some e \<Rightarrow> (Ret (Inl \<lparr>tf_error = ''state_dir_unwritable'', tf_detail = e\<rparr>), X)
                     | None \<Rightarrow>
                         (Ret (Inr \<lparr>co_scan_id = sid, co_status = tr_status rec, co_units_completed = of_nat (length units),
                            co_resumable = (pending \<noteq> None), co_cancellation_requested = True\<rparr>), X\<lparr>tl_cancel := (tl_cancel X)(sid := True)\<rparr>)))))"

section \<open>The gated start\<close>

text \<open>A call of \<open>scan.start\<close>, as it arrives.\<close>

record start_call =
  sc_input :: "string + string \<times> scan_request_spec" \<comment> \<open>the arguments, read as the input type\<close>
  sc_arguments :: "(string \<times> json) list option"
  sc_client_info :: "(string \<times> string) option"
  sc_elicits :: bool
  sc_request_state :: "string option"
  sc_responses :: "(string \<rightharpoonup> json) option"

definition caller_of :: "start_call \<Rightarrow> string" where
  "caller_of c = (case sc_client_info c of None \<Rightarrow> unidentified_principal | Some (name, version) \<Rightarrow> name @ ''/'' @ version)"

text \<open>The arguments are digested in a rendering of their own: sorted keys, any number.\<close>

function render :: "(json \<Rightarrow> string) \<Rightarrow> json \<Rightarrow> string" where
  "render W (JObject m) =
     ''{'' @ join_comma (map snd (sort_key fst (map (\<lambda>kv. (fst kv, W (JString (fst kv)) @ '':'' @ render W (snd kv))) m))) @ ''}''"
| "render W (JArray vs) = ''['' @ join_comma (map (render W) vs) @ '']''"
| "render W JNull = W JNull"
| "render W (JBool b) = W (JBool b)"
| "render W (JNumber n) = W (JNumber n)"
| "render W (JString s) = W (JString s)"
  by pat_completeness auto
termination
  by (relation "measure (size \<circ> snd)")
    (auto dest: size_json_object simp: less_Suc_eq_le intro: size_list_estimation')

definition arguments_digest :: "'n tools_env \<Rightarrow> (string \<times> json) list option \<Rightarrow> digest" where
  "arguments_digest T arguments =
     pe_of_bytes (te_plan T) (render (te_json_text T) (JObject (case arguments of Some m \<Rightarrow> m | None \<Rightarrow> [])))"

datatype start_answer =
    Completed scan_start_output
  | RefusedAnswer scan_start_output
  | InputRequired string
  | Failed tool_failure
  | MissingElicitation

definition denied_output :: "string \<Rightarrow> string \<Rightarrow> scan_start_output" where
  "denied_output code detail =
     \<lparr>so_policy_decision = TagDenied, so_handle = None, so_reason_code = Some code, so_detail = Some detail, so_reused = False\<rparr>"

definition begin_scan ::
  "'n tools_env \<Rightarrow> outside \<Rightarrow> 'n authorized_scan \<Rightarrow> gate \<Rightarrow> tools_state \<Rightarrow> start_answer rust \<times> work option \<times> gate \<times> tools_state"
where
  "begin_scan T A a g X =
     (case admit_into_store T A a X of
        (Panic, X) \<Rightarrow> (Panic, None, g, X)
      | (Ret (Inl e), X) \<Rightarrow> (Ret (Failed e), None, g, X)
      | (Ret (Inr (out, w)), X) \<Rightarrow> (Ret (Completed out), w, g, X))"

definition approve_then_begin ::
  "'n tools_env \<Rightarrow> outside \<Rightarrow> codec \<Rightarrow> u64 \<Rightarrow> u64 \<Rightarrow> start_call \<Rightarrow> 'n authorized_scan \<Rightarrow> gate \<Rightarrow> tools_state
     \<Rightarrow> start_answer rust \<times> work option \<times> gate \<times> tools_state"
where
  "approve_then_begin T A C at ms c a g X =
     (let plan_hash = digest_display (pl_hash (az_plan a))
      in case sc_request_state c of
           None \<Rightarrow>
             if \<not> sc_elicits c then (Ret MissingElicitation, None, g, X)
             else (case challenge C ms (caller_of c) (arguments_digest T (sc_arguments c)) plan_hash (estimated_targets a) g of
                     (Inl e, g) \<Rightarrow> (Ret (Failed \<lparr>tf_error = ''approval_unissuable'', tf_detail = e\<rparr>), None, g, X)
                   | (Inr token, g) \<Rightarrow> (Ret (InputRequired token), None, g, X))
         | Some state \<Rightarrow>
             (case redeem C at ms (Some state) (sc_responses c) (caller_of c) (arguments_digest T (sc_arguments c)) plan_hash g of
                (Inl e, g) \<Rightarrow>
                  (Ret (Failed \<lparr>tf_error = approval_code e, tf_detail = approval_detail e\<rparr>), None, g, X)
              | (Inr _, g) \<Rightarrow> begin_scan T A a g X))"

definition start_tool ::
  "'n tools_env \<Rightarrow> outside \<Rightarrow> codec \<Rightarrow> string \<Rightarrow> u64 \<Rightarrow> u64 \<Rightarrow> start_call \<Rightarrow> gate \<Rightarrow> tools_state
     \<Rightarrow> start_answer rust \<times> work option \<times> gate \<times> tools_state"
where
  "start_tool T A C now at ms c g X =
     (case sc_input c of
        Inl e \<Rightarrow> (Ret (Failed \<lparr>tf_error = ''bad_arguments'', tf_detail = e\<rparr>), None, g, X)
      | Inr (path, spec) \<Rightarrow>
          (case requested T path spec now of
             Panic \<Rightarrow> (Panic, None, g, X)
           | Ret (Inl e) \<Rightarrow> (Ret (Failed e), None, g, X)
           | Ret (Inr (AuthorizationDenied code detail plan)) \<Rightarrow> (Ret (RefusedAnswer (denied_output code detail)), None, g, X)
           | Ret (Inr (AuthorizationApproved a)) \<Rightarrow>
               if requires_approval g (estimated_targets a) then approve_then_begin T A C at ms c a g X
               else begin_scan T A a g X))"

section \<open>What an authorized scan is\<close>

definition authorized :: "'n tools_env \<Rightarrow> string \<Rightarrow> 'n authorized_scan \<Rightarrow> bool" where
  "authorized T now a \<longleftrightarrow>
     plan_build (te_plan T) (az_request a) max_targets = Ret (Inr (az_plan a)) \<and>
     sr_scope_id (az_request a) = sm_id (az_manifest a) \<and>
     (\<exists>t. te_parse_time T now = Some t \<and> t \<le> sm_not_after (az_manifest a)) \<and>
     (\<forall>ip \<in> set (pl_targets (az_plan a)). allows (pe_net (te_plan T)) (az_manifest a) ip) \<and>
     maximum_packets (sr_budgets (az_request a)) \<le> maximum_packets (sm_ceiling (az_manifest a)) \<and>
     maximum_runtime_seconds (sr_budgets (az_request a)) \<le> maximum_runtime_seconds (sm_ceiling (az_manifest a)) \<and>
     maximum_packets_per_second (sr_budgets (az_request a)) \<le> maximum_packets_per_second (sm_ceiling (az_manifest a))"

lemma evaluate_approves:
  assumes "evaluate N parse encode m r targets now = Approved"
  shows "sr_scope_id r = sm_id m" "\<exists>t. parse now = Some t \<and> t \<le> sm_not_after m" "\<forall>ip \<in> set targets. allows N m ip"
    "maximum_packets (sr_budgets r) \<le> maximum_packets (sm_ceiling m)"
    "maximum_runtime_seconds (sr_budgets r) \<le> maximum_runtime_seconds (sm_ceiling m)"
    "maximum_packets_per_second (sr_budgets r) \<le> maximum_packets_per_second (sm_ceiling m)"
  using assms
  by (auto simp: evaluate_def is_expired_def Let_def find_None_iff not_less split: if_splits option.splits)

lemma authorize_approved:
  assumes "authorize T m request now = Ret (Inr (AuthorizationApproved a))"
  shows "authorized T now a" "az_manifest a = m" "az_request a = request"
proof -
  obtain plan where plan: "plan_build (te_plan T) request max_targets = Ret (Inr plan)"
    and ev: "evaluate (pe_net (te_plan T)) (te_parse_time T) (pe_encode (te_plan T)) m request (pl_targets plan) now = Approved"
    and a: "a = \<lparr>az_manifest = m, az_request = request, az_plan = plan\<rparr>"
    using assms unfolding authorize_def
    by (cases "plan_build (te_plan T) request max_targets") (auto split: sum.splits policy_decision.splits)
  show "az_manifest a = m" "az_request a = request" by (simp_all add: a)
  show "authorized T now a" using plan evaluate_approves [OF ev] by (simp add: authorized_def a)
qed

lemma requested_approved:
  assumes "requested T path spec now = Ret (Inr (AuthorizationApproved a))"
  shows "authorized T now a" "load_manifest T path = Inr (az_manifest a)"
    "into_request spec (sm_id (az_manifest a)) (sm_ceiling (az_manifest a)) = Inr (az_request a)"
proof -
  obtain m request where *: "load_manifest T path = Inr m" "into_request spec (sm_id m) (sm_ceiling m) = Inr request"
    "authorize T m request now = Ret (Inr (AuthorizationApproved a))"
    using assms by (auto simp: requested_def split: sum.splits)
  then show "authorized T now a" "load_manifest T path = Inr (az_manifest a)"
    "into_request spec (sm_id (az_manifest a)) (sm_ceiling (az_manifest a)) = Inr (az_request a)"
    using authorize_approved [OF *(3)] by simp_all
qed

lemma rust_bind_RetE:
  assumes "rust_bind m f = Ret b"
  obtains a where "m = Ret a" "f a = Ret b"
  using assms by (cases m) auto

lemma lookup_outcome: "store_lookup decode d key plan = Ret (Inr (Some r)) \<Longrightarrow> \<exists>sid st. r = Reused sid st"
  by (auto simp: store_lookup_def split: option.splits if_splits elim!: rust_bind_RetE)

lemma start_or_reuse_started:
  assumes "start_or_reuse encode decode pk_first fault req scan_id now d0 d1 d2 = (Ret (Inr (Started sid)), d')"
  shows "sid = scan_id \<and> (\<exists>row. new_row encode req scan_id now = Inr row \<and> insert_scan pk_first row d1 = Inr d')"
  using assms lookup_outcome unfolding start_or_reuse_def Let_def
  by (fastforce simp: res_bind_Inr_iff split: sum.splits rust.splits option.splits store_fault.splits if_splits)

lemma open_log_opened:
  assumes "open_log T A sid X = (Inr g, X')"
  shows "lf_locked (tl_log X' sid)" "tl_db X' = tl_db X" "tl_cancel X' = tl_cancel X" "\<not> lf_locked (tl_log X sid)"
    "\<forall>other. other \<noteq> sid \<longrightarrow> tl_log X' other = tl_log X other"
  using assms
  by (auto simp: open_log_def gc_open_def log_open_without_durability_barrier_def open_with_durability_def Let_def
      split: sum.splits prod.splits if_splits)

lemma open_log_refused:
  assumes "open_log T A sid X = (Inl e, X')"
  shows "tf_error e = ''log_unavailable''" "tl_db X' = tl_db X" "tl_cancel X' = tl_cancel X"
    "lf_locked (tl_log X' sid) = lf_locked (tl_log X sid)" "\<forall>other. other \<noteq> sid \<longrightarrow> tl_log X' other = tl_log X other"
  using assms
  by (auto simp: open_log_def gc_open_def log_open_without_durability_barrier_def open_with_durability_def Let_def
      split: sum.splits prod.splits if_splits)

text \<open>The two endings that matter of an admission: work, or a log that somebody else holds.\<close>

lemma admission_cases:
  assumes "admit_into_store T A a X = (Ret r, X')"
  obtains (began) d X1 X2 g where
      "set_running T A (ou_scan_id A) (X\<lparr>tl_db := d\<rparr>) = (Inr (), X1)" "open_log T A (ou_scan_id A) (ou_meanwhile A X1) = (Inr g, X2)"
      "X' = clear_marker A (ou_scan_id A) X2"
      "r = Inr (approved_output a (ou_scan_id A) TRunning True,
         Some \<lparr>wk_scan_id = ou_scan_id A, wk_from_index = 0, wk_ledger = ledger_new (sr_budgets (az_request a)), wk_log = g\<rparr>)"
  | (nothing) "\<forall>out w. r \<noteq> Inr (out, Some w)"
proof (cases "te_request_to_string T (az_request a)")
  case (Inl e)
  have "\<forall>out w. r \<noteq> Inr (out, Some w)" using assms by (auto simp: admit_into_store_def Inl)
  then show ?thesis by (rule nothing)
next
  case (Inr document)
  let ?d1 = "ou_before_insert A (tl_db X)"
  obtain res d where sr: "start_or_reuse (pe_encode (te_plan T)) (te_decode T) (ou_pk_first A) (ou_store_fault A)
      (start_request_of a document) (ou_scan_id A) (ou_inserted_at A) (tl_db X) ?d1 (ou_after_insert A ?d1) = (res, d)" by fastforce
  note run = assms [unfolded admit_into_store_def Inr sum.case Let_def sr prod.case]
  show ?thesis
  proof (cases "\<exists>sid. res = Ret (Inr (Started sid))")
    case True
    then obtain sid where res: "res = Ret (Inr (Started sid))" by blast
    then have sid: "sid = ou_scan_id A" using start_or_reuse_started sr by blast
    obtain s1 X1 where s1: "set_running T A sid (X\<lparr>tl_db := d\<rparr>) = (s1, X1)" by fastforce
    obtain o1 X2 where o1: "open_log T A sid (ou_meanwhile A X1) = (o1, X2)" by fastforce
    note run' = run [unfolded res rust.case sum.case start_outcome.case s1 prod.case o1]
    show ?thesis
    proof (cases s1)
      case (Inl e)
      then have "r = Inl e" using run' by simp
      then have "\<forall>out w. r \<noteq> Inr (out, Some w)" by simp
      then show ?thesis by (rule nothing)
    next
      case s: (Inr u)
      show ?thesis
      proof (cases o1)
        case (Inl e)
        then have "r = Inl e" using run' s by simp
        then have "\<forall>out w. r \<noteq> Inr (out, Some w)" by simp
      then show ?thesis by (rule nothing)
      next
        case (Inr g)
        show ?thesis
          by (rule began [of d X1 g X2]) (use run' s s1 o1 Inr in \<open>simp_all add: sid\<close>)
      qed
    qed
  next
    case False
    have "\<forall>out w. r \<noteq> Inr (out, Some w)"
    proof (cases res)
      case Panic
      then show ?thesis using run by simp
    next
      case (Ret q)
      show ?thesis
      proof (cases q)
        case (Inl e)
        then show ?thesis using run by (auto simp: Ret)
      next
        case (Inr o1)
        then show ?thesis using run False by (cases o1) (auto simp: Ret)
      qed
    qed
    then show ?thesis by (rule nothing)
  qed
qed

lemma admit_work:
  assumes "admit_into_store T A a X = (Ret (Inr (out, Some w)), X')"
  shows "wk_scan_id w = ou_scan_id A" "wk_from_index w = 0" "wk_ledger w = ledger_new (sr_budgets (az_request a))"
    "lf_locked (tl_log X' (wk_scan_id w))" "tl_cancel X' (wk_scan_id w) \<Longrightarrow> ou_clear_fails A"
    "out = approved_output a (wk_scan_id w) TRunning True"
proof -
  obtain X1 X2 g where *: "open_log T A (ou_scan_id A) (ou_meanwhile A X1) = (Inr g, X2)" "X' = clear_marker A (ou_scan_id A) X2"
    and eq: "out = approved_output a (ou_scan_id A) TRunning True"
      "w = \<lparr>wk_scan_id = ou_scan_id A, wk_from_index = 0, wk_ledger = ledger_new (sr_budgets (az_request a)), wk_log = g\<rparr>"
    by (cases rule: admission_cases [OF assms]) auto
  show "wk_scan_id w = ou_scan_id A" "wk_from_index w = 0" "wk_ledger w = ledger_new (sr_budgets (az_request a))"
    "out = approved_output a (wk_scan_id w) TRunning True"
    by (simp_all add: eq)
  show "lf_locked (tl_log X' (wk_scan_id w))" using open_log_opened(1) [OF *(1)] by (simp add: eq *(2) clear_marker_def)
  show "tl_cancel X' (wk_scan_id w) \<Longrightarrow> ou_clear_fails A" by (auto simp: eq *(2) clear_marker_def split: if_splits)
qed

section \<open>Nothing starts unasked\<close>

lemma redeem_accepted:
  assumes "redeem C at ms state responses caller d plan g = (Inr p, g')"
  shows "granted responses \<and> pa_plan_hash p = plan"
  using assms by (cases rule: redeem_cases) auto

lemma begin_scan_cases:
  assumes "begin_scan T A a g X = (ans, w, g', X')"
  shows "g' = g \<and> (\<forall>k. w = Some k \<longrightarrow> (\<exists>out. ans = Ret (Completed out) \<and> admit_into_store T A a X = (Ret (Inr (out, Some k)), X')))"
proof (cases "admit_into_store T A a X")
  case (Pair res X1)
  note run = assms [unfolded begin_scan_def Pair prod.case]
  show ?thesis
  proof (cases res)
    case Panic
    then show ?thesis using run by simp
  next
    case (Ret r)
    show ?thesis
    proof (cases r)
      case (Inl e)
      then show ?thesis using run by (simp add: Ret)
    next
      case (Inr p)
      then show ?thesis using run Pair by (cases p) (auto simp: Ret)
    qed
  qed
qed

lemma begin_scan_work:
  assumes "begin_scan T A a g X = (ans, Some k, g', X')"
  shows "wk_ledger k = ledger_new (sr_budgets (az_request a)) \<and> wk_from_index k = 0 \<and>
    lf_locked (tl_log X' (wk_scan_id k)) \<and> (tl_cancel X' (wk_scan_id k) \<longrightarrow> ou_clear_fails A)"
proof -
  obtain out where ran: "admit_into_store T A a X = (Ret (Inr (out, Some k)), X')" using begin_scan_cases [OF assms] by auto
  show ?thesis using admit_work(2-5) [OF ran] by simp
qed

text \<open>What a start that begins work, or touches the state directory at all, has behind it.\<close>

lemma start_tool_cases:
  assumes "start_tool T A C now at ms c g X = (ans, w, g', X')"
  obtains (kept) "w = None" "X' = X"
  | (free) path spec a where "sc_input c = Inr (path, spec)" "requested T path spec now = Ret (Inr (AuthorizationApproved a))"
      "\<not> requires_approval g (estimated_targets a)" "begin_scan T A a g X = (ans, w, g', X')"
  | (asked) path spec a s p g1 where "sc_input c = Inr (path, spec)" "requested T path spec now = Ret (Inr (AuthorizationApproved a))"
      "sc_request_state c = Some s"
      "redeem C at ms (Some s) (sc_responses c) (caller_of c) (arguments_digest T (sc_arguments c)) (digest_display (pl_hash (az_plan a))) g = (Inr p, g1)"
      "begin_scan T A a g1 X = (ans, w, g', X')"
proof (cases "\<exists>path spec a. sc_input c = Inr (path, spec) \<and> requested T path spec now = Ret (Inr (AuthorizationApproved a))")
  case False
  have "w = None \<and> X' = X"
  proof (cases "sc_input c")
    case (Inl e)
    then show ?thesis using assms by (auto simp: start_tool_def)
  next
    case (Inr input)
    obtain path spec where input: "input = (path, spec)" by fastforce
    note run = assms [unfolded start_tool_def Inr input sum.case prod.case]
    show ?thesis
    proof (cases "requested T path spec now")
      case Panic
      then show ?thesis using run by simp
    next
      case (Ret r)
      note run = run [unfolded Ret rust.case]
      show ?thesis
      proof (cases r)
        case (Inl e)
        then show ?thesis using run by simp
      next
        case r: (Inr decided)
        then show ?thesis using run False Inr input Ret by (cases decided) auto
      qed
    qed
  qed
  then show ?thesis using kept by blast
next
  case True
  then obtain path spec a where *: "sc_input c = Inr (path, spec)" "requested T path spec now = Ret (Inr (AuthorizationApproved a))" by blast
  show ?thesis
  proof (cases "requires_approval g (estimated_targets a)")
    case no: False
    then show ?thesis using assms free [OF *] by (simp add: start_tool_def *)
  next
    case yes: True
    then have gated: "approve_then_begin T A C at ms c a g X = (ans, w, g', X')" using assms by (simp add: start_tool_def *)
    show ?thesis
    proof (cases "sc_request_state c")
      case None
      have "w = None \<and> X' = X"
        using gated by (auto simp: approve_then_begin_def Let_def None split: if_splits sum.splits prod.splits)
      then show ?thesis using kept by blast
    next
      case (Some s)
      obtain r g1 where r: "redeem C at ms (Some s) (sc_responses c) (caller_of c) (arguments_digest T (sc_arguments c))
          (digest_display (pl_hash (az_plan a))) g = (r, g1)" by fastforce
      note run = gated [unfolded approve_then_begin_def Let_def Some option.case r prod.case]
      show ?thesis
      proof (cases r)
        case (Inl e)
        then show ?thesis using run kept by auto
      next
        case (Inr p)
        then show ?thesis using run r asked [OF * Some, of p g1] by simp
      qed
    qed
  qed
qed

end
