(* ===== verification/Tools_Safety.thy ===== *)
theory Tools_Safety
  imports Tools
begin

text \<open>
  What the tools of the agent surface promise: nothing starts without a manifest's and, where the
  server asks for it, a person's approval; a page of events follows on the page before; a resume is
  decided afresh; and what a refusal at the log leaves behind. First a small installation on which each
  promise is exercised.
\<close>

section \<open>A small installation, for the witnesses\<close>

definition sample_manifest :: "net scope_manifest" where
  "sample_manifest =
     \<lparr>sm_id = 7, sm_description = [], sm_not_after = 100, sm_allowed = [Net4 0x0A000000 8], sm_denied = [],
      sm_ceiling = sr_budgets (sample_request []), sm_had_signature = False\<rparr>"

definition sample_raw_manifest :: raw_manifest where
  "sample_raw_manifest =
     \<lparr>rm_id = 7, rm_description = [], rm_not_after = [], rm_allowed_cidrs = [''10.0.0.0/8''], rm_denied_cidrs = [],
      rm_budget_ceiling = sr_budgets (sample_request []), rm_signature = None\<rparr>"

definition sample_digest :: digest where "sample_digest = Digest (replicate 32 0)"

definition install_env :: "net plan_env" where
  "install_env = sample_env\<lparr>pe_of_bytes := (\<lambda>s. sample_digest)\<rparr>"

definition install_plan :: scan_plan where
  "install_plan = \<lparr>pl_targets = [V4 0x0A000001, V4 0x0A000002], pl_ports = [22, 80], pl_hash = sample_digest\<rparr>"

lemma install_env_simps [simp]:
  "pe_net install_env = prefixed_net" "pe_datasets install_env = pe_datasets sample_env" "pe_encode install_env = crockford_encode"
  "pe_literal install_env = json_literal" "pe_of_bytes install_env = (\<lambda>s. sample_digest)"
  by (simp_all add: install_env_def sample_env_def)

definition sample_tools :: "net tools_env" where
  "sample_tools =
     \<lparr>te_plan = install_env, te_decode = crockford_decode, te_parse_time = (\<lambda>_. Some 100),
      te_manifest_from_str = (\<lambda>_. Inr sample_raw_manifest), te_read_to_string = (\<lambda>_. Inr []),
      te_request_to_string = (\<lambda>_. Inr ''{}''), te_request_from_str = (\<lambda>_. Inr (sample_request ''key'')),
      te_log = sample_log_env, te_json_text = (\<lambda>_. []), te_show_manifest_error = (\<lambda>_. []),
      te_show_plan_error = (\<lambda>_. []), te_show_store_error = (\<lambda>_. []), te_show_log_error = (\<lambda>_. [])\<rparr>"

definition sample_spec :: scan_request_spec where
  "sample_spec =
     \<lparr>rq_targets = NonEmpty [''10.0.0.2'', ''10.0.0.1''], rq_objective = InventoryExposedServices,
      rq_ports = Explicit (NonEmpty [''80'', ''22'', ''80'']), rq_service_detection = service_detection_default,
      rq_evidence_level = EvHeaders, rq_max_packets = None, rq_max_runtime_seconds = None,
      rq_max_packets_per_second = None, rq_idempotency_key = ''key''\<rparr>"

definition sample_outside :: outside where
  "sample_outside =
     \<lparr>ou_scan_id = 5, ou_pk_first = True, ou_store_fault = StoreOk, ou_inserted_at = ''t'', ou_started_at = ''t'',
      ou_before_insert = id, ou_after_insert = id, ou_status_fault = None, ou_meanwhile = id, ou_clear_fails = False, ou_instant = 0\<rparr>"

definition sample_state :: tools_state where
  "sample_state = \<lparr>tl_db = empty_db, tl_log = (\<lambda>_. empty_file), tl_cancel = (\<lambda>_. True)\<rparr>"

definition sample_authorized :: "net authorized_scan" where
  "sample_authorized = \<lparr>az_manifest = sample_manifest, az_request = sample_request ''key'', az_plan = install_plan\<rparr>"

lemma sample_loads: "load_manifest sample_tools [] = Inr sample_manifest"
proof -
  have "parse_net prefixed_net ''10.0.0.0/8'' = Some (Net4 0x0A000000 8)" by code_simp
  then show ?thesis
    by (simp add: load_manifest_def sample_tools_def manifest_load_def sample_raw_manifest_def parse_cidrs_def
        collect_results.simps sample_manifest_def, simp add: prefixed_net_def)
qed

lemma sample_expansion:
  "expand_targets prefixed_net [''10.0.0.2'', ''10.0.0.1''] max_targets = Inr [V4 0x0A000001, V4 0x0A000002]"
proof -
  have "classify prefixed_net ''10.0.0.1'' = Inr (Single 0x0A000001)"
    "classify prefixed_net ''10.0.0.2'' = Inr (Single 0x0A000002)"
    by (simp_all add: classify_def parse_ip_simps)
  then show ?thesis
    by (simp add: expand_targets_def count_of_def sat_add_def Let_def bs_insert_def max_targets_def)
qed

lemma sample_plan_built: "plan_build install_env (sample_request key) max_targets = Ret (Inr install_plan)"
proof -
  let ?doc = "plan_document crockford_encode (sample_request key) [V4 0x0A000001, V4 0x0A000002] [22, 80]"
  have "\<exists>s. write_canonical json_literal ?doc = Inr s"
    by (rule write_total [OF _ no_float_document]) (simp add: json_literal_def)
  then obtain s where "canonical_json json_literal ?doc = Inr s" unfolding canonical_json_def by blast
  then have "plan_digest json_literal (\<lambda>s. sample_digest) ?doc = Inr sample_digest" by (simp add: plan_digest_def)
  moreover have "ne_vec (sr_targets (sample_request key)) = [''10.0.0.2'', ''10.0.0.1'']"
    "sr_ports (sample_request key) = Explicit (NonEmpty [''80'', ''22'', ''80''])"
    by (simp_all add: sample_request_def)
  ultimately show ?thesis
    unfolding plan_build_def by (simp add: sample_expansion sample_ports install_plan_def)
qed

lemma sample_request_of: "into_request sample_spec (sm_id sample_manifest) (sm_ceiling sample_manifest) = Inr (sample_request ''key'')"
  by (simp add: into_request_def sample_spec_def sample_manifest_def sample_request_def service_detection_default_def)

lemma sample_requested:
  "requested sample_tools [] sample_spec now = Ret (Inr (AuthorizationApproved sample_authorized))"
proof -
  have "evaluate prefixed_net (\<lambda>_. Some 100) crockford_encode sample_manifest (sample_request ''key'') (pl_targets install_plan) now = Approved"
  proof -
    have "\<forall>ip \<in> set (pl_targets install_plan). allows prefixed_net sample_manifest ip"
      unfolding allows_iff
      by (simp add: install_plan_def sample_manifest_def prefixed_net_def ordinary_unicast_range del: is_ordinary_unicast.simps)
    then have "find (\<lambda>ip. \<not> allows prefixed_net sample_manifest ip) (pl_targets install_plan) = None" by (simp add: find_None_iff)
    then show ?thesis by (simp add: evaluate_def is_expired_def Let_def sample_manifest_def sample_request_def)
  qed
  then show ?thesis
    using sample_plan_built [of "''key''"]
    by (simp add: requested_def sample_loads sample_request_of authorize_def sample_authorized_def)
       (simp add: sample_tools_def)
qed

definition sample_row :: "task_status \<Rightarrow> scan_row" where
  "sample_row status =
     \<lparr>r_scan_id = id_display crockford_encode ''scan'' 5, r_plan_hash = digest_display (sample_digest), r_idempotency_key = ''key'',
      r_scope_id = id_display crockford_encode ''scope'' 7, r_status = status_to_db status, r_request_json = ''{}'',
      r_estimated_targets = 2, r_estimated_probes = 4, r_packets_spent = 0, r_elapsed_seconds = 0, r_last_sequence = 0,
      r_created_at = ''t'', r_updated_at = ''t''\<rparr>"

lemma sample_inserted:
  "start_or_reuse crockford_encode crockford_decode True StoreOk (start_request_of sample_authorized ''{}'') 5 ''t'' empty_db empty_db empty_db =
     (Ret (Inr (Started 5)), \<lparr>db_scans = [sample_row TPending], db_units = []\<rparr>)"
proof -
  have "start_request_of sample_authorized ''{}'' =
     \<lparr>sq_idempotency_key = ''key'', sq_plan_hash = sample_digest, sq_scope_id = 7, sq_request_json = ''{}'',
      sq_estimated_targets = 2, sq_estimated_probes = 4\<rparr>"
    by (simp add: start_request_of_def sample_authorized_def sample_request_def install_plan_def estimated_targets_def
        estimated_probes_def plan_len_def)
  moreover have "new_row crockford_encode
     \<lparr>sq_idempotency_key = ''key'', sq_plan_hash = sample_digest, sq_scope_id = 7, sq_request_json = ''{}'',
      sq_estimated_targets = 2, sq_estimated_probes = 4\<rparr> 5 ''t'' = Inr (sample_row TPending)"
    by (simp add: new_row_def to_sql_def sample_row_def)
  ultimately show ?thesis
    by (simp add: start_or_reuse_def store_lookup_def Let_def empty_db_def insert_scan_def)
qed

lemma sample_running:
  "set_running sample_tools sample_outside 5 (sample_state\<lparr>tl_db := \<lparr>db_scans = [sample_row TPending], db_units = []\<rparr>\<rparr>) =
     (Inr (), sample_state\<lparr>tl_db := \<lparr>db_scans = [sample_row TRunning], db_units = []\<rparr>\<rparr>)"
  by (simp add: set_running_def sample_outside_def set_status_def sample_tools_def run_update_def update_scans_def
      sample_row_def)

lemma sample_opened: "\<exists>g f. gc_open sample_log_env 5 group_commit_config_default 0 empty_file = (Inr g, f)"
  by (simp add: gc_open_def log_open_without_durability_barrier_def open_with_durability_def empty_file_def Let_def
      scan_records_def, subst scan_loop.simps, simp)

lemma sample_admitted: "\<exists>out k X'. admit_into_store sample_tools sample_outside sample_authorized sample_state = (Ret (Inr (out, Some k)), X')"
proof -
  obtain g f where "gc_open sample_log_env 5 group_commit_config_default 0 empty_file = (Inr g, f)" using sample_opened by blast
  then obtain X where o: "open_log sample_tools sample_outside 5 (sample_state\<lparr>tl_db := \<lparr>db_scans = [sample_row TRunning], db_units = []\<rparr>\<rparr>) = (Inr g, X)"
    by (simp add: open_log_def sample_tools_def sample_outside_def sample_state_def)
  have f: "te_request_to_string sample_tools r = Inr ''{}''" "te_decode sample_tools = crockford_decode"
    "pe_encode (te_plan sample_tools) = crockford_encode" "tl_db sample_state = empty_db" for r
    by (simp_all add: sample_tools_def sample_state_def)
  have a: "ou_before_insert sample_outside = id" "ou_after_insert sample_outside = id" "ou_meanwhile sample_outside = id"
    "ou_scan_id sample_outside = 5" "ou_pk_first sample_outside = True" "ou_store_fault sample_outside = StoreOk"
    "ou_inserted_at sample_outside = ''t''"
    by (simp_all add: sample_outside_def)
  show ?thesis unfolding admit_into_store_def f a by (simp add: Let_def sample_inserted sample_running o)
qed

definition sample_call :: start_call where
  "sample_call = \<lparr>sc_input = Inr ([], sample_spec), sc_arguments = None, sc_client_info = None, sc_elicits = True,
     sc_request_state = Some ''t'', sc_responses = yes\<rparr>"

text \<open>A server that asks about anything wider than one target, and a caller that comes back with its approval.\<close>

definition sample_seal :: codec where
  "sample_seal = \<lparr>cd_seal = (\<lambda>p b ttl now. Inr ''t''),
     cd_open = (\<lambda>at s b. Inr \<lparr>pa_nonce = 0, pa_plan_hash = digest_display (sample_digest), pa_estimated_targets = 2, pa_threshold = 1\<rparr>)\<rparr>"

lemma sample_started:
  "\<exists>ans w g' X'. start_tool sample_tools sample_outside sample_seal now at 0 sample_call (gate_new 1 10) sample_state = (ans, Some w, g', X')"
proof -
  obtain out k X' where r: "admit_into_store sample_tools sample_outside sample_authorized sample_state = (Ret (Inr (out, Some k)), X')"
    using sample_admitted by blast
  have e: "estimated_targets sample_authorized = 2" "pl_hash (az_plan sample_authorized) = sample_digest"
    by (simp_all add: estimated_targets_def sample_authorized_def install_plan_def)
  have c: "consume 0 0 (gate_new 1 10) = (Inr (), snd (consume 0 0 (gate_new 1 10)))"
    by (simp add: consume_def Let_def gate_new_def retain_after_def)
  have d: "redeem sample_seal at 0 (Some ''t'') yes caller args (digest_display (sample_digest)) (gate_new 1 10) =
     (Inr \<lparr>pa_nonce = 0, pa_plan_hash = digest_display (sample_digest), pa_estimated_targets = 2, pa_threshold = 1\<rparr>,
      snd (consume 0 0 (gate_new 1 10)))" for caller args
    by (simp add: redeem_def sample_seal_def granted_yes, subst c, simp add: granted_yes)
  have n: "requires_approval (gate_new 1 10) 2" by (simp add: requires_approval_def gate_new_def)
  have s: "sc_input sample_call = Inr ([], sample_spec)" "sc_request_state sample_call = Some ''t''" "sc_responses sample_call = yes"
    by (simp_all add: sample_call_def)
  show ?thesis
    unfolding start_tool_def s sum.case prod.case sample_requested rust.case authorization.case e
    by (simp add: n approve_then_begin_def e s d begin_scan_def r)
qed

section \<open>Starting a scan\<close>

text \<open>
  C10: no scan starts unasked. Whatever a call of \<open>scan.start\<close> carries, it begins work or changes the state
  directory only if the manifest it names loads and approves the expanded plan at that moment, within the
  manifest's ceiling; and, when the plan is wider than the server's threshold, only if this very call
  redeemed an approval of that plan, for that caller and those arguments, with an explicit yes. Work that
  begins has the whole budget of the request, starts at the first unit and holds the log; an earlier
  request to stop is gone, if its marker could be removed.
\<close>

theorem nothing_starts_unapproved:
  assumes "start_tool T A C now at ms c g X = (ans, w, g', X')" "w \<noteq> None \<or> X' \<noteq> X"
  shows "\<exists>path spec a. sc_input c = Inr (path, spec) \<and> load_manifest T path = Inr (az_manifest a) \<and>
    into_request spec (sm_id (az_manifest a)) (sm_ceiling (az_manifest a)) = Inr (az_request a) \<and> authorized T now a \<and>
    (requires_approval g (estimated_targets a) \<longrightarrow> granted (sc_responses c) \<and>
       (\<exists>s p. sc_request_state c = Some s \<and> pa_plan_hash p = digest_display (pl_hash (az_plan a)) \<and>
          redeem C at ms (Some s) (sc_responses c) (caller_of c) (arguments_digest T (sc_arguments c))
            (digest_display (pl_hash (az_plan a))) g = (Inr p, g'))) \<and>
    (\<forall>k. w = Some k \<longrightarrow> wk_ledger k = ledger_new (sr_budgets (az_request a)) \<and> wk_from_index k = 0 \<and>
       lf_locked (tl_log X' (wk_scan_id k)) \<and> (tl_cancel X' (wk_scan_id k) \<longrightarrow> ou_clear_fails A))"
  using assms(1)
proof (cases rule: start_tool_cases)
  case kept
  then show ?thesis using assms(2) by blast
next
  case (free path spec a)
  have "w = Some k \<Longrightarrow> wk_ledger k = ledger_new (sr_budgets (az_request a)) \<and> wk_from_index k = 0 \<and>
       lf_locked (tl_log X' (wk_scan_id k)) \<and> (tl_cancel X' (wk_scan_id k) \<longrightarrow> ou_clear_fails A)" for k
    using free(4) by (auto dest: begin_scan_work)
  then show ?thesis using free(1,3) requested_approved [OF free(2)]
    by (intro exI [where x = path] exI [where x = spec] exI [where x = a]) simp
next
  case (asked path spec a s p g1)
  have same: "g1 = g'" using begin_scan_cases [OF asked(5)] by simp
  have "w = Some k \<Longrightarrow> wk_ledger k = ledger_new (sr_budgets (az_request a)) \<and> wk_from_index k = 0 \<and>
       lf_locked (tl_log X' (wk_scan_id k)) \<and> (tl_cancel X' (wk_scan_id k) \<longrightarrow> ou_clear_fails A)" for k
    using asked(5) by (auto dest: begin_scan_work)
  then show ?thesis using asked(1,3) asked(4) [unfolded same] requested_approved [OF asked(2)] redeem_accepted [OF asked(4)]
    by (intro exI [where x = path] exI [where x = spec] exI [where x = a]) (simp; blast)
qed

theorem nothing_starts_unapproved_witness:
  "\<exists>ans w g' X'. start_tool sample_tools sample_outside sample_seal [] 0 0 sample_call (gate_new 1 10) sample_state = (ans, Some w, g', X') \<and>
     lf_locked (tl_log X' (wk_scan_id w))"
proof -
  obtain ans w g' X' where *: "start_tool sample_tools sample_outside sample_seal [] 0 0 sample_call (gate_new 1 10) sample_state = (ans, Some w, g', X')"
    using sample_started by blast
  have "lf_locked (tl_log X' (wk_scan_id w))" using nothing_starts_unapproved [OF *] by auto
  with * show ?thesis by blast
qed

section \<open>Following a scan\<close>

text \<open>A caller that polls: the next page starts at the cursor of the one before. Each poll meets its own log.\<close>

fun poll :: "'n tools_env \<Rightarrow> u128 \<Rightarrow> u32 \<Rightarrow> u64 \<Rightarrow> (log_file \<times> log_file) list \<Rightarrow> tool_failure + event list \<times> u64" where
  "poll T sid limit c [] = Inr ([], c)"
| "poll T sid limit c ((f, f') # fs) =
     res_bind (events_page T sid c limit f f') (\<lambda>p.
     res_bind (poll T sid limit (eo_next_cursor p) fs) (\<lambda>(es, c'). Inr (eo_events p @ es, c')))"

text \<open>\<open>seen env x es\<close>: when the reader opens the log it holds \<open>es\<close> and perhaps a piece of a record, and when it reads, at least \<open>es\<close>.\<close>

definition seen :: "log_env \<Rightarrow> log_file \<times> log_file \<Rightarrow> event list \<Rightarrow> bool" where
  "seen env x es \<longleftrightarrow>
     (\<exists>t grown. lf_bytes (fst x) = Some (log_text env es @ t) \<and> newline \<notin> set t \<and> \<not> lf_refused (fst x) \<and>
        lf_bytes (snd x) = Some (log_text env es @ grown) \<and> \<not> lf_refused (snd x))"

lemma log_text_take: "length (log_text env (take k es)) \<le> length (log_text env es)"
  by (metis append_take_drop_id le_add1 length_append log_text_simps(2))

lemma page_of_log:
  assumes codec: "log_codec (te_log T) settle" and es: "writable (te_log T) es" "numbered 0 es" "length (log_text (te_log T) es) < 2 ^ 64"
    and limit: "0 < limit" "limit \<le> 1000" and s: "seen (te_log T) (f, f') (take k es)" and c: "c \<le> length es"
  defines "d \<equiv> min (unat limit) (min k (length es) - c)"
  shows "\<exists>more. events_page T sid (of_nat c) limit f f' =
    Inr \<lparr>eo_events = map (reread settle) (take d (drop c es)), eo_next_cursor = of_nat (c + d), eo_has_more = more\<rparr>"
proof -
  let ?env = "te_log T"
  have bound: "length es < 2 ^ 64" using log_codec.count_le_text [OF codec es(1)] es(3) by simp
  have pre: "writable ?env (take k es)" "numbered 0 (take k es)" "length (log_text ?env (take k es)) < 2 ^ 64"
    using es log_text_take [of ?env k es] numbered_append [of 0 "take k es" "drop k es"]
    by (auto simp: writable_def list_all_iff dest: in_set_takeD)
  obtain t grown where x: "lf_bytes f = Some (log_text ?env (take k es) @ t)" "newline \<notin> set t" "\<not> lf_refused f"
    "lf_bytes f' = Some (log_text ?env (take k es) @ grown)" "\<not> lf_refused f'" using s by (auto simp: seen_def)
  have u: "unat (of_nat c :: u64) = c" using c bound by (intro unat_of_nat_small) simp
  obtain r where r: "reader_open ?env sid f = Inr r"
    "reader_read_from ?env r f' (of_nat c) = Inr (map (reread settle) (drop c (take k es)))"
    using log_codec.reader_snapshot [OF codec x(1-3) pre x(4,5), of sid "of_nat c", unfolded u] by blast
  have page: "take (unat limit) (map (reread settle) (drop c (take k es))) = map (reread settle) (take d (drop c es))"
  proof -
    have "take (unat limit) (drop c (take k es)) = take d (drop c es)"
    proof -
      have "d = min (min (unat limit) (k - c)) (length (drop c es))" unfolding d_def length_drop by linarith
      moreover have "take (min a (length xs)) xs = take a xs" for a and xs :: "event list" by (cases "a \<le> length xs") simp_all
      ultimately show ?thesis by (simp only: drop_take take_take)
    qed
    then show ?thesis by (simp add: take_map)
  qed
  have cursor: "(if take d (drop c es) = [] then of_nat c else ev_sequence (last (map (reread settle) (take d (drop c es))))) = (of_nat (c + d) :: u64)"
  proof (cases "d = 0")
    case True
    then show ?thesis by simp
  next
    case False
    have d: "c + d \<le> length es" using False by (auto simp: d_def min_def split: if_splits)
    then have ne: "take d (drop c es) \<noteq> []" using False by simp
    have "last (take d (drop c es)) = es ! (c + d - 1)"
      using ne d False by (simp add: last_conv_nth)
    then show ?thesis using ne numbered_nth [OF es(2), of "c + d - 1"] d False by (simp add: last_map)
  qed
  have "\<not> limit > 1000" "limit \<noteq> 0" using limit by auto
  then show ?thesis
    unfolding events_page_def
    by (simp only: r sum.case page Let_def simp_thms if_False map_is_Nil_conv cursor) simp
qed

lemma poll_steps:
  assumes codec: "log_codec (te_log T) settle" and es: "writable (te_log T) es" "numbered 0 es" "length (log_text (te_log T) es) < 2 ^ 64"
    and limit: "0 < limit" "limit \<le> 1000" and s: "\<forall>x \<in> set fs. \<exists>k \<ge> j. seen (te_log T) x (take k es)" and c: "c \<le> length es"
  shows "\<exists>m. poll T sid limit (of_nat c) fs = Inr (map (reread settle) (take m (drop c es)), of_nat (c + m)) \<and>
    m \<le> length es - c \<and> min (min j (length es) - c) (length fs * unat limit) \<le> m"
  using s c
proof (induction fs arbitrary: c)
  case Nil
  then show ?case by (intro exI [where x = 0]) simp
next
  case (Cons x fs)
  obtain f f' where x: "x = (f, f')" by fastforce
  obtain k where k: "j \<le> k" "seen (te_log T) (f, f') (take k es)" using Cons.prems(1) x by auto
  define d where "d = min (unat limit) (min k (length es) - c)"
  obtain more where page: "events_page T sid (of_nat c) limit f f' =
    Inr \<lparr>eo_events = map (reread settle) (take d (drop c es)), eo_next_cursor = of_nat (c + d), eo_has_more = more\<rparr>"
    using page_of_log [OF codec es limit k(2) Cons.prems(2)] by (auto simp: d_def)
  have cd: "c + d \<le> length es" using Cons.prems(2) by (auto simp: d_def)
  obtain m where m: "poll T sid limit (of_nat (c + d)) fs = Inr (map (reread settle) (take m (drop (c + d) es)), of_nat (c + d + m))"
    "m \<le> length es - (c + d)" "min (min j (length es) - (c + d)) (length fs * unat limit) \<le> m"
    using Cons.IH [OF _ cd] Cons.prems(1) by auto
  have "poll T sid limit (of_nat c) (x # fs) = Inr (map (reread settle) (take (d + m) (drop c es)), of_nat (c + (d + m)))"
    using m(1) by (simp add: x page take_add add.commute add.left_commute)
  moreover have "d + m \<le> length es - c" using m(2) cd by simp
  moreover have "min (min j (length es) - c) (length (x # fs) * unat limit) \<le> d + m"
    using m(3) k(1) by (auto simp: d_def min_def split: if_splits)
  ultimately show ?case by blast
qed

text \<open>
  C15: following a scan loses nothing and repeats nothing. Whatever the page size, and however far the
  log has grown between polls and during each of them, the pages of a caller that passes each cursor on
  are, put together, the events after its first cursor, in order and each once; and polls that could each
  see the first \<open>j\<close> events deliver them as fast as the page size allows.
\<close>

theorem pages_are_the_log:
  assumes "log_codec (te_log T) settle" "writable (te_log T) es" "numbered 0 es" "length (log_text (te_log T) es) < 2 ^ 64"
    and "0 < limit" "limit \<le> 1000" "\<forall>x \<in> set fs. \<exists>k \<ge> j. seen (te_log T) x (take k es)" "c \<le> length es"
  shows "\<exists>m. poll T sid limit (of_nat c) fs = Inr (map (reread settle) (take m (drop c es)), of_nat (c + m)) \<and>
    m \<le> length es - c \<and> min (min j (length es) - c) (length fs * unat limit) \<le> m"
  using assms by (rule poll_steps)

lemma sample_full: "\<not> isl (env_write sample_log_env first_event)" "ev_sequence first_event = 1"
  unfolding first_event_text by (simp_all add: first_event_def)

theorem pages_are_the_log_witness:
  "\<exists>m. poll sample_tools 7 1 0
     [(empty_file\<lparr>lf_bytes := Some ''half''\<rparr>, empty_file\<lparr>lf_bytes := Some (log_text sample_log_env [first_event])\<rparr>),
      (empty_file\<lparr>lf_bytes := Some (log_text sample_log_env [first_event])\<rparr>,
       empty_file\<lparr>lf_bytes := Some (log_text sample_log_env [first_event])\<rparr>)] =
     Inr (map (reread id) (take m [first_event]), of_nat m) \<and> m \<le> 1"
proof -
  let ?half = "empty_file\<lparr>lf_bytes := Some ''half''\<rparr>" and ?full = "empty_file\<lparr>lf_bytes := Some (log_text sample_log_env [first_event])\<rparr>"
  have T: "te_log sample_tools = sample_log_env" by (simp add: sample_tools_def)
  have es: "writable sample_log_env [first_event]" "numbered 0 [first_event]" using sample_full by (simp_all add: writable_def)
  have "newline \<notin> set ''half''" by simp
  then have "seen sample_log_env (?half, ?full) (take 0 [first_event])" "seen sample_log_env (?full, ?full) (take 1 [first_event])"
    by (auto simp: seen_def empty_file_def)
  then have "\<exists>k \<ge> 0. seen sample_log_env (?half, ?full) (take k [first_event])" "\<exists>k \<ge> 0. seen sample_log_env (?full, ?full) (take k [first_event])"
    by (blast intro: le0)+
  then have "\<forall>x \<in> set [(?half, ?full), (?full, ?full)]. \<exists>k \<ge> 0. seen (te_log sample_tools) x (take k [first_event])"
    unfolding T by (simp only: set_simps ball_simps simp_thms)
  then show ?thesis
    using pages_are_the_log [of sample_tools id "[first_event]" 1 "[(?half, ?full), (?full, ?full)]" 0 0 7] es sample_codec first_event_short
    unfolding T by auto
qed

section \<open>Resuming and refusing\<close>

lemma resume_decided:
  assumes "resume_decision T path sid now d = Ret (Inr (rec, a, i))"
  shows "load_manifest T path = Inr (az_manifest a)" "authorized T now a" "record_for T sid d = Ret (Inr rec)"
    "te_request_from_str T (tr_request_json rec) = Inr (az_request a)" "pl_hash (az_plan a) = tr_plan_hash rec"
    "next_pending_unit (pe_encode (te_plan T)) sid (plan_len (az_plan a)) d = Inr i"
proof -
  obtain m where m: "load_manifest T path = Inr m" using assms by (cases "load_manifest T path") (auto simp: resume_decision_def)
  note run = assms [unfolded resume_decision_def m sum.case]
  obtain r where r: "record_for T sid d = Ret r" using run by (rule rust_bind_RetE)
  note run = run [unfolded r rust_bind.simps]
  obtain rec1 where rec1: "r = Inr rec1" using run by (cases r) auto
  note run = run [unfolded rec1 sum.case]
  obtain request where request: "te_request_from_str T (tr_request_json rec1) = Inr request"
    using run by (cases "te_request_from_str T (tr_request_json rec1)") auto
  note run = run [unfolded request sum.case]
  obtain decided where decided: "authorize T m request now = Ret decided" using run by (rule rust_bind_RetE)
  note run = run [unfolded decided rust_bind.simps rust.inject]
  obtain auth where auth: "decided = Inr auth" using run by (cases decided) auto
  obtain b where b: "auth = AuthorizationApproved b" using run by (cases auth) (auto simp: auth)
  note run = run [unfolded auth b sum.case authorization.case]
  have same: "pl_hash (az_plan b) = tr_plan_hash rec1" using run by (auto split: if_splits)
  have pending: "next_pending_unit (pe_encode (te_plan T)) sid (plan_len (az_plan b)) d = Inr i" "rec1 = rec" "b = a"
    using run same by (auto split: sum.splits)
  note ok = authorize_approved [OF decided [unfolded auth b]]
  show "load_manifest T path = Inr (az_manifest a)" "authorized T now a" "record_for T sid d = Ret (Inr rec)"
    "te_request_from_str T (tr_request_json rec) = Inr (az_request a)" "pl_hash (az_plan a) = tr_plan_hash rec"
    "next_pending_unit (pe_encode (te_plan T)) sid (plan_len (az_plan a)) d = Inr i"
    using m ok r rec1 request same pending by simp_all
qed

lemma running_row:
  assumes "set_running T A sid X = (Inr (), X')"
  shows "tl_log X' = tl_log X" "tl_cancel X' = tl_cancel X"
    "\<exists>r \<in> set (db_scans (tl_db X')). r_scan_id r = id_display (pe_encode (te_plan T)) ''scan'' sid \<and> r_status r = status_to_db TRunning"
proof -
  let ?key = "id_display (pe_encode (te_plan T)) ''scan'' sid"
  let ?set = "\<lambda>r. r\<lparr>r_status := status_to_db TRunning, r_updated_at := ou_started_at A\<rparr>"
  have *: "filter (\<lambda>r. r_scan_id r = ?key) (db_scans (tl_db X)) \<noteq> []"
    "X' = X\<lparr>tl_db := (tl_db X)\<lparr>db_scans := map (\<lambda>r. if r_scan_id r = ?key then ?set r else r) (db_scans (tl_db X))\<rparr>\<rparr>"
    using assms
    by (auto simp: set_running_def set_status_def run_update_def update_scans_def split: option.splits sum.splits prod.splits if_splits)
  then show "tl_log X' = tl_log X" "tl_cancel X' = tl_cancel X" by simp_all
  obtain r where r: "r \<in> set (db_scans (tl_db X))" "r_scan_id r = ?key" using *(1) by (auto simp: filter_empty_conv)
  have "?set r \<in> set (db_scans (tl_db X'))" using r by (force simp: *(2))
  then show "\<exists>r \<in> set (db_scans (tl_db X')). r_scan_id r = ?key \<and> r_status r = status_to_db TRunning"
    by (rule rev_bexI) (use r in simp)
qed

lemma running_codes: "set_running T A sid X = (Inl e, X') \<Longrightarrow> tf_error e \<noteq> ''log_unavailable''"
  by (auto simp: set_running_def store_failure_def split: option.splits sum.splits prod.splits store_error.splits)

lemma resume_facts:
  assumes "prepare_resume T A path sid now X = (Ret (Inr (out, Some (a, w))), X')"
  shows "load_manifest T path = Inr (az_manifest a) \<and> authorized T now a \<and>
    (\<exists>rec. record_for T sid (tl_db X) = Ret (Inr rec) \<and> te_request_from_str T (tr_request_json rec) = Inr (az_request a) \<and>
       pl_hash (az_plan a) = tr_plan_hash rec \<and>
       next_pending_unit (pe_encode (te_plan T)) sid (plan_len (az_plan a)) (tl_db X) = Inr (Some (wk_from_index w)) \<and>
       wk_ledger w = ledger_resumed (sr_budgets (az_request a)) (tr_packets_spent rec) (tr_elapsed_seconds rec)) \<and>
    wk_scan_id w = sid \<and> \<not> lf_locked (tl_log (ou_meanwhile A X) sid) \<and> lf_locked (tl_log X' sid) \<and> (tl_cancel X' sid \<longrightarrow> ou_clear_fails A)"
proof -
  note run = assms [unfolded prepare_resume_def]
  obtain res where res: "resume_decision T path sid now (tl_db X) = Ret res"
    using run by (cases "resume_decision T path sid now (tl_db X)") auto
  note run = run [unfolded res rust.case]
  obtain d where d: "res = Inr d" using run by (cases res) auto
  obtain rec b i where dd: "d = (rec, b, i)" by (cases d)
  note run = run [unfolded d dd sum.case prod.case]
  obtain index where i: "i = Some index" using run by (cases i) auto
  note run = run [unfolded i option.case]
  obtain o1 X1 where o1: "open_log T A sid (ou_meanwhile A X) = (o1, X1)" by fastforce
  note run = run [unfolded o1 prod.case]
  obtain g where g: "o1 = Inr g" using run by (cases o1) auto
  note run = run [unfolded g sum.case]
  obtain s1 X2 where s1: "set_running T A sid (clear_marker A sid X1) = (s1, X2)" by fastforce
  note run = run [unfolded s1 prod.case]
  obtain u where u: "s1 = Inr u" using run by (cases s1) auto
  note run = run [unfolded u sum.case prod.inject rust.inject sum.inject option.inject]
  have u': "set_running T A sid (clear_marker A sid X1) = (Inr (), X2)" using s1 u by (cases u) simp
  have ab: "a = b" "X' = X2" "wk_scan_id w = sid" "wk_from_index w = index"
    "wk_ledger w = ledger_resumed (sr_budgets (az_request b)) (tr_packets_spent rec) (tr_elapsed_seconds rec)"
    using run by auto
  note dec = resume_decided [OF res [unfolded d dd i]]
  have "\<not> lf_locked (tl_log (ou_meanwhile A X) sid)" "lf_locked (tl_log X' sid)" "(tl_cancel X' sid \<longrightarrow> ou_clear_fails A)"
    using open_log_opened(1,4) [OF o1 [unfolded g]] running_row(1,2) [OF u'] by (simp_all add: ab clear_marker_def)
  then show ?thesis using dec ab by simp
qed

lemma admit_refused:
  assumes "admit_into_store T A a X = (Ret (Inl e), X')" "tf_error e = ''log_unavailable''"
  shows "\<exists>d X1. set_running T A (ou_scan_id A) (X\<lparr>tl_db := d\<rparr>) = (Inr (), X1) \<and> open_log T A (ou_scan_id A) (ou_meanwhile A X1) = (Inl e, X')"
proof -
  note run = assms(1) [unfolded admit_into_store_def]
  obtain document where document: "te_request_to_string T (az_request a) = Inr document"
    using run assms(2) by (cases "te_request_to_string T (az_request a)") auto
  let ?d1 = "ou_before_insert A (tl_db X)"
  obtain res d where sr: "start_or_reuse (pe_encode (te_plan T)) (te_decode T) (ou_pk_first A) (ou_store_fault A)
      (start_request_of a document) (ou_scan_id A) (ou_inserted_at A) (tl_db X) ?d1 (ou_after_insert A ?d1) = (res, d)" by fastforce
  note run = run [unfolded document sum.case Let_def sr prod.case]
  have "\<exists>sid. res = Ret (Inr (Started sid))"
  proof (cases res)
    case Panic
    then show ?thesis using run by simp
  next
    case (Ret q)
    show ?thesis
    proof (cases q)
      case (Inl x)
      then show ?thesis using run assms(2) by (auto simp: Ret store_failure_def split: store_error.splits)
    next
      case (Inr y)
      then show ?thesis using run by (cases y) (auto simp: Ret)
    qed
  qed
  then obtain sid where res: "res = Ret (Inr (Started sid))" by blast
  then have sid: "sid = ou_scan_id A" using start_or_reuse_started sr by blast
  obtain s1 X1 where s1: "set_running T A sid (X\<lparr>tl_db := d\<rparr>) = (s1, X1)" by fastforce
  note run = run [unfolded res rust.case sum.case start_outcome.case s1 prod.case]
  obtain u where u: "s1 = Inr u" using run assms(2) s1 by (cases s1) (auto dest: running_codes)
  note run = run [unfolded u sum.case]
  obtain o1 X2 where o1: "open_log T A sid (ou_meanwhile A X1) = (o1, X2)" by fastforce
  note run = run [unfolded o1 prod.case]
  have "o1 = Inl e" "X2 = X'" using run by (cases o1; simp)+
  then show ?thesis using s1 o1 u by (cases u) (auto simp: sid)
qed

lemma load_codes: "load_manifest T path = Inl e \<Longrightarrow> tf_error e \<noteq> ''log_unavailable''"
  by (auto simp: load_manifest_def split: sum.splits)

lemma record_codes: "record_for T sid d = Ret (Inl e) \<Longrightarrow> tf_error e \<noteq> ''log_unavailable''"
  by (auto simp: record_for_def no_such_scan_def store_failure_def split: sum.splits option.splits store_error.splits elim!: rust_bind_RetE)

lemma authorize_codes:
  assumes "authorize T m r now = Ret x"
  shows "x = Inl e \<Longrightarrow> tf_error e \<noteq> ''log_unavailable''" "x = Inr (AuthorizationDenied code detail plan) \<Longrightarrow> code \<noteq> ''log_unavailable''"
proof -
  have code: "deny_code reason \<noteq> ''log_unavailable''" for reason by (cases reason) simp_all
  show "x = Inl e \<Longrightarrow> tf_error e \<noteq> ''log_unavailable''" "x = Inr (AuthorizationDenied code detail plan) \<Longrightarrow> code \<noteq> ''log_unavailable''"
    using assms code by (auto simp: authorize_def split: sum.splits policy_decision.splits elim!: rust_bind_RetE)
qed

lemma decision_codes:
  assumes "resume_decision T path sid now d = Ret (Inl e)"
  shows "tf_error e \<noteq> ''log_unavailable''"
proof (cases "load_manifest T path")
  case (Inl x)
  then show ?thesis using assms load_codes by (auto simp: resume_decision_def)
next
  case (Inr m)
  note run = assms [unfolded resume_decision_def Inr sum.case]
  obtain r where r: "record_for T sid d = Ret r" using run by (rule rust_bind_RetE)
  note run = run [unfolded r rust_bind.simps]
  show ?thesis
  proof (cases r)
    case (Inl x)
    then show ?thesis using run r record_codes by auto
  next
    case rec1: (Inr rec1)
    note run = run [unfolded rec1 sum.case]
    show ?thesis
    proof (cases "te_request_from_str T (tr_request_json rec1)")
      case (Inl x)
      then show ?thesis using run by auto
    next
      case (Inr request)
      note run = run [unfolded Inr sum.case]
      obtain decided where decided: "authorize T m request now = Ret decided" using run by (rule rust_bind_RetE)
      note run = run [unfolded decided rust_bind.simps rust.inject]
      show ?thesis
      proof (cases decided)
        case (Inl x)
        then show ?thesis using run authorize_codes(1) [OF decided] by auto
      next
        case (Inr auth)
        then show ?thesis using run authorize_codes(2) [OF decided]
          by (cases auth) (auto simp: plan_mismatch_def store_failure_def split: if_splits sum.splits store_error.splits)
      qed
    qed
  qed
qed

lemma resume_refused:
  assumes "prepare_resume T A path sid now X = (Ret (Inl e), X')" "tf_error e = ''log_unavailable''"
  shows "open_log T A sid (ou_meanwhile A X) = (Inl e, X')"
proof -
  note run = assms(1) [unfolded prepare_resume_def]
  obtain res where res: "resume_decision T path sid now (tl_db X) = Ret res"
    using run by (cases "resume_decision T path sid now (tl_db X)") auto
  note run = run [unfolded res rust.case]
  obtain d where d: "res = Inr d" using run res assms(2) by (cases res) (auto dest: decision_codes)
  obtain rec b i where dd: "d = (rec, b, i)" by (cases d)
  note run = run [unfolded d dd sum.case prod.case]
  obtain index where i: "i = Some index" using run by (cases i) auto
  note run = run [unfolded i option.case]
  obtain o1 X1 where o1: "open_log T A sid (ou_meanwhile A X) = (o1, X1)" by fastforce
  note run = run [unfolded o1 prod.case]
  obtain s1 X2 where s1: "set_running T A sid (clear_marker A sid X1) = (s1, X2)" by fastforce
  have "tf_error x \<noteq> ''log_unavailable''" if "s1 = Inl x" for x using s1 that running_codes by blast
  then show ?thesis using run assms(2) o1 by (cases o1; cases s1) (auto simp: s1)
qed

lemma start_refused:
  assumes "admit_into_store T A a X = (Ret (Inl e), X')" "tf_error e = ''log_unavailable''"
  shows "\<exists>X1. (\<exists>r \<in> set (db_scans (tl_db X1)). r_scan_id r = id_display (pe_encode (te_plan T)) ''scan'' (ou_scan_id A) \<and>
      r_status r = status_to_db TRunning) \<and>
    tl_db X' = tl_db (ou_meanwhile A X1) \<and> tl_cancel X' = tl_cancel (ou_meanwhile A X1)"
proof -
  obtain d X1 where *: "set_running T A (ou_scan_id A) (X\<lparr>tl_db := d\<rparr>) = (Inr (), X1)"
    "open_log T A (ou_scan_id A) (ou_meanwhile A X1) = (Inl e, X')" using admit_refused [OF assms] by blast
  show ?thesis using running_row(3) [OF *(1)] open_log_refused(2,3) [OF *(2)] by (intro exI [where x = X1] conjI)
qed

text \<open>
  C14: a resume is decided afresh. A scan is taken up again only if a manifest loads now and approves, now,
  the request the scan was stored with, and that request expands to the very plan the scan was started
  against; the work left is the first unit without a result, the budget is what the stored counters leave of
  it, the log was free and is held, and no earlier request to stop remains that could be removed. Counters and cursor are those
  of the moment of the decision: what another run records between it and the taking of the lock is not seen.
\<close>

theorem resume_is_decided_afresh:
  assumes "prepare_resume T A path sid now X = (Ret (Inr (out, Some (a, w))), X')"
  shows "load_manifest T path = Inr (az_manifest a) \<and> authorized T now a \<and>
    (\<exists>rec. record_for T sid (tl_db X) = Ret (Inr rec) \<and> te_request_from_str T (tr_request_json rec) = Inr (az_request a) \<and>
       pl_hash (az_plan a) = tr_plan_hash rec \<and>
       next_pending_unit (pe_encode (te_plan T)) sid (plan_len (az_plan a)) (tl_db X) = Inr (Some (wk_from_index w)) \<and>
       wk_ledger w = ledger_resumed (sr_budgets (az_request a)) (tr_packets_spent rec) (tr_elapsed_seconds rec)) \<and>
    wk_scan_id w = sid \<and> \<not> lf_locked (tl_log (ou_meanwhile A X) sid) \<and> lf_locked (tl_log X' sid) \<and> (tl_cancel X' sid \<longrightarrow> ou_clear_fails A)"
  using assms by (rule resume_facts)

lemma sample_stored_record:
  "\<exists>rec. record_for sample_tools 5 \<lparr>db_scans = [sample_row TRunning], db_units = []\<rparr> = Ret (Inr rec) \<and> tr_plan_hash rec = sample_digest"
proof -
  have "digest_from_str (digest_display sample_digest) = Inr sample_digest"
    by (simp add: digest_from_str_iff digest_wf_def sample_digest_def)
  moreover have "id_from_str crockford_decode ''scan'' (id_display crockford_encode ''scan'' 5) = Inr 5"
    "id_from_str crockford_decode ''scope'' (id_display crockford_encode ''scope'' 7) = Inr 7"
    by (simp_all add: ulid.id_from_str_exact)
  ultimately have "\<exists>rec. row_to_record crockford_decode (sample_row TRunning) = Ret (Inr rec) \<and> tr_plan_hash rec = sample_digest"
    by (simp add: row_to_record_def sample_row_def status_from_db_def from_sql_def)
  then show ?thesis
    by (auto simp: record_for_def store_get_def sample_tools_def sample_row_def)
qed

theorem resume_is_decided_afresh_witness:
  "\<exists>out a w X'. prepare_resume sample_tools sample_outside [] 5 []
      (sample_state\<lparr>tl_db := \<lparr>db_scans = [sample_row TRunning], db_units = []\<rparr>\<rparr>) = (Ret (Inr (out, Some (a, w))), X') \<and>
     wk_from_index w = 0 \<and> lf_locked (tl_log X' 5)"
proof -
  let ?d = "\<lparr>db_scans = [sample_row TRunning], db_units = []\<rparr>" and ?X = "sample_state\<lparr>tl_db := \<lparr>db_scans = [sample_row TRunning], db_units = []\<rparr>\<rparr>"
  obtain rec where rec: "record_for sample_tools 5 ?d = Ret (Inr rec)" "tr_plan_hash rec = sample_digest" using sample_stored_record by blast
  have az: "authorize sample_tools sample_manifest (sample_request ''key'') [] = Ret (Inr (AuthorizationApproved sample_authorized))"
    using sample_requested [of "[]"] by (simp add: requested_def sample_loads sample_request_of)
  have next0: "next_pending_unit crockford_encode 5 (plan_len install_plan) ?d = Inr (Some 0)"
    by (simp add: next_pending_unit_def completed_units_def plan_len_def install_plan_def pending_loop.simps)
  have dec: "resume_decision sample_tools [] 5 [] ?d = Ret (Inr (rec, sample_authorized, Some 0))"
    using az next0 unfolding resume_decision_def sample_loads sum.case rec rust_bind.simps
    by (simp add: sample_tools_def sample_authorized_def rec install_plan_def)
  obtain g f where "gc_open sample_log_env 5 group_commit_config_default 0 empty_file = (Inr g, f)" using sample_opened by blast
  then have o: "open_log sample_tools sample_outside 5 ?X = (Inr g, ?X\<lparr>tl_log := (tl_log ?X)(5 := f)\<rparr>)"
    by (simp add: open_log_def sample_tools_def sample_outside_def sample_state_def)
  have s: "\<exists>X2. set_running sample_tools sample_outside 5 (clear_marker sample_outside 5 (?X\<lparr>tl_log := (tl_log ?X)(5 := f)\<rparr>)) = (Inr (), X2)"
    by (simp add: clear_marker_def set_running_def sample_outside_def set_status_def sample_tools_def run_update_def update_scans_def
      sample_row_def)
  obtain out w X' where run: "prepare_resume sample_tools sample_outside [] 5 [] ?X = (Ret (Inr (out, Some (sample_authorized, w))), X')"
    using s o dec by (auto simp: prepare_resume_def sample_outside_def)
  show ?thesis using resume_is_decided_afresh [OF run] run next0 by (auto simp: sample_tools_def sample_authorized_def)
qed

text \<open>
  C35: a refusal at the log. A resume that finds the log taken leaves the database and every marker as it found
  them. A start does not: the row it inserted has already been written as running, and stays so, with
  nobody running it.
\<close>

theorem a_taken_log_refuses:
  assumes "tf_error e = ''log_unavailable''"
  shows "(prepare_resume T A path sid now X = (Ret (Inl e), X') \<longrightarrow>
      tl_db X' = tl_db (ou_meanwhile A X) \<and> tl_cancel X' = tl_cancel (ou_meanwhile A X)) \<and>
    (admit_into_store T A a X = (Ret (Inl e), X') \<longrightarrow>
      (\<exists>X1. (\<exists>r \<in> set (db_scans (tl_db X1)). r_scan_id r = id_display (pe_encode (te_plan T)) ''scan'' (ou_scan_id A) \<and>
           r_status r = status_to_db TRunning) \<and>
         tl_db X' = tl_db (ou_meanwhile A X1) \<and> tl_cancel X' = tl_cancel (ou_meanwhile A X1)))"
proof (intro conjI impI)
  assume "prepare_resume T A path sid now X = (Ret (Inl e), X')"
  from open_log_refused(2,3) [OF resume_refused [OF this assms]]
  show "tl_db X' = tl_db (ou_meanwhile A X)" "tl_cancel X' = tl_cancel (ou_meanwhile A X)" .
next
  assume "admit_into_store T A a X = (Ret (Inl e), X')"
  then show "\<exists>X1. (\<exists>r \<in> set (db_scans (tl_db X1)). r_scan_id r = id_display (pe_encode (te_plan T)) ''scan'' (ou_scan_id A) \<and>
           r_status r = status_to_db TRunning) \<and>
         tl_db X' = tl_db (ou_meanwhile A X1) \<and> tl_cancel X' = tl_cancel (ou_meanwhile A X1)"
    using assms by (rule start_refused)
qed

text \<open>Another process takes the log between the insertion of the row and the opening of the log.\<close>

definition sample_rival :: outside where
  "sample_rival = sample_outside\<lparr>ou_meanwhile := (\<lambda>X. X\<lparr>tl_log := (tl_log X)(5 := (tl_log X 5)\<lparr>lf_locked := True\<rparr>)\<rparr>)\<rparr>"

theorem a_taken_log_refuses_witness:
  "\<exists>e X'. admit_into_store sample_tools sample_rival sample_authorized sample_state = (Ret (Inl e), X') \<and>
     tf_error e = ''log_unavailable'' \<and> (\<exists>r \<in> set (db_scans (tl_db X')). r_status r = status_to_db TRunning)"
proof -
  let ?X1 = "sample_state\<lparr>tl_db := \<lparr>db_scans = [sample_row TRunning], db_units = []\<rparr>\<rparr>"
  have f: "te_request_to_string sample_tools r = Inr ''{}''" "te_decode sample_tools = crockford_decode"
    "pe_encode (te_plan sample_tools) = crockford_encode" "tl_db sample_state = empty_db" for r
    by (simp_all add: sample_tools_def sample_state_def)
  have a: "ou_before_insert sample_rival = id" "ou_after_insert sample_rival = id"
    "ou_scan_id sample_rival = 5" "ou_pk_first sample_rival = True" "ou_store_fault sample_rival = StoreOk"
    "ou_inserted_at sample_rival = ''t''"
    by (simp_all add: sample_rival_def sample_outside_def)
  have "set_running sample_tools sample_rival = set_running sample_tools sample_outside"
    by (intro ext) (simp add: set_running_def sample_rival_def sample_outside_def)
  note r = sample_running [folded this]
  obtain e X' where o: "open_log sample_tools sample_rival 5 (ou_meanwhile sample_rival ?X1) = (Inl e, X')" "tf_error e = ''log_unavailable''"
    by (simp add: open_log_def sample_rival_def sample_outside_def sample_state_def empty_file_def gc_open_def
        log_open_without_durability_barrier_def open_with_durability_def Let_def)
  have run: "admit_into_store sample_tools sample_rival sample_authorized sample_state = (Ret (Inl e), X')"
    unfolding admit_into_store_def f a by (simp add: Let_def sample_inserted r o)
  obtain X1 where X1: "\<exists>r \<in> set (db_scans (tl_db X1)). r_status r = status_to_db TRunning" "tl_db X' = tl_db (ou_meanwhile sample_rival X1)"
    using a_taken_log_refuses [OF o(2), of sample_tools sample_rival "[]" 5 "[]" sample_state X' sample_authorized] run by blast
  then show ?thesis using run o(2) by (auto simp: sample_rival_def)
qed

end
